(* ===== verification/Prelude.thy ===== *)
theory Prelude
  imports Main "HOL-Library.Word" "HOL-Library.Multiset" "HOL-Library.Signed_Division"
begin

text \<open>
  Shared vocabulary of the development: the failures a C++ execution can end in, the result
  type that carries them, the loops and containers of the standard library that the sources
  use, and the generic lemmas on them. \<open>res_simps\<close> collects the equations that evaluate
  results, \<open>um_simps\<close> those of the hash maps.
\<close>

unbundle bit_operations_syntax

named_theorems res_simps \<open>evaluation of results and of the loops over them\<close>
named_theorems um_simps \<open>look-up and update of associative containers\<close>

section \<open>Failures and results\<close>

text \<open>
  Every way an operation of the program can fail to return: undefined behaviour, a failed
  \<open>assert\<close>, an exception, by its type and, for the program's own exceptions, its text, or
  a receive that waits for a message that is not there.
\<close>

datatype cpp_error =
    UndefinedBehaviour
  | AssertionFailed
  | OutOfRange
  | BadVariantAccess
  | BadOptionalAccess
  | InvalidArgument string
  | LogicError string
  | DomainError string
  | JsonParseError
  | JsonTypeError
  | JsonOutOfRange
  | JsonInvalidIterator
  | NotADag
  | SqlException
  | Blocked
  | ZmqError int
  | RuntimeError string
  | RangeError string
  | SystemError
  | OverflowError

type_synonym 'a res = "cpp_error + 'a"

definition bindE :: "'a res \<Rightarrow> ('a \<Rightarrow> 'b res) \<Rightarrow> 'b res" where
  "bindE m f = (case m of Inl e \<Rightarrow> Inl e | Inr x \<Rightarrow> f x)"

lemma bindE_Inl [simp, res_simps]: "bindE (Inl e) f = Inl e"
  by (simp add: bindE_def)

lemma bindE_Inr [simp, res_simps]: "bindE (Inr x) f = f x"
  by (simp add: bindE_def)

lemma bindE_eq_Inr: "bindE m f = Inr y \<longleftrightarrow> (\<exists>x. m = Inr x \<and> f x = Inr y)"
  by (cases m) auto

lemma bindE_eq_Inl: "bindE m f = Inl e \<longleftrightarrow> m = Inl e \<or> (\<exists>x. m = Inr x \<and> f x = Inl e)"
  by (cases m) auto

lemma bindE_assoc: "bindE (bindE m f) g = bindE m (\<lambda>x. bindE (f x) g)"
  by (cases m) auto

lemma bindE_cong [fundef_cong]:
  "m = m' \<Longrightarrow> (\<And>x. m' = Inr x \<Longrightarrow> f x = f' x) \<Longrightarrow> bindE m f = bindE m' f'"
  by (cases m') auto

text \<open>A range-based \<open>for\<close> whose body updates a state, and a loop that fills a vector.\<close>

fun foldE :: "('a \<Rightarrow> 's \<Rightarrow> 's res) \<Rightarrow> 'a list \<Rightarrow> 's \<Rightarrow> 's res" where
  "foldE f [] s = Inr s"
| "foldE f (x # xs) s = bindE (f x s) (foldE f xs)"

fun mapE :: "('a \<Rightarrow> 'b res) \<Rightarrow> 'a list \<Rightarrow> 'b list res" where
  "mapE f [] = Inr []"
| "mapE f (x # xs) = bindE (f x) (\<lambda>y. bindE (mapE f xs) (\<lambda>ys. Inr (y # ys)))"

lemma bindE_foldE_Nil [simp]: "bindE m (foldE f []) = m" "bindE m Inr = m"
  by (cases m; simp)+

lemma foldE_append: "foldE f (xs @ ys) s = bindE (foldE f xs s) (foldE f ys)"
  by (induction xs arbitrary: s) (auto simp: bindE_assoc intro: bindE_cong)

lemma foldE_total:
  assumes "\<And>x s. x \<in> set xs \<Longrightarrow> P s \<Longrightarrow> \<exists>s'. f x s = Inr s' \<and> P s'" and "P s"
  shows "\<exists>s'. foldE f xs s = Inr s' \<and> P s'"
  using assms
proof (induction xs arbitrary: s)
  case (Cons x xs)
  then obtain s' where "f x s = Inr s'" "P s'" by force
  with Cons show ?case by auto
qed simp

lemma foldE_invariant:
  assumes "foldE f xs s = Inr s'" and "P s"
    and "\<And>x s s'. x \<in> set xs \<Longrightarrow> P s \<Longrightarrow> f x s = Inr s' \<Longrightarrow> P s'"
  shows "P s'"
  using assms
proof (induction xs arbitrary: s)
  case (Cons x xs)
  from Cons.prems(1) obtain t where t: "f x s = Inr t" "foldE f xs t = Inr s'"
    by (auto simp: bindE_eq_Inr)
  from Cons.prems(2,3) t(1) have "P t" by force
  with Cons t(2) show ?case by (metis list.set_intros(2))
qed simp

lemma foldE_cong [fundef_cong]:
  "xs = ys \<Longrightarrow> s = t \<Longrightarrow> (\<And>x s. x \<in> set ys \<Longrightarrow> f x s = g x s) \<Longrightarrow> foldE f xs s = foldE g ys t"
proof (induction ys arbitrary: xs s t)
  case (Cons y ys)
  then show ?case by (auto intro!: bindE_cong)
qed simp

lemma mapE_eq_Inr_iff:
  "mapE f xs = Inr ys \<longleftrightarrow> list_all2 (\<lambda>x y. f x = Inr y) xs ys"
  by (induction xs arbitrary: ys) (auto simp: bindE_eq_Inr list_all2_Cons1)

lemma mapE_total: "(\<And>x. x \<in> set xs \<Longrightarrow> f x = Inr (g x)) \<Longrightarrow> mapE f xs = Inr (map g xs)"
  by (induction xs) auto

lemma mapE_map: "mapE f (map g xs) = mapE (\<lambda>x. f (g x)) xs"
  by (induction xs) simp_all

lemma mapE_length: "mapE f xs = Inr ys \<Longrightarrow> length ys = length xs"
  by (auto simp: mapE_eq_Inr_iff dest: list_all2_lengthD)

lemma mapE_nth: "mapE f xs = Inr ys \<Longrightarrow> i < length xs \<Longrightarrow> f (xs ! i) = Inr (ys ! i)"
  by (auto simp: mapE_eq_Inr_iff dest: list_all2_nthD)

lemma mapE_cong [fundef_cong]:
  "xs = ys \<Longrightarrow> (\<And>x. x \<in> set ys \<Longrightarrow> f x = g x) \<Longrightarrow> mapE f xs = mapE g ys"
proof (induction ys arbitrary: xs)
  case (Cons y ys)
  then show ?case by (auto intro!: bindE_cong)
qed simp

section \<open>Machine integers\<close>

text \<open>
  \<open>int\<close> is 32 bits, \<open>size_t\<close> 64. Signed overflow is undefined behaviour, so a signed result
  is checked against the range; unsigned arithmetic is that of words.
\<close>

type_synonym u32 = "32 word"
type_synonym size_t = "64 word"

definition in_int :: "int \<Rightarrow> bool" where
  "in_int x \<longleftrightarrow> - 2147483648 \<le> x \<and> x \<le> 2147483647"

definition chk :: "int \<Rightarrow> int res" where
  "chk x = (if in_int x then Inr x else Inl UndefinedBehaviour)"

lemma chk_eq_Inr [simp]: "chk x = Inr y \<longleftrightarrow> in_int x \<and> y = x"
  by (auto simp: chk_def)

lemma chk_in_int: "in_int x \<Longrightarrow> chk x = Inr x"
  by (simp add: chk_def)

lemma in_int_sint: "in_int (sint (w :: u32))"
  using sint_ge [of w] sint_lt [of w] by (simp add: in_int_def)

section \<open>Positions in a list\<close>

definition index_of :: "'a list \<Rightarrow> 'a \<Rightarrow> nat" where
  "index_of xs x = length (takeWhile (\<lambda>y. y \<noteq> x) xs)"

lemma index_of_less: "x \<in> set xs \<Longrightarrow> index_of xs x < length xs"
  by (induction xs) (auto simp: index_of_def)

lemma nth_index_of: "x \<in> set xs \<Longrightarrow> xs ! index_of xs x = x"
  by (induction xs) (auto simp: index_of_def)

lemma index_of_nth: "distinct xs \<Longrightarrow> i < length xs \<Longrightarrow> index_of xs (xs ! i) = i"
  by (metis index_of_less nth_eq_iff_index_eq nth_index_of nth_mem)

lemma index_of_not_in: "x \<notin> set xs \<Longrightarrow> index_of xs x = length xs"
  by (induction xs) (auto simp: index_of_def)

lemma index_of_eq_length_iff [simp]: "index_of xs x = length xs \<longleftrightarrow> x \<notin> set xs"
  using index_of_less index_of_not_in by (metis nat_neq_iff)

section \<open>Associative containers\<close>

text \<open>
  \<open>std::unordered_map\<close> as the list of its entries: keys are distinct, the order of the list
  is one the container may iterate in. \<open>std::map\<close> is the same with the keys in ascending
  order.
\<close>

type_synonym ('k, 'v) umap = "('k \<times> 'v) list"

definition um_keys :: "('k, 'v) umap \<Rightarrow> 'k list" where
  "um_keys m = map fst m"

definition um_ok :: "('k, 'v) umap \<Rightarrow> bool" where
  "um_ok m \<longleftrightarrow> distinct (um_keys m)"

definition um_contains :: "('k, 'v) umap \<Rightarrow> 'k \<Rightarrow> bool" where
  "um_contains m k \<longleftrightarrow> map_of m k \<noteq> None"

definition um_at :: "('k, 'v) umap \<Rightarrow> 'k \<Rightarrow> 'v res" where
  "um_at m k = (case map_of m k of None \<Rightarrow> Inl OutOfRange | Some v \<Rightarrow> Inr v)"

definition um_emplace :: "'k \<Rightarrow> 'v \<Rightarrow> ('k, 'v) umap \<Rightarrow> ('k, 'v) umap" where
  "um_emplace k v m = (if um_contains m k then m else m @ [(k, v)])"

fun um_put :: "'k \<Rightarrow> 'v \<Rightarrow> ('k, 'v) umap \<Rightarrow> ('k, 'v) umap" where
  "um_put k v [] = [(k, v)]"
| "um_put k v ((k', v') # m) = (if k' = k then (k, v) # m else (k', v') # um_put k v m)"

definition um_erase :: "'k \<Rightarrow> ('k, 'v) umap \<Rightarrow> ('k, 'v) umap" where
  "um_erase k m = filter (\<lambda>(k', v). k' \<noteq> k) m"

fun om_emplace :: "'k::linorder \<Rightarrow> 'v \<Rightarrow> ('k, 'v) umap \<Rightarrow> ('k, 'v) umap" where
  "om_emplace k v [] = [(k, v)]"
| "om_emplace k v ((k', v') # m) =
     (if k < k' then (k, v) # (k', v') # m
      else if k = k' then (k', v') # m
      else (k', v') # om_emplace k v m)"

lemma um_keys_simps [simp]:
  "um_keys [] = []" "um_keys (e # m) = fst e # um_keys m" "um_keys (m @ m') = um_keys m @ um_keys m'"
  by (simp_all add: um_keys_def)

lemma um_contains_iff: "um_contains m k \<longleftrightarrow> k \<in> set (um_keys m)"
  by (auto simp: um_contains_def um_keys_def dom_map_of_conv_image_fst [symmetric])

lemma um_at_eq_Inr [simp]: "um_at m k = Inr v \<longleftrightarrow> map_of m k = Some v"
  by (auto simp: um_at_def split: option.splits)

lemma um_at_eq_Inl: "um_at m k = Inl e \<longleftrightarrow> map_of m k = None \<and> e = OutOfRange"
  by (auto simp: um_at_def split: option.splits)

lemma map_of_um_put [um_simps]: "map_of (um_put k v m) = (map_of m)(k \<mapsto> v)"
  by (induction m) (auto simp: fun_eq_iff)

lemma map_of_um_emplace [um_simps]:
  "map_of (um_emplace k v m) = (if map_of m k = None then (map_of m)(k \<mapsto> v) else map_of m)"
  by (auto simp: um_emplace_def um_contains_def map_add_def fun_eq_iff split: option.splits)

lemma map_of_um_erase [um_simps]: "map_of (um_erase k m) = (map_of m)(k := None)"
  by (induction m) (auto simp: um_erase_def fun_eq_iff)

lemma um_put_twice [simp]: "um_put k v (um_put k v' m) = um_put k v m"
  by (induction m) auto

lemma um_put_same: "map_of m k = Some v \<Longrightarrow> um_put k v m = m"
  by (induction m) (auto split: if_splits)

lemma um_keys_put: "set (um_keys (um_put k v m)) = insert k (set (um_keys m))"
  by (induction k v m rule: um_put.induct) (simp_all add: insert_commute)

lemma um_keys_put_present: "k \<in> set (um_keys m) \<Longrightarrow> um_keys (um_put k v m) = um_keys m"
  by (induction k v m rule: um_put.induct) auto

lemma um_ok_Nil [simp]: "um_ok []"
  by (simp add: um_ok_def um_keys_def)

lemma um_ok_put [simp]: "um_ok m \<Longrightarrow> um_ok (um_put k v m)"
proof (induction m)
  case (Cons e m)
  then show ?case using um_keys_put [of k v m] by (cases e) (auto simp: um_ok_def)
qed (simp add: um_ok_def)

lemma um_ok_emplace [simp]: "um_ok m \<Longrightarrow> um_ok (um_emplace k v m)"
  by (auto simp: um_ok_def um_emplace_def um_contains_iff um_keys_def)

lemma um_ok_erase [simp]: "um_ok m \<Longrightarrow> um_ok (um_erase k m)"
  by (auto simp: um_ok_def um_erase_def um_keys_def distinct_map inj_on_def)

lemma map_of_in_set: "um_ok m \<Longrightarrow> map_of m k = Some v \<longleftrightarrow> (k, v) \<in> set m"
  by (simp add: um_ok_def um_keys_def)

lemma om_keys_emplace: "set (um_keys (om_emplace k v m)) = insert k (set (um_keys m))"
  by (induction k v m rule: om_emplace.induct) (simp_all add: insert_commute)

lemma sorted_om_emplace:
  "sorted (um_keys m) \<Longrightarrow> distinct (um_keys m) \<Longrightarrow>
   sorted (um_keys (om_emplace k v m)) \<and> distinct (um_keys (om_emplace k v m))"
proof (induction m)
  case (Cons e m)
  then show ?case using om_keys_emplace [of k v m]
    by (cases e) fastforce
qed simp

lemma map_of_om_emplace [um_simps]:
  "sorted (um_keys m) \<Longrightarrow> distinct (um_keys m) \<Longrightarrow>
   map_of (om_emplace k v m) = (if map_of m k = None then (map_of m)(k \<mapsto> v) else map_of m)"
proof (induction m)
  case (Cons e m)
  show ?case
  proof (cases e)
    case (Pair k' v')
    have "k < k' \<Longrightarrow> map_of m k = None"
      using Cons.prems Pair by (force simp: um_keys_def map_of_eq_None_iff)
    with Cons Pair show ?thesis by (auto simp: um_keys_def fun_eq_iff)
  qed
qed (simp add: fun_eq_iff)

text \<open>
  Where the order of iteration over a hash map matters, it is a parameter: some rearrangement of
  the entries.
\<close>

definition iteration_ok :: "('a list \<Rightarrow> 'a list) \<Rightarrow> bool" where
  "iteration_ok order \<longleftrightarrow> (\<forall>m. mset (order m) = mset m)"

lemma iteration_ok_id: "iteration_ok (\<lambda>m. m)"
  by (simp add: iteration_ok_def)

lemma iteration_set: "iteration_ok order \<Longrightarrow> set (order m) = set m"
  by (metis iteration_ok_def set_mset_mset)

lemma iteration_keys: "iteration_ok order \<Longrightarrow> um_ok m \<Longrightarrow> um_ok (order m)"
  unfolding um_ok_def um_keys_def iteration_ok_def
  by (metis mset_eq_imp_distinct_iff mset_map)

section \<open>Queues\<close>

text \<open>
  \<open>std::queue\<close>: elements enter at the back and leave at the front; \<open>front\<close>, \<open>back\<close> and
  \<open>pop\<close> of an empty queue are undefined.
\<close>

definition queue_push :: "'a \<Rightarrow> 'a list \<Rightarrow> 'a list" where
  "queue_push x q = q @ [x]"

definition queue_front :: "'a list \<Rightarrow> 'a res" where
  "queue_front q = (case q of [] \<Rightarrow> Inl UndefinedBehaviour | x # _ \<Rightarrow> Inr x)"

definition queue_back :: "'a list \<Rightarrow> 'a res" where
  "queue_back q = (if q = [] then Inl UndefinedBehaviour else Inr (last q))"

definition queue_pop :: "'a list \<Rightarrow> 'a list res" where
  "queue_pop q = (case q of [] \<Rightarrow> Inl UndefinedBehaviour | _ # q' \<Rightarrow> Inr q')"

text \<open>
  What a client of a queue relies on, and that elements leave in the order they entered.
\<close>

locale fifo =
  fixes push :: "'a \<Rightarrow> 'q \<Rightarrow> 'q" and front :: "'q \<Rightarrow> 'a res" and pop :: "'q \<Rightarrow> 'q res"
    and content :: "'q \<Rightarrow> 'a list"
  assumes content_push: "content (push x q) = content q @ [x]"
    and front_content: "content q = x # xs \<Longrightarrow> front q = Inr x"
    and pop_content: "content q = x # xs \<Longrightarrow> \<exists>q'. pop q = Inr q' \<and> content q' = xs"
begin

fun drain :: "nat \<Rightarrow> 'q \<Rightarrow> ('a list \<times> 'q) res" where
  "drain 0 q = Inr ([], q)"
| "drain (Suc n) q =
     bindE (front q) (\<lambda>x. bindE (pop q) (\<lambda>q'. bindE (drain n q') (\<lambda>(xs, q''). Inr (x # xs, q''))))"

lemma drain_content:
  "n \<le> length (content q) \<Longrightarrow>
   \<exists>q'. drain n q = Inr (take n (content q), q') \<and> content q' = drop n (content q)"
proof (induction n arbitrary: q)
  case (Suc n)
  then obtain x xs where c: "content q = x # xs" by (cases "content q") auto
  then obtain q' where q': "pop q = Inr q'" "content q' = xs" using pop_content by blast
  with Suc c obtain q'' where "drain n q' = Inr (take n xs, q'')" "content q'' = drop n xs"
    by fastforce
  with c q' front_content [OF c] show ?case by simp
qed simp

end

interpretation std_queue: fifo queue_push queue_front queue_pop "\<lambda>q. q"
  by unfold_locales (auto simp: queue_push_def queue_front_def queue_pop_def)

lemma queue_front_pop [simp, res_simps]:
  "queue_front (x # q) = Inr x" "queue_pop (x # q) = Inr q"
  by (simp_all add: queue_front_def queue_pop_def)

lemma queue_back_snoc [simp, res_simps]: "queue_back (q @ [x]) = Inr x"
  by (simp add: queue_back_def)

end
