(* ===== verification/Domain.thy ===== *)
theory Domain
  imports Prelude
begin

text \<open>
  \<open>common/domain/domain.h\<close> and \<open>domain.cpp\<close>: the operation codes, the values (32-bit
  scalars and lists of them) and the arithmetic that workers run. A scalar is an \<open>int\<close> in the
  range of the C++ type; signed overflow, division by zero and the dereference of a past-the-end
  iterator are undefined behaviour, unequal lengths trip the \<open>assert\<close>.
\<close>

section \<open>Operation codes and values\<close>

datatype ExprType =
    invalid
  | re_min | re_max | re_mul | re_sum | re_size
  | me_add | me_mul | me_div
  | lo_add | lo_mul | lo_div | lo_dot
  | so_add | so_mul | so_div | so_max | so_min
  | list_t | scalar_const | scalar_var

definition ExprType_values :: "ExprType list" where
  "ExprType_values =
     [invalid, re_min, re_max, re_mul, re_sum, re_size, me_add, me_mul, me_div,
      lo_add, lo_mul, lo_div, lo_dot, so_add, so_mul, so_div, so_max, so_min,
      list_t, scalar_const, scalar_var]"

text \<open>
  The underlying values are consecutive from 0. Converting an integer to the enumeration
  is total in C++; a value no enumerator has is \<open>None\<close>.
\<close>

fun ExprType_to_nat :: "ExprType \<Rightarrow> nat" where
  "ExprType_to_nat invalid = 0"
| "ExprType_to_nat re_min = 1" | "ExprType_to_nat re_max = 2" | "ExprType_to_nat re_mul = 3"
| "ExprType_to_nat re_sum = 4" | "ExprType_to_nat re_size = 5" | "ExprType_to_nat me_add = 6"
| "ExprType_to_nat me_mul = 7" | "ExprType_to_nat me_div = 8" | "ExprType_to_nat lo_add = 9"
| "ExprType_to_nat lo_mul = 10" | "ExprType_to_nat lo_div = 11" | "ExprType_to_nat lo_dot = 12"
| "ExprType_to_nat so_add = 13" | "ExprType_to_nat so_mul = 14" | "ExprType_to_nat so_div = 15"
| "ExprType_to_nat so_max = 16" | "ExprType_to_nat so_min = 17" | "ExprType_to_nat list_t = 18"
| "ExprType_to_nat scalar_const = 19" | "ExprType_to_nat scalar_var = 20"

definition ExprType_of_nat :: "nat \<Rightarrow> ExprType option" where
  "ExprType_of_nat n = (if n < length ExprType_values then Some (ExprType_values ! n) else None)"

instantiation ExprType :: linorder
begin

definition less_eq_ExprType :: "ExprType \<Rightarrow> ExprType \<Rightarrow> bool" where
  "less_eq_ExprType a b \<longleftrightarrow> ExprType_to_nat a \<le> ExprType_to_nat b"

definition less_ExprType :: "ExprType \<Rightarrow> ExprType \<Rightarrow> bool" where
  "less_ExprType a b \<longleftrightarrow> ExprType_to_nat a < ExprType_to_nat b"

instance
proof
  fix a b :: ExprType
  assume "a \<le> b" and "b \<le> a"
  then show "a = b" by (cases a; cases b) (simp_all add: less_eq_ExprType_def)
qed (auto simp: less_eq_ExprType_def less_ExprType_def)

end

lemma ExprType_of_to_nat [simp]: "ExprType_of_nat (ExprType_to_nat t) = Some t"
  by (cases t) (simp_all add: ExprType_of_nat_def ExprType_values_def)

lemma ExprType_to_nat_less: "ExprType_to_nat t < 21"
  by (cases t) simp_all

type_synonym VariableId = string

datatype ExprResult = RList "int list" | RScalar int

definition get_List :: "ExprResult \<Rightarrow> int list res" where
  "get_List r = (case r of RList l \<Rightarrow> Inr l | RScalar _ \<Rightarrow> Inl BadVariantAccess)"

definition get_Scalar :: "ExprResult \<Rightarrow> int res" where
  "get_Scalar r = (case r of RScalar x \<Rightarrow> Inr x | RList _ \<Rightarrow> Inl BadVariantAccess)"

lemma get_simps [simp, res_simps]:
  "get_List (RList l) = Inr l" "get_List (RScalar x) = Inl BadVariantAccess"
  "get_Scalar (RScalar x) = Inr x" "get_Scalar (RList l) = Inl BadVariantAccess"
  by (simp_all add: get_List_def get_Scalar_def)

text \<open>A value that fits the C++ types.\<close>

fun wf_result :: "ExprResult \<Rightarrow> bool" where
  "wf_result (RScalar x) = in_int x"
| "wf_result (RList l) = list_all in_int l"

section \<open>The hash of a list\<close>

text \<open>
  \<open>x + 0x9e3779b9\<close> is computed in 32-bit unsigned arithmetic and then widened; the rest is
  in 64 bits.
\<close>

definition hash_step :: "int \<Rightarrow> size_t \<Rightarrow> size_t" where
  "hash_step x hash =
     hash XOR (ucast (word_of_int x + 0x9e3779b9 :: u32) + push_bit 6 hash + drop_bit 2 hash)"

definition ListHasher :: "int list \<Rightarrow> size_t" where
  "ListHasher l = fold hash_step l (word_of_nat (length l))"

section \<open>Scalar arithmetic\<close>

definition Mul_ss :: "int \<Rightarrow> int \<Rightarrow> int res" where
  "Mul_ss x1 x2 = chk (x1 * x2)"

definition Div_ss :: "int \<Rightarrow> int \<Rightarrow> int res" where
  "Div_ss x1 x2 = (if x2 = 0 then Inl UndefinedBehaviour else chk (x1 sdiv x2))"

definition Sum_ss :: "int \<Rightarrow> int \<Rightarrow> int res" where
  "Sum_ss x1 x2 = chk (x1 + x2)"

definition std_min :: "'a::linorder \<Rightarrow> 'a \<Rightarrow> 'a" where
  "std_min a b = (if b < a then b else a)"

definition std_max :: "'a::linorder \<Rightarrow> 'a \<Rightarrow> 'a" where
  "std_max a b = (if a < b then b else a)"

definition Min_ss :: "int \<Rightarrow> int \<Rightarrow> int res" where
  "Min_ss x1 x2 = Inr (std_min x1 x2)"

definition Max_ss :: "int \<Rightarrow> int \<Rightarrow> int res" where
  "Max_ss x1 x2 = Inr (std_max x1 x2)"

section \<open>Reductions\<close>

text \<open>
  \<open>std::reduce\<close> may take the elements and the initial value in any order and with any
  bracketing: a \<open>bracketing\<close> is one such choice and \<open>run_order\<close> computes along it, with every
  intermediate result checked for overflow. The program may only rely on a value when no
  choice overflows; \<open>std_reduce\<close> decides this without listing the choices, by asking that no
  selection of the elements leaves the range of \<open>int\<close> (\<open>reduce_order_independent\<close> below shows
  that this is the same).
\<close>

datatype bracketing = Operand int | Group bracketing bracketing

fun elems :: "bracketing \<Rightarrow> int multiset" where
  "elems (Operand x) = {#x#}"
| "elems (Group a b) = elems a + elems b"

fun run_order :: "(int \<Rightarrow> int \<Rightarrow> int) \<Rightarrow> bracketing \<Rightarrow> int res" where
  "run_order f (Operand x) = Inr x"
| "run_order f (Group a b) = bindE (run_order f a) (\<lambda>x. bindE (run_order f b) (\<lambda>y. chk (f x y)))"

definition std_reduce :: "(int \<Rightarrow> int \<Rightarrow> int) \<Rightarrow> int list \<Rightarrow> int \<Rightarrow> int res" where
  "std_reduce f l init =
     (if list_all (\<lambda>ys. in_int (foldr f ys init)) (subseqs l) then Inr (foldr f l init)
      else Inl UndefinedBehaviour)"

definition Mul_l :: "int list \<Rightarrow> int res" where
  "Mul_l l = std_reduce (\<lambda>lhs rhs. lhs * rhs) l 1"

definition Sum_l :: "int list \<Rightarrow> int res" where
  "Sum_l l = std_reduce (\<lambda>lhs rhs. lhs + rhs) l 0"

text \<open>
  \<open>*std::min(l.begin(), l.end())\<close>: the smaller of two iterators, dereferenced. An iterator
  is its offset from \<open>begin\<close>.
\<close>

definition deref :: "int list \<Rightarrow> nat \<Rightarrow> int res" where
  "deref l i = (if i < length l then Inr (l ! i) else Inl UndefinedBehaviour)"

definition Min_l :: "int list \<Rightarrow> int res" where
  "Min_l l = deref l (std_min 0 (length l))"

definition Max_l :: "int list \<Rightarrow> int res" where
  "Max_l l = deref l (std_min 0 (length l))"

text \<open>The conversion of \<open>size_t\<close> to \<open>int\<close> is modulo \<open>2 ^ 32\<close>.\<close>

definition Size_l :: "int list \<Rightarrow> int res" where
  "Size_l l = Inr (sint (word_of_nat (length l) :: u32))"

fun inner_product :: "int list \<Rightarrow> int list \<Rightarrow> int \<Rightarrow> int res" where
  "inner_product [] _ acc = Inr acc"
| "inner_product (x # xs) [] acc = Inl UndefinedBehaviour"
| "inner_product (x # xs) (y # ys) acc =
     bindE (chk (x * y)) (\<lambda>p. bindE (chk (acc + p)) (inner_product xs ys))"

definition Dot_ll :: "int list \<Rightarrow> int list \<Rightarrow> int res" where
  "Dot_ll l1 l2 =
     (if length l1 \<noteq> length l2 then Inl AssertionFailed else inner_product l1 l2 0)"

section \<open>Element-wise operations\<close>

definition Mul_ls :: "int list \<Rightarrow> int \<Rightarrow> int list res" where
  "Mul_ls l x = mapE (\<lambda>y. chk (y * x)) l"

definition Div_ls :: "int list \<Rightarrow> int \<Rightarrow> int list res" where
  "Div_ls l x = mapE (\<lambda>y. if x = 0 then Inl UndefinedBehaviour else chk (y sdiv x)) l"

definition Sum_ls :: "int list \<Rightarrow> int \<Rightarrow> int list res" where
  "Sum_ls l x = mapE (\<lambda>y. chk (y + x)) l"

definition Sum_ll :: "int list \<Rightarrow> int list \<Rightarrow> int list res" where
  "Sum_ll l1 l2 =
     (if length l1 \<noteq> length l2 then Inl AssertionFailed
      else mapE (\<lambda>i. chk (l1 ! i + l2 ! i)) [0..<length l1])"

definition Mul_ll :: "int list \<Rightarrow> int list \<Rightarrow> int list res" where
  "Mul_ll l1 l2 =
     (if length l1 \<noteq> length l2 then Inl AssertionFailed
      else mapE (\<lambda>i. chk (l1 ! i * l2 ! i)) [0..<length l1])"

definition Div_ll :: "int list \<Rightarrow> int list \<Rightarrow> int list res" where
  "Div_ll l1 l2 =
     (if length l1 \<noteq> length l2 then Inl AssertionFailed
      else mapE (\<lambda>i. if l2 ! i = 0 then Inl UndefinedBehaviour else chk (l1 ! i sdiv l2 ! i))
             [0..<length l1])"

section \<open>Reductions do not depend on the order\<close>

text \<open>
  The contract of a binary operation that \<open>std::reduce\<close> may regroup: a commutative monoid
  whose unit is the initial value.
\<close>

lemma subset_add_mset: "M \<subseteq># N \<Longrightarrow> M \<subseteq># add_mset x N"
  by (auto simp: subseteq_mset_def le_SucI)

lemma subset_add_mset_drop: "M \<subseteq># add_mset x N \<Longrightarrow> x \<notin># M \<Longrightarrow> M \<subseteq># N"
  by (metis add_mset_add_single diff_single_trivial subset_eq_diff_conv)

lemma subseqs_mset:
  "M \<subseteq># mset l \<Longrightarrow> \<exists>ys \<in> set (subseqs l). mset ys = M"
proof (induction l arbitrary: M)
  case (Cons x l)
  show ?case
  proof (cases "x \<in># M")
    case True
    then obtain N where N: "M = add_mset x N" by (blast dest: multi_member_split)
    with Cons.prems have "N \<subseteq># mset l" by simp
    from Cons.IH [OF this] N show ?thesis by (auto simp: Let_def intro!: bexI [of _ "x # _"])
  next
    case False
    with Cons.prems have "M \<subseteq># mset l" by (simp add: subset_add_mset_drop)
    from Cons.IH [OF this] show ?thesis by (auto simp: Let_def)
  qed
qed simp

lemma subseqs_mset_le: "ys \<in> set (subseqs l) \<Longrightarrow> mset ys \<subseteq># mset l"
  by (induction l arbitrary: ys) (auto simp: Let_def intro: subset_add_mset)

lemma std_reduce_eq_Inr:
  "std_reduce f l a = Inr r \<longleftrightarrow>
   (\<forall>ys \<in> set (subseqs l). in_int (foldr f ys a)) \<and> r = foldr f l a"
  by (auto simp: std_reduce_def list_all_iff)

locale reducible =
  fixes plus :: "int \<Rightarrow> int \<Rightarrow> int" and unit :: int
  assumes assoc: "plus (plus a b) c = plus a (plus b c)"
    and comm: "plus a b = plus b a"
    and unit: "plus unit a = a"
    and unit_in_int: "in_int unit"
begin

sublocale cm: comm_monoid_mset plus unit
proof
  show "plus a unit = a" for a using unit [of a] comm [of a unit] by simp
qed (rule assoc comm)+

lemma F_foldr: "foldr plus l unit = cm.F (mset l)"
  by (induction l) simp_all

lemma run_order_cases:
  "run_order plus t = Inr (cm.F (elems t)) \<or>
   run_order plus t = Inl UndefinedBehaviour \<and> (\<exists>M. M \<subseteq># elems t \<and> \<not> in_int (cm.F M))"
proof (induction t)
  case (Group a b)
  have sub: "M \<subseteq># elems a \<Longrightarrow> M \<subseteq># elems (Group a b)" "M \<subseteq># elems b \<Longrightarrow> M \<subseteq># elems (Group a b)" for M
    by (auto intro: subset_mset.order_trans)
  show ?case
  proof (cases "run_order plus a = Inr (cm.F (elems a)) \<and> run_order plus b = Inr (cm.F (elems b))")
    case True
    then have "run_order plus (Group a b) = chk (cm.F (elems (Group a b)))" by (simp add: cm.union)
    then show ?thesis by (cases "in_int (cm.F (elems (Group a b)))") (auto simp: chk_def)
  next
    case False
    with Group.IH have "run_order plus (Group a b) = Inl UndefinedBehaviour" by auto
    with False Group.IH sub show ?thesis by blast
  qed
qed simp

lemma reduce_iff_selections:
  "std_reduce plus l unit = Inr r \<longleftrightarrow>
   (\<forall>M. M \<subseteq># add_mset unit (mset l) \<longrightarrow> in_int (cm.F M)) \<and> r = cm.F (mset l)"
proof -
  have "in_int (cm.F M)"
    if all: "\<forall>ys \<in> set (subseqs l). in_int (cm.F (mset ys))" and M: "M \<subseteq># add_mset unit (mset l)" for M
  proof -
    obtain N where N: "N \<subseteq># mset l" "cm.F N = cm.F M"
    proof (cases "unit \<in># M")
      case True
      then obtain N where "M = add_mset unit N" by (blast dest: multi_member_split)
      with M show thesis by (intro that [of N]) (simp_all add: unit)
    next
      case False
      with M show thesis by (intro that [of M]) (simp_all add: subset_add_mset_drop)
    qed
    with subseqs_mset [OF N(1)] all show ?thesis by force
  qed
  moreover have "ys \<in> set (subseqs l) \<Longrightarrow> mset ys \<subseteq># add_mset unit (mset l)" for ys
    by (intro subset_add_mset subseqs_mset_le)
  ultimately show ?thesis unfolding std_reduce_eq_Inr F_foldr by blast
qed

text \<open>A selection that leaves the range is computed by some choice.\<close>

lemma elems_right_comb: "elems (foldr (\<lambda>x t. Group (Operand x) t) ys t) = mset ys + elems t"
  by (induction ys) simp_all

lemma right_comb_fails:
  "run_order plus t = Inl e \<Longrightarrow>
   run_order plus (foldr (\<lambda>x t. Group (Operand x) t) ys t) = Inl e"
  by (induction ys) simp_all

lemma order_of_elems: "M \<noteq> {#} \<Longrightarrow> \<exists>t. elems t = M"
proof (induction M)
  case (add x M)
  show ?case
  proof (cases "M = {#}")
    case False
    then obtain t where "elems t = M" using add.IH by blast
    then have "elems (Group (Operand x) t) = add_mset x M" by simp
    then show ?thesis ..
  qed (auto intro: exI [of _ "Operand x"])
qed simp

lemma bad_selection_order:
  assumes M: "M \<subseteq># add_mset unit (mset l)" and bad: "\<not> in_int (cm.F M)"
  shows "\<exists>t. elems t = add_mset unit (mset l) \<and> run_order plus t = Inl UndefinedBehaviour"
proof -
  have "M \<noteq> {#}" using bad unit_in_int by auto
  have "\<exists>t. elems t \<subseteq># add_mset unit (mset l) \<and> run_order plus t = Inl UndefinedBehaviour"
  proof (cases "unit \<in># M")
    case True
    then obtain N where N: "M = add_mset unit N" by (blast dest: multi_member_split)
    with bad unit_in_int have "N \<noteq> {#}" by auto
    then obtain t where t: "elems t = N" using order_of_elems by blast
    have "run_order plus (Group (Operand unit) t) = Inl UndefinedBehaviour"
      using run_order_cases [of t] bad N t by (auto simp: unit chk_def)
    with N t M show ?thesis by (intro exI [of _ "Group (Operand unit) t"]) simp
  next
    case False
    obtain t where t: "elems t = M" using order_of_elems \<open>M \<noteq> {#}\<close> by blast
    have "M \<subseteq># mset l" using M False by (rule subset_add_mset_drop)
    moreover have "run_order plus (Group (Operand unit) t) = Inl UndefinedBehaviour"
      using run_order_cases [of t] bad t by (auto simp: unit chk_def)
    ultimately show ?thesis using t by (intro exI [of _ "Group (Operand unit) t"]) simp
  qed
  then obtain t where t: "elems t \<subseteq># add_mset unit (mset l)" "run_order plus t = Inl UndefinedBehaviour"
    by blast
  obtain ys where "mset ys = add_mset unit (mset l) - elems t" using ex_mset by blast
  with t show ?thesis
    by (intro exI [of _ "foldr (\<lambda>x t. Group (Operand x) t) ys t"])
       (simp add: elems_right_comb right_comb_fails)
qed

lemma reduce_Inr_iff:
  "std_reduce plus l unit = Inr r \<longleftrightarrow>
   (\<forall>t. elems t = add_mset unit (mset l) \<longrightarrow> run_order plus t = Inr r)"
proof
  assume "std_reduce plus l unit = Inr r"
  then have sel: "\<forall>M. M \<subseteq># add_mset unit (mset l) \<longrightarrow> in_int (cm.F M)" "r = cm.F (mset l)"
    by (simp_all add: reduce_iff_selections)
  have "run_order plus t = Inr r" if t: "elems t = add_mset unit (mset l)" for t
  proof -
    have "cm.F (elems t) = r" using t sel(2) by (simp add: unit)
    with run_order_cases [of t] sel(1) t show ?thesis by auto
  qed
  then show "\<forall>t. elems t = add_mset unit (mset l) \<longrightarrow> run_order plus t = Inr r" by blast
next
  assume all: "\<forall>t. elems t = add_mset unit (mset l) \<longrightarrow> run_order plus t = Inr r"
  then have "M \<subseteq># add_mset unit (mset l) \<Longrightarrow> in_int (cm.F M)" for M
    using bad_selection_order [of M l] by (metis sum.distinct(1))
  moreover obtain t where "elems t = add_mset unit (mset l)"
    using order_of_elems [OF add_mset_not_empty, of unit "mset l"] by blast
  with all run_order_cases [of t] have "r = cm.F (mset l)" by (simp add: unit)
  ultimately show "std_reduce plus l unit = Inr r" by (simp add: reduce_iff_selections)
qed

lemma reduce_UB_iff:
  "std_reduce plus l unit = Inl UndefinedBehaviour \<longleftrightarrow>
   (\<exists>t. elems t = add_mset unit (mset l) \<and> run_order plus t = Inl UndefinedBehaviour)"
  (is "?ub \<longleftrightarrow> ?some")
proof
  assume ?ub
  then have "std_reduce plus l unit \<noteq> Inr (cm.F (mset l))" by simp
  then show ?some using bad_selection_order [of _ l] by (auto simp: reduce_iff_selections)
next
  assume ?some
  then have "std_reduce plus l unit \<noteq> Inr (foldr plus l unit)" by (auto simp: reduce_Inr_iff)
  then show ?ub by (simp add: std_reduce_def split: if_splits)
qed

end

interpretation mul: reducible "(*)" 1
  by unfold_locales (simp_all add: in_int_def)

interpretation add: reducible "(+)" 0
  by unfold_locales (simp_all add: in_int_def)

section \<open>Correctness of the element-wise operations\<close>

lemma mapE_upt_map2:
  assumes "length l1 = length l2"
  shows "mapE (\<lambda>i. g (l1 ! i) (l2 ! i)) [0..<length l1] = mapE (\<lambda>(x, y). g x y) (zip l1 l2)"
proof -
  have "zip l1 l2 = map (\<lambda>i. (l1 ! i, l2 ! i)) [0..<length l1]"
    using assms by (intro nth_equalityI) auto
  then show ?thesis by (simp add: mapE_map)
qed

lemma mapE_chk_iff:
  "mapE (\<lambda>x. chk (g x)) l = Inr r \<longleftrightarrow> (\<forall>x \<in> set l. in_int (g x)) \<and> r = map g l"
  by (induction l arbitrary: r) (auto simp: bindE_eq_Inr)

lemma mapE_guard_chk_iff:
  "mapE (\<lambda>x. if p x then Inl e else chk (g x)) l = Inr r \<longleftrightarrow>
   (\<forall>x \<in> set l. \<not> p x \<and> in_int (g x)) \<and> r = map g l"
  by (induction l arbitrary: r) (auto simp: bindE_eq_Inr)

lemma mapE_upt_chk_iff:
  assumes "length l = length l'"
  shows "mapE (\<lambda>i. chk (g (l ! i) (l' ! i))) [0..<length l] = Inr r \<longleftrightarrow>
    list_all (\<lambda>(y, z). in_int (g y z)) (zip l l') \<and> r = map2 g l l'"
  using mapE_upt_map2 [OF assms, of "\<lambda>y z. chk (g y z)"]
  by (simp add: case_prod_unfold mapE_chk_iff list_all_iff)

lemma mapE_upt_guard_chk_iff:
  assumes "length l = length l'"
  shows "mapE (\<lambda>i. if p (l' ! i) then Inl e else chk (g (l ! i) (l' ! i))) [0..<length l] = Inr r \<longleftrightarrow>
    list_all (\<lambda>(y, z). \<not> p z \<and> in_int (g y z)) (zip l l') \<and> r = map2 g l l'"
  using mapE_upt_map2 [OF assms, of "\<lambda>y z. if p z then Inl e else chk (g y z)"]
  by (simp add: case_prod_unfold mapE_guard_chk_iff list_all_iff)

lemmas elementwise_defs =
  Mul_ls_def Div_ls_def Sum_ls_def Sum_ll_def Mul_ll_def Div_ll_def

lemma inner_product_value:
  "length xs = length ys \<Longrightarrow> inner_product xs ys acc = Inr r \<Longrightarrow>
   r = acc + sum_list (map2 (*) xs ys)"
  by (induction xs ys acc rule: inner_product.induct) (auto simp: bindE_eq_Inr)

lemma inner_product_in_int:
  "in_int acc \<Longrightarrow> inner_product xs ys acc = Inr r \<Longrightarrow> in_int r"
  by (induction xs ys acc rule: inner_product.induct) (auto simp: bindE_eq_Inr)

lemma std_reduce_in_int: "std_reduce f l a = Inr r \<Longrightarrow> in_int r"
  using subseqs_refl [of l] by (auto simp: std_reduce_eq_Inr)

lemma Min_Max_l_eq:
  "Min_l l = (case l of [] \<Rightarrow> Inl UndefinedBehaviour | x # _ \<Rightarrow> Inr x)" "Max_l l = Min_l l"
  by (cases l; simp add: Min_l_def Max_l_def deref_def std_min_def)+


lemma sum_abs_bound: "\<bar>sum_list xs\<bar> \<le> sum_list (map abs xs)" for xs :: "int list"
  by (induction xs) auto

lemma subseqs_abs_le: "ys \<in> set (subseqs l) \<Longrightarrow> sum_list (map abs ys) \<le> sum_list (map abs l)"
  for l :: "int list"
  by (induction l arbitrary: ys) (auto simp: Let_def intro: add_increasing)

lemma Sum_total:
  assumes "sum_list (map abs l) \<le> 2147483647"
  shows "Sum_l l = Inr (sum_list l)"
proof -
  have "in_int (sum_list ys)" if "ys \<in> set (subseqs l)" for ys
    using sum_abs_bound [of ys] subseqs_abs_le [OF that] assms by (auto simp: in_int_def abs_le_iff)
  then show ?thesis by (simp add: Sum_l_def std_reduce_eq_Inr sum_list.eq_foldr)
qed

lemma inner_product_total:
  "length xs = length ys \<Longrightarrow> \<bar>acc\<bar> + sum_list (map2 (\<lambda>x y. \<bar>x * y\<bar>) xs ys) \<le> 2147483647 \<Longrightarrow>
   inner_product xs ys acc = Inr (acc + sum_list (map2 (*) xs ys))"
proof (induction xs ys acc rule: inner_product.induct)
  case (3 x xs y ys acc)
  have "0 \<le> sum_list (map2 (\<lambda>x y. \<bar>x * y\<bar>) xs ys)" by (rule sum_list_nonneg) auto
  moreover have "\<bar>acc + x * y\<bar> \<le> \<bar>acc\<bar> + \<bar>x * y\<bar>" by simp
  ultimately have b: "\<bar>acc + x * y\<bar> + sum_list (map2 (\<lambda>x y. \<bar>x * y\<bar>) xs ys) \<le> 2147483647"
    and "\<bar>x * y\<bar> \<le> 2147483647" and "\<bar>acc + x * y\<bar> \<le> 2147483647"
    using "3.prems"(2) by auto
  then have i: "in_int (x * y)" "in_int (acc + x * y)"
    by (auto simp: in_int_def abs_le_iff)
  from "3.IH" [of "x * y" "acc + x * y"] "3.prems"(1) b i show ?case
    by (simp add: chk_in_int)
qed simp_all

section \<open>Properties\<close>

text \<open>
  C24. \<open>Mul\<close> and \<open>Sum\<close> of a list against everything \<open>std::reduce\<close> is allowed to do: they return
  a value exactly when every order and bracketing of the elements and the initial value runs
  without overflow and gives that value, which is the product or the sum; otherwise some
  permitted order overflows, and the behaviour is undefined.
\<close>

theorem reduce_order_independent:
  "(Mul_l l = Inr r \<longleftrightarrow> (\<forall>t. elems t = add_mset 1 (mset l) \<longrightarrow> run_order (*) t = Inr r)) \<and>
   (Sum_l l = Inr r \<longleftrightarrow> (\<forall>t. elems t = add_mset 0 (mset l) \<longrightarrow> run_order (+) t = Inr r)) \<and>
   (Mul_l l = Inr (prod_list l) \<or> Mul_l l = Inl UndefinedBehaviour \<and>
      (\<exists>t. elems t = add_mset 1 (mset l) \<and> run_order (*) t = Inl UndefinedBehaviour)) \<and>
   (Sum_l l = Inr (sum_list l) \<or> Sum_l l = Inl UndefinedBehaviour \<and>
      (\<exists>t. elems t = add_mset 0 (mset l) \<and> run_order (+) t = Inl UndefinedBehaviour))"
proof -
  have "Mul_l l = Inr (prod_list l) \<or> Mul_l l = Inl UndefinedBehaviour"
    "Sum_l l = Inr (sum_list l) \<or> Sum_l l = Inl UndefinedBehaviour"
    by (simp_all add: Mul_l_def Sum_l_def std_reduce_def prod_list.eq_foldr sum_list.eq_foldr)
  then show ?thesis
    using mul.reduce_Inr_iff [of l r] add.reduce_Inr_iff [of l r] mul.reduce_UB_iff [of l]
      add.reduce_UB_iff [of l]
    unfolding Mul_l_def Sum_l_def by blast
qed

theorem reduce_order_independent_witness:
  "Mul_l [2, 3, 7] = Inr 42 \<and> Sum_l [-1, 0, 2147483647, 1] = Inl UndefinedBehaviour \<and>
   run_order (*) (Group (Group (Operand 7) (Operand 1)) (Group (Operand 3) (Operand 2))) = Inr 42"
proof -
  have m: "Mul_l [2, 3, 7] = Inr 42" and s: "Sum_l [-1, 0, 2147483647, 1] = Inl UndefinedBehaviour"
    by (simp_all add: Mul_l_def Sum_l_def std_reduce_def in_int_def)
  have "elems (Group (Group (Operand 7) (Operand 1)) (Group (Operand 3) (Operand 2))) =
      add_mset 1 (mset [2, 3, 7])"
    by simp
  with m conjunct1 [OF reduce_order_independent [of "[2, 3, 7]" 42]]
  have "run_order (*) (Group (Group (Operand 7) (Operand 1)) (Group (Operand 3) (Operand 2))) = Inr 42"
    by blast
  with m s show ?thesis by blast
qed

text \<open>
  \<open>Sum\<close> and \<open>Dot\<close> return, with no overflow on the way, whenever the absolute values they
  add up stay within \<open>INT_MAX\<close>; \<open>Dot\<close> is then the sum of the products.
\<close>

theorem sums_return:
  assumes "sum_list (map abs l) \<le> 2147483647"
    and "length xs = length ys" and "sum_list (map2 (\<lambda>x y. \<bar>x * y\<bar>) xs ys) \<le> 2147483647"
  shows "Sum_l l = Inr (sum_list l) \<and> Dot_ll xs ys = Inr (sum_list (map2 (*) xs ys))"
  using assms Sum_total [of l] inner_product_total [of xs ys 0]
  by (simp add: Dot_ll_def)

theorem sums_return_witness:
  "Sum_l [1, 2, 3, 4, 5] = Inr 15 \<and> Dot_ll [1, 2] [-6, -7] = Inr (- 20)"
  using sums_return [of "[1, 2, 3, 4, 5]" "[1, 2]" "[-6, -7]"] by simp

text \<open>
  The element-wise operations return exactly when no element overflows, no divisor is 0
  and, for two lists, the lengths agree, and then hold the operation applied position by
  position.
\<close>

theorem elementwise_pointwise:
  "(Mul_ls l x = Inr r \<longleftrightarrow> list_all (\<lambda>y. in_int (y * x)) l \<and> r = map (\<lambda>y. y * x) l) \<and>
   (Sum_ls l x = Inr r \<longleftrightarrow> list_all (\<lambda>y. in_int (y + x)) l \<and> r = map (\<lambda>y. y + x) l) \<and>
   (Div_ls l x = Inr r \<longleftrightarrow>
      list_all (\<lambda>y. x \<noteq> 0 \<and> in_int (y sdiv x)) l \<and> r = map (\<lambda>y. y sdiv x) l) \<and>
   (Sum_ll l l' = Inr r \<longleftrightarrow> length l = length l' \<and>
      list_all (\<lambda>(y, z). in_int (y + z)) (zip l l') \<and> r = map2 (+) l l') \<and>
   (Mul_ll l l' = Inr r \<longleftrightarrow> length l = length l' \<and>
      list_all (\<lambda>(y, z). in_int (y * z)) (zip l l') \<and> r = map2 (*) l l') \<and>
   (Div_ll l l' = Inr r \<longleftrightarrow> length l = length l' \<and>
      list_all (\<lambda>(y, z). z \<noteq> 0 \<and> in_int (y sdiv z)) (zip l l') \<and> r = map2 (sdiv) l l')"
  using mapE_upt_chk_iff [of l l' "(+)" r] mapE_upt_chk_iff [of l l' "(*)" r]
    mapE_upt_guard_chk_iff [of l l' "\<lambda>z. z = 0" UndefinedBehaviour "(sdiv)" r]
  by (auto simp: elementwise_defs mapE_chk_iff mapE_guard_chk_iff list_all_iff)

text \<open>
  \<open>Min\<close> and \<open>Max\<close> of a list both return its first element, whatever the others are,
  because they compare the iterators and not the elements; on an empty list they
  dereference the end iterator. So \<open>Min\<close> is the minimum only when the first element is, and
  \<open>Max\<close> the maximum only when the first element is.
\<close>

theorem min_max_first_element:
  "Min_l l = Max_l l \<and>
   Min_l l = (case l of [] \<Rightarrow> Inl UndefinedBehaviour | x # _ \<Rightarrow> Inr x) \<and>
   (Min_l (x # xs) = Inr (Min (set (x # xs))) \<longleftrightarrow> list_all (\<lambda>y. x \<le> y) xs) \<and>
   (Max_l (x # xs) = Inr (Max (set (x # xs))) \<longleftrightarrow> list_all (\<lambda>y. y \<le> x) xs)"
proof -
  have "x = Min (set (x # xs)) \<longleftrightarrow> (\<forall>y \<in> set xs. x \<le> y)"
    by (subst eq_commute, subst Min_eq_iff) auto
  moreover have "x = Max (set (x # xs)) \<longleftrightarrow> (\<forall>y \<in> set xs. y \<le> x)"
    by (subst eq_commute, subst Max_eq_iff) auto
  ultimately show ?thesis
    by (simp add: Min_Max_l_eq list_all_iff)
qed

end
