(* ===== verification/Messages.thy ===== *)
theory Messages
  imports Domain
begin

text \<open>
  The protocol-buffer messages of \<open>proto/*.proto\<close> as records, their \<open>oneof\<close> fields as
  datatypes with a constructor for "not set", and \<open>common/communiation/read_message.h\<close>.
  Serialisation is generated code: a serialiser and a parser are parameters wherever bytes are
  written or read, with \<open>codec_ok\<close> as their contract.
\<close>

type_synonym bytes = string

section \<open>task.proto and worker.proto\<close>

record TaskId =
  tid_problem :: u32
  tid_task :: u32

datatype Operand = OperandNotSet | StaticOperand VariableId | DynOperand TaskId

record Task =
  tk_id :: TaskId
  tk_operation_type :: u32
  tk_operands :: "Operand list"

record WorkerTaskId =
  wid_identity :: string
  wid_id :: TaskId

record WorkerTask =
  wt_identity :: string
  wt_task :: Task

datatype WorkerMessage = WorkerMessageNotSet | CoreCount u32 | FinishedTask WorkerTaskId

section \<open>db.proto and computation.proto\<close>

datatype Field = FieldNotSet | FieldScalar int | FieldList "int list"

record DynamicRecord =
  dr_problem :: u32
  dr_task :: u32
  dr_field :: Field

datatype RecordId = RecordIdNotSet | DynamicId u32 u32 | StaticId string

datatype CalculationReply = ReplyNotSet | ReplyScalar int | ReplyList "int list"

section \<open>Reading a message\<close>

definition FromMessage :: "(bytes \<Rightarrow> 'm option) \<Rightarrow> bytes \<Rightarrow> 'm res" where
  "FromMessage parse message = (case parse message of
     None \<Rightarrow> Inl (DomainError ''Unable to parse message'')
   | Some protobuf \<Rightarrow> Inr protobuf)"

definition codec_ok :: "('m \<Rightarrow> bytes) \<Rightarrow> (bytes \<Rightarrow> 'm option) \<Rightarrow> bool" where
  "codec_ok ser parse \<longleftrightarrow> (\<forall>m. parse (ser m) = Some m)"

lemma FromMessage_ser [simp]: "codec_ok ser parse \<Longrightarrow> FromMessage parse (ser m) = Inr m"
  by (simp add: FromMessage_def codec_ok_def)

text \<open>Assigning a \<open>size_t\<close> to a \<open>uint32\<close> field keeps the low 32 bits.\<close>

definition to_u32 :: "size_t \<Rightarrow> u32" where
  "to_u32 x = ucast x"

definition of_u32 :: "u32 \<Rightarrow> size_t" where
  "of_u32 x = ucast x"

lemma unat_to_u32: "unat (to_u32 x) = unat x mod 2 ^ 32"
  by (simp add: to_u32_def unsigned_ucast_eq take_bit_eq_mod)

lemma unat_of_u32 [simp]: "unat (of_u32 x) = unat x"
  by (simp add: of_u32_def unsigned_ucast_eq take_bit_nat_eq_self_iff unsigned_less
      order_less_trans [OF unsigned_less])

lemma unat_u32_less: "unat (x :: u32) < 4294967296"
  using unsigned_less [of x] by simp

lemma to_of_u32 [simp]: "to_u32 (of_u32 x) = x"
  by (simp add: word_unat_eq_iff unat_to_u32 unat_u32_less)

lemma of_to_u32: "unat x < 2 ^ 32 \<Longrightarrow> of_u32 (to_u32 x) = x"
  by (simp add: word_unat_eq_iff unat_to_u32)

lemma to_u32_inj: "unat x < 2 ^ 32 \<Longrightarrow> unat y < 2 ^ 32 \<Longrightarrow> to_u32 x = to_u32 y \<longleftrightarrow> x = y"
  by (metis of_to_u32)

section \<open>The wire\<close>

text \<open>The generated serialisers and parsers of the four messages sent over the sockets.\<close>

record Wire =
  ser_Task :: "Task \<Rightarrow> bytes"
  parse_Task :: "bytes \<Rightarrow> Task option"
  ser_TaskId :: "TaskId \<Rightarrow> bytes"
  parse_TaskId :: "bytes \<Rightarrow> TaskId option"
  ser_WorkerTask :: "WorkerTask \<Rightarrow> bytes"
  parse_WorkerTask :: "bytes \<Rightarrow> WorkerTask option"
  ser_WorkerMessage :: "WorkerMessage \<Rightarrow> bytes"
  parse_WorkerMessage :: "bytes \<Rightarrow> WorkerMessage option"

definition wire_ok :: "Wire \<Rightarrow> bool" where
  "wire_ok w \<longleftrightarrow> codec_ok (ser_Task w) (parse_Task w) \<and> codec_ok (ser_TaskId w) (parse_TaskId w) \<and>
     codec_ok (ser_WorkerTask w) (parse_WorkerTask w) \<and> codec_ok (ser_WorkerMessage w) (parse_WorkerMessage w)"

lemma wire_okD:
  assumes "wire_ok w"
  shows "FromMessage (parse_Task w) (ser_Task w t) = Inr t"
    "FromMessage (parse_TaskId w) (ser_TaskId w i) = Inr i"
    "FromMessage (parse_WorkerTask w) (ser_WorkerTask w wt) = Inr wt"
    "FromMessage (parse_WorkerMessage w) (ser_WorkerMessage w m) = Inr m"
  using assms by (simp_all add: wire_ok_def)

section \<open>A concrete wire\<close>

text \<open>
  Tokens as numbers, numbers in unary: a wire on which the contract holds, for the witnesses.
  A decoder takes a token list and returns what is left of it.
\<close>

type_synonym 'a decoder = "nat list \<Rightarrow> ('a \<times> nat list) option"

definition enc_u32 :: "u32 \<Rightarrow> nat list" where
  "enc_u32 x = [unat x]"

fun dec_u32 :: "u32 decoder" where
  "dec_u32 [] = None"
| "dec_u32 (n # xs) = Some (of_nat n, xs)"

definition enc_string :: "string \<Rightarrow> nat list" where
  "enc_string s = length s # map of_char s"

fun dec_string :: "string decoder" where
  "dec_string [] = None"
| "dec_string (n # xs) = Some (map char_of (take n xs), drop n xs)"

definition enc_TaskId :: "TaskId \<Rightarrow> nat list" where
  "enc_TaskId i = enc_u32 (tid_problem i) @ enc_u32 (tid_task i)"

definition dec_TaskId :: "TaskId decoder" where
  "dec_TaskId xs = Option.bind (dec_u32 xs) (\<lambda>(p, xs). Option.bind (dec_u32 xs) (\<lambda>(t, xs).
     Some (\<lparr>tid_problem = p, tid_task = t\<rparr>, xs)))"

definition enc_Operand :: "Operand \<Rightarrow> nat list" where
  "enc_Operand x = (case x of
     OperandNotSet \<Rightarrow> [0] | StaticOperand s \<Rightarrow> 1 # enc_string s | DynOperand i \<Rightarrow> 2 # enc_TaskId i)"

fun dec_Operand :: "Operand decoder" where
  "dec_Operand [] = None"
| "dec_Operand (n # xs) =
     (if n = 0 then Some (OperandNotSet, xs)
      else if n = 1 then map_option (\<lambda>(s, xs). (StaticOperand s, xs)) (dec_string xs)
      else map_option (\<lambda>(i, xs). (DynOperand i, xs)) (dec_TaskId xs))"

fun dec_times :: "'a decoder \<Rightarrow> nat \<Rightarrow> 'a list decoder" where
  "dec_times d 0 xs = Some ([], xs)"
| "dec_times d (Suc n) xs = Option.bind (d xs) (\<lambda>(x, xs). Option.bind (dec_times d n xs) (\<lambda>(ys, xs).
     Some (x # ys, xs)))"

definition enc_Task :: "Task \<Rightarrow> nat list" where
  "enc_Task t = enc_TaskId (tk_id t) @ enc_u32 (tk_operation_type t) @
     length (tk_operands t) # concat (map enc_Operand (tk_operands t))"

definition dec_Task :: "Task decoder" where
  "dec_Task xs = Option.bind (dec_TaskId xs) (\<lambda>(i, xs). Option.bind (dec_u32 xs) (\<lambda>(ty, xs).
     case xs of [] \<Rightarrow> None | n # xs \<Rightarrow> Option.bind (dec_times dec_Operand n xs) (\<lambda>(ops, xs).
       Some (\<lparr>tk_id = i, tk_operation_type = ty, tk_operands = ops\<rparr>, xs))))"

definition enc_WorkerTask :: "WorkerTask \<Rightarrow> nat list" where
  "enc_WorkerTask t = enc_string (wt_identity t) @ enc_Task (wt_task t)"

definition dec_WorkerTask :: "WorkerTask decoder" where
  "dec_WorkerTask xs = Option.bind (dec_string xs) (\<lambda>(s, xs). Option.bind (dec_Task xs) (\<lambda>(t, xs).
     Some (\<lparr>wt_identity = s, wt_task = t\<rparr>, xs)))"

definition enc_WorkerMessage :: "WorkerMessage \<Rightarrow> nat list" where
  "enc_WorkerMessage m = (case m of
     WorkerMessageNotSet \<Rightarrow> [0] | CoreCount n \<Rightarrow> 1 # enc_u32 n
   | FinishedTask i \<Rightarrow> 2 # enc_string (wid_identity i) @ enc_TaskId (wid_id i))"

fun dec_WorkerMessage :: "WorkerMessage decoder" where
  "dec_WorkerMessage [] = None"
| "dec_WorkerMessage (n # xs) =
     (if n = 0 then Some (WorkerMessageNotSet, xs)
      else if n = 1 then map_option (\<lambda>(c, xs). (CoreCount c, xs)) (dec_u32 xs)
      else Option.bind (dec_string xs) (\<lambda>(s, xs). Option.bind (dec_TaskId xs) (\<lambda>(i, xs).
        Some (FinishedTask \<lparr>wid_identity = s, wid_id = i\<rparr>, xs))))"

lemma decodes_u32 [simp]: "dec_u32 (enc_u32 x @ rest) = Some (x, rest)"
  by (simp add: enc_u32_def)

lemma decodes_string [simp]: "dec_string (enc_string s @ rest) = Some (s, rest)"
  by (simp add: enc_string_def comp_def)

lemma decodes_TaskId [simp]: "dec_TaskId (enc_TaskId i @ rest) = Some (i, rest)"
  by (simp add: dec_TaskId_def enc_TaskId_def)

lemma decodes_Operand [simp]: "dec_Operand (enc_Operand x @ rest) = Some (x, rest)"
  by (simp add: enc_Operand_def split: Operand.splits)

lemma decodes_times:
  "(\<And>x rest. d (e x @ rest) = Some (x, rest)) \<Longrightarrow>
   dec_times d (length xs) (concat (map e xs) @ rest) = Some (xs, rest)"
  by (induction xs) simp_all

lemma decodes_Task [simp]: "dec_Task (enc_Task t @ rest) = Some (t, rest)"
  by (simp add: dec_Task_def enc_Task_def decodes_times)

lemma decodes_WorkerTask [simp]: "dec_WorkerTask (enc_WorkerTask t @ rest) = Some (t, rest)"
  by (simp add: dec_WorkerTask_def enc_WorkerTask_def)

lemma decodes_WorkerMessage [simp]: "dec_WorkerMessage (enc_WorkerMessage m @ rest) = Some (m, rest)"
  by (simp add: enc_WorkerMessage_def split: WorkerMessage.splits)

definition unary :: "nat list \<Rightarrow> bytes" where
  "unary xs = concat (map (\<lambda>n. replicate n CHR ''1'' @ '','') xs)"

fun of_unary :: "nat \<Rightarrow> bytes \<Rightarrow> nat list" where
  "of_unary n [] = []"
| "of_unary n (c # cs) = (if c = CHR '','' then n # of_unary 0 cs else of_unary (Suc n) cs)"

lemma of_unary_replicate: "of_unary m (replicate n CHR ''1'' @ CHR '','' # s) = (m + n) # of_unary 0 s"
  by (induction n arbitrary: m) simp_all

lemma of_unary_unary [simp]: "of_unary 0 (unary xs) = xs"
  by (induction xs) (simp_all add: unary_def of_unary_replicate)

definition unary_wire :: Wire where
  "unary_wire = \<lparr>
     ser_Task = unary \<circ> enc_Task, parse_Task = map_option fst \<circ> dec_Task \<circ> of_unary 0,
     ser_TaskId = unary \<circ> enc_TaskId, parse_TaskId = map_option fst \<circ> dec_TaskId \<circ> of_unary 0,
     ser_WorkerTask = unary \<circ> enc_WorkerTask, parse_WorkerTask = map_option fst \<circ> dec_WorkerTask \<circ> of_unary 0,
     ser_WorkerMessage = unary \<circ> enc_WorkerMessage,
     parse_WorkerMessage = map_option fst \<circ> dec_WorkerMessage \<circ> of_unary 0\<rparr>"

lemma unary_wire_ok: "wire_ok unary_wire"
  using decodes_Task [of _ "[]"] decodes_TaskId [of _ "[]"] decodes_WorkerTask [of _ "[]"]
    decodes_WorkerMessage [of _ "[]"]
  by (simp add: wire_ok_def codec_ok_def unary_wire_def)

end
