(* ===== verification/Database.thy ===== *)
theory Database
  imports Messages
begin

text \<open>
  The database service: \<open>database/database-server/database-server-impl\<close> over the two tables
  that \<open>database/setup_database.py\<close> creates, and the client \<open>database/database-client\<close> that
  manager and workers use. A field is stored as the bytes \<open>SerializeAsString\<close> gives;
  \<open>ParseFromArray\<close> returns whether it parsed and the message it filled. The gRPC stub is a
  parameter of the client; \<open>rpc_served\<close> states that it carries the server's answer, or a failed
  status and an empty reply when the handler threw.
\<close>

section \<open>The server\<close>

text \<open>
  \<open>static_data\<close> has the primary key \<open>identifier\<close>, \<open>dynamic_data\<close> the primary key
  \<open>(problem_id, task_id)\<close>: at most one row per key, and inserting a second one fails.
\<close>

record Tables =
  static_data :: "string \<rightharpoonup> bytes"
  dynamic_data :: "u32 \<times> u32 \<rightharpoonup> bytes"

definition WriteDynamicDataImpl :: "(Field \<Rightarrow> bytes) \<Rightarrow> DynamicRecord \<Rightarrow> Tables \<Rightarrow> Tables res" where
  "WriteDynamicDataImpl ser dyn_record db =
     (let key = (dr_problem dyn_record, dr_task dyn_record) in
      if dynamic_data db key \<noteq> None then Inl SqlException
      else Inr (db\<lparr>dynamic_data := (dynamic_data db)(key \<mapsto> ser (dr_field dyn_record))\<rparr>))"

text \<open>
  A column read with no row is an exception of the SQLite wrapper. The result of parsing is
  checked for dynamic data and ignored for static data.
\<close>

definition ReadDataImpl :: "(bytes \<Rightarrow> bool \<times> Field) \<Rightarrow> RecordId \<Rightarrow> Tables \<Rightarrow> Field res" where
  "ReadDataImpl parse record_id db = (case record_id of
     DynamicId p t \<Rightarrow> (case dynamic_data db (p, t) of
         None \<Rightarrow> Inl SqlException
       | Some data \<Rightarrow> (let (ok, field) = parse data
           in if \<not> ok then Inl (LogicError ''Corrupted database'') else Inr field))
   | StaticId identifier \<Rightarrow> (case static_data db identifier of
         None \<Rightarrow> Inl SqlException
       | Some data \<Rightarrow> (let (ok, field) = parse data in Inr field))
   | RecordIdNotSet \<Rightarrow> Inl (LogicError ''Invalid message''))"

definition ClearIntermediateCalculationsImpl :: "u32 \<Rightarrow> Tables \<Rightarrow> Tables" where
  "ClearIntermediateCalculationsImpl problem_id db =
     db\<lparr>dynamic_data := (\<lambda>(p, t). if p = problem_id then None else dynamic_data db (p, t))\<rparr>"

text \<open>The three handlers: the implementation, then \<open>Finish(OK)\<close> with the reply.\<close>

definition Server_WriteDynamicData :: "(Field \<Rightarrow> bytes) \<Rightarrow> DynamicRecord \<Rightarrow> Tables \<Rightarrow> (unit \<times> Tables) res" where
  "Server_WriteDynamicData ser request db = bindE (WriteDynamicDataImpl ser request db) (\<lambda>db'. Inr ((), db'))"

definition Server_ReadData :: "(bytes \<Rightarrow> bool \<times> Field) \<Rightarrow> RecordId \<Rightarrow> Tables \<Rightarrow> (Field \<times> Tables) res" where
  "Server_ReadData parse request db = bindE (ReadDataImpl parse request db) (\<lambda>reply. Inr (reply, db))"

definition Server_Clear :: "u32 \<Rightarrow> Tables \<Rightarrow> (unit \<times> Tables) res" where
  "Server_Clear request db = Inr ((), ClearIntermediateCalculationsImpl request db)"

section \<open>The client\<close>

type_synonym ('req, 'rep) stub = "'req \<Rightarrow> Tables \<Rightarrow> (bool \<times> 'rep) \<times> Tables"

definition rpc_served :: "('req \<Rightarrow> Tables \<Rightarrow> ('rep \<times> Tables) res) \<Rightarrow> 'rep \<Rightarrow> ('req, 'rep) stub \<Rightarrow> bool" where
  "rpc_served handler dflt stub \<longleftrightarrow> (\<forall>req db. stub req db = (case handler req db of
     Inr (reply, db') \<Rightarrow> ((True, reply), db')
   | Inl _ \<Rightarrow> ((False, dflt), db)))"

datatype ClientRecordId = RecordName string | DynRecordId size_t size_t

definition ExprResult_to_Field :: "ExprResult \<Rightarrow> Field" where
  "ExprResult_to_Field r = (case r of RScalar x \<Rightarrow> FieldScalar x | RList l \<Rightarrow> FieldList l)"

definition RecordIdVisitor :: "ClientRecordId \<Rightarrow> RecordId" where
  "RecordIdVisitor rid = (case rid of
     RecordName identifier \<Rightarrow> StaticId identifier
   | DynRecordId problem_id task_id \<Rightarrow> DynamicId (to_u32 problem_id) (to_u32 task_id))"

definition BuildWriteRequest :: "size_t \<Rightarrow> size_t \<Rightarrow> ExprResult \<Rightarrow> DynamicRecord" where
  "BuildWriteRequest problem_id task_id expr_result =
     \<lparr>dr_problem = to_u32 problem_id, dr_task = to_u32 task_id, dr_field = ExprResult_to_Field expr_result\<rparr>"

text \<open>The status of the call is not looked at.\<close>

definition Client_WriteDynamicData ::
  "(DynamicRecord, unit) stub \<Rightarrow> size_t \<Rightarrow> size_t \<Rightarrow> ExprResult \<Rightarrow> Tables \<Rightarrow> Tables" where
  "Client_WriteDynamicData stub problem_id task_id expr_result db =
     snd (stub (BuildWriteRequest problem_id task_id expr_result) db)"

definition Client_ReadData :: "(RecordId, Field) stub \<Rightarrow> ClientRecordId \<Rightarrow> Tables \<Rightarrow> ExprResult res \<times> Tables" where
  "Client_ReadData stub record_id db =
     (let ((status, reply), db') = stub (RecordIdVisitor record_id) db
      in (case reply of
            FieldScalar x \<Rightarrow> Inr (RScalar x)
          | FieldList l \<Rightarrow> Inr (RList l)
          | FieldNotSet \<Rightarrow> Inl (LogicError ''Invalid message''), db'))"

definition Client_Clear :: "(u32, unit) stub \<Rightarrow> size_t \<Rightarrow> Tables \<Rightarrow> Tables" where
  "Client_Clear stub problem_id db = snd (stub (to_u32 problem_id) db)"

section \<open>The store as its clients see it\<close>

text \<open>
  A keyed store in which a key is written once until its group is cleared. Writing again
  fails, so clients that ignore failures still read the first value.
\<close>

locale record_store =
  fixes put :: "'k \<Rightarrow> 'v \<Rightarrow> 's \<Rightarrow> 's res" and fetch :: "'k \<Rightarrow> 's \<Rightarrow> 'v res"
    and purge :: "'g \<Rightarrow> 's \<Rightarrow> 's" and group_of :: "'k \<Rightarrow> 'g"
    and present :: "'k \<Rightarrow> 's \<Rightarrow> bool" and storable :: "'v \<Rightarrow> bool"
  assumes write_ok: "\<not> present k s \<Longrightarrow> \<exists>s'. put k v s = Inr s'"
    and write_present: "present k s \<Longrightarrow> \<exists>err. put k v s = Inl err"
    and present_write: "put k v s = Inr s' \<Longrightarrow> present k' s' \<longleftrightarrow> k' = k \<or> present k' s"
    and read_write: "put k v s = Inr s' \<Longrightarrow> storable v \<Longrightarrow> fetch k s' = Inr v"
    and read_write_other: "put k v s = Inr s' \<Longrightarrow> k' \<noteq> k \<Longrightarrow> fetch k' s' = fetch k' s"
    and read_absent: "\<not> present k s \<Longrightarrow> \<exists>err. fetch k s = Inl err"
    and present_clear: "present k (purge g s) \<longleftrightarrow> present k s \<and> group_of k \<noteq> g"
    and read_clear: "group_of k \<noteq> g \<Longrightarrow> fetch k (purge g s) = fetch k s"
begin

text \<open>A write whose failure is ignored.\<close>

definition try_write :: "'k \<Rightarrow> 'v \<Rightarrow> 's \<Rightarrow> 's" where
  "try_write k v s = (case put k v s of Inl _ \<Rightarrow> s | Inr s' \<Rightarrow> s')"

lemma try_write_fresh: "\<not> present k s \<Longrightarrow> storable v \<Longrightarrow> fetch k (try_write k v s) = Inr v"
  using write_ok [of k s v] read_write by (auto simp: try_write_def)

lemma present_try_write: "present k' (try_write k v s) \<longleftrightarrow> k' = k \<or> present k' s"
  using write_ok [of k s v] write_present [of k s v] present_write [of k v s]
  by (cases "present k s") (auto simp: try_write_def)

lemma try_write_keeps: "present k s \<Longrightarrow> fetch k (try_write k' v s) = fetch k s"
  using write_present [of k s v] read_write_other [of k' v s _ k]
  by (cases "k' = k") (auto simp: try_write_def split: sum.splits)

lemma tries_keep: "present k s \<Longrightarrow> fetch k (fold (\<lambda>(k, v). try_write k v) ws s) = fetch k s"
  by (induction ws arbitrary: s) (auto simp: try_write_keeps present_try_write)

lemma first_write_wins:
  "storable v \<Longrightarrow>
   fetch k (fold (\<lambda>(k, v). try_write k v) ws (try_write k v s)) =
     (if present k s then fetch k s else Inr v)"
  by (simp add: tries_keep present_try_write try_write_keeps try_write_fresh)

end

text \<open>The server's tables are such a store, for any serialiser and parser.\<close>

definition row_key :: "DynamicRecord \<Rightarrow> u32 \<times> u32" where
  "row_key r = (dr_problem r, dr_task r)"

definition record_at :: "u32 \<times> u32 \<Rightarrow> Field \<Rightarrow> DynamicRecord" where
  "record_at k f = \<lparr>dr_problem = fst k, dr_task = snd k, dr_field = f\<rparr>"

definition read_at :: "(bytes \<Rightarrow> bool \<times> Field) \<Rightarrow> u32 \<times> u32 \<Rightarrow> Tables \<Rightarrow> Field res" where
  "read_at parse k db = ReadDataImpl parse (DynamicId (fst k) (snd k)) db"

interpretation tables: record_store "\<lambda>k f. WriteDynamicDataImpl ser (record_at k f)" "read_at parse"
  ClearIntermediateCalculationsImpl fst "\<lambda>k db. dynamic_data db k \<noteq> None"
  "\<lambda>f. parse (ser f) = (True, f)" for ser parse
  by unfold_locales
    (auto simp: WriteDynamicDataImpl_def record_at_def read_at_def ReadDataImpl_def Let_def
      ClearIntermediateCalculationsImpl_def split: if_splits)

section \<open>Client and server together\<close>

text \<open>What a reply field means to the client.\<close>

definition Field_to_ExprResult :: "Field \<Rightarrow> ExprResult res" where
  "Field_to_ExprResult f = (case f of
     FieldScalar x \<Rightarrow> Inr (RScalar x)
   | FieldList l \<Rightarrow> Inr (RList l)
   | FieldNotSet \<Rightarrow> Inl (LogicError ''Invalid message''))"

lemma Field_roundtrip [simp]: "Field_to_ExprResult (ExprResult_to_Field r) = Inr r"
  by (cases r) (simp_all add: Field_to_ExprResult_def ExprResult_to_Field_def)

lemma Field_to_ExprResult_NotSet [simp]:
  "Field_to_ExprResult FieldNotSet = Inl (LogicError ''Invalid message'')"
  by (simp add: Field_to_ExprResult_def)

lemma Client_ReadData_stub:
  "Client_ReadData stub rid db =
     (Field_to_ExprResult (snd (fst (stub (RecordIdVisitor rid) db))), snd (stub (RecordIdVisitor rid) db))"
  by (simp add: Client_ReadData_def Field_to_ExprResult_def split_beta)

lemma Client_ReadData_served:
  "rpc_served (Server_ReadData parse) FieldNotSet stub \<Longrightarrow>
   Client_ReadData stub rid db =
     (case ReadDataImpl parse (RecordIdVisitor rid) db of
        Inl _ \<Rightarrow> Inl (LogicError ''Invalid message'') | Inr f \<Rightarrow> Field_to_ExprResult f, db)"
  by (simp add: Client_ReadData_stub rpc_served_def Server_ReadData_def bindE_def split: sum.splits)

lemma BuildWriteRequest_record_at:
  "BuildWriteRequest problem_id task_id r =
     record_at (to_u32 problem_id, to_u32 task_id) (ExprResult_to_Field r)"
  by (simp add: BuildWriteRequest_def record_at_def)

lemma Client_Write_served:
  "rpc_served (Server_WriteDynamicData ser) () stub \<Longrightarrow>
   Client_WriteDynamicData stub problem_id task_id r =
     tables.try_write ser (to_u32 problem_id, to_u32 task_id) (ExprResult_to_Field r)"
  by (rule ext) (simp add: Client_WriteDynamicData_def rpc_served_def Server_WriteDynamicData_def
      BuildWriteRequest_record_at tables.try_write_def bindE_def split: sum.splits)

lemma Client_Clear_served:
  "rpc_served Server_Clear () stub \<Longrightarrow>
   Client_Clear stub problem_id db = ClearIntermediateCalculationsImpl (to_u32 problem_id) db"
  by (simp add: Client_Clear_def rpc_served_def Server_Clear_def)

text \<open>The stubs of one client, all served by the same server.\<close>

record DbStubs =
  write_stub :: "(DynamicRecord, unit) stub"
  read_stub :: "(RecordId, Field) stub"
  clear_stub :: "(u32, unit) stub"

definition db_served :: "(Field \<Rightarrow> bytes) \<Rightarrow> (bytes \<Rightarrow> bool \<times> Field) \<Rightarrow> DbStubs \<Rightarrow> bool" where
  "db_served ser parse st \<longleftrightarrow> rpc_served (Server_WriteDynamicData ser) () (write_stub st) \<and>
     rpc_served (Server_ReadData parse) FieldNotSet (read_stub st) \<and>
     rpc_served Server_Clear () (clear_stub st)"

lemma db_servedD:
  assumes "db_served ser parse st"
  shows "rpc_served (Server_WriteDynamicData ser) () (write_stub st)"
    and "rpc_served (Server_ReadData parse) FieldNotSet (read_stub st)"
    and "rpc_served Server_Clear () (clear_stub st)"
  using assms by (simp_all add: db_served_def)

definition field_codec_ok :: "(Field \<Rightarrow> bytes) \<Rightarrow> (bytes \<Rightarrow> bool \<times> Field) \<Rightarrow> bool" where
  "field_codec_ok ser parse \<longleftrightarrow> (\<forall>f. parse (ser f) = (True, f))"

lemma Client_read_present:
  assumes "rpc_served (Server_ReadData parse) FieldNotSet stub"
    and "read_at parse (to_u32 problem_id, to_u32 task_id) db = Inr (ExprResult_to_Field r)"
  shows "Client_ReadData stub (DynRecordId problem_id task_id) db = (Inr r, db)"
  using assms(2) by (simp add: Client_ReadData_served [OF assms(1)] RecordIdVisitor_def read_at_def)

text \<open>
  C19. The first result written under a task's key since the key was last cleared is what every
  later read returns, whatever is written since, for the same or other tasks: if the key holds
  no record, the value written; if it holds one, the write is lost without a word and reads
  return what they returned before.
\<close>

theorem dynamic_roundtrip:
  assumes w: "rpc_served (Server_WriteDynamicData ser) () wstub"
    and r: "rpc_served (Server_ReadData parse) FieldNotSet rstub"
    and codec: "field_codec_ok ser parse"
  shows "fst (Client_ReadData rstub (DynRecordId problem_id task_id)
           (fold (\<lambda>(p, t, x). Client_WriteDynamicData wstub p t x) later
             (Client_WriteDynamicData wstub problem_id task_id v db))) =
         (if dynamic_data db (to_u32 problem_id, to_u32 task_id) = None then Inr v
          else fst (Client_ReadData rstub (DynRecordId problem_id task_id) db))"
proof -
  let ?k = "(to_u32 problem_id, to_u32 task_id)" and ?f = "ExprResult_to_Field v"
  let ?ws = "map (\<lambda>(p, t, x). ((to_u32 p, to_u32 t), ExprResult_to_Field x)) later"
  have "fold (\<lambda>(p, t, x). Client_WriteDynamicData wstub p t x) later s =
      fold (\<lambda>(k, f). tables.try_write ser k f) ?ws s" for s
    by (induction later arbitrary: s) (auto simp: Client_Write_served [OF w])
  moreover have "read_at parse ?k (fold (\<lambda>(k, f). tables.try_write ser k f) ?ws
      (tables.try_write ser ?k ?f db)) = (if dynamic_data db ?k \<noteq> None then read_at parse ?k db else Inr ?f)"
    by (rule tables.first_write_wins) (use codec in \<open>auto simp: field_codec_ok_def\<close>)
  ultimately show ?thesis
    by (auto simp: Client_ReadData_served [OF r] Client_Write_served [OF w] RecordIdVisitor_def read_at_def)
qed

text \<open>
  Clearing a problem removes the results of its tasks, so that reading one throws, and
  leaves the results of every other problem and the static data as they were.
\<close>

theorem clear_removes_problem:
  assumes c: "rpc_served Server_Clear () cstub"
    and r: "rpc_served (Server_ReadData parse) FieldNotSet rstub"
  shows "fst (Client_ReadData rstub (DynRecordId problem_id task_id) (Client_Clear cstub problem_id db))
           = Inl (LogicError ''Invalid message'')
       \<and> (to_u32 other \<noteq> to_u32 problem_id \<longrightarrow>
           fst (Client_ReadData rstub (DynRecordId other task_id) (Client_Clear cstub problem_id db))
           = fst (Client_ReadData rstub (DynRecordId other task_id) db))
       \<and> fst (Client_ReadData rstub (RecordName x) (Client_Clear cstub problem_id db))
           = fst (Client_ReadData rstub (RecordName x) db)"
  by (simp add: Client_Clear_served [OF c] Client_ReadData_served [OF r] RecordIdVisitor_def
      ReadDataImpl_def ClearIntermediateCalculationsImpl_def)

text \<open>
  Two task results share a database record exactly when their problem numbers and their
  task numbers agree in the low 32 bits.
\<close>

theorem record_ids_truncated:
  "RecordIdVisitor (DynRecordId p t) = RecordIdVisitor (DynRecordId p' t') \<longleftrightarrow>
   unat p mod 2 ^ 32 = unat p' mod 2 ^ 32 \<and> unat t mod 2 ^ 32 = unat t' mod 2 ^ 32"
  by (simp add: RecordIdVisitor_def word_unat_eq_iff unat_to_u32)

text \<open>
  C29. Reading fails with "Invalid message" when no record has the key, when the bytes of a
  dynamic record do not parse, or when neither a scalar nor a list is set; a static record
  whose bytes do not parse yields whatever the parser had filled in by then.
\<close>

theorem ReadData_errors:
  assumes r: "rpc_served (Server_ReadData parse) FieldNotSet rstub"
  shows "fst (Client_ReadData rstub (DynRecordId problem_id task_id) db) =
           (case dynamic_data db (to_u32 problem_id, to_u32 task_id) of
              None \<Rightarrow> Inl (LogicError ''Invalid message'')
            | Some b \<Rightarrow> if fst (parse b) then Field_to_ExprResult (snd (parse b))
                else Inl (LogicError ''Invalid message''))
       \<and> fst (Client_ReadData rstub (RecordName x) db) =
           (case static_data db x of
              None \<Rightarrow> Inl (LogicError ''Invalid message'')
            | Some b \<Rightarrow> Field_to_ExprResult (snd (parse b)))"
  by (simp add: Client_ReadData_served [OF r] RecordIdVisitor_def ReadDataImpl_def split_beta
      split: option.splits)

section \<open>Witnesses\<close>

text \<open>A serialiser in unary, its parser, and stubs that call the handlers.\<close>

definition unary_int :: "int \<Rightarrow> bytes" where
  "unary_int x = replicate (nat x) CHR ''+'' @ replicate (nat (- x)) CHR ''-'' @ '',''"

fun parse_ints :: "int \<Rightarrow> bytes \<Rightarrow> int list" where
  "parse_ints acc [] = []"
| "parse_ints acc (c # cs) =
     (if c = CHR '','' then acc # parse_ints 0 cs
      else if c = CHR ''+'' then parse_ints (acc + 1) cs else parse_ints (acc - 1) cs)"

definition unary_ser :: "Field \<Rightarrow> bytes" where
  "unary_ser f = (case f of
     FieldNotSet \<Rightarrow> []
   | FieldScalar x \<Rightarrow> CHR ''s'' # unary_int x
   | FieldList l \<Rightarrow> CHR ''l'' # concat (map unary_int l))"

definition unary_parse :: "bytes \<Rightarrow> bool \<times> Field" where
  "unary_parse b = (case b of
     [] \<Rightarrow> (True, FieldNotSet)
   | c # cs \<Rightarrow> if c = CHR ''l'' then (True, FieldList (parse_ints 0 cs))
       else if c = CHR ''s'' \<and> length (parse_ints 0 cs) = 1 then (True, FieldScalar (hd (parse_ints 0 cs)))
       else (False, FieldNotSet))"

lemma parse_ints_plus: "parse_ints a (replicate n CHR ''+'' @ s) = parse_ints (a + int n) s"
  by (induction n arbitrary: a) (simp_all add: algebra_simps)

lemma parse_ints_minus: "parse_ints a (replicate n CHR ''-'' @ s) = parse_ints (a - int n) s"
  by (induction n arbitrary: a) (simp_all add: algebra_simps)

lemma parse_unary_int [simp]: "parse_ints 0 (unary_int x @ s) = x # parse_ints 0 s"
  by (simp add: unary_int_def parse_ints_plus parse_ints_minus)

lemma parse_unary_ints [simp]: "parse_ints 0 (concat (map unary_int l)) = l"
  by (induction l) simp_all

lemma unary_codec: "field_codec_ok unary_ser unary_parse"
  using parse_unary_int [of _ "[]"]
  by (auto simp: field_codec_ok_def unary_ser_def unary_parse_def split: Field.splits)

definition call_handler :: "('req \<Rightarrow> Tables \<Rightarrow> ('rep \<times> Tables) res) \<Rightarrow> 'rep \<Rightarrow> ('req, 'rep) stub" where
  "call_handler handler dflt req db = (case handler req db of
     Inr (reply, db') \<Rightarrow> ((True, reply), db') | Inl _ \<Rightarrow> ((False, dflt), db))"

lemma call_handler_served: "rpc_served handler dflt (call_handler handler dflt)"
  by (simp add: rpc_served_def call_handler_def)

definition local_stubs :: DbStubs where
  "local_stubs = \<lparr>write_stub = call_handler (Server_WriteDynamicData unary_ser) (),
     read_stub = call_handler (Server_ReadData unary_parse) FieldNotSet,
     clear_stub = call_handler Server_Clear ()\<rparr>"

lemma local_stubs_served: "db_served unary_ser unary_parse local_stubs"
  by (simp add: db_served_def local_stubs_def call_handler_served)

definition sample_tables :: Tables where
  "sample_tables = \<lparr>static_data = [''A'' \<mapsto> unary_ser (FieldList [3, - 1]), ''b'' \<mapsto> ''?''],
     dynamic_data = [(2, 0) \<mapsto> unary_ser (FieldScalar 4)]\<rparr>"

theorem dynamic_roundtrip_witness:
  "fst (Client_ReadData (call_handler (Server_ReadData unary_parse) FieldNotSet) (DynRecordId 1 0)
     (fold (\<lambda>(p, t, x). Client_WriteDynamicData (call_handler (Server_WriteDynamicData unary_ser) ()) p t x)
       [(1, 0, RScalar 9), (1, 1, RScalar 9)]
       (Client_WriteDynamicData (call_handler (Server_WriteDynamicData unary_ser) ()) 1 0 (RList [7, - 2])
         sample_tables))) = Inr (RList [7, - 2]) \<and>
   fst (Client_ReadData (call_handler (Server_ReadData unary_parse) FieldNotSet) (DynRecordId 2 0)
     (Client_WriteDynamicData (call_handler (Server_WriteDynamicData unary_ser) ()) 2 0 (RScalar 5)
       sample_tables)) = Inr (RScalar 4)"
proof -
  note first = dynamic_roundtrip [OF call_handler_served call_handler_served unary_codec, where db = sample_tables]
  have "fst (Client_ReadData (call_handler (Server_ReadData unary_parse) FieldNotSet) (DynRecordId 2 0)
      sample_tables) = Inr (RScalar 4)"
    using Client_read_present [OF call_handler_served, of unary_parse 2 0 sample_tables "RScalar 4"] unary_codec
    by (simp add: read_at_def ReadDataImpl_def sample_tables_def to_u32_def field_codec_ok_def ExprResult_to_Field_def)
  moreover have "dynamic_data sample_tables (to_u32 1, to_u32 0) = None"
    "dynamic_data sample_tables (to_u32 2, to_u32 0) \<noteq> None"
    by (simp_all add: sample_tables_def to_u32_def)
  ultimately show ?thesis
    using first [of 1 0 "[(1, 0, RScalar 9), (1, 1, RScalar 9)]" "RList [7, - 2]"]
      first [of 2 0 "[]" "RScalar 5"] by simp
qed

theorem clear_removes_problem_witness:
  "fst (Client_ReadData (call_handler (Server_ReadData unary_parse) FieldNotSet) (DynRecordId 2 0)
     (Client_Clear (call_handler Server_Clear ()) 2 sample_tables)) = Inl (LogicError ''Invalid message'')"
  using clear_removes_problem [OF call_handler_served call_handler_served, of unary_parse 2 0 sample_tables]
  by blast

theorem ReadData_errors_witness:
  "fst (Client_ReadData (call_handler (Server_ReadData unary_parse) FieldNotSet) (RecordName ''c'') sample_tables)
     = Inl (LogicError ''Invalid message'')"
  using ReadData_errors [OF call_handler_served, of unary_parse 1 1 sample_tables "''c''"]
  by (simp add: sample_tables_def)

end
