(* ===== verification/Expression.thy ===== *)
theory Expression
  imports Domain
begin

text \<open>
  \<open>manager/src/decomposition/expression.{h,cpp}\<close>, \<open>ast.{h,cpp}\<close> and
  \<open>expression_visitors.{h,cpp}\<close>: the expression classes, their factory, the reader of a
  parsed JSON document and the visitors. A \<open>unique_ptr<Expr>\<close> is an \<open>Expr option\<close>, \<open>None\<close>
  the null pointer; following a null pointer is undefined behaviour.
\<close>

section \<open>The expression classes\<close>

datatype ReduceExpr_Type = RE_min | RE_max | RE_mul | RE_sum | RE_size
datatype MapExpr_Type = ME_add | ME_mul | ME_div
datatype ListOpExpr_Type = LO_add | LO_mul | LO_div | LO_dot
datatype ScalarOpExpr_Type = SO_add | SO_mul | SO_div | SO_max | SO_min

datatype Expr =
    ReduceExpr ReduceExpr_Type "Expr option"
  | MapExpr MapExpr_Type "Expr option" "Expr option"
  | ListOpExpr ListOpExpr_Type "Expr option" "Expr option"
  | ScalarOpExpr ScalarOpExpr_Type "Expr option" "Expr option"
  | ListExpr VariableId
  | ScalarConstExpr int
  | ScalarVarExpr VariableId

datatype ExprData = Monostate | DataVariable VariableId | DataScalar int

fun GetType_reduce :: "ReduceExpr_Type \<Rightarrow> ExprType" where
  "GetType_reduce RE_min = re_min"
| "GetType_reduce RE_max = re_max"
| "GetType_reduce RE_mul = re_mul"
| "GetType_reduce RE_sum = re_sum"
| "GetType_reduce RE_size = re_size"

fun GetType_map :: "MapExpr_Type \<Rightarrow> ExprType" where
  "GetType_map ME_mul = me_mul"
| "GetType_map ME_add = me_add"
| "GetType_map ME_div = me_div"

fun GetType_listop :: "ListOpExpr_Type \<Rightarrow> ExprType" where
  "GetType_listop LO_mul = lo_mul"
| "GetType_listop LO_add = lo_add"
| "GetType_listop LO_div = lo_div"
| "GetType_listop LO_dot = lo_dot"

fun GetType_scalarop :: "ScalarOpExpr_Type \<Rightarrow> ExprType" where
  "GetType_scalarop SO_mul = so_mul"
| "GetType_scalarop SO_add = so_add"
| "GetType_scalarop SO_div = so_div"
| "GetType_scalarop SO_max = so_max"
| "GetType_scalarop SO_min = so_min"

fun GetType :: "Expr \<Rightarrow> ExprType" where
  "GetType (ReduceExpr t _) = GetType_reduce t"
| "GetType (MapExpr t _ _) = GetType_map t"
| "GetType (ListOpExpr t _ _) = GetType_listop t"
| "GetType (ScalarOpExpr t _ _) = GetType_scalarop t"
| "GetType (ListExpr _) = list_t"
| "GetType (ScalarConstExpr _) = scalar_const"
| "GetType (ScalarVarExpr _) = scalar_var"

fun GetLhs :: "Expr \<Rightarrow> Expr option" where
  "GetLhs (ReduceExpr _ operand) = operand"
| "GetLhs (MapExpr _ lhs _) = lhs"
| "GetLhs (ListOpExpr _ lhs _) = lhs"
| "GetLhs (ScalarOpExpr _ lhs _) = lhs"
| "GetLhs _ = None"

fun GetRhs :: "Expr \<Rightarrow> Expr option" where
  "GetRhs (MapExpr _ _ rhs) = rhs"
| "GetRhs (ListOpExpr _ _ rhs) = rhs"
| "GetRhs (ScalarOpExpr _ _ rhs) = rhs"
| "GetRhs _ = None"

fun GetData :: "Expr \<Rightarrow> ExprData" where
  "GetData (ListExpr l) = DataVariable l"
| "GetData (ScalarConstExpr x) = DataScalar x"
| "GetData (ScalarVarExpr x) = DataVariable x"
| "GetData _ = Monostate"

text \<open>
  \<open>operator==\<close>: \<open>false\<close> on different classes; otherwise the class's own fields, the operands
  compared by dereferencing both pointers, left to right and only while all was equal so far.
\<close>

fun eq_Expr :: "Expr \<Rightarrow> Expr \<Rightarrow> bool res"
  and eq_deref :: "Expr option \<Rightarrow> Expr option \<Rightarrow> bool res" where
  "eq_Expr (ReduceExpr t a) (ReduceExpr t' a') = (if t = t' then eq_deref a a' else Inr False)"
| "eq_Expr (MapExpr t a b) (MapExpr t' a' b') =
     (if t = t' then bindE (eq_deref a a') (\<lambda>q. if q then eq_deref b b' else Inr False)
      else Inr False)"
| "eq_Expr (ListOpExpr t a b) (ListOpExpr t' a' b') =
     (if t = t' then bindE (eq_deref a a') (\<lambda>q. if q then eq_deref b b' else Inr False)
      else Inr False)"
| "eq_Expr (ScalarOpExpr t a b) (ScalarOpExpr t' a' b') =
     (if t = t' then bindE (eq_deref a a') (\<lambda>q. if q then eq_deref b b' else Inr False)
      else Inr False)"
| "eq_Expr (ListExpr l) (ListExpr l') = Inr (l = l')"
| "eq_Expr (ScalarConstExpr x) (ScalarConstExpr x') = Inr (x = x')"
| "eq_Expr (ScalarVarExpr x) (ScalarVarExpr x') = Inr (x = x')"
| "eq_Expr _ _ = Inr False"
| "eq_deref (Some a) (Some b) = eq_Expr a b"
| "eq_deref _ _ = Inl UndefinedBehaviour"

text \<open>
  \<open>PostorderTraverse\<close> with a visitor whose \<open>Visit\<close> updates its own state.
\<close>

fun PostorderTraverse :: "(Expr \<Rightarrow> 'v \<Rightarrow> 'v res) \<Rightarrow> Expr \<Rightarrow> 'v \<Rightarrow> 'v res"
  and traverse_ptr :: "(Expr \<Rightarrow> 'v \<Rightarrow> 'v res) \<Rightarrow> Expr option \<Rightarrow> 'v \<Rightarrow> 'v res" where
  "PostorderTraverse Visit (ReduceExpr t a) v =
     bindE (traverse_ptr Visit a v) (Visit (ReduceExpr t a))"
| "PostorderTraverse Visit (MapExpr t a b) v =
     bindE (traverse_ptr Visit a v) (\<lambda>v. bindE (traverse_ptr Visit b v) (Visit (MapExpr t a b)))"
| "PostorderTraverse Visit (ListOpExpr t a b) v =
     bindE (traverse_ptr Visit a v) (\<lambda>v. bindE (traverse_ptr Visit b v) (Visit (ListOpExpr t a b)))"
| "PostorderTraverse Visit (ScalarOpExpr t a b) v =
     bindE (traverse_ptr Visit a v) (\<lambda>v. bindE (traverse_ptr Visit b v) (Visit (ScalarOpExpr t a b)))"
| "PostorderTraverse Visit (ListExpr l) v = Visit (ListExpr l) v"
| "PostorderTraverse Visit (ScalarConstExpr x) v = Visit (ScalarConstExpr x) v"
| "PostorderTraverse Visit (ScalarVarExpr x) v = Visit (ScalarVarExpr x) v"
| "traverse_ptr Visit None v = Inl UndefinedBehaviour"
| "traverse_ptr Visit (Some e) v = PostorderTraverse Visit e v"

section \<open>The factory\<close>

definition opt_value :: "'a option \<Rightarrow> 'a res" where
  "opt_value x = (case x of None \<Rightarrow> Inl BadOptionalAccess | Some y \<Rightarrow> Inr y)"

fun Expr_New :: "ExprType \<Rightarrow> Expr option \<Rightarrow> Expr option \<Rightarrow> VariableId option \<Rightarrow> int option \<Rightarrow> Expr res" where
  "Expr_New re_min op1 op2 var_id x = Inr (ReduceExpr RE_min op1)"
| "Expr_New re_max op1 op2 var_id x = Inr (ReduceExpr RE_max op1)"
| "Expr_New re_mul op1 op2 var_id x = Inr (ReduceExpr RE_mul op1)"
| "Expr_New re_sum op1 op2 var_id x = Inr (ReduceExpr RE_sum op1)"
| "Expr_New re_size op1 op2 var_id x = Inr (ReduceExpr RE_size op1)"
| "Expr_New me_add op1 op2 var_id x = Inr (MapExpr ME_add op1 op2)"
| "Expr_New me_mul op1 op2 var_id x = Inr (MapExpr ME_mul op1 op2)"
| "Expr_New me_div op1 op2 var_id x = Inr (MapExpr ME_div op1 op2)"
| "Expr_New lo_add op1 op2 var_id x = Inr (ListOpExpr LO_add op1 op2)"
| "Expr_New lo_mul op1 op2 var_id x = Inr (ListOpExpr LO_mul op1 op2)"
| "Expr_New lo_div op1 op2 var_id x = Inr (ListOpExpr LO_div op1 op2)"
| "Expr_New lo_dot op1 op2 var_id x = Inr (ListOpExpr LO_dot op1 op2)"
| "Expr_New list_t op1 op2 var_id x = bindE (opt_value var_id) (\<lambda>v. Inr (ListExpr v))"
| "Expr_New scalar_const op1 op2 var_id x = bindE (opt_value x) (\<lambda>c. Inr (ScalarConstExpr c))"
| "Expr_New scalar_var op1 op2 var_id x = bindE (opt_value var_id) (\<lambda>v. Inr (ScalarVarExpr v))"
| "Expr_New so_add op1 op2 var_id x = Inr (ScalarOpExpr SO_add op1 op2)"
| "Expr_New so_mul op1 op2 var_id x = Inr (ScalarOpExpr SO_mul op1 op2)"
| "Expr_New so_div op1 op2 var_id x = Inr (ScalarOpExpr SO_div op1 op2)"
| "Expr_New so_max op1 op2 var_id x = Inr (ScalarOpExpr SO_max op1 op2)"
| "Expr_New so_min op1 op2 var_id x = Inr (ScalarOpExpr SO_min op1 op2)"
| "Expr_New invalid op1 op2 var_id x = Inl (InvalidArgument ''Invalid can not be passed to factory'')"

definition STRING_TO_EXPR_TYPE :: "(string, ExprType) umap" where
  "STRING_TO_EXPR_TYPE =
     [(''invalid'', invalid),
      (''re_min'', re_min), (''re_max'', re_max), (''re_mul'', re_mul),
      (''re_sum'', re_sum), (''re_size'', re_size),
      (''me_add'', me_add), (''me_mul'', me_mul), (''me_div'', me_div),
      (''lo_add'', lo_add), (''lo_mul'', lo_mul), (''lo_div'', lo_div), (''lo_dot'', lo_dot),
      (''so_add'', so_add), (''so_mul'', so_mul), (''so_div'', so_div),
      (''so_max'', so_max), (''so_min'', so_min),
      (''list'', list_t), (''scalar_const'', scalar_const), (''scalar_var'', scalar_var)]"

section \<open>Reading an expression from JSON\<close>

text \<open>
  A JSON document as \<open>nlohmann::json\<close> holds it: the members of an object in the order of
  their keys, so that \<open>begin\<close> is the member with the least key. Parsing text and reading a
  number as an \<open>int\<close> belong to the library; they are the parameters \<open>parse\<close> and \<open>get_int\<close>.
\<close>

datatype json =
    JNull
  | JBool bool
  | JInt int
  | JFloat string
  | JString string
  | JArray "json list"
  | JObject "(string \<times> json) list"

definition json_begin :: "json \<Rightarrow> (string \<times> json) res" where
  "json_begin j = (case j of
     JObject (m # _) \<Rightarrow> Inr m
   | JObject [] \<Rightarrow> Inl UndefinedBehaviour
   | _ \<Rightarrow> Inl JsonInvalidIterator)"

definition json_contains :: "json \<Rightarrow> string \<Rightarrow> bool" where
  "json_contains j k = (case j of JObject ms \<Rightarrow> map_of ms k \<noteq> None | _ \<Rightarrow> False)"

definition json_at :: "json \<Rightarrow> string \<Rightarrow> json res" where
  "json_at j k = (case j of
     JObject ms \<Rightarrow> (case map_of ms k of None \<Rightarrow> Inl JsonOutOfRange | Some v \<Rightarrow> Inr v)
   | _ \<Rightarrow> Inl JsonTypeError)"

definition json_get_string :: "json \<Rightarrow> string res" where
  "json_get_string j = (case j of JString s \<Rightarrow> Inr s | _ \<Rightarrow> Inl JsonTypeError)"

definition starts_with :: "string \<Rightarrow> string \<Rightarrow> bool" where
  "starts_with s p \<longleftrightarrow> take (length p) s = p"

lemma json_begin_size: "json_begin j = Inr (k, v) \<Longrightarrow> size v < size j"
  by (auto simp: json_begin_def split: json.splits list.splits)

lemma json_at_size: "json_at j k = Inr v \<Longrightarrow> size v < size j"
proof -
  assume "json_at j k = Inr v"
  then obtain ms where ms: "j = JObject ms" "map_of ms k = Some v"
    by (auto simp: json_at_def split: json.splits option.splits)
  from ms(2) have "(k, v) \<in> set ms" by (rule map_of_SomeD)
  then have "size v < size_list (size_prod (\<lambda>_. 0) size) ms"
    by (induction ms) auto
  with ms(1) show ?thesis by simp
qed

function FromJsonImpl :: "(json \<Rightarrow> int res) \<Rightarrow> json \<Rightarrow> Expr res" where
  "FromJsonImpl get_int j =
     bindE (json_begin j) (\<lambda>(key, node).
       if key = ''list'' then
         bindE (json_get_string node) (\<lambda>s. Expr_New list_t None None (Some s) None)
       else if starts_with key ''scalar'' then
         (if key = ''scalar_var'' then
            bindE (json_get_string node) (\<lambda>s. Expr_New scalar_var None None (Some s) None)
          else
            bindE (get_int node) (\<lambda>x. Expr_New scalar_const None None None (Some x)))
       else
         bindE (um_at STRING_TO_EXPR_TYPE key) (\<lambda>t.
         bindE (if json_contains node ''lhs''
                then bindE (json_at node ''lhs'') (\<lambda>n. bindE (FromJsonImpl get_int n) (\<lambda>e. Inr (Some e)))
                else Inr None) (\<lambda>lhs.
         bindE (if json_contains node ''rhs''
                then bindE (json_at node ''rhs'') (\<lambda>n. bindE (FromJsonImpl get_int n) (\<lambda>e. Inr (Some e)))
                else Inr None) (\<lambda>rhs.
         Expr_New t lhs rhs None None))))"
  by pat_completeness auto
termination
  by (relation "measure (\<lambda>(_, j). size j)") (auto dest!: json_begin_size json_at_size)

declare FromJsonImpl.simps [simp del]

definition Expr_FromJson :: "(string \<Rightarrow> json res) \<Rightarrow> (json \<Rightarrow> int res) \<Rightarrow> string \<Rightarrow> Expr res" where
  "Expr_FromJson parse get_int input =
     bindE (parse input) (\<lambda>json_ast. bindE (json_at json_ast ''ast'') (FromJsonImpl get_int))"

text \<open>The class \<open>AST\<close> owns the root; its traversal is the root's.\<close>

datatype AST = AST (root: "Expr option")

definition AST_FromJson :: "(string \<Rightarrow> json res) \<Rightarrow> (json \<Rightarrow> int res) \<Rightarrow> string \<Rightarrow> AST res" where
  "AST_FromJson parse get_int input = bindE (Expr_FromJson parse get_int input) (\<lambda>e. Inr (AST (Some e)))"

definition AST_PostorderTraverse :: "(Expr \<Rightarrow> 'v \<Rightarrow> 'v res) \<Rightarrow> AST \<Rightarrow> 'v \<Rightarrow> 'v res" where
  "AST_PostorderTraverse Visit ast v = traverse_ptr Visit (root ast) v"

section \<open>Visitors that print\<close>

text \<open>
  \<open>magic_enum\<close>'s stream operator writes the enumerator's identifier. An output stream is
  the text written so far.
\<close>

fun ExprType_name :: "ExprType \<Rightarrow> string" where
  "ExprType_name invalid = ''invalid''"
| "ExprType_name re_min = ''re_min''" | "ExprType_name re_max = ''re_max''"
| "ExprType_name re_mul = ''re_mul''" | "ExprType_name re_sum = ''re_sum''"
| "ExprType_name re_size = ''re_size''" | "ExprType_name me_add = ''me_add''"
| "ExprType_name me_mul = ''me_mul''" | "ExprType_name me_div = ''me_div''"
| "ExprType_name lo_add = ''lo_add''" | "ExprType_name lo_mul = ''lo_mul''"
| "ExprType_name lo_div = ''lo_div''" | "ExprType_name lo_dot = ''lo_dot''"
| "ExprType_name so_add = ''so_add''" | "ExprType_name so_mul = ''so_mul''"
| "ExprType_name so_div = ''so_div''" | "ExprType_name so_max = ''so_max''"
| "ExprType_name so_min = ''so_min''" | "ExprType_name list_t = ''list''"
| "ExprType_name scalar_const = ''scalar_const''" | "ExprType_name scalar_var = ''scalar_var''"

definition PrintVisitor_Visit :: "Expr \<Rightarrow> string \<Rightarrow> string res" where
  "PrintVisitor_Visit e output = Inr (output @ ExprType_name (GetType e) @ [CHR 0x0A])"

section \<open>Well-formed expressions\<close>

text \<open>No operand pointer is null.\<close>

fun wf_Expr :: "Expr \<Rightarrow> bool" and wf_ptr :: "Expr option \<Rightarrow> bool" where
  "wf_Expr (ReduceExpr t a) = wf_ptr a"
| "wf_Expr (MapExpr t a b) = (wf_ptr a \<and> wf_ptr b)"
| "wf_Expr (ListOpExpr t a b) = (wf_ptr a \<and> wf_ptr b)"
| "wf_Expr (ScalarOpExpr t a b) = (wf_ptr a \<and> wf_ptr b)"
| "wf_Expr (ListExpr l) = True"
| "wf_Expr (ScalarConstExpr x) = True"
| "wf_Expr (ScalarVarExpr x) = True"
| "wf_ptr None = False"
| "wf_ptr (Some e) = wf_Expr e"

lemma wf_ptr_iff: "wf_ptr p \<longleftrightarrow> (\<exists>e. p = Some e \<and> wf_Expr e)"
  by (cases p) auto

lemma eq_Expr_wf:
  "wf_Expr a \<Longrightarrow> wf_Expr b \<Longrightarrow> eq_Expr a b = Inr (a = b)"
  "wf_ptr p \<Longrightarrow> wf_ptr q \<Longrightarrow> eq_deref p q = Inr (p = q)"
  by (induction a b and p q rule: eq_Expr_eq_deref.induct) auto

text \<open>The operands in order, and the order in which a traversal visits the nodes.\<close>

definition operands :: "Expr \<Rightarrow> Expr list" where
  "operands e = (case GetLhs e of None \<Rightarrow> [] | Some l \<Rightarrow> [l]) @ (case GetRhs e of None \<Rightarrow> [] | Some r \<Rightarrow> [r])"

fun postorder :: "Expr \<Rightarrow> Expr list" and postorder_ptr :: "Expr option \<Rightarrow> Expr list" where
  "postorder (ReduceExpr t a) = postorder_ptr a @ [ReduceExpr t a]"
| "postorder (MapExpr t a b) = postorder_ptr a @ postorder_ptr b @ [MapExpr t a b]"
| "postorder (ListOpExpr t a b) = postorder_ptr a @ postorder_ptr b @ [ListOpExpr t a b]"
| "postorder (ScalarOpExpr t a b) = postorder_ptr a @ postorder_ptr b @ [ScalarOpExpr t a b]"
| "postorder (ListExpr l) = [ListExpr l]"
| "postorder (ScalarConstExpr x) = [ScalarConstExpr x]"
| "postorder (ScalarVarExpr x) = [ScalarVarExpr x]"
| "postorder_ptr None = []"
| "postorder_ptr (Some e) = postorder e"

lemma postorder_rec: "wf_Expr e \<Longrightarrow> postorder e = concat (map postorder (operands e)) @ [e]"
  by (cases e) (auto simp: operands_def wf_ptr_iff)

lemma postorder_last: "\<exists>xs. postorder e = xs @ [e]"
  by (cases e) auto

lemma self_in_postorder [simp, intro]: "e \<in> set (postorder e)"
  using postorder_last [of e] by auto

lemma operands_size: "o1 \<in> set (operands e) \<Longrightarrow> size o1 < size e"
  by (cases e) (auto simp: operands_def split: option.splits)

lemma wf_operands: "wf_Expr e \<Longrightarrow> o1 \<in> set (operands e) \<Longrightarrow> wf_Expr o1"
  by (cases e) (auto simp: operands_def wf_ptr_iff)

lemma postorder_wf:
  "wf_Expr e \<Longrightarrow> x \<in> set (postorder e) \<Longrightarrow> wf_Expr x"
  "wf_ptr p \<Longrightarrow> x \<in> set (postorder_ptr p) \<Longrightarrow> wf_Expr x"
  by (induction e and p rule: postorder_postorder_ptr.induct) auto

lemma postorder_operands:
  assumes "wf_Expr e" and "x \<in> set (postorder e)" and "y \<in> set (operands x)"
  shows "y \<in> set (postorder e)"
  using assms
proof (induction e rule: measure_induct_rule [of size])
  case (less e)
  note rec = postorder_rec [OF less.prems(1)]
  show ?case
  proof (cases "x = e")
    case True
    with less.prems(3) have "y \<in> set (concat (map postorder (operands e)))" by auto
    then show ?thesis by (simp add: rec)
  next
    case False
    with less.prems(2) rec obtain a where a: "a \<in> set (operands e)" "x \<in> set (postorder a)"
      by auto
    with less have "y \<in> set (postorder a)"
      by (auto dest: operands_size wf_operands)
    with a(1) show ?thesis by (auto simp: rec)
  qed
qed

lemma postorder_size: "x \<in> set (postorder e) \<Longrightarrow> x = e \<or> size x < size e"
  "x \<in> set (postorder_ptr p) \<Longrightarrow> size x < size_option size p"
  by (induction e and p rule: postorder_postorder_ptr.induct) fastforce+

lemma traverse_foldE:
  "wf_Expr e \<Longrightarrow> PostorderTraverse Visit e v = foldE Visit (postorder e) v"
  "wf_ptr p \<Longrightarrow> traverse_ptr Visit p v = foldE Visit (postorder_ptr p) v"
proof (induction Visit e v and Visit p v rule: PostorderTraverse_traverse_ptr.induct)
qed (auto simp: foldE_append bindE_assoc intro!: bindE_cong)

section \<open>The visitor interface\<close>

text \<open>
  What a traversal relies on of a visitor: on a well-formed node \<open>Visit\<close> returns, and keeps
  the visitor's invariant. Then a traversal of a well-formed expression returns, and one that
  meets a null operand ends in undefined behaviour.
\<close>

locale expr_visitor =
  fixes Visit :: "Expr \<Rightarrow> 'v \<Rightarrow> 'v res" and good :: "'v \<Rightarrow> bool"
  assumes visit_ok: "wf_Expr e \<Longrightarrow> good v \<Longrightarrow> \<exists>v'. Visit e v = Inr v' \<and> good v'"
begin

lemma traverse_ok:
  assumes "wf_Expr e" and "good v"
  shows "\<exists>v'. PostorderTraverse Visit e v = Inr v' \<and> good v'"
  unfolding traverse_foldE(1) [OF assms(1)]
  by (rule foldE_total) (auto intro: visit_ok postorder_wf(1) [OF assms(1)] assms(2))

lemma traverse_ptr_ok: "wf_ptr p \<Longrightarrow> good v \<Longrightarrow> \<exists>v'. traverse_ptr Visit p v = Inr v' \<and> good v'"
  by (cases p) (auto intro: traverse_ok)

lemma traverse_binary_malformed:
  assumes "\<not> (wf_ptr a \<and> wf_ptr b)" and "good v"
    and "\<And>v. good v \<Longrightarrow> \<not> wf_ptr a \<Longrightarrow> traverse_ptr Visit a v = Inl UndefinedBehaviour"
    and "\<And>v. good v \<Longrightarrow> \<not> wf_ptr b \<Longrightarrow> traverse_ptr Visit b v = Inl UndefinedBehaviour"
  shows "bindE (traverse_ptr Visit a v) (\<lambda>v. bindE (traverse_ptr Visit b v) k) = Inl UndefinedBehaviour"
proof (cases "wf_ptr a")
  case True
  with assms(2) obtain v' where "traverse_ptr Visit a v = Inr v'" "good v'"
    using traverse_ptr_ok by blast
  with assms(1,4) True show ?thesis by simp
qed (use assms in simp)

lemma traverse_malformed:
  "\<not> wf_Expr e \<Longrightarrow> good v \<Longrightarrow> PostorderTraverse Visit e v = Inl UndefinedBehaviour"
proof (induction e arbitrary: v rule: measure_induct_rule [of size])
  case (less e)
  have ptr: "traverse_ptr Visit p w = Inl UndefinedBehaviour"
    if "\<not> wf_ptr p" "good w" "\<And>x. p = Some x \<Longrightarrow> size x < size e" for p w
    using that less.IH by (cases p) auto
  show ?case
  proof (cases e)
    case (ReduceExpr t a)
    then show ?thesis using less.prems ptr [of a v] by simp
  qed (use less.prems in \<open>auto intro!: traverse_binary_malformed ptr\<close>)
qed

end

interpretation print_visitor: expr_visitor PrintVisitor_Visit "\<lambda>_. True"
  by unfold_locales (simp add: PrintVisitor_Visit_def)

lemma foldE_print:
  "foldE PrintVisitor_Visit es out = Inr (out @ concat (map (\<lambda>x. ExprType_name (GetType x) @ [CHR 0x0A]) es))"
  by (induction es arbitrary: out) (simp_all add: PrintVisitor_Visit_def)

section \<open>Writing an expression as JSON\<close>

fun to_json :: "Expr \<Rightarrow> json" and member_json :: "string \<Rightarrow> Expr option \<Rightarrow> (string \<times> json) list" where
  "to_json (ReduceExpr t a) = JObject [(ExprType_name (GetType_reduce t), JObject (member_json ''lhs'' a))]"
| "to_json (MapExpr t a b) =
     JObject [(ExprType_name (GetType_map t), JObject (member_json ''lhs'' a @ member_json ''rhs'' b))]"
| "to_json (ListOpExpr t a b) =
     JObject [(ExprType_name (GetType_listop t), JObject (member_json ''lhs'' a @ member_json ''rhs'' b))]"
| "to_json (ScalarOpExpr t a b) =
     JObject [(ExprType_name (GetType_scalarop t), JObject (member_json ''lhs'' a @ member_json ''rhs'' b))]"
| "to_json (ListExpr l) = JObject [(''list'', JString l)]"
| "to_json (ScalarConstExpr x) = JObject [(''scalar_const'', JInt x)]"
| "to_json (ScalarVarExpr x) = JObject [(''scalar_var'', JString x)]"
| "member_json k None = []"
| "member_json k (Some e) = [(k, to_json e)]"

text \<open>Every constant of the expression fits an \<open>int\<close>.\<close>

fun consts_ok :: "Expr \<Rightarrow> bool" and consts_ok_ptr :: "Expr option \<Rightarrow> bool" where
  "consts_ok (ReduceExpr t a) = consts_ok_ptr a"
| "consts_ok (MapExpr t a b) = (consts_ok_ptr a \<and> consts_ok_ptr b)"
| "consts_ok (ListOpExpr t a b) = (consts_ok_ptr a \<and> consts_ok_ptr b)"
| "consts_ok (ScalarOpExpr t a b) = (consts_ok_ptr a \<and> consts_ok_ptr b)"
| "consts_ok (ListExpr l) = True"
| "consts_ok (ScalarConstExpr x) = in_int x"
| "consts_ok (ScalarVarExpr x) = True"
| "consts_ok_ptr None = True"
| "consts_ok_ptr (Some e) = consts_ok e"

definition is_op :: "ExprType \<Rightarrow> bool" where
  "is_op t \<longleftrightarrow> t \<notin> {invalid, list_t, scalar_const, scalar_var}"

lemma ExprType_name_lookup [simp]: "map_of STRING_TO_EXPR_TYPE (ExprType_name t) = Some t"
  by (cases t) (simp_all add: STRING_TO_EXPR_TYPE_def)

lemma ExprType_name_op:
  "is_op t \<Longrightarrow> ExprType_name t \<noteq> ''list'' \<and> \<not> starts_with (ExprType_name t) ''scalar''"
  by (cases t) (simp_all add: is_op_def starts_with_def)

lemma is_op_GetType [simp]:
  "is_op (GetType_reduce t1)" "is_op (GetType_map t2)" "is_op (GetType_listop t3)"
  "is_op (GetType_scalarop t4)"
  by (cases t1; cases t2; cases t3; cases t4; simp add: is_op_def)+

text \<open>What the library must do for the round trip: read back an integer that fits.\<close>

definition get_int_spec :: "(json \<Rightarrow> int res) \<Rightarrow> bool" where
  "get_int_spec get_int \<longleftrightarrow> (\<forall>x. in_int x \<longrightarrow> get_int (JInt x) = Inr x)"

lemma FromJsonImpl_op:
  assumes "is_op t"
    and "\<And>e. a = Some e \<Longrightarrow> FromJsonImpl g (to_json e) = Inr e"
    and "\<And>e. b = Some e \<Longrightarrow> FromJsonImpl g (to_json e) = Inr e"
  shows "FromJsonImpl g (JObject [(ExprType_name t, JObject (member_json ''lhs'' a @ member_json ''rhs'' b))]) =
    Expr_New t a b None None"
  using assms(2,3) ExprType_name_op [OF assms(1)]
  by (cases a; cases b)
    (simp_all add: FromJsonImpl.simps [of g "JObject [_]"] json_begin_def json_contains_def json_at_def
      um_at_def)

lemmas FromJsonImpl_leaf =
  FromJsonImpl.simps [of _ "JObject [_]"] json_begin_def json_get_string_def starts_with_def
  opt_value_def

lemma Expr_New_GetType [simp]:
  "Expr_New (GetType_reduce t1) a b v x = Inr (ReduceExpr t1 a)"
  "Expr_New (GetType_map t2) a b v x = Inr (MapExpr t2 a b)"
  "Expr_New (GetType_listop t3) a b v x = Inr (ListOpExpr t3 a b)"
  "Expr_New (GetType_scalarop t4) a b v x = Inr (ScalarOpExpr t4 a b)"
  by ((cases t1; simp), (cases t2; simp), (cases t3; simp), (cases t4; simp))

lemma from_to_json:
  assumes "get_int_spec g"
  shows "consts_ok e \<Longrightarrow> FromJsonImpl g (to_json e) = Inr e"
proof (induction e rule: measure_induct_rule [of size])
  case (less e)
  have op: "FromJsonImpl g (JObject [(ExprType_name t, JObject (member_json ''lhs'' a @ member_json ''rhs'' b))]) =
      Expr_New t a b None None"
    if "is_op t" "consts_ok_ptr a" "consts_ok_ptr b"
      "size_option size a < size e" "size_option size b < size e" for t a b
    using that less.IH by (intro FromJsonImpl_op) auto
  show ?case
  proof (cases e)
    case (ReduceExpr t a)
    with op [of "GetType_reduce t" a None] less.prems show ?thesis by (cases a) simp_all
  next
    case (ScalarConstExpr x)
    with assms less.prems show ?thesis by (simp add: FromJsonImpl_leaf get_int_spec_def)
  next
    case (ListExpr l)
    then show ?thesis by (simp add: FromJsonImpl_leaf)
  next
    case (ScalarVarExpr l)
    then show ?thesis by (simp add: FromJsonImpl_leaf)
  qed (use less.prems in \<open>simp_all add: op\<close>)
qed

section \<open>Properties\<close>

text \<open>
  On well-formed expressions \<open>operator==\<close> never fails and decides structural equality.
\<close>

theorem eq_Expr_decides:
  assumes "wf_Expr a" and "wf_Expr b"
  shows "eq_Expr a b = Inr (a = b)"
  using assms by (rule eq_Expr_wf(1))

theorem eq_Expr_decides_witness:
  "eq_Expr (ReduceExpr RE_sum (Some (ListExpr ''L''))) (ReduceExpr RE_mul (Some (ListExpr ''L''))) = Inr False"
  using eq_Expr_decides [of "ReduceExpr RE_sum (Some (ListExpr ''L''))" "ReduceExpr RE_mul (Some (ListExpr ''L''))"]
  by simp

text \<open>
  C23. Reading back the JSON form of an expression gives the expression, missing operands
  included, provided the library reads an integer that fits an \<open>int\<close> as itself.
\<close>

theorem FromJson_roundtrip:
  assumes "get_int_spec get_int" and "consts_ok e"
    and "parse text = Inr (JObject [(''ast'', to_json e)])"
  shows "AST_FromJson parse get_int text = Inr (AST (Some e))"
  using from_to_json [OF assms(1,2)] assms(3)
  by (simp add: AST_FromJson_def Expr_FromJson_def json_at_def)

definition sample_get_int :: "json \<Rightarrow> int res" where
  "sample_get_int j = (case j of JInt x \<Rightarrow> Inr x | _ \<Rightarrow> Inl JsonTypeError)"

theorem FromJson_roundtrip_witness:
  "AST_FromJson (\<lambda>_. Inr (JObject [(''ast'', JObject [(''me_add'', JObject
       [(''lhs'', JObject [(''list'', JString ''L'')]),
        (''rhs'', JObject [(''scalar_const'', JInt 7)])])])])) sample_get_int ''{}'' =
   Inr (AST (Some (MapExpr ME_add (Some (ListExpr ''L'')) (Some (ScalarConstExpr 7)))))"
proof -
  have "get_int_spec sample_get_int"
    by (simp add: get_int_spec_def sample_get_int_def)
  from FromJson_roundtrip [OF this,
      of "MapExpr ME_add (Some (ListExpr ''L'')) (Some (ScalarConstExpr 7))"]
  show ?thesis by (simp add: in_int_def)
qed

text \<open>
  An object whose least key is not a node name of the language is refused: with
  \<open>std::out_of_range\<close> if the key names no operation, with \<open>std::invalid_argument\<close> if it is
  \<open>invalid\<close>.
\<close>

theorem FromJson_unknown_operation:
  assumes "key \<noteq> ''list''" and "\<not> starts_with key ''scalar''"
  shows "(map_of STRING_TO_EXPR_TYPE key = None \<longrightarrow>
            FromJsonImpl get_int (JObject ((key, node) # ms)) = Inl OutOfRange) \<and>
         (key = ''invalid'' \<longrightarrow> \<not> json_contains node ''lhs'' \<longrightarrow> \<not> json_contains node ''rhs'' \<longrightarrow>
            FromJsonImpl get_int (JObject ((key, node) # ms)) =
              Inl (InvalidArgument ''Invalid can not be passed to factory''))"
  using assms
  by (auto simp: FromJsonImpl.simps [of _ "JObject _"] json_begin_def um_at_def STRING_TO_EXPR_TYPE_def)

theorem FromJson_unknown_operation_witness:
  "FromJsonImpl sample_get_int (JObject [(''so_sum'', JObject [])]) = Inl OutOfRange"
  using FromJson_unknown_operation [of "''so_sum''" sample_get_int "JObject []" "[]"]
  by (simp add: starts_with_def STRING_TO_EXPR_TYPE_def)

end
