(* ===== verification/Dag.thy ===== *)
theory Dag
  imports Expression
begin

text \<open>
  \<open>manager/src/decomposition/dag.h\<close> and \<open>dag_visitor.{h,cpp}\<close>: the visitor that numbers the
  distinct subexpressions (value numbering) and the graph built from its records. A record is
  a pointer to a node of the expression; it is modelled by the node.
\<close>

section \<open>The graph\<close>

text \<open>
  \<open>adjacency_list<vecS, vecS, directedS, VertexProperties>\<close>: vertices in a vector, so that a
  descriptor is an index, and for each vertex the vector of the targets of its out-edges in
  the order they were added, parallel edges kept. Edges are added between vertices of the graph.
\<close>

record VertexProperties =
  vtype :: ExprType
  vdata :: ExprData

record Graph =
  vertices :: "VertexProperties list"
  out_edges :: "nat list list"

definition empty_graph :: Graph where
  "empty_graph = \<lparr>vertices = [], out_edges = []\<rparr>"

definition add_vertex :: "VertexProperties \<Rightarrow> Graph \<Rightarrow> nat \<times> Graph" where
  "add_vertex p g = (length (vertices g),
     g\<lparr>vertices := vertices g @ [p], out_edges := out_edges g @ [[]]\<rparr>)"

definition add_edge :: "nat \<Rightarrow> nat \<Rightarrow> Graph \<Rightarrow> Graph" where
  "add_edge u v g = g\<lparr>out_edges := (out_edges g)[u := out_edges g ! u @ [v]]\<rparr>"

definition num_vertices :: "Graph \<Rightarrow> nat" where
  "num_vertices g = length (vertices g)"

definition adjacent_vertices :: "nat \<Rightarrow> Graph \<Rightarrow> nat list" where
  "adjacent_vertices u g = out_edges g ! u"

section \<open>The visitor\<close>

fun std_find_if :: "('a \<Rightarrow> bool res) \<Rightarrow> 'a list \<Rightarrow> nat res" where
  "std_find_if p [] = Inr 0"
| "std_find_if p (x # xs) =
     bindE (p x) (\<lambda>b. if b then Inr 0 else bindE (std_find_if p xs) (\<lambda>i. Inr (Suc i)))"

definition DagVisitor_Visit :: "Expr \<Rightarrow> Expr list \<Rightarrow> Expr list res" where
  "DagVisitor_Visit expr records =
     bindE (std_find_if (\<lambda>el. eq_Expr el expr) records) (\<lambda>it.
       if it \<noteq> length records then Inr records else Inr (records @ [expr]))"

definition add_record_vertex :: "nat \<times> Expr \<Rightarrow> Graph \<times> (nat, nat) umap \<Rightarrow> Graph \<times> (nat, nat) umap" where
  "add_record_vertex = (\<lambda>(i, e) (g, ids).
     let (descriptor, g') = add_vertex \<lparr>vtype = GetType e, vdata = GetData e\<rparr> g
     in (g', um_put i descriptor ids))"

definition add_operand_edge ::
  "Expr list \<Rightarrow> (nat, nat) umap \<Rightarrow> nat \<Rightarrow> Expr \<Rightarrow> Graph \<Rightarrow> Graph res" where
  "add_operand_edge records ids root_id operand g =
     bindE (um_at ids root_id) (\<lambda>root_descriptor.
     bindE (std_find_if (\<lambda>record. eq_Expr record operand) records) (\<lambda>operand_id.
     bindE (um_at ids operand_id) (\<lambda>operand_descriptor.
     Inr (add_edge root_descriptor operand_descriptor g))))"

definition add_record_edges :: "Expr list \<Rightarrow> (nat, nat) umap \<Rightarrow> nat \<times> Expr \<Rightarrow> Graph \<Rightarrow> Graph res" where
  "add_record_edges records ids = (\<lambda>(i, e) g.
     bindE (case GetLhs e of None \<Rightarrow> Inr g | Some lhs \<Rightarrow> add_operand_edge records ids i lhs g) (\<lambda>g.
       case GetRhs e of None \<Rightarrow> Inr g | Some rhs \<Rightarrow> add_operand_edge records ids i rhs g))"

definition BuildGraph :: "Expr list \<Rightarrow> Graph res" where
  "BuildGraph records =
     (let (g, ids) = fold add_record_vertex (enumerate 0 records) (empty_graph, [])
      in foldE (add_record_edges records ids) (enumerate 0 records) g)"

definition operand_column :: "Expr option \<Rightarrow> string" where
  "operand_column e = (case e of None \<Rightarrow> [CHR 0x09] @ ''nil''
                                | Some x \<Rightarrow> [CHR 0x09] @ ExprType_name (GetType x))"

definition PrintRecords :: "Expr list \<Rightarrow> string \<Rightarrow> string" where
  "PrintRecords records output =
     fold (\<lambda>e out. out @ ExprType_name (GetType e) @ operand_column (GetLhs e)
             @ operand_column (GetRhs e) @ [CHR 0x0A]) records output"

section \<open>The records of a traversal\<close>

definition add_record :: "Expr \<Rightarrow> Expr list \<Rightarrow> Expr list" where
  "add_record e rs = (if e \<in> set rs then rs else rs @ [e])"

definition records_of :: "Expr \<Rightarrow> Expr list" where
  "records_of e = fold add_record (postorder e) []"

lemma std_find_if_eq:
  "\<forall>r \<in> set rs. wf_Expr r \<Longrightarrow> wf_Expr e \<Longrightarrow>
   std_find_if (\<lambda>el. eq_Expr el e) rs = Inr (index_of rs e)"
  by (induction rs) (auto simp: eq_Expr_wf index_of_def)

lemma Visit_add_record:
  "\<forall>r \<in> set rs. wf_Expr r \<Longrightarrow> wf_Expr e \<Longrightarrow> DagVisitor_Visit e rs = Inr (add_record e rs)"
  by (simp add: DagVisitor_Visit_def std_find_if_eq add_record_def)

interpretation dag_visitor: expr_visitor DagVisitor_Visit "\<lambda>rs. \<forall>r \<in> set rs. wf_Expr r"
  by unfold_locales (auto simp: Visit_add_record add_record_def)

lemma foldE_Visit:
  "\<forall>r \<in> set rs. wf_Expr r \<Longrightarrow> \<forall>e \<in> set es. wf_Expr e \<Longrightarrow>
   foldE DagVisitor_Visit es rs = Inr (fold add_record es rs)"
  by (induction es arbitrary: rs) (auto simp: Visit_add_record add_record_def)

lemma traverse_records: "wf_Expr e \<Longrightarrow> PostorderTraverse DagVisitor_Visit e [] = Inr (records_of e)"
  by (simp add: traverse_foldE(1) foldE_Visit postorder_wf(1) records_of_def)

lemma set_fold_add_record [simp]: "set (fold add_record es rs) = set rs \<union> set es"
  by (induction es arbitrary: rs) (auto simp: add_record_def)

lemma distinct_fold_add_record [simp]: "distinct (fold add_record es rs) \<longleftrightarrow> distinct rs"
  by (induction es arbitrary: rs) (auto simp: add_record_def)

lemma set_records_of [simp]: "set (records_of e) = set (postorder e)"
  by (simp add: records_of_def)

lemma distinct_records_of [simp]: "distinct (records_of e)"
  by (simp add: records_of_def)

lemma records_of_wf: "wf_Expr e \<Longrightarrow> r \<in> set (records_of e) \<Longrightarrow> wf_Expr r"
  by (simp add: postorder_wf(1))

text \<open>Every record comes after its operands.\<close>

definition operands_before :: "Expr list \<Rightarrow> bool" where
  "operands_before rs \<longleftrightarrow> (\<forall>i < length rs. set (operands (rs ! i)) \<subseteq> set (take i rs))"

lemma operands_before_add:
  "operands_before rs \<Longrightarrow> set (operands e) \<subseteq> set rs \<Longrightarrow> operands_before (add_record e rs)"
  by (auto simp: operands_before_def add_record_def nth_append less_Suc_eq) 

lemma operands_in_concat [simp]: "set (operands e) \<subseteq> (\<Union>a \<in> set (operands e). set (postorder a))"
  by auto

lemma operands_before_fold:
  assumes "wf_Expr e" and "operands_before rs"
  shows "operands_before (fold add_record (postorder e) rs)"
  using assms
proof (induction e arbitrary: rs rule: measure_induct_rule [of size])
  case (less e)
  have "\<forall>a \<in> set os. a \<in> set (operands e) \<Longrightarrow> operands_before rs \<Longrightarrow>
      operands_before (fold add_record (concat (map postorder os)) rs)" for os rs
  proof (induction os arbitrary: rs)
    case (Cons a os)
    then have "operands_before (fold add_record (postorder a) rs)"
      using less.IH [of a] less.prems(1) by (auto dest: operands_size wf_operands)
    with Cons show ?case by simp
  qed simp
  from this [of "operands e" rs] less.prems show ?case
    by (simp add: postorder_rec operands_before_add le_supI2)
qed

lemma operands_before_records: "wf_Expr e \<Longrightarrow> operands_before (records_of e)"
  unfolding records_of_def by (rule operands_before_fold) (auto simp: operands_before_def)

lemma records_of_last: "wf_Expr e \<Longrightarrow> \<exists>rs. records_of e = rs @ [e]"
proof -
  assume wf: "wf_Expr e"
  let ?rs = "fold add_record (concat (map postorder (operands e))) []"
  have "e \<notin> set ?rs"
    by (auto dest!: operands_size postorder_size(1))
  then have "records_of e = ?rs @ [e]"
    by (simp add: records_of_def postorder_rec [OF wf] add_record_def)
  then show ?thesis by blast
qed

lemma record_has_parent:
  assumes "wf_Expr e" and "x \<in> set (postorder e)" and "x \<noteq> e"
  shows "\<exists>y \<in> set (postorder e). x \<in> set (operands y)"
  using assms
proof (induction e rule: measure_induct_rule [of size])
  case (less e)
  from less.prems obtain a where a: "a \<in> set (operands e)" "x \<in> set (postorder a)"
    by (auto simp: postorder_rec)
  show ?case
  proof (cases "x = a")
    case False
    with a less obtain y where "y \<in> set (postorder a)" "x \<in> set (operands y)"
      by (meson operands_size wf_operands)
    with a(1) less.prems(1) show ?thesis by (auto simp: postorder_rec)
  qed (use a(1) in auto)
qed

section \<open>The graph of the records\<close>

definition vertex_of :: "Expr \<Rightarrow> VertexProperties" where
  "vertex_of e = \<lparr>vtype = GetType e, vdata = GetData e\<rparr>"

definition graph_of :: "Expr list \<Rightarrow> Graph" where
  "graph_of rs = \<lparr>vertices = map vertex_of rs, out_edges = map (\<lambda>e. map (index_of rs) (operands e)) rs\<rparr>"

lemma um_put_fresh: "k \<notin> set (um_keys m) \<Longrightarrow> um_put k v m = m @ [(k, v)]"
  by (induction k v m rule: um_put.induct) auto

lemma fold_add_vertices:
  "fold add_record_vertex (enumerate 0 rs) (empty_graph, []) =
   (\<lparr>vertices = map vertex_of rs, out_edges = replicate (length rs) []\<rparr>,
    map (\<lambda>i. (i, i)) [0..<length rs])"
proof (induction rs rule: rev_induct)
  case (snoc e rs)
  have "length rs \<notin> set (um_keys (map (\<lambda>i. (i, i)) [0..<length rs]))"
    by (auto simp: um_keys_def)
  with snoc show ?case
    by (simp add: enumerate_append_eq add_record_vertex_def add_vertex_def um_put_fresh
        vertex_of_def replicate_append_same)
qed (simp add: empty_graph_def)

lemma map_of_identity: "i < n \<Longrightarrow> map_of (map (\<lambda>i. (i, i)) [0..<n]) i = Some i"
  by (simp add: map_of_map_restrict restrict_map_def)

lemma add_record_edges_eq:
  assumes wf: "\<forall>r \<in> set rs. wf_Expr r" and e: "wf_Expr e" "set (operands e) \<subseteq> set rs"
    and i: "i < length rs" "i < length (out_edges g)"
  shows "add_record_edges rs (map (\<lambda>i. (i, i)) [0..<length rs]) (i, e) g =
    Inr (g\<lparr>out_edges := (out_edges g)[i := out_edges g ! i @ map (index_of rs) (operands e)]\<rparr>)"
proof -
  have edge: "add_operand_edge rs (map (\<lambda>i. (i, i)) [0..<length rs]) i x h = Inr (add_edge i (index_of rs x) h)"
    if "x \<in> set (operands e)" for x h
    using that wf e i(1)
    by (auto simp: add_operand_edge_def std_find_if_eq um_at_def map_of_identity index_of_less
        subset_iff)
  show ?thesis
    using edge i(2) by (auto simp: add_record_edges_def operands_def add_edge_def split: option.splits)
qed

lemma fold_add_edges:
  assumes wf: "\<forall>r \<in> set rs. wf_Expr r" and ops: "\<forall>r \<in> set rs. set (operands r) \<subseteq> set rs"
    and rs: "rs = ps @ qs"
  shows "foldE (add_record_edges rs (map (\<lambda>i. (i, i)) [0..<length rs])) (enumerate 0 ps)
      \<lparr>vertices = vs, out_edges = replicate (length rs) []\<rparr> =
    Inr \<lparr>vertices = vs,
         out_edges = map (\<lambda>e. map (index_of rs) (operands e)) ps @ replicate (length qs) []\<rparr>"
  using rs
proof (induction ps arbitrary: qs rule: rev_induct)
  case (snoc e ps)
  then have IH: "foldE (add_record_edges rs (map (\<lambda>i. (i, i)) [0..<length rs])) (enumerate 0 ps)
      \<lparr>vertices = vs, out_edges = replicate (length rs) []\<rparr> =
    Inr \<lparr>vertices = vs,
         out_edges = map (\<lambda>e. map (index_of rs) (operands e)) ps @ replicate (Suc (length qs)) []\<rparr>"
    using snoc.IH [of "e # qs"] by simp
  have e: "wf_Expr e" "set (operands e) \<subseteq> set rs" "length ps < length rs"
    using wf ops snoc.prems by auto
  show ?case
    using IH e add_record_edges_eq [OF wf e(1,2)]
    by (simp add: enumerate_append_eq foldE_append nth_append list_update_append)
qed simp

lemma BuildGraph_graph_of:
  assumes "\<forall>r \<in> set rs. wf_Expr r" and "\<forall>r \<in> set rs. set (operands r) \<subseteq> set rs"
  shows "BuildGraph rs = Inr (graph_of rs)"
  using fold_add_edges [OF assms, of rs "[]"]
  by (simp add: BuildGraph_def fold_add_vertices graph_of_def)

lemma BuildGraph_records: "wf_Expr e \<Longrightarrow> BuildGraph (records_of e) = Inr (graph_of (records_of e))"
  by (rule BuildGraph_graph_of) (auto simp: postorder_wf(1) intro: postorder_operands)

lemma num_vertices_graph_of [simp]: "num_vertices (graph_of rs) = length rs"
  by (simp add: num_vertices_def graph_of_def)

lemma adjacent_graph_of:
  "i < length rs \<Longrightarrow> adjacent_vertices i (graph_of rs) = map (index_of rs) (operands (rs ! i))"
  by (simp add: adjacent_vertices_def graph_of_def)

lemma adjacent_less:
  assumes "operands_before rs" and "distinct rs" and "i < length rs"
    and "j \<in> set (adjacent_vertices i (graph_of rs))"
  shows "j < i"
proof -
  from assms(3,4) obtain x where x: "x \<in> set (operands (rs ! i))" "j = index_of rs x"
    by (auto simp: adjacent_graph_of)
  with assms(1,3) have "x \<in> set (take i rs)" by (auto simp: operands_before_def)
  then obtain k where "k < i" "rs ! k = x" using assms(3) by (auto simp: in_set_conv_nth)
  with x(2) assms(2,3) show ?thesis by (auto simp: index_of_nth)
qed

section \<open>Properties\<close>

inductive subexpr :: "Expr \<Rightarrow> Expr \<Rightarrow> bool" where
  subexpr_refl: "subexpr e e"
| subexpr_operand: "a \<in> set (operands e) \<Longrightarrow> subexpr x a \<Longrightarrow> subexpr x e"

inductive_cases subexpr_elim: "subexpr x e"

lemma subexpr_postorder: "wf_Expr e \<Longrightarrow> x \<in> set (postorder e) \<longleftrightarrow> subexpr x e"
proof (induction e rule: measure_induct_rule [of size])
  case (less e)
  then have IH: "a \<in> set (operands e) \<Longrightarrow> x \<in> set (postorder a) \<longleftrightarrow> subexpr x a" for a
    by (auto dest: operands_size wf_operands)
  have "x \<in> set (postorder e) \<longleftrightarrow> x = e \<or> (\<exists>a \<in> set (operands e). x \<in> set (postorder a))"
    using postorder_rec [OF less.prems] by auto
  with IH show ?case by (auto intro: subexpr.intros elim: subexpr_elim)
qed

lemma map_nth_index_of: "set ys \<subseteq> set xs \<Longrightarrow> map ((!) xs) (map (index_of xs) ys) = ys"
  by (induction ys) (auto simp: nth_index_of)

text \<open>
  C10. Value numbering: traversing a well-formed expression with the visitor succeeds and
  records each distinct subexpression exactly once, every record after its operands and the
  whole expression last.
\<close>

theorem value_numbering:
  assumes "wf_Expr e"
  shows "\<exists>rs. PostorderTraverse DagVisitor_Visit e [] = Inr rs \<and> distinct rs \<and>
    set rs = {x. subexpr x e} \<and> operands_before rs \<and> rs \<noteq> [] \<and> last rs = e"
proof -
  obtain rs' where "records_of e = rs' @ [e]" using records_of_last [OF assms] by blast
  moreover have "set (records_of e) = {x. subexpr x e}"
    using subexpr_postorder [OF assms] by auto
  ultimately show ?thesis
    using traverse_records [OF assms] operands_before_records [OF assms] distinct_records_of [of e]
    by (metis last_snoc snoc_eq_iff_butlast)
qed

definition sample_expr :: Expr where
  "sample_expr = ScalarOpExpr SO_mul
     (Some (ScalarOpExpr SO_min (Some (ReduceExpr RE_mul (Some (ListExpr ''L''))))
        (Some (ReduceExpr RE_sum (Some (ListExpr ''L''))))))
     (Some (ScalarOpExpr SO_max (Some (ReduceExpr RE_mul (Some (ListExpr ''L''))))
        (Some (ReduceExpr RE_sum (Some (ListExpr ''L''))))))"

theorem value_numbering_witness:
  "wf_Expr sample_expr \<and> length (postorder sample_expr) = 11 \<and>
   (\<exists>rs. PostorderTraverse DagVisitor_Visit sample_expr [] = Inr rs \<and> length rs = 6 \<and>
      distinct rs \<and> set rs = {x. subexpr x sample_expr})"
proof -
  have wf: "wf_Expr sample_expr" by (simp add: sample_expr_def)
  have "length (records_of sample_expr) = 6" "length (postorder sample_expr) = 11"
    by (simp_all add: records_of_def sample_expr_def add_record_def)
  moreover obtain rs where rs: "PostorderTraverse DagVisitor_Visit sample_expr [] = Inr rs"
      "distinct rs" "set rs = {x. subexpr x sample_expr}"
    using value_numbering [OF wf] by blast
  moreover from rs(1) have "rs = records_of sample_expr" by (simp add: traverse_records wf)
  ultimately show ?thesis using wf by metis
qed

text \<open>
  C11. \<open>BuildGraph\<close> never fails on the records of a well-formed expression. The graph has one
  vertex per record, labelled with its type and data; the targets of its out-edges are the
  records of its operands in order, and all have smaller descriptors, so the graph is acyclic.
\<close>

theorem BuildGraph_correct:
  assumes "wf_Expr e" and "PostorderTraverse DagVisitor_Visit e [] = Inr rs"
  shows "\<exists>g. BuildGraph rs = Inr g \<and> num_vertices g = length rs \<and>
    (\<forall>i < length rs. vertices g ! i = \<lparr>vtype = GetType (rs ! i), vdata = GetData (rs ! i)\<rparr> \<and>
       map ((!) rs) (adjacent_vertices i g) = operands (rs ! i) \<and>
       list_all (\<lambda>j. j < i) (adjacent_vertices i g))"
proof -
  have rs: "rs = records_of e" using assms traverse_records by simp
  have "list_all (\<lambda>j. j < i) (adjacent_vertices i (graph_of rs))"
    "map ((!) rs) (adjacent_vertices i (graph_of rs)) = operands (rs ! i)" if "i < length rs" for i
  proof -
    show "list_all (\<lambda>j. j < i) (adjacent_vertices i (graph_of rs))"
      using that rs adjacent_less operands_before_records [OF assms(1)] by (auto simp: list_all_iff)
    have "rs ! i \<in> set (postorder e)" using nth_mem [OF that] rs by simp
    then have "set (operands (rs ! i)) \<subseteq> set rs"
      using postorder_operands [OF assms(1)] rs by auto
    then show "map ((!) rs) (adjacent_vertices i (graph_of rs)) = operands (rs ! i)"
      using that by (simp only: adjacent_graph_of map_nth_index_of)
  qed
  with BuildGraph_records [OF assms(1)] rs show ?thesis
    by (auto simp: graph_of_def num_vertices_def vertex_of_def)
qed

theorem BuildGraph_correct_witness:
  "\<exists>g. BuildGraph (records_of sample_expr) = Inr g \<and> num_vertices g = length (records_of sample_expr)"
proof -
  have "wf_Expr sample_expr" by (simp add: sample_expr_def)
  from BuildGraph_correct [OF this traverse_records [OF this]] show ?thesis by blast
qed

end
