(* ===== verification/Calculation.thy ===== *)
theory Calculation
  imports Expression
begin

text \<open>
  The arithmetic of one task, \<open>ThreadPool::CalculateTaskImpl\<close> of
  \<open>worker/src/worker-impl/thread_pool.cpp\<close>, and the specification it is measured against:
  the value \<open>eval\<close> of an expression over the values of its variables, with a type system that
  rules out the variant errors.
\<close>

section \<open>One task\<close>

definition on_list :: "(int list \<Rightarrow> int res) \<Rightarrow> ExprResult \<Rightarrow> ExprResult res" where
  "on_list f lhs = bindE (get_List lhs) (\<lambda>l. bindE (f l) (\<lambda>x. Inr (RScalar x)))"

definition on_list_scalar ::
  "(int list \<Rightarrow> int \<Rightarrow> int list res) \<Rightarrow> ExprResult \<Rightarrow> ExprResult \<Rightarrow> ExprResult res" where
  "on_list_scalar f lhs rhs =
     bindE (get_List lhs) (\<lambda>l. bindE (get_Scalar rhs) (\<lambda>x. bindE (f l x) (\<lambda>r. Inr (RList r))))"

definition on_lists ::
  "(int list \<Rightarrow> int list \<Rightarrow> 'r res) \<Rightarrow> ('r \<Rightarrow> ExprResult) \<Rightarrow> ExprResult \<Rightarrow> ExprResult \<Rightarrow> ExprResult res" where
  "on_lists f wrap lhs rhs =
     bindE (get_List lhs) (\<lambda>l1. bindE (get_List rhs) (\<lambda>l2. bindE (f l1 l2) (\<lambda>r. Inr (wrap r))))"

definition on_scalars ::
  "(int \<Rightarrow> int \<Rightarrow> int res) \<Rightarrow> ExprResult \<Rightarrow> ExprResult \<Rightarrow> ExprResult res" where
  "on_scalars f lhs rhs =
     bindE (get_Scalar lhs) (\<lambda>x1. bindE (get_Scalar rhs) (\<lambda>x2. bindE (f x1 x2) (\<lambda>r. Inr (RScalar r))))"

text \<open>
  \<open>front\<close> and \<open>back\<close> of an empty operand vector are undefined; with one operand they are
  the same element.
\<close>

definition CalculateTaskImpl :: "ExprType option \<Rightarrow> ExprResult list \<Rightarrow> ExprResult res" where
  "CalculateTaskImpl ty ops =
     (if ops = [] then Inl UndefinedBehaviour
      else let lhs = hd ops; rhs = last ops in
        case ty of
          Some re_min \<Rightarrow> on_list Min_l lhs
        | Some re_max \<Rightarrow> on_list Max_l lhs
        | Some re_mul \<Rightarrow> on_list Mul_l lhs
        | Some re_sum \<Rightarrow> on_list Sum_l lhs
        | Some re_size \<Rightarrow> on_list Size_l lhs
        | Some me_add \<Rightarrow> on_list_scalar Sum_ls lhs rhs
        | Some me_mul \<Rightarrow> on_list_scalar Mul_ls lhs rhs
        | Some me_div \<Rightarrow> on_list_scalar Div_ls lhs rhs
        | Some lo_add \<Rightarrow> on_lists Sum_ll RList lhs rhs
        | Some lo_mul \<Rightarrow> on_lists Mul_ll RList lhs rhs
        | Some lo_div \<Rightarrow> on_lists Div_ll RList lhs rhs
        | Some lo_dot \<Rightarrow> on_lists Dot_ll RScalar lhs rhs
        | Some so_add \<Rightarrow> on_scalars Sum_ss lhs rhs
        | Some so_mul \<Rightarrow> on_scalars Mul_ss lhs rhs
        | Some so_div \<Rightarrow> on_scalars Div_ss lhs rhs
        | Some so_max \<Rightarrow> on_scalars Max_ss lhs rhs
        | Some so_min \<Rightarrow> on_scalars Min_ss lhs rhs
        | _ \<Rightarrow> Inl (LogicError ''Invalid operation''))"

section \<open>The value of an expression\<close>

fun reduce_op :: "ReduceExpr_Type \<Rightarrow> int list \<Rightarrow> int res" where
  "reduce_op RE_min = Min_l"
| "reduce_op RE_max = Max_l"
| "reduce_op RE_mul = Mul_l"
| "reduce_op RE_sum = Sum_l"
| "reduce_op RE_size = Size_l"

fun map_op :: "MapExpr_Type \<Rightarrow> int list \<Rightarrow> int \<Rightarrow> int list res" where
  "map_op ME_add = Sum_ls"
| "map_op ME_mul = Mul_ls"
| "map_op ME_div = Div_ls"

fun listop :: "ListOpExpr_Type \<Rightarrow> int list \<Rightarrow> int list \<Rightarrow> ExprResult res" where
  "listop LO_add l1 l2 = bindE (Sum_ll l1 l2) (\<lambda>r. Inr (RList r))"
| "listop LO_mul l1 l2 = bindE (Mul_ll l1 l2) (\<lambda>r. Inr (RList r))"
| "listop LO_div l1 l2 = bindE (Div_ll l1 l2) (\<lambda>r. Inr (RList r))"
| "listop LO_dot l1 l2 = bindE (Dot_ll l1 l2) (\<lambda>r. Inr (RScalar r))"

fun scalarop :: "ScalarOpExpr_Type \<Rightarrow> int \<Rightarrow> int \<Rightarrow> int res" where
  "scalarop SO_add = Sum_ss"
| "scalarop SO_mul = Mul_ss"
| "scalarop SO_div = Div_ss"
| "scalarop SO_max = Max_ss"
| "scalarop SO_min = Min_ss"

definition lookup_var :: "(VariableId \<Rightarrow> ExprResult option) \<Rightarrow> VariableId \<Rightarrow> ExprResult res" where
  "lookup_var env x = (case env x of None \<Rightarrow> Inl (LogicError ''Invalid message'') | Some v \<Rightarrow> Inr v)"

fun eval :: "(VariableId \<Rightarrow> ExprResult option) \<Rightarrow> Expr \<Rightarrow> ExprResult res"
  and eval_ptr :: "(VariableId \<Rightarrow> ExprResult option) \<Rightarrow> Expr option \<Rightarrow> ExprResult res" where
  "eval env (ReduceExpr t a) = bindE (eval_ptr env a) (on_list (reduce_op t))"
| "eval env (MapExpr t a b) =
     bindE (eval_ptr env a) (\<lambda>v. bindE (eval_ptr env b) (on_list_scalar (map_op t) v))"
| "eval env (ListOpExpr t a b) =
     bindE (eval_ptr env a) (\<lambda>v. bindE (eval_ptr env b) (on_lists (listop t) id v))"
| "eval env (ScalarOpExpr t a b) =
     bindE (eval_ptr env a) (\<lambda>v. bindE (eval_ptr env b) (on_scalars (scalarop t) v))"
| "eval env (ListExpr l) = lookup_var env l"
| "eval env (ScalarConstExpr x) = Inr (RScalar x)"
| "eval env (ScalarVarExpr x) = lookup_var env x"
| "eval_ptr env None = Inl UndefinedBehaviour"
| "eval_ptr env (Some e) = eval env e"

definition is_leaf_type :: "ExprType \<Rightarrow> bool" where
  "is_leaf_type t \<longleftrightarrow> t = list_t \<or> t = scalar_const \<or> t = scalar_var"

definition is_leaf :: "Expr \<Rightarrow> bool" where
  "is_leaf e \<longleftrightarrow> is_leaf_type (GetType e)"

lemma is_leaf_simps [simp]:
  "\<not> is_leaf (ReduceExpr t1 a)" "\<not> is_leaf (MapExpr t2 a b)" "\<not> is_leaf (ListOpExpr t3 a b)"
  "\<not> is_leaf (ScalarOpExpr t4 a b)" "is_leaf (ListExpr l)" "is_leaf (ScalarConstExpr x)"
  "is_leaf (ScalarVarExpr l)"
  unfolding is_leaf_def is_leaf_type_def
  by ((cases t1; simp), (cases t2; simp), (cases t3; simp), (cases t4; simp), simp_all)

lemma leaf_operands: "is_leaf e \<Longrightarrow> operands e = []"
  by (cases e) (simp_all add: operands_def)

lemma operands_not_Nil: "wf_Expr e \<Longrightarrow> \<not> is_leaf e \<Longrightarrow> operands e \<noteq> []"
  by (cases e) (auto simp: operands_def wf_ptr_iff)

lemma CalculateTaskImpl_reduce:
  "CalculateTaskImpl (Some (GetType_reduce t)) [v] = on_list (reduce_op t) v"
  by (cases t) (simp_all add: CalculateTaskImpl_def)

lemma CalculateTaskImpl_binary:
  "CalculateTaskImpl (Some (GetType_map t2)) [v, w] = on_list_scalar (map_op t2) v w"
  "CalculateTaskImpl (Some (GetType_listop t3)) [v, w] = on_lists (listop t3) id v w"
  "CalculateTaskImpl (Some (GetType_scalarop t4)) [v, w] = on_scalars (scalarop t4) v w"
  by ((cases t2; simp add: CalculateTaskImpl_def),
      (cases t3; simp add: CalculateTaskImpl_def on_lists_def bindE_assoc),
      (cases t4; simp add: CalculateTaskImpl_def))

text \<open>
  One task computed from the values of its operands is one step of the evaluation.
\<close>

lemma CalculateTaskImpl_eval:
  assumes "wf_Expr e" and "\<not> is_leaf e"
  shows "bindE (mapE (eval env) (operands e)) (CalculateTaskImpl (Some (GetType e))) = eval env e"
  using assms
  by (cases e) (auto simp: operands_def wf_ptr_iff CalculateTaskImpl_reduce CalculateTaskImpl_binary
      bindE_assoc intro!: bindE_cong)

section \<open>Types\<close>

datatype kind = KList | KScalar

fun kind_of_result :: "ExprResult \<Rightarrow> kind" where
  "kind_of_result (RList _) = KList"
| "kind_of_result (RScalar _) = KScalar"

fun typed :: "(VariableId \<Rightarrow> kind option) \<Rightarrow> Expr \<Rightarrow> kind \<Rightarrow> bool"
  and typed_ptr :: "(VariableId \<Rightarrow> kind option) \<Rightarrow> Expr option \<Rightarrow> kind \<Rightarrow> bool" where
  "typed G (ReduceExpr t a) k = (k = KScalar \<and> typed_ptr G a KList)"
| "typed G (MapExpr t a b) k = (k = KList \<and> typed_ptr G a KList \<and> typed_ptr G b KScalar)"
| "typed G (ListOpExpr t a b) k =
     (k = (if t = LO_dot then KScalar else KList) \<and> typed_ptr G a KList \<and> typed_ptr G b KList)"
| "typed G (ScalarOpExpr t a b) k = (k = KScalar \<and> typed_ptr G a KScalar \<and> typed_ptr G b KScalar)"
| "typed G (ListExpr l) k = (k = KList \<and> G l = Some KList)"
| "typed G (ScalarConstExpr x) k = (k = KScalar \<and> in_int x)"
| "typed G (ScalarVarExpr x) k = (k = KScalar \<and> G x = Some KScalar)"
| "typed_ptr G None k = False"
| "typed_ptr G (Some e) k = typed G e k"

definition env_typed :: "(VariableId \<Rightarrow> kind option) \<Rightarrow> (VariableId \<Rightarrow> ExprResult option) \<Rightarrow> bool" where
  "env_typed G env \<longleftrightarrow>
     (\<forall>x k. G x = Some k \<longrightarrow> (\<exists>v. env x = Some v \<and> kind_of_result v = k \<and> wf_result v))"

text \<open>What a well-typed evaluation can end in: a value of its kind or one of three faults.\<close>

definition outcome_ok :: "kind \<Rightarrow> ExprResult res \<Rightarrow> bool" where
  "outcome_ok k r \<longleftrightarrow> (case r of
     Inl e \<Rightarrow> e = UndefinedBehaviour \<or> e = AssertionFailed
   | Inr v \<Rightarrow> kind_of_result v = k \<and> wf_result v)"

lemma typed_wf: "typed G e k \<Longrightarrow> wf_Expr e" "typed_ptr G p k \<Longrightarrow> wf_ptr p"
  by (induction G e k and G p k rule: typed_typed_ptr.induct) auto


section \<open>Type soundness\<close>

named_theorems fault_intros \<open>operations that can only fail by undefined behaviour or an assert\<close>

definition only_faults :: "'a res \<Rightarrow> bool" where
  "only_faults r \<longleftrightarrow> (\<forall>e. r = Inl e \<longrightarrow> e = UndefinedBehaviour \<or> e = AssertionFailed)"

lemma only_faults_basic [fault_intros]:
  "only_faults (Inr x)" "only_faults (Inl UndefinedBehaviour)" "only_faults (Inl AssertionFailed)"
  "only_faults (chk y)"
  by (auto simp: only_faults_def chk_def)

lemma only_faults_bindE [fault_intros]:
  "only_faults m \<Longrightarrow> (\<And>x. m = Inr x \<Longrightarrow> only_faults (f x)) \<Longrightarrow> only_faults (bindE m f)"
  by (auto simp: only_faults_def bindE_eq_Inl)

lemma only_faults_if [fault_intros]:
  "(b \<Longrightarrow> only_faults m) \<Longrightarrow> (\<not> b \<Longrightarrow> only_faults m') \<Longrightarrow> only_faults (if b then m else m')"
  by simp

lemma only_faults_mapE [fault_intros]: "(\<And>x. only_faults (f x)) \<Longrightarrow> only_faults (mapE f xs)"
  by (induction xs) (auto intro!: fault_intros)

lemma only_faults_foldE [fault_intros]: "(\<And>x s. only_faults (f x s)) \<Longrightarrow> only_faults (foldE f xs s)"
  by (induction xs arbitrary: s) (auto intro!: fault_intros)

lemma only_faults_inner_product [fault_intros]: "only_faults (inner_product xs ys acc)"
  by (induction xs ys acc rule: inner_product.induct) (auto intro!: fault_intros)

lemma only_faults_ops [fault_intros]:
  "only_faults (reduce_op t1 l)" "only_faults (map_op t2 l x)" "only_faults (listop t3 l l')"
  "only_faults (scalarop t4 x y)"
proof -
  show "only_faults (reduce_op t1 l)"
    by (cases t1) (auto simp: Min_l_def Max_l_def Mul_l_def Sum_l_def Size_l_def std_reduce_def deref_def
        intro!: fault_intros)
  show "only_faults (map_op t2 l x)"
    by (cases t2) (auto simp: elementwise_defs intro!: fault_intros)
  show "only_faults (listop t3 l l')"
    by (cases t3) (auto simp: elementwise_defs Dot_ll_def intro!: fault_intros)
  show "only_faults (scalarop t4 x y)"
    by (cases t4) (auto simp: Sum_ss_def Mul_ss_def Div_ss_def Max_ss_def Min_ss_def intro!: fault_intros)
qed

lemma reduce_op_in_int: "list_all in_int l \<Longrightarrow> reduce_op t l = Inr x \<Longrightarrow> in_int x"
proof (cases t)
  case RE_size
  then show "reduce_op t l = Inr x \<Longrightarrow> in_int x" by (auto simp: Size_l_def in_int_sint)
qed (auto simp: Min_Max_l_eq Mul_l_def Sum_l_def split: list.splits
    dest!: std_reduce_in_int)

lemma mapE_chk_in_int: "mapE (\<lambda>x. if p x then Inl e else chk (g x)) l = Inr r \<Longrightarrow> list_all in_int r"
  by (auto simp: mapE_guard_chk_iff list_all_iff)

lemma mapE_chk_in_int': "mapE (\<lambda>x. chk (g x)) l = Inr r \<Longrightarrow> list_all in_int r"
  by (auto simp: mapE_chk_iff list_all_iff)

lemma map_op_in_int: "map_op t l x = Inr r \<Longrightarrow> list_all in_int r"
  by (cases t) (auto simp: elementwise_defs dest!: mapE_chk_in_int mapE_chk_in_int')

lemma listop_wf:
  "listop t l l' = Inr r \<Longrightarrow> wf_result r \<and> kind_of_result r = (if t = LO_dot then KScalar else KList)"
  by (cases t) (auto simp: bindE_eq_Inr elementwise_defs Dot_ll_def in_int_def [of 0]
      split: if_splits dest!: mapE_chk_in_int mapE_chk_in_int' inner_product_in_int [rotated])

lemma scalarop_in_int: "in_int x \<Longrightarrow> in_int y \<Longrightarrow> scalarop t x y = Inr r \<Longrightarrow> in_int r"
  by (cases t) (auto simp: Sum_ss_def Mul_ss_def Div_ss_def Max_ss_def Min_ss_def std_min_def std_max_def
      split: if_splits)

lemma outcome_okI:
  "only_faults r \<Longrightarrow> (\<And>v. r = Inr v \<Longrightarrow> kind_of_result v = k \<and> wf_result v) \<Longrightarrow> outcome_ok k r"
  by (auto simp: outcome_ok_def only_faults_def split: sum.splits)

lemma outcome_ok_bindE:
  "outcome_ok k m \<Longrightarrow> (\<And>v. kind_of_result v = k \<Longrightarrow> wf_result v \<Longrightarrow> outcome_ok k' (f v)) \<Longrightarrow>
   outcome_ok k' (bindE m f)"
  by (cases m) (auto simp: outcome_ok_def [of _ "Inl _"] outcome_ok_def [of k])

lemma kind_of_result_iff:
  "kind_of_result v = KList \<longleftrightarrow> (\<exists>l. v = RList l)" "kind_of_result v = KScalar \<longleftrightarrow> (\<exists>x. v = RScalar x)"
  by (cases v; simp)+


lemma outcome_on_list:
  assumes "kind_of_result v = KList" and "wf_result v"
  shows "outcome_ok KScalar (on_list (reduce_op t) v)"
proof -
  obtain l where "v = RList l" using assms(1) by (auto simp: kind_of_result_iff)
  with assms(2) show ?thesis
    by (intro outcome_okI) (auto simp: on_list_def bindE_eq_Inr intro!: fault_intros, blast intro: reduce_op_in_int)
qed

lemma outcome_on_list_scalar:
  assumes "kind_of_result v = KList" and "kind_of_result w = KScalar"
  shows "outcome_ok KList (on_list_scalar (map_op t) v w)"
proof -
  obtain l x where "v = RList l" "w = RScalar x" using assms by (auto simp: kind_of_result_iff)
  then show ?thesis
    by (intro outcome_okI) (auto simp: on_list_scalar_def bindE_eq_Inr intro!: fault_intros, blast intro: map_op_in_int)
qed

lemma outcome_on_lists:
  assumes "kind_of_result v = KList" and "kind_of_result w = KList"
    and "k = (if t = LO_dot then KScalar else KList)"
  shows "outcome_ok k (on_lists (listop t) id v w)"
proof -
  obtain l x where "v = RList l" "w = RList x" using assms(1,2) by (auto simp: kind_of_result_iff)
  with assms(3) show ?thesis
    by (auto simp: on_lists_def bindE_eq_Inr simp del: listop.simps
        intro!: outcome_okI fault_intros dest: listop_wf)
qed

lemma outcome_on_scalars:
  assumes "kind_of_result v = KScalar" and "wf_result v"
    and "kind_of_result w = KScalar" and "wf_result w"
  shows "outcome_ok KScalar (on_scalars (scalarop t) v w)"
proof -
  obtain x y where "v = RScalar x" "w = RScalar y" using assms by (auto simp: kind_of_result_iff)
  with assms(2,4) show ?thesis
    by (intro outcome_okI) (auto simp: on_scalars_def bindE_eq_Inr intro!: fault_intros, blast intro: scalarop_in_int)
qed

lemmas outcome_ops = outcome_on_list outcome_on_list_scalar outcome_on_lists outcome_on_scalars

lemma eval_outcome:
  "env_typed G env \<Longrightarrow> typed G e k \<Longrightarrow> outcome_ok k (eval env e)"
  "env_typed G env \<Longrightarrow> typed_ptr G p k \<Longrightarrow> outcome_ok k (eval_ptr env p)"
proof (induction G e k and G p k rule: typed_typed_ptr.induct)
  case (5 G l k)
  then show ?case by (fastforce simp: env_typed_def lookup_var_def outcome_ok_def)
next
  case (7 G x k)
  then show ?case by (fastforce simp: env_typed_def lookup_var_def outcome_ok_def)
next
  case (6 G x k)
  then show ?case by (simp add: outcome_ok_def)
qed (auto intro!: outcome_ok_bindE outcome_ops)

text \<open>The kinds of the operands and of the result of each operation.\<close>

fun op_signature :: "ExprType \<Rightarrow> (kind list \<times> kind) option" where
  "op_signature re_min = Some ([KList], KScalar)"
| "op_signature re_max = Some ([KList], KScalar)"
| "op_signature re_mul = Some ([KList], KScalar)"
| "op_signature re_sum = Some ([KList], KScalar)"
| "op_signature re_size = Some ([KList], KScalar)"
| "op_signature me_add = Some ([KList, KScalar], KList)"
| "op_signature me_mul = Some ([KList, KScalar], KList)"
| "op_signature me_div = Some ([KList, KScalar], KList)"
| "op_signature lo_add = Some ([KList, KList], KList)"
| "op_signature lo_mul = Some ([KList, KList], KList)"
| "op_signature lo_div = Some ([KList, KList], KList)"
| "op_signature lo_dot = Some ([KList, KList], KScalar)"
| "op_signature so_add = Some ([KScalar, KScalar], KScalar)"
| "op_signature so_mul = Some ([KScalar, KScalar], KScalar)"
| "op_signature so_div = Some ([KScalar, KScalar], KScalar)"
| "op_signature so_max = Some ([KScalar, KScalar], KScalar)"
| "op_signature so_min = Some ([KScalar, KScalar], KScalar)"
| "op_signature _ = None"

lemma op_signature_cases:
  assumes "op_signature t = Some (ks, k)"
  obtains (reduce) t1 where "t = GetType_reduce t1" "ks = [KList]" "k = KScalar"
  | (map_list) t2 where "t = GetType_map t2" "ks = [KList, KScalar]" "k = KList"
  | (lists) t3 where "t = GetType_listop t3" "ks = [KList, KList]"
      "k = (if t3 = LO_dot then KScalar else KList)"
  | (scalars) t4 where "t = GetType_scalarop t4" "ks = [KScalar, KScalar]" "k = KScalar"
  using assms
proof (cases t)
qed (metis GetType_reduce.simps GetType_map.simps GetType_listop.simps GetType_scalarop.simps
    op_signature.simps option.inject prod.inject option.distinct(1) ListOpExpr_Type.distinct)+

lemma op_outcome:
  assumes "op_signature t = Some (ks, k)" and "length vs = length ks"
    and "map kind_of_result vs = ks" and "list_all wf_result vs"
  shows "outcome_ok k (CalculateTaskImpl (Some t) vs)"
  using assms(1)
proof (cases rule: op_signature_cases)
  case (reduce t1)
  with assms(3,4) show ?thesis
    by (auto simp: map_eq_Cons_conv CalculateTaskImpl_reduce intro: outcome_ops)
next
  case (lists t3)
  then obtain v w where vs: "vs = [v, w]" "kind_of_result v = KList" "kind_of_result w = KList"
    using assms(3) by (auto simp: map_eq_Cons_conv)
  show ?thesis
    unfolding vs(1) lists(1) CalculateTaskImpl_binary using vs(2,3) lists(3) by (rule outcome_on_lists)
qed (use assms(3,4) in \<open>auto simp: map_eq_Cons_conv CalculateTaskImpl_binary intro!: outcome_ops\<close>)

lemma op_kind_error:
  assumes "op_signature t = Some (ks, k)" and "length vs = length ks"
    and "map kind_of_result vs \<noteq> ks"
  shows "CalculateTaskImpl (Some t) vs = Inl BadVariantAccess"
  using assms(1)
proof (cases rule: op_signature_cases)
  case (reduce t1)
  then obtain v where "vs = [v]" using assms(2) by (auto simp: length_Suc_conv)
  with reduce assms(3) show ?thesis
    by (cases v) (simp_all add: CalculateTaskImpl_reduce on_list_def)
next
  case (map_list t2)
  then obtain v w where "vs = [v, w]" using assms(2) by (auto simp: length_Suc_conv)
  with map_list assms(3) show ?thesis
    by (cases v; cases w) (simp_all add: CalculateTaskImpl_binary on_list_scalar_def)
next
  case (lists t3)
  then obtain v w where "vs = [v, w]" using assms(2) by (auto simp: length_Suc_conv)
  with lists assms(3) show ?thesis
    by (cases v; cases w) (simp_all add: CalculateTaskImpl_binary on_lists_def)
next
  case (scalars t4)
  then obtain v w where "vs = [v, w]" using assms(2) by (auto simp: length_Suc_conv)
  with scalars assms(3) show ?thesis
    by (cases v; cases w) (simp_all add: CalculateTaskImpl_binary on_scalars_def)
qed

lemma no_signature:
  "op_signature t = None \<Longrightarrow> vs \<noteq> [] \<Longrightarrow>
   CalculateTaskImpl (Some t) vs = Inl (LogicError ''Invalid operation'')"
  by (cases t) (simp_all add: CalculateTaskImpl_def)

section \<open>Properties\<close>

text \<open>
  C12. The worker's switch agrees with the meaning of the operations: for every node of a
  well-formed expression that is not a leaf, computing its task from the values of its
  operands, taken in order, is the value of the node, failures included.
\<close>

theorem task_computes_node:
  assumes "wf_Expr e" and "\<not> is_leaf e"
  shows "eval env e =
    bindE (mapE (eval env) (operands e))
      (CalculateTaskImpl (ExprType_of_nat (ExprType_to_nat (GetType e))))"
  using CalculateTaskImpl_eval [OF assms] by simp

theorem task_computes_node_witness:
  "eval (\<lambda>x. if x = ''L'' then Some (RList [1, 2, 3]) else None) (ReduceExpr RE_mul (Some (ListExpr ''L''))) =
   Inr (RScalar 6)"
  using task_computes_node [of "ReduceExpr RE_mul (Some (ListExpr ''L''))"]
  by (simp add: operands_def lookup_var_def CalculateTaskImpl_def on_list_def Mul_l_def std_reduce_def
      chk_def in_int_def)

text \<open>
  C13. Type soundness of \<open>CalculateTaskImpl\<close>, for every operation code and as many operands as
  the operation takes. If the operands have the kinds of the operation and fit an \<open>int\<close>, the
  task returns a value of the operation's result kind whose scalars all fit an \<open>int\<close>, or ends
  in undefined behaviour (overflow, division by zero, an empty list) or a failed length
  assertion; it never ends in a variant or message error. If an operand has another kind the
  task throws \<open>bad_variant_access\<close>; a code that is no operation is an invalid operation.
\<close>

theorem CalculateTaskImpl_type_sound:
  assumes "op_signature t = Some (ks, k)" and "length vs = length ks"
  shows "(map kind_of_result vs = ks \<longrightarrow> list_all wf_result vs \<longrightarrow>
      (case CalculateTaskImpl (Some t) vs of
         Inl err \<Rightarrow> err = UndefinedBehaviour \<or> err = AssertionFailed
       | Inr v \<Rightarrow> kind_of_result v = k \<and> wf_result v)) \<and>
    (map kind_of_result vs \<noteq> ks \<longrightarrow> CalculateTaskImpl (Some t) vs = Inl BadVariantAccess) \<and>
    (op_signature t' = None \<longrightarrow> vs \<noteq> [] \<longrightarrow>
      CalculateTaskImpl (Some t') vs = Inl (LogicError ''Invalid operation''))"
  using op_outcome [OF assms] op_kind_error [OF assms] no_signature [of t' vs]
  unfolding outcome_ok_def by blast

theorem CalculateTaskImpl_type_sound_witness:
  "CalculateTaskImpl (Some me_add) [RScalar 1, RScalar 2] = Inl BadVariantAccess \<and>
   (case CalculateTaskImpl (Some me_add) [RList [1, 2], RScalar 7] of
      Inl err \<Rightarrow> err = UndefinedBehaviour \<or> err = AssertionFailed
    | Inr v \<Rightarrow> kind_of_result v = KList \<and> wf_result v)"
proof -
  have "op_signature me_add = Some ([KList, KScalar], KList)" by simp
  note sound = CalculateTaskImpl_type_sound [OF this]
  from sound [of "[RScalar 1, RScalar 2]"] sound [of "[RList [1, 2], RScalar 7]"] show ?thesis
    by (simp add: in_int_def)
qed

text \<open>
  Evaluating a well-typed expression over values of the declared kinds
  never ends in a variant or message error. It returns a value of the expression's kind whose
  scalars all fit an \<open>int\<close>, or ends in undefined behaviour (overflow, division by zero, an
  empty list) or a failed length assertion.
\<close>

theorem eval_type_sound:
  assumes "env_typed G env" and "typed G e k"
  shows "case eval env e of Inl err \<Rightarrow> err = UndefinedBehaviour \<or> err = AssertionFailed
         | Inr v \<Rightarrow> kind_of_result v = k \<and> wf_result v"
  using eval_outcome(1) [OF assms] by (simp add: outcome_ok_def)

theorem eval_type_sound_witness:
  "typed (\<lambda>x. if x = ''L'' then Some KList else None) (ReduceExpr RE_mul (Some (ListExpr ''L''))) KScalar \<and>
   (case eval (\<lambda>x. if x = ''L'' then Some (RList [1, 2, 3]) else None)
       (ReduceExpr RE_mul (Some (ListExpr ''L''))) of
      Inl err \<Rightarrow> err = UndefinedBehaviour \<or> err = AssertionFailed
    | Inr v \<Rightarrow> kind_of_result v = KScalar \<and> wf_result v)"
proof -
  have "env_typed (\<lambda>x. if x = ''L'' then Some KList else None)
      (\<lambda>x. if x = ''L'' then Some (RList [1, 2, 3]) else None)"
    by (auto simp: env_typed_def in_int_def)
  moreover have "typed (\<lambda>x. if x = ''L'' then Some KList else None)
      (ReduceExpr RE_mul (Some (ListExpr ''L''))) KScalar"
    by simp
  ultimately show ?thesis by (blast intro: eval_type_sound)
qed

text \<open>
  The errors of \<open>CalculateTaskImpl\<close>: with no operand the behaviour is undefined; with a
  code that is not an operation (a leaf, \<open>invalid\<close>, or a number no enumerator has) it throws;
  an operand of the wrong kind is a \<open>bad_variant_access\<close>.
\<close>

theorem CalculateTaskImpl_errors:
  "CalculateTaskImpl ty [] = Inl UndefinedBehaviour \<and>
   CalculateTaskImpl None (v # vs) = Inl (LogicError ''Invalid operation'') \<and>
   (is_op t \<or> CalculateTaskImpl (Some t) (v # vs) = Inl (LogicError ''Invalid operation'')) \<and>
   CalculateTaskImpl (Some (GetType_reduce t1)) (RScalar x # vs) = Inl BadVariantAccess \<and>
   CalculateTaskImpl (Some (GetType_map t2)) [RScalar x, v] = Inl BadVariantAccess \<and>
   CalculateTaskImpl (Some (GetType_scalarop t4)) [RList l, v] = Inl BadVariantAccess"
proof -
  have "is_op t \<or> CalculateTaskImpl (Some t) (v # vs) = Inl (LogicError ''Invalid operation'')"
    by (cases t) (simp_all add: is_op_def CalculateTaskImpl_def)
  moreover have "CalculateTaskImpl (Some (GetType_reduce t1)) (RScalar x # vs) = Inl BadVariantAccess"
    by (cases t1) (simp_all add: CalculateTaskImpl_def on_list_def)
  ultimately show ?thesis
    by (simp add: CalculateTaskImpl_binary on_list_scalar_def on_scalars_def)
       (simp add: CalculateTaskImpl_def)
qed

end
