(* ===== verification/Decomposition.thy ===== *)
theory Decomposition
  imports Dag Calculation
begin

text \<open>
  \<open>manager/src/decomposition/decomposition.{h,cpp}\<close>: the decomposition of an expression into
  atomic tasks. A task is a vertex of the graph. \<open>boost::topological_sort\<close> is the parameter
  \<open>topo\<close>; its contract, a reverse topological order of the vertices, is
  \<open>topological_sort_ok\<close>.
\<close>

section \<open>The decompositor\<close>

record TaskDecompositor =
  td_graph :: Graph
  td_tasks :: "nat list"

definition TaskDecompositor_New :: "(Graph \<Rightarrow> nat list res) \<Rightarrow> AST \<Rightarrow> TaskDecompositor res" where
  "TaskDecompositor_New topo ast =
     bindE (AST_PostorderTraverse DagVisitor_Visit ast []) (\<lambda>records.
     bindE (BuildGraph records) (\<lambda>graph.
     bindE (topo graph) (\<lambda>tasks.
     Inr \<lparr>td_graph = graph, td_tasks = tasks\<rparr>)))"

definition GetSortedTasks :: "TaskDecompositor \<Rightarrow> nat list" where
  "GetSortedTasks td = td_tasks td"

definition get_VariableId :: "ExprData \<Rightarrow> VariableId res" where
  "get_VariableId d = (case d of DataVariable v \<Rightarrow> Inr v | _ \<Rightarrow> Inl BadVariantAccess)"

definition GetIndependentTasks :: "TaskDecompositor \<Rightarrow> (nat, VariableId) umap res" where
  "GetIndependentTasks td =
     foldE (\<lambda>task m.
       let task_type = vtype (vertices (td_graph td) ! task) in
       if task_type = list_t \<or> task_type = scalar_const \<or> task_type = scalar_var
       then bindE (get_VariableId (vdata (vertices (td_graph td) ! task)))
              (\<lambda>v. Inr (um_emplace task v m))
       else Inr m) (td_tasks td) []"

definition GetComputableTasks ::
  "TaskDecompositor \<Rightarrow> nat set \<Rightarrow> nat set \<Rightarrow> (nat, nat list) umap" where
  "GetComputableTasks td computed_tasks excluded_tasks =
     fold (\<lambda>task m.
       if task \<notin> computed_tasks \<and> task \<notin> excluded_tasks \<and>
          list_all (\<lambda>vertex. vertex \<in> computed_tasks) (adjacent_vertices task (td_graph td))
       then um_emplace task (adjacent_vertices task (td_graph td)) m
       else m) (td_tasks td) []"

definition GetOperationType :: "TaskDecompositor \<Rightarrow> nat \<Rightarrow> size_t" where
  "GetOperationType td task = word_of_nat (ExprType_to_nat (vtype (vertices (td_graph td) ! task)))"

definition PrintTasks :: "TaskDecompositor \<Rightarrow> string \<Rightarrow> string" where
  "PrintTasks td output =
     fold (\<lambda>task out. out @ ExprType_name (vtype (vertices (td_graph td) ! task)) @ [CHR 0x0A])
       (td_tasks td) output"

section \<open>The contract of the topological sort\<close>

definition rev_topological :: "Graph \<Rightarrow> nat list \<Rightarrow> bool" where
  "rev_topological g ts \<longleftrightarrow> distinct ts \<and> set ts = {0..<num_vertices g} \<and>
     (\<forall>u < num_vertices g. \<forall>v \<in> set (adjacent_vertices u g). index_of ts v < index_of ts u)"

definition topological_sort_ok :: "(Graph \<Rightarrow> nat list res) \<Rightarrow> Graph \<Rightarrow> bool" where
  "topological_sort_ok topo g \<longleftrightarrow> (\<exists>ts. topo g = Inr ts \<and> rev_topological g ts)"

text \<open>A decompositor made from a well-formed expression.\<close>

definition decomposes :: "TaskDecompositor \<Rightarrow> Expr \<Rightarrow> bool" where
  "decomposes td e \<longleftrightarrow> wf_Expr e \<and> td_graph td = graph_of (records_of e) \<and>
     rev_topological (td_graph td) (td_tasks td)"

lemma decomposes_tasks: "decomposes td e \<Longrightarrow> set (td_tasks td) = {0..<length (records_of e)}"
  by (simp add: decomposes_def rev_topological_def)

lemma decomposes_distinct: "decomposes td e \<Longrightarrow> distinct (td_tasks td)"
  by (simp add: decomposes_def rev_topological_def)

lemma decomposes_adjacent:
  "decomposes td e \<Longrightarrow> t < length (records_of e) \<Longrightarrow>
   adjacent_vertices t (td_graph td) = map (index_of (records_of e)) (operands (records_of e ! t))"
  by (simp add: decomposes_def adjacent_graph_of)

lemma decomposes_vertex:
  "decomposes td e \<Longrightarrow> t < length (records_of e) \<Longrightarrow>
   vertices (td_graph td) ! t = vertex_of (records_of e ! t)"
  by (simp add: decomposes_def graph_of_def)

lemma decomposes_adjacent_less:
  assumes "decomposes td e" and "t < length (records_of e)"
    and "u \<in> set (adjacent_vertices t (td_graph td))"
  shows "u < t"
  using adjacent_less [OF operands_before_records, of e t u] assms
  by (simp add: decomposes_def)

lemma records_nonempty [simp]: "records_of e \<noteq> []"
  using self_in_postorder [of e] set_records_of [of e] by (metis empty_iff list.set(1))

lemma records_root: "wf_Expr e \<Longrightarrow> records_of e ! (length (records_of e) - 1) = e"
  by (metis append_butlast_last_id last_conv_nth last_snoc records_nonempty records_of_last)

text \<open>The root is the only vertex with no in-edge, so every reverse topological order ends in it.\<close>

lemma decomposes_last:
  assumes d: "decomposes td e"
  shows "td_tasks td \<noteq> []" and "last (td_tasks td) = length (records_of e) - 1"
proof -
  let ?rs = "records_of e" and ?ts = "td_tasks td"
  have wf: "wf_Expr e" using d by (simp add: decomposes_def)
  have set_ts: "set ?ts = {0..<length ?rs}" by (rule decomposes_tasks [OF d])
  have dis: "distinct ?ts" by (rule decomposes_distinct [OF d])
  show ne: "?ts \<noteq> []" using set_ts by auto
  show "last ?ts = length ?rs - 1"
  proof (rule ccontr)
    let ?k = "last ?ts"
    assume "?k \<noteq> length ?rs - 1"
    have k: "?k < length ?rs" using set_ts last_in_set [OF ne] by auto
    have "?rs ! ?k \<noteq> e"
      using records_root [OF wf] \<open>?k \<noteq> length ?rs - 1\<close> k distinct_records_of [of e]
      by (metis diff_less length_greater_0_conv nth_eq_iff_index_eq records_nonempty zero_less_one)
    then obtain y where y: "y \<in> set ?rs" "?rs ! ?k \<in> set (operands y)"
      using record_has_parent [OF wf, of "?rs ! ?k"] nth_mem [OF k] by auto
    obtain u where u: "u < length ?rs" "?rs ! u = y"
      using y(1) unfolding in_set_conv_nth by blast
    have "?k \<in> set (adjacent_vertices u (td_graph td))"
      using decomposes_adjacent [OF d u(1)] y(2) u(2) index_of_nth [OF distinct_records_of k] by force
    then have "index_of ?ts ?k < index_of ?ts u"
      using d u(1) by (auto simp: decomposes_def rev_topological_def)
    moreover have "index_of ?ts ?k = length ?ts - 1"
      using index_of_nth [OF dis, of "length ?ts - 1"] ne by (simp add: last_conv_nth)
    moreover have "index_of ?ts u < length ?ts"
      using index_of_less [of u ?ts] set_ts u(1) by simp
    ultimately show False by linarith
  qed
qed

lemma TaskDecompositor_New_ok:
  assumes "wf_Expr e" and "topological_sort_ok topo (graph_of (records_of e))"
  shows "\<exists>td. TaskDecompositor_New topo (AST (Some e)) = Inr td \<and> decomposes td e"
  using assms
  by (auto simp: TaskDecompositor_New_def AST_PostorderTraverse_def traverse_records BuildGraph_records
      topological_sort_ok_def decomposes_def)

lemma TaskDecompositor_New_decomposes:
  assumes "wf_Expr e" and "topological_sort_ok topo (graph_of (records_of e))"
    and "TaskDecompositor_New topo (AST (Some e)) = Inr td"
  shows "decomposes td e"
  using TaskDecompositor_New_ok [OF assms(1,2)] assms(3) by auto

section \<open>Computable tasks\<close>

lemma map_of_fold_emplace:
  "map_of (fold (\<lambda>t m. if P t then um_emplace t (f t) m else m) ts m0) t =
   (case map_of m0 t of Some v \<Rightarrow> Some v | None \<Rightarrow> if t \<in> set ts \<and> P t then Some (f t) else None)"
  by (induction ts arbitrary: m0) (auto simp: um_simps split: option.splits)

lemma um_ok_fold_emplace:
  "um_ok m0 \<Longrightarrow> um_ok (fold (\<lambda>t m. if P t then um_emplace t (f t) m else m) ts m0)"
  by (induction ts arbitrary: m0) auto

lemma map_of_GetComputableTasks:
  "map_of (GetComputableTasks td C X) t =
   (if t \<in> set (td_tasks td) \<and> t \<notin> C \<and> t \<notin> X \<and> set (adjacent_vertices t (td_graph td)) \<subseteq> C
    then Some (adjacent_vertices t (td_graph td)) else None)"
  unfolding GetComputableTasks_def
  by (subst map_of_fold_emplace) (auto simp: list_all_iff)

lemma um_ok_GetComputableTasks: "um_ok (GetComputableTasks td C X)"
  unfolding GetComputableTasks_def by (rule um_ok_fold_emplace) simp

text \<open>
  What the dispatcher relies on of a source of tasks: tasks depend on smaller tasks only, and
  \<open>computable\<close> lists exactly the tasks, neither computed nor excluded, whose dependencies are
  all computed.
\<close>

locale task_source =
  fixes ok :: "'d \<Rightarrow> bool" and tasks :: "'d \<Rightarrow> nat set" and deps :: "'d \<Rightarrow> nat \<Rightarrow> nat list"
    and computable :: "'d \<Rightarrow> nat set \<Rightarrow> nat set \<Rightarrow> (nat, nat list) umap"
  assumes deps_less: "ok d \<Longrightarrow> t \<in> tasks d \<Longrightarrow> u \<in> set (deps d t) \<Longrightarrow> u < t"
    and deps_tasks: "ok d \<Longrightarrow> t \<in> tasks d \<Longrightarrow> set (deps d t) \<subseteq> tasks d"
    and computable_iff: "map_of (computable d C X) t = Some ds \<longleftrightarrow>
          t \<in> tasks d \<and> t \<notin> C \<and> t \<notin> X \<and> set ds \<subseteq> C \<and> ds = deps d t"
    and computable_distinct: "um_ok (computable d C X)"
begin

lemma computable_entry:
  "(t, ds) \<in> set (computable d C X) \<longleftrightarrow>
   t \<in> tasks d \<and> t \<notin> C \<and> t \<notin> X \<and> set ds \<subseteq> C \<and> ds = deps d t"
  using computable_iff map_of_in_set [OF computable_distinct] by metis

text \<open>While a task is missing, something can be started or is being computed.\<close>

lemma progress:
  assumes "ok d" and "t \<in> tasks d" and "t \<notin> C"
  shows "computable d C X \<noteq> [] \<or> (\<exists>u \<in> X. u \<in> tasks d \<and> u \<notin> C)"
proof -
  obtain m where m: "m \<in> tasks d" "m \<notin> C" and least: "\<And>u. u < m \<Longrightarrow> u \<in> tasks d \<Longrightarrow> u \<in> C"
    using exists_least_iff [of "\<lambda>u. u \<in> tasks d \<and> u \<notin> C"] assms(2,3) by blast
  have "set (deps d m) \<subseteq> C"
    using least deps_less [OF assms(1) m(1)] deps_tasks [OF assms(1) m(1)] by blast
  then have "(m, deps d m) \<in> set (computable d C X)" if "m \<notin> X"
    using that m by (simp add: computable_entry)
  then show ?thesis using m by (cases "m \<in> X") auto
qed

end

interpretation decomp: task_source "\<lambda>td. \<exists>e. decomposes td e" "\<lambda>td. set (td_tasks td)"
  "\<lambda>td t. adjacent_vertices t (td_graph td)" GetComputableTasks
proof
  fix d :: TaskDecompositor and t u
  assume "\<exists>e. decomposes d e" and t: "t \<in> set (td_tasks d)"
  then obtain e where e: "decomposes d e" by blast
  then have t': "t < length (records_of e)" using t decomposes_tasks by auto
  show "u < t" if "u \<in> set (adjacent_vertices t (td_graph d))"
    using decomposes_adjacent_less [OF e t' that] .
  show "set (adjacent_vertices t (td_graph d)) \<subseteq> set (td_tasks d)"
    using decomposes_adjacent_less [OF e t'] t' decomposes_tasks [OF e] by fastforce
qed (auto simp: map_of_GetComputableTasks um_ok_GetComputableTasks)

section \<open>Independent tasks\<close>

text \<open>The expression uses a literal constant.\<close>

definition has_const :: "Expr \<Rightarrow> bool" where
  "has_const e \<longleftrightarrow> (\<exists>r \<in> set (postorder e). GetType r = scalar_const)"

lemma leaf_type_vertex: "vtype (vertex_of r) = GetType r" "vdata (vertex_of r) = GetData r"
  by (simp_all add: vertex_of_def)

lemma GetType_const_iff: "GetType r = scalar_const \<longleftrightarrow> (\<exists>x. r = ScalarConstExpr x)"
  by (cases r) (auto elim: GetType_reduce.elims GetType_map.elims GetType_listop.elims
      GetType_scalarop.elims)

lemma get_VariableId_const: "GetType r = scalar_const \<Longrightarrow> get_VariableId (GetData r) = Inl BadVariantAccess"
  by (auto simp: GetType_const_iff get_VariableId_def)

lemma get_VariableId_leaf: "is_leaf r \<Longrightarrow> GetType r \<noteq> scalar_const \<Longrightarrow> \<exists>v. GetData r = DataVariable v"
  by (cases r) simp_all

lemma foldE_emplace:
  "(\<And>t. t \<in> set ts \<Longrightarrow> L t \<Longrightarrow> g t = Inr (v t)) \<Longrightarrow>
   foldE (\<lambda>t m. if L t then bindE (g t) (\<lambda>v. Inr (um_emplace t v m)) else Inr m) ts m0 =
   Inr (fold (\<lambda>t m. if L t then um_emplace t (v t) m else m) ts m0)"
  by (induction ts arbitrary: m0) auto

lemma foldE_emplace_error:
  assumes "\<And>t. t \<in> set ts \<Longrightarrow> L t \<Longrightarrow> g t = Inl err \<or> (\<exists>v. g t = Inr v)"
    and "\<exists>t \<in> set ts. L t \<and> g t = Inl err"
  shows "foldE (\<lambda>t m. if L t then bindE (g t) (\<lambda>v. Inr (um_emplace t v m)) else Inr m) ts m0 = Inl err"
  using assms by (induction ts arbitrary: m0) fastforce+

definition variable_of :: "ExprData \<Rightarrow> VariableId" where
  "variable_of d = (case d of DataVariable v \<Rightarrow> v | _ \<Rightarrow> [])"

lemma GetIndependentTasks_foldE:
  assumes "decomposes td e"
  shows "GetIndependentTasks td =
    foldE (\<lambda>t m. if is_leaf (records_of e ! t)
      then bindE (get_VariableId (GetData (records_of e ! t))) (\<lambda>v. Inr (um_emplace t v m)) else Inr m)
      (td_tasks td) []"
  unfolding GetIndependentTasks_def Let_def
  by (rule foldE_cong)
    (use decomposes_vertex [OF assms] decomposes_tasks [OF assms] in
     \<open>auto simp: leaf_type_vertex is_leaf_def is_leaf_type_def\<close>)

lemma GetIndependentTasks_ok:
  assumes d: "decomposes td e" and c: "\<not> has_const e"
  shows "\<exists>m. GetIndependentTasks td = Inr m \<and> um_ok m \<and>
    (\<forall>t v. map_of m t = Some v \<longleftrightarrow>
       t < length (records_of e) \<and> is_leaf (records_of e ! t) \<and> GetData (records_of e ! t) = DataVariable v)"
proof -
  let ?rs = "records_of e"
  have leaf: "GetData (?rs ! t) = DataVariable (variable_of (GetData (?rs ! t)))"
    if t: "t < length ?rs" and l: "is_leaf (?rs ! t)" for t
  proof -
    have "GetType (?rs ! t) \<noteq> scalar_const" using c nth_mem [OF t] by (auto simp: has_const_def)
    then obtain v where "GetData (?rs ! t) = DataVariable v"
      using get_VariableId_leaf [OF l] by blast
    then show ?thesis by (simp add: variable_of_def)
  qed
  then have g: "get_VariableId (GetData (?rs ! t)) = Inr (variable_of (GetData (?rs ! t)))"
    if "t \<in> set (td_tasks td)" "is_leaf (?rs ! t)" for t
  proof -
    have "GetData (?rs ! t) = DataVariable (variable_of (GetData (?rs ! t)))"
      using that decomposes_tasks [OF d] by (intro leaf) auto
    then show ?thesis by (auto simp: get_VariableId_def split: ExprData.splits)
  qed
  let ?m = "fold (\<lambda>t m. if is_leaf (?rs ! t) then um_emplace t (variable_of (GetData (?rs ! t))) m else m)
      (td_tasks td) []"
  have "GetIndependentTasks td = Inr ?m"
    unfolding GetIndependentTasks_foldE [OF d] by (rule foldE_emplace) (rule g)
  moreover have "map_of ?m t = Some v \<longleftrightarrow>
      t < length ?rs \<and> is_leaf (?rs ! t) \<and> GetData (?rs ! t) = DataVariable v" for t v
    using leaf [of t] decomposes_tasks [OF d]
    by (subst map_of_fold_emplace) (auto simp: variable_of_def)
  moreover have "um_ok ?m" by (rule um_ok_fold_emplace) simp
  ultimately show ?thesis by blast
qed

lemma GetIndependentTasks_const:
  assumes d: "decomposes td e" and c: "has_const e"
  shows "GetIndependentTasks td = Inl BadVariantAccess"
  unfolding GetIndependentTasks_foldE [OF d]
proof (rule foldE_emplace_error)
  let ?rs = "records_of e"
  show "get_VariableId (GetData (?rs ! t)) = Inl BadVariantAccess \<or>
      (\<exists>v. get_VariableId (GetData (?rs ! t)) = Inr v)" for t
    by (auto simp: get_VariableId_def split: ExprData.splits)
  from c obtain r where "r \<in> set ?rs" "GetType r = scalar_const" by (auto simp: has_const_def)
  then obtain t where "t < length ?rs" "GetType (?rs ! t) = scalar_const" by (metis in_set_conv_nth)
  then show "\<exists>t \<in> set (td_tasks td). is_leaf (?rs ! t) \<and>
      get_VariableId (GetData (?rs ! t)) = Inl BadVariantAccess"
    using decomposes_tasks [OF d] get_VariableId_const
    by (auto simp: is_leaf_def is_leaf_type_def)
qed

section \<open>Properties\<close>

text \<open>For graphs whose edges all go to smaller vertices, the vertices in order are such an order.\<close>

definition sample_topo :: "Graph \<Rightarrow> nat list res" where
  "sample_topo g = Inr [0..<num_vertices g]"

lemma index_of_upt: "i < n \<Longrightarrow> index_of [0..<n] i = i"
  using index_of_nth [of "[0..<n]" i] by simp

lemma sample_topo_ok:
  assumes "wf_Expr e"
  shows "topological_sort_ok sample_topo (graph_of (records_of e))"
proof -
  let ?n = "length (records_of e)"
  have "index_of [0..<?n] v < index_of [0..<?n] u"
    if "u < ?n" "v \<in> set (adjacent_vertices u (graph_of (records_of e)))" for u v
    using adjacent_less [OF operands_before_records [OF assms] distinct_records_of that] that(1)
    by (simp add: index_of_upt)
  then show ?thesis
    by (simp add: topological_sort_ok_def sample_topo_def rev_topological_def)
qed

text \<open>
  C9. Decomposing a well-formed expression succeeds. The tasks are the distinct
  subexpressions, each listed once and after everything it depends on, and the last one is the
  whole expression, so the dispatcher's "last sorted task" is the result.
\<close>

theorem decomposition_sound:
  assumes "wf_Expr e" and "topological_sort_ok topo (graph_of (records_of e))"
  shows "\<exists>td. TaskDecompositor_New topo (AST (Some e)) = Inr td \<and>
    distinct (GetSortedTasks td) \<and> length (GetSortedTasks td) = card {x. subexpr x e} \<and>
    (\<forall>i j. i < length (GetSortedTasks td) \<and> j < length (GetSortedTasks td) \<and>
       GetSortedTasks td ! j \<in> set (adjacent_vertices (GetSortedTasks td ! i) (td_graph td)) \<longrightarrow> j < i) \<and>
    GetSortedTasks td \<noteq> [] \<and> records_of e ! last (GetSortedTasks td) = e"
proof -
  obtain td where td: "TaskDecompositor_New topo (AST (Some e)) = Inr td" "decomposes td e"
    using TaskDecompositor_New_ok [OF assms] by blast
  let ?ts = "td_tasks td"
  have "length ?ts = length (records_of e)"
    using distinct_card [OF decomposes_distinct [OF td(2)]] decomposes_tasks [OF td(2)] by simp
  also have "\<dots> = card {x. subexpr x e}"
    using distinct_card [OF distinct_records_of [of e]] subexpr_postorder [OF assms(1)]
    by (metis Collect_cong Collect_mem_eq set_records_of)
  finally have len: "length ?ts = card {x. subexpr x e}" .
  have before: "j < i" if "i < length ?ts" "j < length ?ts"
    "?ts ! j \<in> set (adjacent_vertices (?ts ! i) (td_graph td))" for i j
  proof -
    have "index_of ?ts (?ts ! j) < index_of ?ts (?ts ! i)"
      using that td(2) nth_mem [OF that(1)] by (auto simp: decomposes_def rev_topological_def)
    with that(1,2) decomposes_distinct [OF td(2)] show ?thesis by (simp add: index_of_nth)
  qed
  have "records_of e ! last ?ts = e"
    using decomposes_last(2) [OF td(2)] records_root [OF assms(1)] by simp
  with td(1) len before decomposes_distinct [OF td(2)] decomposes_last(1) [OF td(2)] show ?thesis
    unfolding GetSortedTasks_def by blast
qed

theorem decomposition_sound_witness:
  "\<exists>td. TaskDecompositor_New sample_topo (AST (Some sample_expr)) = Inr td \<and>
     records_of sample_expr ! last (GetSortedTasks td) = sample_expr"
proof -
  have "wf_Expr sample_expr" by (simp add: sample_expr_def)
  from decomposition_sound [OF this sample_topo_ok [OF this]] show ?thesis by blast
qed

text \<open>
  An expression with a missing operand is never decomposed: the traversal follows the
  null pointer.
\<close>

theorem malformed_undefined:
  assumes "\<not> wf_Expr e"
  shows "TaskDecompositor_New topo (AST (Some e)) = Inl UndefinedBehaviour"
  using dag_visitor.traverse_malformed [OF assms, of "[]"]
  by (simp add: TaskDecompositor_New_def AST_PostorderTraverse_def)

theorem malformed_undefined_witness:
  "TaskDecompositor_New sample_topo (AST (Some (ListOpExpr LO_dot (Some (ListExpr ''L'')) None))) =
   Inl UndefinedBehaviour"
  using malformed_undefined [of "ListOpExpr LO_dot (Some (ListExpr ''L'')) None"] by simp

text \<open>
  \<open>GetComputableTasks\<close> returns, each once and with its dependencies in operand order,
  exactly the tasks that are neither computed nor excluded and whose dependencies are all
  computed.
\<close>

theorem GetComputableTasks_exact:
  "distinct (map fst (GetComputableTasks td computed excluded)) \<and>
   ((t, ds) \<in> set (GetComputableTasks td computed excluded) \<longleftrightarrow>
      t \<in> set (td_tasks td) \<and> t \<notin> computed \<and> t \<notin> excluded \<and> set ds \<subseteq> computed \<and>
      ds = adjacent_vertices t (td_graph td))"
  using um_ok_GetComputableTasks decomp.computable_entry by (auto simp: um_ok_def um_keys_def)

text \<open>
  \<open>GetIndependentTasks\<close> returns the leaves with their variable names when the expression
  has no literal constant; with a literal constant anywhere it throws
  \<open>bad_variant_access\<close>, since a constant's data is not a variable name.
\<close>

theorem GetIndependentTasks_result:
  assumes "decomposes td e"
  shows "(has_const e \<and> GetIndependentTasks td = Inl BadVariantAccess) \<or>
    (\<not> has_const e \<and> (\<exists>m. GetIndependentTasks td = Inr m \<and> distinct (map fst m) \<and>
      (\<forall>t v. map_of m t = Some v \<longleftrightarrow> t < length (records_of e) \<and>
         (records_of e ! t = ListExpr v \<or> records_of e ! t = ScalarVarExpr v))))"
proof (cases "has_const e")
  case True
  with GetIndependentTasks_const [OF assms] show ?thesis by simp
next
  case False
  have "is_leaf r \<and> GetData r = DataVariable v \<longleftrightarrow> r = ListExpr v \<or> r = ScalarVarExpr v" for r v
    by (cases r) auto
  with False GetIndependentTasks_ok [OF assms False] show ?thesis
    by (auto simp: um_ok_def um_keys_def)
qed

theorem GetIndependentTasks_result_witness:
  "GetIndependentTasks \<lparr>td_graph = graph_of [ScalarConstExpr 5], td_tasks = [0]\<rparr> = Inl BadVariantAccess"
proof -
  have "records_of (ScalarConstExpr 5) = [ScalarConstExpr 5]"
    by (simp add: records_of_def add_record_def)
  then have "decomposes \<lparr>td_graph = graph_of [ScalarConstExpr 5], td_tasks = [0]\<rparr> (ScalarConstExpr 5)"
    by (simp add: decomposes_def rev_topological_def adjacent_graph_of operands_def)
  from GetIndependentTasks_result [OF this] show ?thesis by (simp add: has_const_def)
qed

end
