(* ===== verification/Dispatch.thy ===== *)
theory Dispatch
  imports Database Decomposition
begin

text \<open>
  The manager's dispatcher, \<open>manager/src/dispatch\<close>, and the service in front of it,
  \<open>manager/src/grpc-server\<close>. For every problem the dispatcher keeps which tasks are being
  processed or completed and which can be sent; one thread sends tasks and takes answers, the
  threads of the service add problems, wait for their result and remove them. Everything done
  under the mutex \<open>m_\<close> is one step.
\<close>

section \<open>The connection to the broker\<close>

record BrokerConnection =
  requests_out :: "bytes list"
  replies_in :: "bytes list"

definition SendRequest :: "Wire \<Rightarrow> Task \<Rightarrow> BrokerConnection \<Rightarrow> BrokerConnection" where
  "SendRequest w task c = c\<lparr>requests_out := requests_out c @ [ser_Task w task]\<rparr>"

definition ReadReply :: "Wire \<Rightarrow> BrokerConnection \<Rightarrow> (TaskId option \<times> BrokerConnection) res" where
  "ReadReply w c = (case replies_in c of
     [] \<Rightarrow> Inr (None, c)
   | reply # rest \<Rightarrow> bindE (FromMessage (parse_TaskId w) reply) (\<lambda>finished_task.
       Inr (Some finished_task, c\<lparr>replies_in := rest\<rparr>)))"

section \<open>The data of a problem\<close>

datatype TaskStatus = processing | completed

record CalculationData =
  decompositor :: TaskDecompositor
  processed_tasks_to_status :: "(nat, TaskStatus) umap"
  task_to_variable_id :: "(nat, VariableId) umap"
  computable_task_to_dependencies :: "(nat, nat list) umap"

definition CalculationData_New :: "(Graph \<Rightarrow> nat list res) \<Rightarrow> AST \<Rightarrow> CalculationData res" where
  "CalculationData_New topo ast =
     bindE (TaskDecompositor_New topo ast) (\<lambda>td.
     bindE (GetIndependentTasks td) (\<lambda>independent.
       let statuses = fold (\<lambda>(task_id, _) m. um_emplace task_id completed m) independent [];
           computed_tasks = fold (\<lambda>(task_id, _) s. insert task_id s) independent {}
       in Inr \<lparr>decompositor = td, processed_tasks_to_status = statuses,
               task_to_variable_id = independent,
               computable_task_to_dependencies = GetComputableTasks td computed_tasks {}\<rparr>))"

section \<open>The dispatcher\<close>

text \<open>
  The two maps over the problems; of the synchronisation data of a waiting caller only the flag
  \<open>is_computed\<close> is state.
\<close>

record Dispatcher =
  problem_id_to_calculation_data :: "(size_t, CalculationData) umap"
  problem_id_to_sync_data :: "(size_t, bool) umap"
  broker_connection :: BrokerConnection
  PROBLEM_ID :: size_t

definition Dispatcher_New :: Dispatcher where
  "Dispatcher_New = \<lparr>problem_id_to_calculation_data = [], problem_id_to_sync_data = [],
     broker_connection = \<lparr>requests_out = [], replies_in = []\<rparr>, PROBLEM_ID = 0\<rparr>"

definition put_calculation_data :: "size_t \<Rightarrow> CalculationData \<Rightarrow> Dispatcher \<Rightarrow> Dispatcher" where
  "put_calculation_data problem_id cd d =
     d\<lparr>problem_id_to_calculation_data := um_put problem_id cd (problem_id_to_calculation_data d)\<rparr>"

definition FormOperand :: "Dispatcher \<Rightarrow> size_t \<Rightarrow> nat \<Rightarrow> Operand res" where
  "FormOperand d problem_id operand_id =
     bindE (um_at (problem_id_to_calculation_data d) problem_id) (\<lambda>calc_data.
       if um_contains (task_to_variable_id calc_data) operand_id
       then bindE (um_at (task_to_variable_id calc_data) operand_id) (\<lambda>v. Inr (StaticOperand v))
       else Inr (DynOperand \<lparr>tid_problem = to_u32 problem_id, tid_task = to_u32 (word_of_nat operand_id)\<rparr>))"

definition FormTaskRequest :: "Dispatcher \<Rightarrow> size_t \<Rightarrow> nat \<Rightarrow> nat list \<Rightarrow> Task res" where
  "FormTaskRequest d problem_id task_id dependencies =
     bindE (um_at (problem_id_to_calculation_data d) problem_id) (\<lambda>calc_data.
     bindE (mapE (FormOperand d problem_id) dependencies) (\<lambda>operands.
       Inr \<lparr>tk_id = \<lparr>tid_problem = to_u32 problem_id, tid_task = to_u32 (word_of_nat task_id)\<rparr>,
            tk_operation_type = to_u32 (GetOperationType (decompositor calc_data) task_id),
            tk_operands = operands\<rparr>))"

text \<open>The body of the inner loop of \<open>SendComputableTasks\<close>, of the outer loop, and the function.\<close>

definition SendComputableTask :: "Wire \<Rightarrow> size_t \<Rightarrow> nat \<times> nat list \<Rightarrow> Dispatcher \<Rightarrow> Dispatcher res" where
  "SendComputableTask w problem_id entry d = (case entry of (task_id, dependencies) \<Rightarrow>
     bindE (FormTaskRequest d problem_id task_id dependencies) (\<lambda>task.
       let d = d\<lparr>broker_connection := SendRequest w task (broker_connection d)\<rparr> in
       bindE (um_at (problem_id_to_calculation_data d) problem_id) (\<lambda>calc_data.
         Inr (put_calculation_data problem_id (calc_data\<lparr>processed_tasks_to_status :=
           um_put task_id processing (processed_tasks_to_status calc_data)\<rparr>) d))))"

definition SendComputableTasksOf ::
  "Wire \<Rightarrow> ((nat \<times> nat list) list \<Rightarrow> (nat \<times> nat list) list) \<Rightarrow> size_t \<Rightarrow> Dispatcher \<Rightarrow> Dispatcher res" where
  "SendComputableTasksOf w order problem_id d =
     bindE (um_at (problem_id_to_calculation_data d) problem_id) (\<lambda>calc_data.
     bindE (foldE (SendComputableTask w problem_id) (order (computable_task_to_dependencies calc_data)) d) (\<lambda>d.
     bindE (um_at (problem_id_to_calculation_data d) problem_id) (\<lambda>calc_data.
       Inr (put_calculation_data problem_id (calc_data\<lparr>computable_task_to_dependencies := []\<rparr>) d))))"

definition SendComputableTasks ::
  "Wire \<Rightarrow> ((nat \<times> nat list) list \<Rightarrow> (nat \<times> nat list) list) \<Rightarrow> Dispatcher \<Rightarrow> Dispatcher res" where
  "SendComputableTasks w order d =
     foldE (SendComputableTasksOf w order) (um_keys (problem_id_to_calculation_data d)) d"

text \<open>Assigning through \<open>.at\<close>.\<close>

definition um_assign :: "('k, 'v) umap \<Rightarrow> 'k \<Rightarrow> 'v \<Rightarrow> ('k, 'v) umap res" where
  "um_assign m k v = bindE (um_at m k) (\<lambda>_. Inr (um_put k v m))"

definition NotifyComputedProblem :: "size_t \<Rightarrow> nat \<Rightarrow> Dispatcher \<Rightarrow> Dispatcher res" where
  "NotifyComputedProblem problem_id task_id d =
     bindE (um_at (problem_id_to_calculation_data d) problem_id) (\<lambda>calc_data.
     bindE (um_assign (processed_tasks_to_status calc_data) task_id completed) (\<lambda>statuses.
       let d = put_calculation_data problem_id (calc_data\<lparr>processed_tasks_to_status := statuses\<rparr>) d in
       bindE (um_assign (problem_id_to_sync_data d) problem_id True) (\<lambda>sync.
         Inr (d\<lparr>problem_id_to_sync_data := sync\<rparr>))))"

definition UpdateComputableTasksImpl :: "size_t \<Rightarrow> nat \<Rightarrow> Dispatcher \<Rightarrow> Dispatcher res" where
  "UpdateComputableTasksImpl problem_id task_id d =
     bindE (um_at (problem_id_to_calculation_data d) problem_id) (\<lambda>calc_data.
     bindE (um_assign (processed_tasks_to_status calc_data) task_id completed) (\<lambda>statuses.
       let (computed_tasks, excluded_tasks) =
             fold (\<lambda>(task_id, status) (c, x). case status of
                 processing \<Rightarrow> (c, insert task_id x) | completed \<Rightarrow> (insert task_id c, x)) statuses ({}, {})
       in Inr (put_calculation_data problem_id (calc_data\<lparr>processed_tasks_to_status := statuses,
            computable_task_to_dependencies :=
              GetComputableTasks (decompositor calc_data) computed_tasks excluded_tasks\<rparr>) d)))"

definition UpdateComputableTasks :: "Wire \<Rightarrow> Dispatcher \<Rightarrow> Dispatcher res" where
  "UpdateComputableTasks w d =
     bindE (ReadReply w (broker_connection d)) (\<lambda>(task_id, c).
       let d = d\<lparr>broker_connection := c\<rparr> in
       case task_id of
         None \<Rightarrow> Inr d
       | Some task_id \<Rightarrow>
           bindE (um_at (problem_id_to_calculation_data d) (of_u32 (tid_problem task_id))) (\<lambda>calc_data.
           bindE (queue_back (GetSortedTasks (decompositor calc_data))) (\<lambda>back.
             if unat (tid_task task_id) = back
             then NotifyComputedProblem (of_u32 (tid_problem task_id)) (unat (tid_task task_id)) d
             else UpdateComputableTasksImpl (of_u32 (tid_problem task_id)) (unat (tid_task task_id)) d)))"

definition RunDispatcher_turn ::
  "Wire \<Rightarrow> ((nat \<times> nat list) list \<Rightarrow> (nat \<times> nat list) list) \<Rightarrow> Dispatcher \<Rightarrow> Dispatcher res" where
  "RunDispatcher_turn w order d = bindE (SendComputableTasks w order d) (UpdateComputableTasks w)"

definition PushProblem :: "CalculationData \<Rightarrow> Dispatcher \<Rightarrow> size_t \<times> Dispatcher" where
  "PushProblem calc_data d =
     (let problem_id = PROBLEM_ID d in
      (problem_id, d\<lparr>
         problem_id_to_calculation_data := om_emplace problem_id calc_data (problem_id_to_calculation_data d),
         problem_id_to_sync_data := um_emplace problem_id False (problem_id_to_sync_data d),
         PROBLEM_ID := PROBLEM_ID d + 1\<rparr>))"

definition ClearProblem :: "size_t \<Rightarrow> Dispatcher \<Rightarrow> Dispatcher" where
  "ClearProblem problem_id d = d\<lparr>
     problem_id_to_calculation_data := um_erase problem_id (problem_id_to_calculation_data d),
     problem_id_to_sync_data := um_erase problem_id (problem_id_to_sync_data d)\<rparr>"

text \<open>
  \<open>CalculateProblem\<close> up to its wait, the condition it waits for, and the rest.
\<close>

definition CalculateProblem_start ::
  "(Graph \<Rightarrow> nat list res) \<Rightarrow> AST \<Rightarrow> Dispatcher \<Rightarrow> ((size_t \<times> nat) \<times> Dispatcher) res" where
  "CalculateProblem_start topo ast d =
     bindE (CalculationData_New topo ast) (\<lambda>calc_data.
       let (problem_id, d) = PushProblem calc_data d in
       bindE (queue_back (GetSortedTasks (decompositor calc_data))) (\<lambda>task_id.
         Inr ((problem_id, task_id), d)))"

definition CalculateProblem_ready :: "size_t \<Rightarrow> Dispatcher \<Rightarrow> bool res" where
  "CalculateProblem_ready problem_id d = um_at (problem_id_to_sync_data d) problem_id"

definition CalculateProblem_finish ::
  "DbStubs \<Rightarrow> size_t \<Rightarrow> nat \<Rightarrow> Dispatcher \<times> Tables \<Rightarrow> ExprResult res \<times> Dispatcher \<times> Tables" where
  "CalculateProblem_finish st problem_id task_id = (\<lambda>(d, db).
     let d = ClearProblem problem_id d;
         (expr_result, db) = Client_ReadData (read_stub st) (DynRecordId problem_id (word_of_nat task_id)) db
     in case expr_result of
          Inl err \<Rightarrow> (Inl err, d, db)
        | Inr r \<Rightarrow> (Inr r, d, Client_Clear (clear_stub st) problem_id db))"

definition IsScalarVariable :: "string \<Rightarrow> bool" where
  "IsScalarVariable variable_id =
     list_all (\<lambda>c. of_char CHR ''a'' \<le> (of_char c :: nat) \<and> of_char c \<le> (of_char CHR ''z'' :: nat)) variable_id"

section \<open>The service\<close>

definition ExprResultVisitor :: "ExprResult \<Rightarrow> CalculationReply" where
  "ExprResultVisitor r = (case r of RList l \<Rightarrow> ReplyList l | RScalar x \<Rightarrow> ReplyScalar x)"

section \<open>The schedule of a problem\<close>

text \<open>
  What the dispatcher's book-keeping amounts to for any source of tasks: \<open>C\<close> are completed,
  \<open>X\<close> are being processed, and \<open>ready\<close> lists exactly the tasks that are neither and have all
  their dependencies completed.
\<close>

context task_source
begin

definition schedule :: "'d \<Rightarrow> nat set \<Rightarrow> nat set \<Rightarrow> (nat, nat list) umap \<Rightarrow> bool" where
  "schedule d C X ready \<longleftrightarrow> ok d \<and> um_ok ready \<and> C \<union> X \<subseteq> tasks d \<and> C \<inter> X = {} \<and>
     (\<forall>t \<in> C \<union> X. set (deps d t) \<subseteq> C) \<and>
     (\<forall>t ds. map_of ready t = Some ds \<longleftrightarrow>
        t \<in> tasks d \<and> t \<notin> C \<and> t \<notin> X \<and> set ds \<subseteq> C \<and> ds = deps d t)"

lemma schedule_start:
  "ok d \<Longrightarrow> C \<subseteq> tasks d \<Longrightarrow> (\<And>t. t \<in> C \<Longrightarrow> set (deps d t) \<subseteq> C) \<Longrightarrow> schedule d C {} (computable d C {})"
  unfolding schedule_def using computable_iff computable_distinct by auto

lemma scheduleD:
  assumes "schedule d C X ready"
  shows "ok d" "um_ok ready" "C \<union> X \<subseteq> tasks d" "C \<inter> X = {}"
    "t \<in> C \<union> X \<Longrightarrow> set (deps d t) \<subseteq> C"
    "map_of ready t = Some ds \<longleftrightarrow> t \<in> tasks d \<and> t \<notin> C \<and> t \<notin> X \<and> set ds \<subseteq> C \<and> ds = deps d t"
  using assms unfolding schedule_def by blast+

lemma schedule_send:
  assumes "schedule d C X ready"
  shows "schedule d C (X \<union> fst ` set ready) []"
proof -
  let ?R = "fst ` set ready"
  have R: "t \<in> ?R \<longleftrightarrow> t \<in> tasks d \<and> t \<notin> C \<and> t \<notin> X \<and> set (deps d t) \<subseteq> C" for t
  proof -
    have "t \<in> ?R \<longleftrightarrow> (\<exists>ds. map_of ready t = Some ds)"
      using map_of_eq_None_iff [of ready t] by (cases "map_of ready t") auto
    then show ?thesis using scheduleD(6) [OF assms] by simp
  qed
  have "\<forall>t \<in> C \<union> (X \<union> ?R). set (deps d t) \<subseteq> C"
    using scheduleD(5) [OF assms] R by blast
  moreover have "C \<union> (X \<union> ?R) \<subseteq> tasks d" "C \<inter> (X \<union> ?R) = {}"
    using scheduleD(3,4) [OF assms] R by blast+
  moreover have "\<not> (t \<in> tasks d \<and> t \<notin> C \<and> t \<notin> X \<union> ?R \<and> set ds \<subseteq> C \<and> ds = deps d t)" for t ds
    using R [of t] by blast
  ultimately show ?thesis
    using scheduleD(1) [OF assms] unfolding schedule_def by simp
qed

lemma schedule_complete:
  assumes "schedule d C X ready" and "t \<in> C \<union> X"
  shows "schedule d (insert t C) (X - {t}) (computable d (insert t C) (X - {t}))"
  using assms unfolding schedule_def by (auto simp: computable_iff computable_distinct)

lemma schedule_complete_last:
  assumes "schedule d C X ready" and "t \<in> C \<union> X" and "\<And>u. u \<in> tasks d \<Longrightarrow> t \<notin> set (deps d u)"
  shows "schedule d (insert t C) (X - {t}) ready"
proof -
  have "u \<in> tasks d \<and> u \<notin> insert t C \<and> u \<notin> X - {t} \<and> set ds \<subseteq> insert t C \<and> ds = deps d u \<longleftrightarrow>
      u \<in> tasks d \<and> u \<notin> C \<and> u \<notin> X \<and> set ds \<subseteq> C \<and> ds = deps d u" for u ds
    using assms(2) assms(3) [of u] by auto
  moreover have "\<forall>u \<in> insert t C \<union> (X - {t}). set (deps d u) \<subseteq> insert t C"
    using scheduleD(5) [OF assms(1)] assms(2) by blast
  moreover have "insert t C \<union> (X - {t}) \<subseteq> tasks d" "insert t C \<inter> (X - {t}) = {}"
    using scheduleD(3,4) [OF assms(1)] assms(2) by blast+
  ultimately show ?thesis
    using scheduleD(1,2,6) [OF assms(1)] unfolding schedule_def by presburger
qed

text \<open>Nothing is sent twice, and nothing before its dependencies are completed.\<close>

lemma schedule_entry:
  "schedule d C X ready \<Longrightarrow> (t, ds) \<in> set ready \<Longrightarrow>
   t \<in> tasks d \<and> t \<notin> C \<and> t \<notin> X \<and> set ds \<subseteq> C \<and> ds = deps d t"
  unfolding schedule_def using map_of_in_set [of ready] by auto

lemma schedule_progress:
  assumes "schedule d C X ready" and "t \<in> tasks d" and "t \<notin> C"
  shows "ready \<noteq> [] \<or> X \<noteq> {}"
proof -
  have "ready = [] \<Longrightarrow> computable d C X = []"
    using assms(1) computable_iff [of d C X] unfolding schedule_def
    by (metis list.exhaust map_of_eq_None_iff map_of.simps(1) not_None_eq list.set_intros(1) image_eqI)
  then show ?thesis
    using progress [of d t C X] assms unfolding schedule_def by auto
qed

lemma schedule_all_completed:
  assumes "schedule d C X ready" and "r \<in> C"
    and needed: "\<And>t. t \<in> tasks d \<Longrightarrow> t \<noteq> r \<Longrightarrow> \<exists>u \<in> tasks d. t \<in> set (deps d u)"
    and bound: "\<And>t. t \<in> tasks d \<Longrightarrow> t < n"
  shows "tasks d \<subseteq> C"
proof
  fix t
  assume "t \<in> tasks d"
  then show "t \<in> C"
  proof (induction "n - t" arbitrary: t rule: less_induct)
    case less
    show ?case
    proof (cases "t = r")
      case False
      then obtain u where u: "u \<in> tasks d" "t \<in> set (deps d u)" using needed less.prems by blast
      moreover have "t < u" using deps_less u assms(1) unfolding schedule_def by blast
      ultimately have "u \<in> C" using less.hyps [of u] bound [of u] by linarith
      with u(2) assms(1) show ?thesis unfolding schedule_def by blast
    qed (use assms(2) in simp)
  qed
qed

end

section \<open>The invariant of a problem\<close>

definition completed_tasks :: "CalculationData \<Rightarrow> nat set" where
  "completed_tasks cd = {t. map_of (processed_tasks_to_status cd) t = Some completed}"

definition processing_tasks :: "CalculationData \<Rightarrow> nat set" where
  "processing_tasks cd = {t. map_of (processed_tasks_to_status cd) t = Some processing}"

text \<open>The part that does not change, and the whole.\<close>

definition calc_static :: "Expr \<Rightarrow> CalculationData \<Rightarrow> bool" where
  "calc_static e cd \<longleftrightarrow> decomposes (decompositor cd) e \<and> \<not> has_const e \<and>
     (\<forall>t v. map_of (task_to_variable_id cd) t = Some v \<longleftrightarrow>
        t < length (records_of e) \<and> is_leaf (records_of e ! t) \<and> GetData (records_of e ! t) = DataVariable v)"

definition calc_inv :: "Expr \<Rightarrow> CalculationData \<Rightarrow> bool" where
  "calc_inv e cd \<longleftrightarrow> calc_static e cd \<and> um_ok (processed_tasks_to_status cd) \<and>
     (\<forall>t < length (records_of e). is_leaf (records_of e ! t) \<longrightarrow> t \<in> completed_tasks cd) \<and>
     decomp.schedule (decompositor cd) (completed_tasks cd) (processing_tasks cd)
       (computable_task_to_dependencies cd)"

lemma status_cases: "map_of (processed_tasks_to_status cd) t \<noteq> None \<longleftrightarrow> t \<in> completed_tasks cd \<union> processing_tasks cd"
proof -
  have "s \<noteq> processing \<longleftrightarrow> s = completed" for s by (cases s) simp_all
  then show ?thesis
    by (cases "map_of (processed_tasks_to_status cd) t") (auto simp: completed_tasks_def processing_tasks_def)
qed

lemma fold_insert_keys: "fold (\<lambda>(k, _) s. insert k s) m s0 = s0 \<union> fst ` set m"
  by (induction m arbitrary: s0) auto

lemma map_of_fold_completed:
  "map_of (fold (\<lambda>(k, _) m. um_emplace k completed m) xs []) t = (if t \<in> fst ` set xs then Some completed else None)"
proof -
  have "fold (\<lambda>(k, _) m. um_emplace k completed m) xs m0 =
      fold (\<lambda>k m. if True then um_emplace k completed m else m) (map fst xs) m0" for m0
    by (induction xs arbitrary: m0) auto
  then show ?thesis
    using map_of_fold_emplace [of "\<lambda>_. True" "\<lambda>_. completed" "map fst xs" "[]" t] by simp
qed

lemma um_ok_fold_completed: "um_ok m0 \<Longrightarrow> um_ok (fold (\<lambda>(k, _) m. um_emplace k completed m) xs m0)"
  by (induction xs arbitrary: m0) auto

lemma leaf_no_deps:
  "decomposes td e \<Longrightarrow> t < length (records_of e) \<Longrightarrow> is_leaf (records_of e ! t) \<Longrightarrow>
   adjacent_vertices t (td_graph td) = []"
  by (simp add: decomposes_adjacent leaf_operands)

lemma CalculationData_New_inv:
  assumes wf: "wf_Expr e" and topo: "topological_sort_ok topo (graph_of (records_of e))"
    and c: "\<not> has_const e"
  shows "\<exists>cd. CalculationData_New topo (AST (Some e)) = Inr cd \<and> calc_inv e cd \<and> processing_tasks cd = {} \<and>
    completed_tasks cd = {t. t < length (records_of e) \<and> is_leaf (records_of e ! t)}"
proof -
  obtain td where td: "TaskDecompositor_New topo (AST (Some e)) = Inr td" "decomposes td e"
    using TaskDecompositor_New_ok [OF wf topo] by blast
  obtain m where m: "GetIndependentTasks td = Inr m" "um_ok m"
    and vars: "\<And>t v. map_of m t = Some v \<longleftrightarrow>
       t < length (records_of e) \<and> is_leaf (records_of e ! t) \<and> GetData (records_of e ! t) = DataVariable v"
    using GetIndependentTasks_ok [OF td(2) c] by blast
  let ?L = "{t. t < length (records_of e) \<and> is_leaf (records_of e ! t)}"
  have L: "fst ` set m = ?L"
  proof -
    have "\<exists>v. GetData (records_of e ! t) = DataVariable v" if "t \<in> ?L" for t
    proof (rule get_VariableId_leaf)
      show "is_leaf (records_of e ! t)" using that by simp
      show "GetType (records_of e ! t) \<noteq> scalar_const"
        using c that nth_mem [of t "records_of e"] by (auto simp: has_const_def)
    qed
    then have "dom (map_of m) = ?L" using vars by (fastforce simp: dom_def)
    then show ?thesis by (simp add: dom_map_of_conv_image_fst)
  qed
  let ?cd = "\<lparr>decompositor = td,
      processed_tasks_to_status = fold (\<lambda>(k, _) m. um_emplace k completed m) m [],
      task_to_variable_id = m, computable_task_to_dependencies = GetComputableTasks td ?L {}\<rparr>"
  have sets: "completed_tasks ?cd = ?L" "processing_tasks ?cd = {}"
    by (simp_all add: completed_tasks_def processing_tasks_def map_of_fold_completed L)
  have "decomp.schedule td ?L {} (GetComputableTasks td ?L {})"
  proof (rule decomp.schedule_start)
    show "\<exists>e. decomposes td e" using td(2) by blast
    show "?L \<subseteq> set (td_tasks td)"
      unfolding decomposes_tasks [OF td(2)] by (simp add: subset_iff)
    show "set (adjacent_vertices t (td_graph td)) \<subseteq> ?L" if "t \<in> ?L" for t
      using leaf_no_deps [OF td(2), of t] that by simp
  qed
  then have "calc_inv e ?cd"
    unfolding calc_inv_def calc_static_def sets using td(2) c vars by (simp add: um_ok_fold_completed)
  moreover have "CalculationData_New topo (AST (Some e)) = Inr ?cd"
    by (simp add: CalculationData_New_def td(1) m(1) fold_insert_keys L)
  ultimately show ?thesis using sets by blast
qed

section \<open>What is sent\<close>

text \<open>
  The request for a task in terms of the expression: its operation, and for each operand the name
  of a variable or the id of the task that computes it.
\<close>

definition request_id :: "size_t \<Rightarrow> nat \<Rightarrow> TaskId" where
  "request_id problem_id t = \<lparr>tid_problem = to_u32 problem_id, tid_task = to_u32 (word_of_nat t)\<rparr>"

definition request_operand :: "Expr \<Rightarrow> size_t \<Rightarrow> Expr \<Rightarrow> Operand" where
  "request_operand e problem_id x = (case x of
     ListExpr v \<Rightarrow> StaticOperand v
   | ScalarVarExpr v \<Rightarrow> StaticOperand v
   | _ \<Rightarrow> DynOperand (request_id problem_id (index_of (records_of e) x)))"

definition request :: "Expr \<Rightarrow> size_t \<Rightarrow> nat \<Rightarrow> Task" where
  "request e problem_id t = \<lparr>tk_id = request_id problem_id t,
     tk_operation_type = word_of_nat (ExprType_to_nat (GetType (records_of e ! t))),
     tk_operands = map (request_operand e problem_id) (operands (records_of e ! t))\<rparr>"

lemma to_u32_word_of_nat: "n < 2 ^ 32 \<Longrightarrow> to_u32 (word_of_nat n) = word_of_nat n"
  by (simp add: word_unat_eq_iff unat_to_u32 unat_of_nat)

lemma calc_invD:
  assumes "calc_inv e cd"
  shows "decomposes (decompositor cd) e" "\<not> has_const e" "um_ok (processed_tasks_to_status cd)"
    "map_of (task_to_variable_id cd) t = Some v \<longleftrightarrow>
       t < length (records_of e) \<and> is_leaf (records_of e ! t) \<and> GetData (records_of e ! t) = DataVariable v"
    "t < length (records_of e) \<Longrightarrow> is_leaf (records_of e ! t) \<Longrightarrow> t \<in> completed_tasks cd"
    "decomp.schedule (decompositor cd) (completed_tasks cd) (processing_tasks cd)
       (computable_task_to_dependencies cd)"
    "calc_static e cd"
  using assms unfolding calc_inv_def calc_static_def by blast+

lemma calc_staticD:
  assumes "calc_static e cd"
  shows "decomposes (decompositor cd) e" "\<not> has_const e"
    "map_of (task_to_variable_id cd) t = Some v \<longleftrightarrow>
       t < length (records_of e) \<and> is_leaf (records_of e ! t) \<and> GetData (records_of e ! t) = DataVariable v"
  using assms unfolding calc_static_def by blast+

lemma operand_index:
  assumes "wf_Expr e" and "t < length (records_of e)" and "x \<in> set (operands (records_of e ! t))"
  shows "index_of (records_of e) x < length (records_of e)"
    and "records_of e ! index_of (records_of e) x = x"
proof -
  have "x \<in> set (records_of e)"
    using operands_before_records [OF assms(1)] assms(2,3) set_take_subset [of t "records_of e"]
    unfolding operands_before_def by blast
  then show "index_of (records_of e) x < length (records_of e)" "records_of e ! index_of (records_of e) x = x"
    by (simp_all add: index_of_less nth_index_of)
qed

lemma FormOperand_eq:
  assumes cd: "map_of (problem_id_to_calculation_data d) problem_id = Some cd" and inv: "calc_static e cd"
    and x: "index_of (records_of e) x < length (records_of e)" "records_of e ! index_of (records_of e) x = x"
  shows "FormOperand d problem_id (index_of (records_of e) x) = Inr (request_operand e problem_id x)"
proof -
  let ?u = "index_of (records_of e) x"
  have const: "x \<noteq> ScalarConstExpr n" for n
  proof
    assume "x = ScalarConstExpr n"
    moreover have "x \<in> set (records_of e)" using nth_mem [OF x(1)] x(2) by simp
    ultimately show False using calc_staticD(2) [OF inv] by (auto simp: has_const_def)
  qed
  have vars: "map_of (task_to_variable_id cd) ?u = Some v \<longleftrightarrow> is_leaf x \<and> GetData x = DataVariable v" for v
    using calc_staticD(3) [OF inv, of ?u v] x by simp
  show ?thesis
  proof (cases "map_of (task_to_variable_id cd) ?u")
    case None
    with vars have "\<not> (is_leaf x \<and> GetData x = DataVariable v)" for v by (metis option.distinct(1))
    with const None cd show ?thesis
      by (cases x) (auto simp: FormOperand_def um_at_def um_contains_def request_operand_def request_id_def)
  next
    case (Some v)
    with vars have "is_leaf x" "GetData x = DataVariable v" by blast+
    with const Some cd show ?thesis
      by (cases x) (auto simp: FormOperand_def um_at_def um_contains_def request_operand_def)
  qed
qed

lemma FormTaskRequest_eq:
  assumes cd: "map_of (problem_id_to_calculation_data d) problem_id = Some cd" and inv: "calc_static e cd"
    and t: "t < length (records_of e)"
  shows "FormTaskRequest d problem_id t (adjacent_vertices t (td_graph (decompositor cd))) =
    Inr (request e problem_id t)"
proof -
  note dec = calc_staticD(1) [OF inv]
  have wf: "wf_Expr e" using dec by (simp add: decomposes_def)
  have "mapE (FormOperand d problem_id) (adjacent_vertices t (td_graph (decompositor cd))) =
      Inr (map (request_operand e problem_id) (operands (records_of e ! t)))"
    unfolding decomposes_adjacent [OF dec t] mapE_map
    by (rule mapE_total) (rule FormOperand_eq [OF cd inv operand_index [OF wf t]])
  moreover have "to_u32 (GetOperationType (decompositor cd) t) =
      word_of_nat (ExprType_to_nat (GetType (records_of e ! t)))"
    using ExprType_to_nat_less [of "GetType (records_of e ! t)"]
    by (simp add: GetOperationType_def decomposes_vertex [OF dec t] leaf_type_vertex to_u32_word_of_nat)
  ultimately show ?thesis
    by (simp add: FormTaskRequest_def um_at_def cd request_def request_id_def)
qed

definition mark_processing :: "(nat \<times> nat list) list \<Rightarrow> CalculationData \<Rightarrow> CalculationData" where
  "mark_processing es cd = cd\<lparr>processed_tasks_to_status :=
     fold (\<lambda>(t, _) m. um_put t processing m) es (processed_tasks_to_status cd)\<rparr>"

definition after_send :: "Wire \<Rightarrow> Expr \<Rightarrow> size_t \<Rightarrow> (nat \<times> nat list) list \<Rightarrow> CalculationData \<Rightarrow> Dispatcher \<Rightarrow> Dispatcher" where
  "after_send w e problem_id es cd d = put_calculation_data problem_id cd
     (d\<lparr>broker_connection := (broker_connection d)\<lparr>requests_out := requests_out (broker_connection d) @
        map (\<lambda>(t, _). ser_Task w (request e problem_id t)) es\<rparr>\<rparr>)"

lemma put_calculation_data_same:
  "map_of (problem_id_to_calculation_data d) problem_id = Some cd \<Longrightarrow> put_calculation_data problem_id cd d = d"
  by (simp add: put_calculation_data_def um_put_same)

lemma SendComputableTask_eq:
  assumes "map_of (problem_id_to_calculation_data d) problem_id = Some cd" and "calc_static e cd"
    and "t < length (records_of e)"
  shows "SendComputableTask w problem_id (t, adjacent_vertices t (td_graph (decompositor cd))) d =
    Inr (after_send w e problem_id [(t, adjacent_vertices t (td_graph (decompositor cd)))]
      (mark_processing [(t, adjacent_vertices t (td_graph (decompositor cd)))] cd) d)"
  using assms by (simp add: SendComputableTask_def FormTaskRequest_eq um_at_def SendRequest_def
      after_send_def mark_processing_def)

lemma foldE_SendComputableTask:
  assumes "map_of (problem_id_to_calculation_data d) problem_id = Some cd" and "calc_static e cd"
    and "\<And>t ds. (t, ds) \<in> set es \<Longrightarrow> t < length (records_of e) \<and> ds = adjacent_vertices t (td_graph (decompositor cd))"
  shows "foldE (SendComputableTask w problem_id) es d =
    Inr (after_send w e problem_id es (mark_processing es cd) d)"
  using assms
proof (induction es arbitrary: d cd)
  case Nil
  then show ?case by (simp add: after_send_def mark_processing_def put_calculation_data_same)
next
  case (Cons x es)
  obtain t ds where x: "x = (t, ds)" by (cases x)
  have t: "t < length (records_of e)" "ds = adjacent_vertices t (td_graph (decompositor cd))"
    using Cons.prems(3) [of t ds] x by simp_all
  let ?cd = "mark_processing [x] cd"
  let ?d = "after_send w e problem_id [x] ?cd d"
  have "SendComputableTask w problem_id x d = Inr ?d"
    using SendComputableTask_eq [OF Cons.prems(1,2) t(1)] x t(2) by simp
  moreover have "foldE (SendComputableTask w problem_id) es ?d =
      Inr (after_send w e problem_id es (mark_processing es ?cd) ?d)"
  proof (rule Cons.IH)
    show "map_of (problem_id_to_calculation_data ?d) problem_id = Some ?cd"
      by (simp add: after_send_def put_calculation_data_def um_simps)
    show "calc_static e ?cd" using Cons.prems(2) by (simp add: calc_static_def mark_processing_def)
    show "u < length (records_of e) \<and> us = adjacent_vertices u (td_graph (decompositor ?cd))"
      if "(u, us) \<in> set es" for u us
      using Cons.prems(3) [of u us] that by (simp add: mark_processing_def)
  qed
  moreover have "after_send w e problem_id es (mark_processing es ?cd) ?d =
      after_send w e problem_id (x # es) (mark_processing (x # es) cd) d"
    by (simp add: after_send_def mark_processing_def put_calculation_data_def x)
  ultimately show ?case by simp
qed

lemma map_of_fold_processing:
  "map_of (fold (\<lambda>(t, _) m. um_put t processing m) es m0) t =
     (if t \<in> fst ` set es then Some processing else map_of m0 t)"
  by (induction es arbitrary: m0) (auto simp: um_simps)

lemma um_ok_fold_processing: "um_ok m0 \<Longrightarrow> um_ok (fold (\<lambda>(t, _) m. um_put t processing m) es m0)"
  by (induction es arbitrary: m0) auto

text \<open>Sending what is ready keeps the invariant of the problem.\<close>

definition sent_data :: "(nat \<times> nat list) list \<Rightarrow> CalculationData \<Rightarrow> CalculationData" where
  "sent_data es cd = (mark_processing es cd)\<lparr>computable_task_to_dependencies := []\<rparr>"

lemma ready_entry:
  assumes "calc_inv e cd" and "(t, ds) \<in> set (computable_task_to_dependencies cd)"
  shows "t < length (records_of e) \<and> ds = adjacent_vertices t (td_graph (decompositor cd)) \<and>
    t \<notin> completed_tasks cd \<and> t \<notin> processing_tasks cd \<and> \<not> is_leaf (records_of e ! t)"
  using decomp.schedule_entry [OF calc_invD(6) [OF assms(1)] assms(2)]
    decomposes_tasks [OF calc_invD(1) [OF assms(1)]] calc_invD(5) [OF assms(1), of t] by auto

lemma sent_data_sets:
  assumes "calc_inv e cd" and "set es = set (computable_task_to_dependencies cd)"
  shows "completed_tasks (sent_data es cd) = completed_tasks cd"
    and "processing_tasks (sent_data es cd) = processing_tasks cd \<union> fst ` set es"
proof -
  have "t \<notin> completed_tasks cd" if "t \<in> fst ` set es" for t
    using that assms(2) ready_entry [OF assms(1)] by auto
  then show "completed_tasks (sent_data es cd) = completed_tasks cd"
    by (auto simp: completed_tasks_def sent_data_def mark_processing_def map_of_fold_processing)
  show "processing_tasks (sent_data es cd) = processing_tasks cd \<union> fst ` set es"
    by (auto simp: processing_tasks_def sent_data_def mark_processing_def map_of_fold_processing)
qed

lemma calc_inv_sent:
  assumes "calc_inv e cd" and es: "set es = set (computable_task_to_dependencies cd)"
  shows "calc_inv e (sent_data es cd)"
proof -
  have "decomp.schedule (decompositor cd) (completed_tasks cd) (processing_tasks cd \<union> fst ` set es) []"
    unfolding es by (rule decomp.schedule_send [OF calc_invD(6) [OF assms(1)]])
  then show ?thesis
    using assms(1) unfolding calc_inv_def sent_data_sets [OF assms]
    by (simp add: sent_data_def mark_processing_def calc_static_def um_ok_fold_processing)
qed

lemma SendComputableTasksOf_eq:
  assumes cd: "map_of (problem_id_to_calculation_data d) problem_id = Some cd" and inv: "calc_inv e cd"
    and order: "iteration_ok order"
  shows "SendComputableTasksOf w order problem_id d =
    Inr (after_send w e problem_id (order (computable_task_to_dependencies cd))
      (sent_data (order (computable_task_to_dependencies cd)) cd) d)"
proof -
  let ?es = "order (computable_task_to_dependencies cd)"
  have "foldE (SendComputableTask w problem_id) ?es d =
      Inr (after_send w e problem_id ?es (mark_processing ?es cd) d)"
    by (rule foldE_SendComputableTask [OF cd calc_invD(7) [OF inv]])
      (use ready_entry [OF inv] iteration_set [OF order] in auto)
  then show ?thesis
    by (simp add: SendComputableTasksOf_def um_at_def cd after_send_def put_calculation_data_def
        um_simps sent_data_def)
qed

section \<open>What an answer does\<close>

lemma fold_statuses:
  "fold (\<lambda>(t, s) (c, x). case s of processing \<Rightarrow> (c, insert t x) | completed \<Rightarrow> (insert t c, x)) m (C, X) =
   (C \<union> {t. (t, completed) \<in> set m}, X \<union> {t. (t, processing) \<in> set m})"
proof (induction m arbitrary: C X)
  case (Cons e m)
  obtain t s where "e = (t, s)" by (cases e)
  with Cons show ?case by (cases s) auto
qed simp

definition complete_task :: "nat \<Rightarrow> CalculationData \<Rightarrow> CalculationData" where
  "complete_task t cd = cd\<lparr>processed_tasks_to_status := um_put t completed (processed_tasks_to_status cd)\<rparr>"

lemma complete_task_sets:
  "completed_tasks (complete_task t cd) = insert t (completed_tasks cd)"
  "processing_tasks (complete_task t cd) = processing_tasks cd - {t}"
  by (auto simp: complete_task_def completed_tasks_def processing_tasks_def um_simps)

lemma um_assign_eq: "um_assign m k v = (if map_of m k = None then Inl OutOfRange else Inr (um_put k v m))"
  by (auto simp: um_assign_def um_at_def split: option.splits)

definition updated_data :: "nat \<Rightarrow> CalculationData \<Rightarrow> CalculationData" where
  "updated_data t cd = (complete_task t cd)\<lparr>computable_task_to_dependencies :=
     GetComputableTasks (decompositor cd) (insert t (completed_tasks cd)) (processing_tasks cd - {t})\<rparr>"

lemma UpdateComputableTasksImpl_eq:
  assumes "map_of (problem_id_to_calculation_data d) problem_id = Some cd" and "calc_inv e cd"
  shows "UpdateComputableTasksImpl problem_id t d =
    (if t \<in> completed_tasks cd \<union> processing_tasks cd
     then Inr (put_calculation_data problem_id (updated_data t cd) d) else Inl OutOfRange)"
proof -
  let ?st = "um_put t completed (processed_tasks_to_status cd)"
  have "um_ok ?st" using calc_invD(3) [OF assms(2)] by simp
  then have "{u. (u, completed) \<in> set ?st} = completed_tasks (complete_task t cd)"
    "{u. (u, processing) \<in> set ?st} = processing_tasks (complete_task t cd)"
    unfolding completed_tasks_def processing_tasks_def complete_task_def
    by (simp_all add: map_of_in_set del: map_of_um_put)
  then have sets: "fold (\<lambda>(t, s) (c, x). case s of processing \<Rightarrow> (c, insert t x) | completed \<Rightarrow> (insert t c, x)) ?st ({}, {}) =
      (insert t (completed_tasks cd), processing_tasks cd - {t})"
    unfolding fold_statuses complete_task_sets by simp
  show ?thesis
  proof (cases "t \<in> completed_tasks cd \<union> processing_tasks cd")
    case True
    then have "map_of (processed_tasks_to_status cd) t \<noteq> None" using status_cases [of cd t] by blast
    with True assms(1) sets show ?thesis
      by (simp add: UpdateComputableTasksImpl_def um_at_def um_assign_eq updated_data_def complete_task_def)
  next
    case False
    then have "map_of (processed_tasks_to_status cd) t = None" using status_cases [of cd t] by blast
    with False assms(1) show ?thesis
      by (simp add: UpdateComputableTasksImpl_def um_at_def um_assign_eq)
  qed
qed

lemma calc_inv_updated:
  assumes "calc_inv e cd" and "t \<in> completed_tasks cd \<union> processing_tasks cd"
  shows "calc_inv e (updated_data t cd)"
proof -
  have sets: "completed_tasks (updated_data t cd) = insert t (completed_tasks cd)"
    "processing_tasks (updated_data t cd) = processing_tasks cd - {t}"
    using complete_task_sets [of t cd]
    by (simp_all add: updated_data_def completed_tasks_def processing_tasks_def)
  have "decomp.schedule (decompositor cd) (insert t (completed_tasks cd)) (processing_tasks cd - {t})
      (GetComputableTasks (decompositor cd) (insert t (completed_tasks cd)) (processing_tasks cd - {t}))"
    by (rule decomp.schedule_complete [OF calc_invD(6) [OF assms(1)] assms(2)])
  then show ?thesis
    using assms(1) unfolding calc_inv_def sets
    by (simp add: updated_data_def complete_task_def calc_static_def)
qed

lemma root_not_needed:
  assumes "decomposes td e" and "u \<in> set (td_tasks td)"
  shows "length (records_of e) - 1 \<notin> set (adjacent_vertices u (td_graph td))"
proof
  assume a: "length (records_of e) - 1 \<in> set (adjacent_vertices u (td_graph td))"
  have "u < length (records_of e)" using assms decomposes_tasks [OF assms(1)] by simp
  with decomposes_adjacent_less [OF assms(1) this a] show False by linarith
qed

lemma calc_inv_root_completed:
  assumes "calc_inv e cd" and t: "length (records_of e) - 1 \<in> completed_tasks cd \<union> processing_tasks cd"
  shows "calc_inv e (complete_task (length (records_of e) - 1) cd)"
proof -
  let ?r = "length (records_of e) - 1"
  have "decomp.schedule (decompositor cd) (insert ?r (completed_tasks cd)) (processing_tasks cd - {?r})
      (computable_task_to_dependencies cd)"
    by (rule decomp.schedule_complete_last [OF calc_invD(6) [OF assms(1)] t])
      (rule root_not_needed [OF calc_invD(1) [OF assms(1)]])
  then show ?thesis
    using assms(1) unfolding calc_inv_def complete_task_sets
    by (simp add: complete_task_def calc_static_def)
qed

lemma NotifyComputedProblem_eq:
  assumes "map_of (problem_id_to_calculation_data d) problem_id = Some cd"
    and "map_of (problem_id_to_sync_data d) problem_id \<noteq> None"
  shows "NotifyComputedProblem problem_id t d =
    (if t \<in> completed_tasks cd \<union> processing_tasks cd
     then Inr ((put_calculation_data problem_id (complete_task t cd) d)
       \<lparr>problem_id_to_sync_data := um_put problem_id True (problem_id_to_sync_data d)\<rparr>) else Inl OutOfRange)"
proof (cases "t \<in> completed_tasks cd \<union> processing_tasks cd")
  case True
  then have "map_of (processed_tasks_to_status cd) t \<noteq> None" using status_cases [of cd t] by blast
  with True assms show ?thesis
    by (auto simp: NotifyComputedProblem_def um_at_def um_assign_eq complete_task_def
        put_calculation_data_def Let_def)
next
  case False
  then have "map_of (processed_tasks_to_status cd) t = None" using status_cases [of cd t] by blast
  with False assms show ?thesis by (simp add: NotifyComputedProblem_def um_at_def um_assign_eq)
qed

lemma GetSortedTasks_back:
  assumes "decomposes td e"
  shows "queue_back (GetSortedTasks td) = Inr (length (records_of e) - 1)"
  using decomposes_last [OF assms] by (simp add: queue_back_def GetSortedTasks_def)

section \<open>Runs of the dispatcher\<close>

text \<open>
  The dispatcher from its start, with the expressions of the problems pushed so far; the problem
  number of the \<open>i\<close>-th is \<open>i\<close>. Answers may arrive at any time and are arbitrary bytes.
\<close>

inductive dispatcher_run ::
  "Wire \<Rightarrow> (Graph \<Rightarrow> nat list res) \<Rightarrow> ((nat \<times> nat list) list \<Rightarrow> (nat \<times> nat list) list) \<Rightarrow>
   Expr list \<Rightarrow> Dispatcher \<Rightarrow> bool"
  for w topo order where
  start: "dispatcher_run w topo order [] Dispatcher_New"
| new_problem: "dispatcher_run w topo order ps d \<Longrightarrow>
    CalculateProblem_start topo (AST (Some e)) d = Inr (ids, d') \<Longrightarrow>
    dispatcher_run w topo order (ps @ [e]) d'"
| answer: "dispatcher_run w topo order ps d \<Longrightarrow>
    dispatcher_run w topo order ps (d\<lparr>broker_connection := (broker_connection d)
      \<lparr>replies_in := replies_in (broker_connection d) @ [m]\<rparr>\<rparr>)"
| send: "dispatcher_run w topo order ps d \<Longrightarrow> SendComputableTasks w order d = Inr d' \<Longrightarrow>
    dispatcher_run w topo order ps d'"
| update: "dispatcher_run w topo order ps d \<Longrightarrow> UpdateComputableTasks w d = Inr d' \<Longrightarrow>
    dispatcher_run w topo order ps d'"
| clear: "dispatcher_run w topo order ps d \<Longrightarrow> CalculateProblem_ready problem_id d = Inr True \<Longrightarrow>
    dispatcher_run w topo order ps (ClearProblem problem_id d)"

definition root_task :: "Expr \<Rightarrow> nat" where
  "root_task e = length (records_of e) - 1"

text \<open>The invariant of one problem within the dispatcher; \<open>sent\<close> are the tasks sent so far.\<close>

definition problem_inv ::
  "Expr list \<Rightarrow> (size_t \<times> nat) list \<Rightarrow> (size_t, bool) umap \<Rightarrow> size_t \<Rightarrow> CalculationData \<Rightarrow> bool" where
  "problem_inv ps sent sync pid cd \<longleftrightarrow>
     unat pid < length ps \<and> calc_inv (ps ! unat pid) cd \<and>
     (\<forall>t \<in> completed_tasks cd \<union> processing_tasks cd.
        is_leaf (records_of (ps ! unat pid) ! t) \<or> (pid, t) \<in> set sent) \<and>
     (\<forall>t. (pid, t) \<in> set sent \<longrightarrow> t \<in> completed_tasks cd \<union> processing_tasks cd) \<and>
     map_of sync pid \<noteq> None \<and>
     (map_of sync pid = Some True \<longrightarrow> root_task (ps ! unat pid) \<in> completed_tasks cd)"

definition sent_ok :: "Wire \<Rightarrow> Expr list \<Rightarrow> (size_t \<times> nat) list \<Rightarrow> bytes list \<Rightarrow> bool" where
  "sent_ok w ps sent out \<longleftrightarrow>
     out = map (\<lambda>(pid, t). ser_Task w (request (ps ! unat pid) pid t)) sent \<and> distinct sent \<and>
     (\<forall>(pid, t) \<in> set sent. unat pid < length ps \<and> t < length (records_of (ps ! unat pid)) \<and>
        \<not> is_leaf (records_of (ps ! unat pid) ! t))"

definition dispatcher_inv :: "Wire \<Rightarrow> Expr list \<Rightarrow> (size_t \<times> nat) list \<Rightarrow> Dispatcher \<Rightarrow> bool" where
  "dispatcher_inv w ps sent d \<longleftrightarrow>
     PROBLEM_ID d = word_of_nat (length ps) \<and>
     sorted (um_keys (problem_id_to_calculation_data d)) \<and> um_ok (problem_id_to_calculation_data d) \<and>
     (\<forall>pid cd. map_of (problem_id_to_calculation_data d) pid = Some cd \<longrightarrow>
        problem_inv ps sent (problem_id_to_sync_data d) pid cd) \<and>
     (\<forall>pid. map_of (problem_id_to_calculation_data d) pid = None \<longrightarrow> map_of (problem_id_to_sync_data d) pid = None) \<and>
     sent_ok w ps sent (requests_out (broker_connection d))"

lemma dispatcher_invD:
  assumes "dispatcher_inv w ps sent d"
  shows "PROBLEM_ID d = word_of_nat (length ps)"
    "sorted (um_keys (problem_id_to_calculation_data d))" "um_ok (problem_id_to_calculation_data d)"
    "map_of (problem_id_to_calculation_data d) pid = Some cd \<Longrightarrow>
       problem_inv ps sent (problem_id_to_sync_data d) pid cd"
    "sent_ok w ps sent (requests_out (broker_connection d))"
    "map_of (problem_id_to_calculation_data d) pid = None \<Longrightarrow> map_of (problem_id_to_sync_data d) pid = None"
  using assms unfolding dispatcher_inv_def by blast+

text \<open>Replacing the data of one problem.\<close>

lemma dispatcher_inv_put:
  assumes inv: "dispatcher_inv w ps sent d" and cd: "map_of (problem_id_to_calculation_data d) pid = Some cd"
    and new: "problem_inv ps sent' (problem_id_to_sync_data d') pid cd'"
    and sync: "\<And>p. p \<noteq> pid \<Longrightarrow> map_of (problem_id_to_sync_data d') p = map_of (problem_id_to_sync_data d) p"
    and sent': "\<And>p t. p \<noteq> pid \<Longrightarrow> (p, t) \<in> set sent' \<longleftrightarrow> (p, t) \<in> set sent"
    and d': "problem_id_to_calculation_data d' = um_put pid cd' (problem_id_to_calculation_data d)"
      "PROBLEM_ID d' = PROBLEM_ID d"
    and out: "sent_ok w ps sent' (requests_out (broker_connection d'))"
  shows "dispatcher_inv w ps sent' d'"
proof -
  have "pid \<in> set (um_keys (problem_id_to_calculation_data d))"
    using cd um_contains_iff [of "problem_id_to_calculation_data d" pid] by (simp add: um_contains_def)
  then have keys: "um_keys (problem_id_to_calculation_data d') = um_keys (problem_id_to_calculation_data d)"
    using um_keys_put_present d'(1) by simp
  have "problem_inv ps sent' (problem_id_to_sync_data d') p c"
    if "map_of (problem_id_to_calculation_data d') p = Some c" for p c
  proof (cases "p = pid")
    case True
    with that new show ?thesis by (simp add: d'(1) um_simps)
  next
    case False
    with that have "map_of (problem_id_to_calculation_data d) p = Some c" by (simp add: d'(1) um_simps)
    from dispatcher_invD(4) [OF inv this] show ?thesis
      using sent' [OF False] by (simp add: problem_inv_def sync [OF False])
  qed
  moreover have "map_of (problem_id_to_sync_data d') p = None"
    if "map_of (problem_id_to_calculation_data d') p = None" for p
    using that sync [of p] dispatcher_invD(6) [OF inv, of p]
    by (cases "p = pid") (simp_all add: d'(1) um_simps)
  ultimately show ?thesis
    using dispatcher_invD(1,2,3) [OF inv] out unfolding dispatcher_inv_def keys d'(2)
    by (simp add: d'(1))
qed

lemma sent_ok_append:
  assumes "sent_ok w ps sent out" and "unat pid < length ps" and "distinct ts"
    and "\<And>t. t \<in> set ts \<Longrightarrow> (pid, t) \<notin> set sent \<and> t < length (records_of (ps ! unat pid)) \<and>
      \<not> is_leaf (records_of (ps ! unat pid) ! t)"
  shows "sent_ok w ps (sent @ map (Pair pid) ts) (out @ map (\<lambda>t. ser_Task w (request (ps ! unat pid) pid t)) ts)"
  using assms by (auto simp: sent_ok_def distinct_map inj_on_def)

lemma dispatcher_inv_SendOf:
  assumes inv: "dispatcher_inv w ps sent d" and order: "iteration_ok order"
    and cd: "map_of (problem_id_to_calculation_data d) pid = Some cd"
    and step: "SendComputableTasksOf w order pid d = Inr d'"
  shows "dispatcher_inv w ps (sent @ map (\<lambda>e. (pid, fst e)) (order (computable_task_to_dependencies cd))) d'"
proof -
  let ?es = "order (computable_task_to_dependencies cd)"
  let ?sent = "sent @ map (\<lambda>e. (pid, fst e)) ?es" and ?e = "ps ! unat pid"
  note p = dispatcher_invD(4) [OF inv cd]
  have calc: "calc_inv ?e cd" and pid: "unat pid < length ps" using p by (simp_all add: problem_inv_def)
  have es: "set ?es = set (computable_task_to_dependencies cd)" by (rule iteration_set [OF order])
  have d': "d' = after_send w ?e pid ?es (sent_data ?es cd) d"
    using SendComputableTasksOf_eq [OF cd calc order] step by simp
  have fresh: "(pid, t) \<notin> set sent \<and> t < length (records_of ?e) \<and> \<not> is_leaf (records_of ?e ! t)"
    if "t \<in> set (map fst ?es)" for t
  proof -
    from that obtain ds where "(t, ds) \<in> set (computable_task_to_dependencies cd)" using es by auto
    note r = ready_entry [OF calc this]
    then have "(pid, t) \<notin> set sent" using p unfolding problem_inv_def by blast
    with r show ?thesis by blast
  qed
  have "um_ok ?es"
    using iteration_keys [OF order] decomp.scheduleD(2) [OF calc_invD(6) [OF calc]] by blast
  then have "distinct (map fst ?es)" by (simp add: um_ok_def um_keys_def)
  note out = sent_ok_append [OF dispatcher_invD(5) [OF inv] pid this fresh]
  show ?thesis
  proof (rule dispatcher_inv_put [OF inv cd])
    show "problem_inv ps ?sent (problem_id_to_sync_data d') pid (sent_data ?es cd)"
      using p calc_inv_sent [OF calc es]
      by (auto simp: problem_inv_def sent_data_sets [OF calc es] d' after_send_def put_calculation_data_def)
    show "problem_id_to_calculation_data d' = um_put pid (sent_data ?es cd) (problem_id_to_calculation_data d)"
      by (simp add: d' after_send_def put_calculation_data_def)
    show "sent_ok w ps ?sent (requests_out (broker_connection d'))"
      using out by (simp add: d' after_send_def put_calculation_data_def comp_def case_prod_unfold)
  qed (auto simp: d' after_send_def put_calculation_data_def)
qed

lemma after_send_keys:
  "pid \<in> set (um_keys (problem_id_to_calculation_data d)) \<Longrightarrow>
   um_keys (problem_id_to_calculation_data (after_send w e pid es cd d)) =
   um_keys (problem_id_to_calculation_data d)"
  by (simp add: after_send_def put_calculation_data_def um_keys_put_present)

lemma foldE_SendOf:
  assumes order: "iteration_ok order"
  shows "dispatcher_inv w ps sent d \<Longrightarrow> distinct ks \<Longrightarrow>
    (\<And>pid. pid \<in> set ks \<Longrightarrow> map_of (problem_id_to_calculation_data d) pid \<noteq> None) \<Longrightarrow>
    \<exists>d' sent'. foldE (SendComputableTasksOf w order) ks d = Inr d' \<and> dispatcher_inv w ps (sent @ sent') d' \<and>
      (\<forall>pid cd. pid \<in> set ks \<and> map_of (problem_id_to_calculation_data d') pid = Some cd \<longrightarrow>
         computable_task_to_dependencies cd = []) \<and>
      (\<forall>pid. (map_of (problem_id_to_calculation_data d') pid = None) =
         (map_of (problem_id_to_calculation_data d) pid = None)) \<and>
      (\<forall>pid. pid \<notin> set ks \<longrightarrow>
         map_of (problem_id_to_calculation_data d') pid = map_of (problem_id_to_calculation_data d) pid)"
proof (induction ks arbitrary: d sent)
  case Nil
  then show ?case by (auto intro: exI [of _ "[]"])
next
  case (Cons pid ks)
  from Cons.prems(3) obtain cd where cd: "map_of (problem_id_to_calculation_data d) pid = Some cd" by fastforce
  have calc: "calc_inv (ps ! unat pid) cd"
    using dispatcher_invD(4) [OF Cons.prems(1) cd] by (simp add: problem_inv_def)
  let ?es = "order (computable_task_to_dependencies cd)"
  let ?d = "after_send w (ps ! unat pid) pid ?es (sent_data ?es cd) d"
  note step = SendComputableTasksOf_eq [OF cd calc order, of w]
  have calc': "map_of (problem_id_to_calculation_data ?d) =
      (map_of (problem_id_to_calculation_data d))(pid \<mapsto> sent_data ?es cd)"
    by (simp add: after_send_def put_calculation_data_def um_simps)
  have inv: "dispatcher_inv w ps (sent @ map (\<lambda>e. (pid, fst e)) ?es) ?d"
    by (rule dispatcher_inv_SendOf [OF Cons.prems(1) order cd step])
  have "map_of (problem_id_to_calculation_data ?d) k \<noteq> None" if "k \<in> set ks" for k
    using Cons.prems(3) [of k] that by (simp add: calc')
  from Cons.IH [OF inv _ this] Cons.prems(2) obtain d' sent' where
    d': "foldE (SendComputableTasksOf w order) ks ?d = Inr d'"
      "dispatcher_inv w ps ((sent @ map (\<lambda>e. (pid, fst e)) ?es) @ sent') d'"
      "\<And>k c. k \<in> set ks \<Longrightarrow> map_of (problem_id_to_calculation_data d') k = Some c \<Longrightarrow>
         computable_task_to_dependencies c = []"
      "\<And>k. (map_of (problem_id_to_calculation_data d') k = None) = (map_of (problem_id_to_calculation_data ?d) k = None)"
      "\<And>k. k \<notin> set ks \<Longrightarrow> map_of (problem_id_to_calculation_data d') k = map_of (problem_id_to_calculation_data ?d) k"
    by fastforce
  have "computable_task_to_dependencies c = []"
    if "k \<in> set (pid # ks)" "map_of (problem_id_to_calculation_data d') k = Some c" for k c
  proof (cases "k = pid")
    case True
    with d'(5) [of pid] Cons.prems(2) that(2) have "c = sent_data ?es cd" by (auto simp: calc')
    then show ?thesis by (simp add: sent_data_def)
  next
    case False
    with d'(3) [of k c] that show ?thesis by simp
  qed
  moreover have "(map_of (problem_id_to_calculation_data d') k = None) =
      (map_of (problem_id_to_calculation_data d) k = None)" for k
    using d'(4) [of k] cd by (simp add: calc' split: if_splits)
  moreover have "map_of (problem_id_to_calculation_data d') k = map_of (problem_id_to_calculation_data d) k"
    if "k \<notin> set (pid # ks)" for k
    using d'(5) [of k] that by (simp add: calc')
  moreover have "foldE (SendComputableTasksOf w order) (pid # ks) d = Inr d'"
    using step d'(1) by simp
  ultimately show ?case
    using d'(2) unfolding append_assoc by blast
qed

lemma dispatcher_inv_send:
  assumes inv: "dispatcher_inv w ps sent d" and order: "iteration_ok order"
  shows "\<exists>d' sent'. SendComputableTasks w order d = Inr d' \<and> dispatcher_inv w ps (sent @ sent') d' \<and>
    (\<forall>pid cd. map_of (problem_id_to_calculation_data d') pid = Some cd \<longrightarrow>
       computable_task_to_dependencies cd = [])"
proof -
  let ?ks = "um_keys (problem_id_to_calculation_data d)"
  have keys: "pid \<in> set ?ks \<longleftrightarrow> map_of (problem_id_to_calculation_data d) pid \<noteq> None" for pid
    using um_contains_iff [of "problem_id_to_calculation_data d" pid] by (simp add: um_contains_def)
  have "distinct ?ks" using dispatcher_invD(3) [OF inv] by (simp add: um_ok_def)
  from foldE_SendOf [OF order inv this] keys obtain d' sent' where
    d': "SendComputableTasks w order d = Inr d'" "dispatcher_inv w ps (sent @ sent') d'"
      "\<And>pid cd. pid \<in> set ?ks \<Longrightarrow> map_of (problem_id_to_calculation_data d') pid = Some cd \<Longrightarrow>
         computable_task_to_dependencies cd = []"
      "\<And>pid. (map_of (problem_id_to_calculation_data d') pid = None) =
         (map_of (problem_id_to_calculation_data d) pid = None)"
    unfolding SendComputableTasks_def by blast
  have "computable_task_to_dependencies cd = []"
    if "map_of (problem_id_to_calculation_data d') pid = Some cd" for pid cd
    using d'(3) [OF _ that] d'(4) [of pid] that keys [of pid] by simp
  with d'(1,2) show ?thesis by blast
qed

lemma dispatcher_inv_connection:
  "dispatcher_inv w ps sent (d\<lparr>broker_connection := (broker_connection d)\<lparr>replies_in := rs\<rparr>\<rparr>) =
   dispatcher_inv w ps sent d"
  by (simp add: dispatcher_inv_def)

lemma dispatcher_inv_Update:
  assumes inv: "dispatcher_inv w ps sent d"
    and cd: "map_of (problem_id_to_calculation_data d) pid = Some cd"
    and step: "UpdateComputableTasksImpl pid t d = Inr d'"
  shows "dispatcher_inv w ps sent d'"
proof -
  let ?e = "ps ! unat pid"
  note p = dispatcher_invD(4) [OF inv cd]
  have calc: "calc_inv ?e cd" using p by (simp add: problem_inv_def)
  have t: "t \<in> completed_tasks cd \<union> processing_tasks cd"
    and d': "d' = put_calculation_data pid (updated_data t cd) d"
    using step UpdateComputableTasksImpl_eq [OF cd calc, of t] by (auto split: if_splits)
  have sets: "completed_tasks (updated_data t cd) = insert t (completed_tasks cd)"
    "processing_tasks (updated_data t cd) = processing_tasks cd - {t}"
    using complete_task_sets [of t cd]
    by (simp_all add: updated_data_def completed_tasks_def processing_tasks_def)
  have requested: "is_leaf (records_of ?e ! t) \<or> (pid, t) \<in> set sent"
    using p t unfolding problem_inv_def by blast
  show ?thesis
  proof (rule dispatcher_inv_put [OF inv cd])
    show "problem_inv ps sent (problem_id_to_sync_data d') pid (updated_data t cd)"
      using p calc_inv_updated [OF calc t] requested unfolding problem_inv_def sets
      by (auto simp: d' put_calculation_data_def)
  qed (use dispatcher_invD(5) [OF inv] in \<open>auto simp: d' put_calculation_data_def\<close>)
qed

lemma dispatcher_inv_Notify:
  assumes inv: "dispatcher_inv w ps sent d"
    and cd: "map_of (problem_id_to_calculation_data d) pid = Some cd"
    and t: "t = root_task (ps ! unat pid)"
    and step: "NotifyComputedProblem pid t d = Inr d'"
  shows "dispatcher_inv w ps sent d'"
proof -
  let ?e = "ps ! unat pid"
  note p = dispatcher_invD(4) [OF inv cd]
  have calc: "calc_inv ?e cd" and sync: "map_of (problem_id_to_sync_data d) pid \<noteq> None"
    using p by (simp_all add: problem_inv_def)
  have t': "t \<in> completed_tasks cd \<union> processing_tasks cd"
    and d': "d' = (put_calculation_data pid (complete_task t cd) d)
       \<lparr>problem_id_to_sync_data := um_put pid True (problem_id_to_sync_data d)\<rparr>"
    using step NotifyComputedProblem_eq [OF cd sync, of t] by (auto split: if_splits)
  have requested: "is_leaf (records_of ?e ! t) \<or> (pid, t) \<in> set sent"
    using p t' unfolding problem_inv_def by blast
  have "calc_inv ?e (complete_task t cd)"
    using calc_inv_root_completed [OF calc] t' t by (simp add: root_task_def)
  then have "problem_inv ps sent (problem_id_to_sync_data d') pid (complete_task t cd)"
    using p t requested unfolding problem_inv_def complete_task_sets by (auto simp: d' um_simps)
  then show ?thesis
    by (rule dispatcher_inv_put [OF inv cd])
      (use dispatcher_invD(5) [OF inv] in \<open>auto simp: d' put_calculation_data_def um_simps\<close>)
qed

lemma dispatcher_inv_update:
  assumes inv: "dispatcher_inv w ps sent d" and step: "UpdateComputableTasks w d = Inr d'"
  shows "dispatcher_inv w ps sent d'"
proof (cases "replies_in (broker_connection d)")
  case Nil
  with step have "d' = d" by (simp add: UpdateComputableTasks_def ReadReply_def)
  with inv show ?thesis by simp
next
  case (Cons m rest)
  let ?d = "d\<lparr>broker_connection := (broker_connection d)\<lparr>replies_in := rest\<rparr>\<rparr>"
  from step Cons obtain i where i: "parse_TaskId w m = Some i"
    by (auto simp: UpdateComputableTasks_def ReadReply_def FromMessage_def split: option.splits)
  have inv': "dispatcher_inv w ps sent ?d" using inv dispatcher_inv_connection by simp
  let ?pid = "of_u32 (tid_problem i)" and ?t = "unat (tid_task i)"
  from step Cons i obtain cd where cd: "map_of (problem_id_to_calculation_data ?d) ?pid = Some cd"
    by (auto simp: UpdateComputableTasks_def ReadReply_def FromMessage_def um_at_def split: option.splits)
  have "calc_inv (ps ! unat ?pid) cd"
    using dispatcher_invD(4) [OF inv' cd] by (simp add: problem_inv_def)
  note root = GetSortedTasks_back [OF calc_invD(1) [OF this]]
  have "(if ?t = root_task (ps ! unat ?pid) then NotifyComputedProblem ?pid ?t ?d
      else UpdateComputableTasksImpl ?pid ?t ?d) = Inr d'"
    using step Cons i cd root
    by (simp add: UpdateComputableTasks_def ReadReply_def FromMessage_def um_at_def root_task_def Let_def)
  then show ?thesis
    using dispatcher_inv_Notify [OF inv' cd] dispatcher_inv_Update [OF inv' cd] by (auto split: if_splits)
qed

lemma problem_inv_more:
  "problem_inv ps sent sync pid cd \<Longrightarrow> map_of sync' pid = map_of sync pid \<Longrightarrow>
   problem_inv (ps @ [e]) sent sync' pid cd"
  by (simp add: problem_inv_def nth_append)

lemma dispatcher_inv_new:
  assumes inv: "dispatcher_inv w ps sent d" and small: "length ps < 2 ^ 64"
    and topo: "\<And>e. wf_Expr e \<Longrightarrow> topological_sort_ok topo (graph_of (records_of e))"
    and step: "CalculateProblem_start topo (AST (Some e)) d = Inr (ids, d')"
  shows "dispatcher_inv w (ps @ [e]) sent d' \<and> wf_Expr e \<and> \<not> has_const e"
proof -
  have wf: "wf_Expr e"
    using step dag_visitor.traverse_malformed [of e "[]"]
    by (cases "wf_Expr e") (simp_all add: CalculateProblem_start_def CalculationData_New_def
        TaskDecompositor_New_def AST_PostorderTraverse_def)
  obtain td where td: "TaskDecompositor_New topo (AST (Some e)) = Inr td" "decomposes td e"
    using TaskDecompositor_New_ok [OF wf topo [OF wf]] by blast
  have c: "\<not> has_const e"
  proof
    assume "has_const e"
    with step td GetIndependentTasks_const [OF td(2)] show False
      by (simp add: CalculateProblem_start_def CalculationData_New_def)
  qed
  obtain cd where new: "CalculationData_New topo (AST (Some e)) = Inr cd" "calc_inv e cd" "processing_tasks cd = {}"
      "completed_tasks cd = {t. t < length (records_of e) \<and> is_leaf (records_of e ! t)}"
    using CalculationData_New_inv [OF wf topo [OF wf] c] by blast
  let ?pid = "word_of_nat (length ps) :: size_t"
  have d': "d' = snd (PushProblem cd d)"
    using step new(1) GetSortedTasks_back [OF calc_invD(1) [OF new(2)]]
    by (simp add: CalculateProblem_start_def split_beta)
  have pid: "unat ?pid = length ps" using small by (simp add: unat_of_nat)
  note id = dispatcher_invD(1) [OF inv]
  have old: "unat p < length ps" if "map_of (problem_id_to_calculation_data d) p = Some c" for p c
    using dispatcher_invD(4) [OF inv that] by (simp add: problem_inv_def)
  then have free: "map_of (problem_id_to_calculation_data d) ?pid = None"
    using pid by (metis less_irrefl not_None_eq)
  have "problem_inv (ps @ [e]) sent (problem_id_to_sync_data d') ?pid cd"
    using new(2-4) pid dispatcher_invD(5) [OF inv] dispatcher_invD(6) [OF inv free]
    by (auto simp: problem_inv_def d' PushProblem_def Let_def id um_simps sent_ok_def nth_append)
  moreover have "problem_inv (ps @ [e]) sent (problem_id_to_sync_data d') p c"
    if "map_of (problem_id_to_calculation_data d) p = Some c" for p c
  proof (rule problem_inv_more [OF dispatcher_invD(4) [OF inv that]])
    have "p \<noteq> ?pid" using that free by auto
    then show "map_of (problem_id_to_sync_data d') p = map_of (problem_id_to_sync_data d) p"
      by (simp add: d' PushProblem_def Let_def id um_simps)
  qed
  moreover have calc': "map_of (problem_id_to_calculation_data d') = (map_of (problem_id_to_calculation_data d))(?pid \<mapsto> cd)"
    using dispatcher_invD(2,3) [OF inv] free by (simp add: d' PushProblem_def Let_def id um_simps um_ok_def)
  moreover have "sent_ok w (ps @ [e]) sent (requests_out (broker_connection d'))"
    using dispatcher_invD(5) [OF inv] by (auto simp: sent_ok_def d' PushProblem_def Let_def nth_append)
  moreover have "sorted (um_keys (problem_id_to_calculation_data d')) \<and> um_ok (problem_id_to_calculation_data d')"
    using sorted_om_emplace [of "problem_id_to_calculation_data d" ?pid cd] dispatcher_invD(2,3) [OF inv]
    by (simp add: d' PushProblem_def Let_def id um_ok_def)
  moreover have "map_of (problem_id_to_sync_data d') p = None" if "p \<noteq> ?pid" "map_of (problem_id_to_calculation_data d) p = None" for p
    using that dispatcher_invD(6) [OF inv that(2)] by (simp add: d' PushProblem_def Let_def id um_simps)
  moreover have "PROBLEM_ID d' = word_of_nat (length (ps @ [e]))"
    by (simp add: d' PushProblem_def Let_def id)
  ultimately show ?thesis
    using wf c unfolding dispatcher_inv_def by (auto split: if_splits)
qed

lemma dispatcher_inv_clear:
  assumes "dispatcher_inv w ps sent d"
  shows "dispatcher_inv w ps sent (ClearProblem pid d)"
proof -
  have "sorted (um_keys (um_erase pid m))" if "sorted (um_keys m)" for m :: "(size_t, CalculationData) umap"
    using that by (induction m) (auto simp: um_erase_def um_keys_def)
  with assms show ?thesis
    unfolding dispatcher_inv_def ClearProblem_def by (auto simp: um_simps problem_inv_def)
qed

lemma dispatcher_inv_run:
  assumes topo: "\<And>e. wf_Expr e \<Longrightarrow> topological_sort_ok topo (graph_of (records_of e))"
    and order: "iteration_ok order" and "dispatcher_run w topo order ps d" and "length ps < 2 ^ 64"
  shows "\<exists>sent. dispatcher_inv w ps sent d"
  using assms(3,4)
proof induction
  case start
  show ?case
    by (intro exI [of _ "[]"]) (simp add: dispatcher_inv_def Dispatcher_New_def sent_ok_def)
next
  case (new_problem ps d e ids d')
  then obtain sent where "dispatcher_inv w ps sent d" by auto
  with new_problem dispatcher_inv_new [OF this _ topo, of e ids d'] show ?case by auto
next
  case (answer ps d m)
  then show ?case using dispatcher_inv_connection by blast
next
  case (send ps d d')
  then obtain sent where "dispatcher_inv w ps sent d" by auto
  from dispatcher_inv_send [OF this order] send.hyps(2) show ?case by auto
next
  case (update ps d d')
  then show ?case using dispatcher_inv_update by blast
next
  case (clear ps d pid)
  then show ?case using dispatcher_inv_clear by blast
qed

section \<open>Properties\<close>

lemma live_problem:
  assumes "dispatcher_inv w ps sent d" and "map_of (problem_id_to_calculation_data d) pid = Some cd"
  shows "calc_inv (ps ! unat pid) cd" "unat pid < length ps"
    "(pid, t) \<in> set sent \<Longrightarrow> t \<in> completed_tasks cd \<union> processing_tasks cd"
    "t \<in> processing_tasks cd \<Longrightarrow> (pid, t) \<in> set sent"
    "map_of (problem_id_to_sync_data d) pid = Some True \<Longrightarrow> root_task (ps ! unat pid) \<in> completed_tasks cd"
    "t \<in> completed_tasks cd \<union> processing_tasks cd \<Longrightarrow>
       is_leaf (records_of (ps ! unat pid) ! t) \<or> (pid, t) \<in> set sent"
proof -
  note p = dispatcher_invD(4) [OF assms, unfolded problem_inv_def]
  from p show calc: "calc_inv (ps ! unat pid) cd" by blast
  from p show "unat pid < length ps"
    "(pid, t) \<in> set sent \<Longrightarrow> t \<in> completed_tasks cd \<union> processing_tasks cd"
    "map_of (problem_id_to_sync_data d) pid = Some True \<Longrightarrow> root_task (ps ! unat pid) \<in> completed_tasks cd"
    "t \<in> completed_tasks cd \<union> processing_tasks cd \<Longrightarrow>
       is_leaf (records_of (ps ! unat pid) ! t) \<or> (pid, t) \<in> set sent"
    by blast+
  assume t: "t \<in> processing_tasks cd"
  have "t < length (records_of (ps ! unat pid))" "t \<notin> completed_tasks cd"
    using t decomp.scheduleD(3,4) [OF calc_invD(6) [OF calc]] decomposes_tasks [OF calc_invD(1) [OF calc]]
    by auto
  with calc_invD(5) [OF calc] have "\<not> is_leaf (records_of (ps ! unat pid) ! t)" by blast
  with p t show "(pid, t) \<in> set sent" by blast
qed

text \<open>
  C5. Whatever the order of events, every request sent to the broker is for an operation of the
  expression of its problem, with that operation and operands; no task is requested twice; and
  while its problem is open, a task has been requested only if all its dependencies are completed.
\<close>

theorem dispatch_sound:
  assumes topo: "\<And>e. wf_Expr e \<Longrightarrow> topological_sort_ok topo (graph_of (records_of e))"
    and order: "iteration_ok order" and run: "dispatcher_run w topo order ps d" and small: "length ps < 2 ^ 64"
  shows "\<exists>sent. requests_out (broker_connection d) =
      map (\<lambda>(pid, t). ser_Task w (request (ps ! unat pid) pid t)) sent \<and> distinct sent \<and>
    (\<forall>pid t. (pid, t) \<in> set sent \<longrightarrow> unat pid < length ps \<and>
       t < length (records_of (ps ! unat pid)) \<and> \<not> is_leaf (records_of (ps ! unat pid) ! t)) \<and>
    (\<forall>pid t cd. (pid, t) \<in> set sent \<and> map_of (problem_id_to_calculation_data d) pid = Some cd \<longrightarrow>
       set (adjacent_vertices t (td_graph (decompositor cd))) \<subseteq> completed_tasks cd)"
proof -
  obtain sent where inv: "dispatcher_inv w ps sent d"
    using dispatcher_inv_run [OF topo order run small] by blast
  have "set (adjacent_vertices t (td_graph (decompositor cd))) \<subseteq> completed_tasks cd"
    if "(pid, t) \<in> set sent" "map_of (problem_id_to_calculation_data d) pid = Some cd" for pid t cd
    using decomp.scheduleD(5) [OF calc_invD(6) [OF live_problem(1) [OF inv that(2)]]
        live_problem(3) [OF inv that(2,1)]] .
  then show ?thesis
    using dispatcher_invD(5) [OF inv] unfolding sent_ok_def
    by (intro exI [of _ sent]) fast
qed


lemma root_needs_all:
  assumes "decomposes td e" and "t \<in> set (td_tasks td)" and "t \<noteq> root_task e"
  shows "\<exists>u \<in> set (td_tasks td). t \<in> set (adjacent_vertices u (td_graph td))"
proof -
  let ?rs = "records_of e"
  have wf: "wf_Expr e" using assms(1) by (simp add: decomposes_def)
  have t: "t < length ?rs" using assms(2) decomposes_tasks [OF assms(1)] by simp
  have "?rs ! t \<noteq> e"
    using records_root [OF wf] nth_eq_iff_index_eq [OF distinct_records_of t, of "length ?rs - 1"] assms(3) t
    by (auto simp: root_task_def)
  then obtain y where y: "y \<in> set ?rs" "?rs ! t \<in> set (operands y)"
    using record_has_parent [OF wf, of "?rs ! t"] nth_mem [OF t] by auto
  obtain u where u: "u < length ?rs" "?rs ! u = y" using y(1) unfolding in_set_conv_nth by blast
  have "t \<in> set (adjacent_vertices u (td_graph td))"
    using decomposes_adjacent [OF assms(1) u(1)] y(2) u(2) index_of_nth [OF distinct_records_of t] by force
  with u(1) decomposes_tasks [OF assms(1)] show ?thesis by auto
qed

text \<open>
  C14. When the caller of a problem is woken, every task of the problem is completed and none is
  being processed.
\<close>

theorem ready_means_all_completed:
  assumes topo: "\<And>e. wf_Expr e \<Longrightarrow> topological_sort_ok topo (graph_of (records_of e))"
    and order: "iteration_ok order" and run: "dispatcher_run w topo order ps d" and small: "length ps < 2 ^ 64"
    and ready: "CalculateProblem_ready pid d = Inr True"
  shows "\<exists>cd. map_of (problem_id_to_calculation_data d) pid = Some cd \<and>
    completed_tasks cd = {0..<length (records_of (ps ! unat pid))} \<and> processing_tasks cd = {}"
proof -
  obtain sent where inv: "dispatcher_inv w ps sent d"
    using dispatcher_inv_run [OF topo order run small] by blast
  have sync: "map_of (problem_id_to_sync_data d) pid = Some True"
    using ready by (simp add: CalculateProblem_ready_def)
  then obtain cd where cd: "map_of (problem_id_to_calculation_data d) pid = Some cd"
    using dispatcher_invD(6) [OF inv, of pid] by fastforce
  note calc = live_problem(1) [OF inv cd]
  note dec = calc_invD(1) [OF calc] and sched = calc_invD(6) [OF calc]
  have "set (td_tasks (decompositor cd)) \<subseteq> completed_tasks cd"
    by (rule decomp.schedule_all_completed [OF sched live_problem(5) [OF inv cd sync] root_needs_all [OF dec]])
      (use decomposes_tasks [OF dec] in auto)
  then have "completed_tasks cd = {0..<length (records_of (ps ! unat pid))}" "processing_tasks cd = {}"
    using decomp.scheduleD(3,4) [OF sched] decomposes_tasks [OF dec] by blast+
  with cd show ?thesis by blast
qed

text \<open>
  C15. Sending never fails, and afterwards every task of an open problem whose dependencies are
  completed is completed or being processed, and its request has been sent to the broker, unless
  it is a variable, which needs none.
\<close>

theorem SendComputableTasks_complete:
  assumes topo: "\<And>e. wf_Expr e \<Longrightarrow> topological_sort_ok topo (graph_of (records_of e))"
    and order: "iteration_ok order" and run: "dispatcher_run w topo order ps d" and small: "length ps < 2 ^ 64"
  shows "\<exists>d'. SendComputableTasks w order d = Inr d' \<and>
    (\<forall>pid cd t. map_of (problem_id_to_calculation_data d') pid = Some cd \<and>
       t < length (records_of (ps ! unat pid)) \<and>
       set (adjacent_vertices t (td_graph (decompositor cd))) \<subseteq> completed_tasks cd \<longrightarrow>
       t \<in> completed_tasks cd \<union> processing_tasks cd \<and>
       (is_leaf (records_of (ps ! unat pid) ! t) \<or>
        ser_Task w (request (ps ! unat pid) pid t) \<in> set (requests_out (broker_connection d'))))"
proof -
  obtain sent where inv: "dispatcher_inv w ps sent d"
    using dispatcher_inv_run [OF topo order run small] by blast
  obtain d' sent' where d': "SendComputableTasks w order d = Inr d'" "dispatcher_inv w ps (sent @ sent') d'"
    "\<And>pid cd. map_of (problem_id_to_calculation_data d') pid = Some cd \<Longrightarrow> computable_task_to_dependencies cd = []"
    using dispatcher_inv_send [OF inv order] by blast
  have started: "t \<in> completed_tasks cd \<union> processing_tasks cd"
    if cd: "map_of (problem_id_to_calculation_data d') pid = Some cd" and t: "t < length (records_of (ps ! unat pid))"
      and deps: "set (adjacent_vertices t (td_graph (decompositor cd))) \<subseteq> completed_tasks cd" for pid cd t
  proof -
    note calc = live_problem(1) [OF d'(2) cd]
    have "t \<in> set (td_tasks (decompositor cd))" using decomposes_tasks [OF calc_invD(1) [OF calc]] t by simp
    with decomp.scheduleD(6) [OF calc_invD(6) [OF calc], of t "adjacent_vertices t (td_graph (decompositor cd))"]
      d'(3) [OF cd] deps show ?thesis by auto
  qed
  have "is_leaf (records_of (ps ! unat pid) ! t) \<or>
      ser_Task w (request (ps ! unat pid) pid t) \<in> set (requests_out (broker_connection d'))"
    if "map_of (problem_id_to_calculation_data d') pid = Some cd"
      "t \<in> completed_tasks cd \<union> processing_tasks cd" for pid cd t
    using live_problem(6) [OF d'(2) that] dispatcher_invD(5) [OF d'(2)] by (force simp: sent_ok_def)
  with started d'(1) show ?thesis by blast
qed

text \<open>
  A problem whose expression is a single variable has nothing to send, nothing of it is being
  processed, and no request for it is ever made.
\<close>

lemma leaf_problem_idle:
  assumes inv: "dispatcher_inv w ps sent d" and leaf: "is_leaf (ps ! unat pid)"
  shows "(pid, t) \<notin> set sent"
    and "map_of (problem_id_to_calculation_data d) pid = Some cd \<Longrightarrow>
      computable_task_to_dependencies cd = [] \<and> processing_tasks cd = {}"
proof -
  let ?e = "ps ! unat pid"
  have records: "records_of ?e = [?e]"
    using leaf by (cases ?e) (simp_all add: records_of_def add_record_def)
  show none: "(pid, t) \<notin> set sent" for t
    using dispatcher_invD(5) [OF inv] records leaf by (fastforce simp: sent_ok_def)
  assume cd: "map_of (problem_id_to_calculation_data d) pid = Some cd"
  note calc = live_problem(1) [OF inv cd]
  have "x \<notin> set (computable_task_to_dependencies cd)" for x
    using ready_entry [OF calc, of "fst x" "snd x"] records leaf by auto
  then have "computable_task_to_dependencies cd = []" by (cases "computable_task_to_dependencies cd") auto
  moreover have "processing_tasks cd = {}" using live_problem(4) [OF inv cd] none by blast
  ultimately show "computable_task_to_dependencies cd = [] \<and> processing_tasks cd = {}" by blast
qed

text \<open>
  C21. Handling an answer ends the dispatcher exactly when the answer cannot be parsed, names a
  problem that is not open (a second answer for a finished problem does), or names a task that
  was never started.
\<close>

theorem UpdateComputableTasks_errors:
  assumes topo: "\<And>e. wf_Expr e \<Longrightarrow> topological_sort_ok topo (graph_of (records_of e))"
    and order: "iteration_ok order" and run: "dispatcher_run w topo order ps d" and small: "length ps < 2 ^ 64"
  shows "UpdateComputableTasks w d = Inl err \<longleftrightarrow>
    (\<exists>m rest. replies_in (broker_connection d) = m # rest \<and>
      (case parse_TaskId w m of
         None \<Rightarrow> err = DomainError ''Unable to parse message''
       | Some i \<Rightarrow> err = OutOfRange \<and>
           (case map_of (problem_id_to_calculation_data d) (of_u32 (tid_problem i)) of
              None \<Rightarrow> True
            | Some cd \<Rightarrow> unat (tid_task i) \<notin> completed_tasks cd \<union> processing_tasks cd)))"
proof (cases "replies_in (broker_connection d)")
  case Nil
  then show ?thesis by (simp add: UpdateComputableTasks_def ReadReply_def)
next
  case (Cons m rest)
  obtain sent where inv: "dispatcher_inv w ps sent d"
    using dispatcher_inv_run [OF topo order run small] by blast
  show ?thesis
  proof (cases "parse_TaskId w m")
    case None
    with Cons show ?thesis by (auto simp: UpdateComputableTasks_def ReadReply_def FromMessage_def)
  next
    case (Some i)
    let ?pid = "of_u32 (tid_problem i)" and ?t = "unat (tid_task i)"
    let ?d = "d\<lparr>broker_connection := (broker_connection d)\<lparr>replies_in := rest\<rparr>\<rparr>"
    show ?thesis
    proof (cases "map_of (problem_id_to_calculation_data d) ?pid")
      case None
      with Cons Some show ?thesis
        by (auto simp: UpdateComputableTasks_def ReadReply_def FromMessage_def um_at_def)
    next
      case cd: (Some cd)
      note calc = live_problem(1) [OF inv cd]
      have "map_of (problem_id_to_sync_data ?d) ?pid \<noteq> None"
        using dispatcher_invD(4) [OF inv cd] by (simp add: problem_inv_def)
      with cd calc have "NotifyComputedProblem ?pid ?t ?d = Inl err \<longleftrightarrow>
          err = OutOfRange \<and> ?t \<notin> completed_tasks cd \<union> processing_tasks cd"
        "UpdateComputableTasksImpl ?pid ?t ?d = Inl err \<longleftrightarrow>
          err = OutOfRange \<and> ?t \<notin> completed_tasks cd \<union> processing_tasks cd"
        using NotifyComputedProblem_eq [of ?d ?pid cd ?t] UpdateComputableTasksImpl_eq [of ?d ?pid cd _ ?t]
        by auto
      with Cons Some cd GetSortedTasks_back [OF calc_invD(1) [OF calc]] show ?thesis
        by (auto simp: UpdateComputableTasks_def ReadReply_def FromMessage_def um_at_def Let_def)
    qed
  qed
qed

text \<open>What the dispatcher does with an answer for a task, once it has read the answer.\<close>

definition handle_answer :: "size_t \<Rightarrow> nat \<Rightarrow> Dispatcher \<Rightarrow> Dispatcher res" where
  "handle_answer problem_id task_id d =
     bindE (um_at (problem_id_to_calculation_data d) problem_id) (\<lambda>calc_data.
     bindE (queue_back (GetSortedTasks (decompositor calc_data))) (\<lambda>back.
       if task_id = back then NotifyComputedProblem problem_id task_id d
       else UpdateComputableTasksImpl problem_id task_id d))"

text \<open>
  C25. The answer to a request is handled as the answer for the problem and task whose numbers
  are those of the request modulo \<open>2 ^ 32\<close>, whatever has become of the dispatcher since: so it
  reaches the problem and the task it was sent for exactly when both numbers fit in 32 bits.
\<close>

theorem request_id_roundtrip:
  assumes "wire_ok w" and "FormTaskRequest d problem_id task_id dependencies = Inr req"
  shows "\<exists>p t. UpdateComputableTasks w (d'\<lparr>broker_connection := (broker_connection d')
        \<lparr>replies_in := ser_TaskId w (tk_id req) # rest\<rparr>\<rparr>) =
      handle_answer p t (d'\<lparr>broker_connection := (broker_connection d')\<lparr>replies_in := rest\<rparr>\<rparr>) \<and>
    unat p = unat problem_id mod 2 ^ 32 \<and> t = task_id mod 2 ^ 32 \<and>
    (p = problem_id \<and> t = task_id \<longleftrightarrow> unat problem_id < 2 ^ 32 \<and> task_id < 2 ^ 32)"
proof -
  let ?p = "of_u32 (tid_problem (tk_id req))" and ?t = "unat (tid_task (tk_id req))"
  have req: "tid_problem (tk_id req) = to_u32 problem_id" "tid_task (tk_id req) = to_u32 (word_of_nat task_id)"
    using assms(2) by (auto simp: FormTaskRequest_def bindE_eq_Inr)
  have "UpdateComputableTasks w (d'\<lparr>broker_connection := (broker_connection d')
        \<lparr>replies_in := ser_TaskId w (tk_id req) # rest\<rparr>\<rparr>) =
      handle_answer ?p ?t (d'\<lparr>broker_connection := (broker_connection d')\<lparr>replies_in := rest\<rparr>\<rparr>)"
    using wire_okD(2) [OF assms(1), of "tk_id req"]
    by (simp add: UpdateComputableTasks_def ReadReply_def handle_answer_def Let_def)
  moreover have p: "unat ?p = unat problem_id mod 2 ^ 32" by (simp add: req unat_to_u32)
  moreover have t: "?t = task_id mod 2 ^ 32"
    by (simp add: req unat_to_u32 unat_of_nat take_bit_eq_mod mod_mod_cancel)
  moreover have "?p = problem_id \<longleftrightarrow> unat problem_id < 2 ^ 32"
    unfolding word_unat_eq_iff p by (metis mod_less mod_less_divisor zero_less_numeral zero_less_power)
  moreover have "?t = task_id \<longleftrightarrow> task_id < 2 ^ 32"
    unfolding t by (metis mod_less mod_less_divisor zero_less_numeral zero_less_power)
  ultimately show ?thesis by blast
qed

text \<open>
  Starting a problem succeeds on every well-formed expression without literal constants: it
  enters the problem's data and a flag that is not set under the next problem number, which it
  returns with the last task; it throws on an expression with a literal constant, and follows a
  null pointer on one with a missing operand.
\<close>

definition problem_pushed :: "CalculationData \<Rightarrow> Dispatcher \<Rightarrow> Dispatcher" where
  "problem_pushed cd d = d\<lparr>
     problem_id_to_calculation_data := om_emplace (PROBLEM_ID d) cd (problem_id_to_calculation_data d),
     problem_id_to_sync_data := um_emplace (PROBLEM_ID d) False (problem_id_to_sync_data d),
     PROBLEM_ID := PROBLEM_ID d + 1\<rparr>"

lemma CalculateProblem_start_cases:
  assumes "wf_Expr e \<Longrightarrow> topological_sort_ok topo (graph_of (records_of e))"
  shows "(wf_Expr e \<and> \<not> has_const e \<longrightarrow> (\<exists>cd. CalculationData_New topo (AST (Some e)) = Inr cd \<and>
            CalculateProblem_start topo (AST (Some e)) d = Inr ((PROBLEM_ID d, root_task e), problem_pushed cd d)))
       \<and> (wf_Expr e \<and> has_const e \<longrightarrow> CalculateProblem_start topo (AST (Some e)) d = Inl BadVariantAccess)
       \<and> (\<not> wf_Expr e \<longrightarrow> CalculateProblem_start topo (AST (Some e)) d = Inl UndefinedBehaviour)"
proof (cases "wf_Expr e")
  case False
  then show ?thesis
    using dag_visitor.traverse_malformed [of e "[]"]
    by (simp add: CalculateProblem_start_def CalculationData_New_def
        TaskDecompositor_New_def AST_PostorderTraverse_def)
next
  case wf: True
  note topo = assms [OF wf]
  obtain td where td: "TaskDecompositor_New topo (AST (Some e)) = Inr td" "decomposes td e"
    using TaskDecompositor_New_ok [OF wf topo] by blast
  show ?thesis
  proof (cases "has_const e")
    case True
    with wf td GetIndependentTasks_const [OF td(2)] show ?thesis
      by (simp add: CalculateProblem_start_def CalculationData_New_def)
  next
    case False
    obtain cd where "CalculationData_New topo (AST (Some e)) = Inr cd" "calc_inv e cd"
      using CalculationData_New_inv [OF wf topo False] by blast
    with wf False GetSortedTasks_back [OF calc_invD(1)] show ?thesis
      by (simp add: CalculateProblem_start_def PushProblem_def Let_def root_task_def problem_pushed_def)
  qed
qed

lemma CalculateProblem_finish_cases:
  assumes "db_served ser parse st"
  shows "CalculateProblem_finish st pid t (d, db) =
    (case fst (Client_ReadData (read_stub st) (DynRecordId pid (word_of_nat t)) db) of
       Inl err \<Rightarrow> (Inl err, ClearProblem pid d, db)
     | Inr r \<Rightarrow> (Inr r, ClearProblem pid d, ClearIntermediateCalculationsImpl (to_u32 pid) db)) \<and>
    map_of (problem_id_to_calculation_data (ClearProblem pid d)) pid = None \<and>
    map_of (problem_id_to_sync_data (ClearProblem pid d)) pid = None"
proof -
  have "Client_ReadData (read_stub st) rid db = (fst (Client_ReadData (read_stub st) rid db), db)" for rid
    by (simp add: Client_ReadData_served [OF db_servedD(2) [OF assms]])
  from this [of "DynRecordId pid (word_of_nat t)"] show ?thesis
    by (auto simp: CalculateProblem_finish_def Let_def split_beta ClearProblem_def um_simps prod_eq_iff
        Client_Clear_served [OF db_servedD(3) [OF assms]] split: sum.splits)
qed

text \<open>
  The end of \<open>CalculateProblem\<close> closes the problem, returns what the database holds for its
  last task, and removes the results of the problem's tasks; when the result cannot be read, it
  throws and the results stay in the database.
\<close>

theorem CalculateProblem_finish_result:
  assumes "db_served ser parse st"
  shows "CalculateProblem_finish st pid t (d, db) =
    (case fst (Client_ReadData (read_stub st) (DynRecordId pid (word_of_nat t)) db) of
       Inl err \<Rightarrow> (Inl err, ClearProblem pid d, db)
     | Inr r \<Rightarrow> (Inr r, ClearProblem pid d, ClearIntermediateCalculationsImpl (to_u32 pid) db)) \<and>
    map_of (problem_id_to_calculation_data (ClearProblem pid d)) pid = None \<and>
    map_of (problem_id_to_sync_data (ClearProblem pid d)) pid = None"
  by (rule CalculateProblem_finish_cases [OF assms])

section \<open>Witnesses\<close>

text \<open>The sum of the list \<open>A\<close>: one leaf, one operation.\<close>

definition sample_problem :: Expr where
  "sample_problem = ReduceExpr RE_sum (Some (ListExpr ''A''))"

lemma sample_problem_facts [simp]: "wf_Expr sample_problem" "\<not> has_const sample_problem"
  "records_of sample_problem = [ListExpr ''A'', sample_problem]" "root_task sample_problem = 1"
  by (simp_all add: sample_problem_def has_const_def records_of_def add_record_def root_task_def)

definition sample_td :: TaskDecompositor where
  "sample_td = \<lparr>td_graph = graph_of [ListExpr ''A'', sample_problem], td_tasks = [0, 1]\<rparr>"

definition sample_cd :: CalculationData where
  "sample_cd = \<lparr>decompositor = sample_td, processed_tasks_to_status = [(0, completed)],
     task_to_variable_id = [(0, ''A'')], computable_task_to_dependencies = [(1, [0])]\<rparr>"

lemma sample_td_facts: "adjacent_vertices 0 (td_graph sample_td) = []"
  "adjacent_vertices (Suc 0) (td_graph sample_td) = [0]" "td_tasks sample_td = [0, Suc 0]"
  using adjacent_graph_of [of 0 "[ListExpr ''A'', sample_problem]"]
    adjacent_graph_of [of 1 "[ListExpr ''A'', sample_problem]"]
  by (simp_all add: sample_td_def sample_problem_def operands_def index_of_def)

lemma sample_td_New: "TaskDecompositor_New sample_topo (AST (Some sample_problem)) = Inr sample_td"
  using traverse_records [of sample_problem] BuildGraph_records [of sample_problem]
  by (simp add: TaskDecompositor_New_def AST_PostorderTraverse_def sample_topo_def sample_td_def upt_rec)

lemma sample_cd_New: "CalculationData_New sample_topo (AST (Some sample_problem)) = Inr sample_cd"
proof -
  have "GetIndependentTasks sample_td = Inr [(0, ''A'')]"
    by (simp add: GetIndependentTasks_def sample_td_def graph_of_def vertex_of_def get_VariableId_def
        um_emplace_def um_contains_def sample_problem_def)
  moreover have "GetComputableTasks sample_td {0} {} = [(1, [0])]"
    by (simp add: GetComputableTasks_def um_emplace_def um_contains_def sample_td_facts)
  ultimately show ?thesis
    by (simp add: CalculationData_New_def sample_td_New sample_cd_def um_emplace_def um_contains_def)
qed

definition sample_opened :: Dispatcher where
  "sample_opened = \<lparr>problem_id_to_calculation_data = [(0, sample_cd)], problem_id_to_sync_data = [(0, False)],
     broker_connection = \<lparr>requests_out = [], replies_in = []\<rparr>, PROBLEM_ID = 1\<rparr>"

abbreviation sample_dispatch :: "Expr list \<Rightarrow> Dispatcher \<Rightarrow> bool" where
  "sample_dispatch \<equiv> dispatcher_run unary_wire sample_topo (\<lambda>m. m)"

lemma sample_opened_step:
  "CalculateProblem_start sample_topo (AST (Some sample_problem)) Dispatcher_New = Inr ((0, 1), sample_opened)"
  by (simp add: CalculateProblem_start_def sample_cd_New PushProblem_def Dispatcher_New_def sample_opened_def
      um_emplace_def um_contains_def queue_back_def GetSortedTasks_def sample_cd_def sample_td_facts)

lemma sample_opened_run: "sample_dispatch [sample_problem] sample_opened"
  using dispatcher_run.new_problem [OF dispatcher_run.start sample_opened_step] by simp

definition sample_sent :: Dispatcher where
  "sample_sent = sample_opened\<lparr>
     problem_id_to_calculation_data := [(0, sample_cd\<lparr>processed_tasks_to_status := [(0, completed), (1, processing)],
       computable_task_to_dependencies := []\<rparr>)],
     broker_connection := \<lparr>requests_out = [ser_Task unary_wire (request sample_problem 0 1)], replies_in = []\<rparr>\<rparr>"

lemma sample_cd_inv: "calc_inv sample_problem sample_cd"
  using CalculationData_New_inv [OF _ sample_topo_ok] sample_cd_New sample_problem_facts by fastforce

lemma sample_sent_step: "SendComputableTasks unary_wire (\<lambda>m. m) sample_opened = Inr sample_sent"
  using SendComputableTasksOf_eq [of sample_opened 0 sample_cd sample_problem "\<lambda>m. m" unary_wire]
    sample_cd_inv iteration_ok_id
  by (simp add: SendComputableTasks_def sample_opened_def sample_sent_def after_send_def sent_data_def
      mark_processing_def put_calculation_data_def) (simp add: sample_cd_def)

lemma sample_sent_run: "sample_dispatch [sample_problem] sample_sent"
  by (rule dispatcher_run.send [OF sample_opened_run sample_sent_step])

definition sample_answered :: Dispatcher where
  "sample_answered = sample_sent\<lparr>
     problem_id_to_calculation_data := [(0, sample_cd\<lparr>processed_tasks_to_status := [(0, completed), (1, completed)],
       computable_task_to_dependencies := []\<rparr>)],
     problem_id_to_sync_data := [(0, True)]\<rparr>"

lemma unary_TaskId: "FromMessage (parse_TaskId unary_wire) (ser_TaskId unary_wire i) = Inr i"
  "parse_TaskId unary_wire (ser_TaskId unary_wire i) = Some i"
  using unary_wire_ok by (simp_all add: wire_ok_def codec_ok_def)

definition sample_replied :: Dispatcher where
  "sample_replied = sample_sent\<lparr>broker_connection := (broker_connection sample_sent)
     \<lparr>replies_in := [ser_TaskId unary_wire \<lparr>tid_problem = 0, tid_task = 1\<rparr>]\<rparr>\<rparr>"

lemma sample_replied_eq:
  "sample_replied = sample_sent\<lparr>broker_connection := (broker_connection sample_sent)
     \<lparr>replies_in := replies_in (broker_connection sample_sent) @ [ser_TaskId unary_wire \<lparr>tid_problem = 0, tid_task = 1\<rparr>]\<rparr>\<rparr>"
  by (simp add: sample_replied_def sample_sent_def)

lemma sample_answered_step: "UpdateComputableTasks unary_wire sample_replied = Inr sample_answered"
  by (simp add: UpdateComputableTasks_def ReadReply_def unary_TaskId sample_replied_def sample_sent_def
      sample_opened_def of_u32_def um_at_def queue_back_def GetSortedTasks_def sample_cd_def sample_td_facts
      NotifyComputedProblem_def um_assign_def put_calculation_data_def sample_answered_def)

lemma sample_answered_run: "sample_dispatch [sample_problem] sample_answered"
proof -
  have "sample_dispatch [sample_problem] sample_replied"
    unfolding sample_replied_eq by (rule dispatcher_run.answer [OF sample_sent_run])
  then show ?thesis using sample_answered_step by (rule dispatcher_run.update)
qed

lemmas sample_contract = sample_topo_ok iteration_ok_id

theorem dispatch_sound_witness:
  "\<exists>sent. requests_out (broker_connection sample_sent) =
      map (\<lambda>(pid, t). ser_Task unary_wire (request ([sample_problem] ! unat pid) pid t)) sent \<and> distinct sent"
  using dispatch_sound [OF sample_contract sample_sent_run] by fastforce


theorem ready_means_all_completed_witness:
  "\<exists>cd. map_of (problem_id_to_calculation_data sample_answered) 0 = Some cd \<and>
     completed_tasks cd = {0..<Suc (Suc 0)} \<and> processing_tasks cd = {}"
  using ready_means_all_completed [OF sample_contract sample_answered_run, of 0]
  by (simp add: sample_answered_def CalculateProblem_ready_def)

theorem SendComputableTasks_complete_witness:
  "ser_Task unary_wire (request sample_problem 0 1) \<in> set (requests_out (broker_connection sample_sent))"
proof -
  let ?cd = "sample_cd\<lparr>processed_tasks_to_status := [(0, completed), (1, processing)],
       computable_task_to_dependencies := []\<rparr>"
  have "map_of (problem_id_to_calculation_data sample_sent) 0 = Some ?cd" by (simp add: sample_sent_def)
  moreover have "set (adjacent_vertices 1 (td_graph (decompositor ?cd))) \<subseteq> completed_tasks ?cd"
    by (simp add: sample_cd_def sample_td_facts completed_tasks_def)
  moreover have "length [sample_problem] < 2 ^ 64" by simp
  with SendComputableTasks_complete [OF sample_contract sample_opened_run] sample_sent_step
  have "\<forall>pid cd t. map_of (problem_id_to_calculation_data sample_sent) pid = Some cd \<and>
      t < length (records_of ([sample_problem] ! unat pid)) \<and>
      set (adjacent_vertices t (td_graph (decompositor cd))) \<subseteq> completed_tasks cd \<longrightarrow>
      is_leaf (records_of ([sample_problem] ! unat pid) ! t) \<or>
      ser_Task unary_wire (request ([sample_problem] ! unat pid) pid t) \<in> set (requests_out (broker_connection sample_sent))"
    by force
  ultimately have "is_leaf (records_of ([sample_problem] ! unat (0 :: size_t)) ! 1) \<or>
      ser_Task unary_wire (request ([sample_problem] ! unat (0 :: size_t)) 0 1) \<in> set (requests_out (broker_connection sample_sent))"
    by (metis One_nat_def length_Cons lessI list.size(3) nth_Cons_0 sample_problem_facts(3) unsigned_0)
  moreover have "\<not> is_leaf sample_problem" by (simp add: sample_problem_def)
  ultimately show ?thesis by simp
qed

theorem request_id_roundtrip_witness:
  "\<exists>p t. UpdateComputableTasks unary_wire (sample_sent\<lparr>broker_connection := (broker_connection sample_sent)
        \<lparr>replies_in := [ser_TaskId unary_wire (request_id 0 1)]\<rparr>\<rparr>) = handle_answer p t sample_sent \<and>
     p = 0 \<and> t = 1"
proof -
  have "FormTaskRequest sample_opened 0 1 (adjacent_vertices 1 (td_graph (decompositor sample_cd))) =
      Inr (request sample_problem 0 1)"
    by (rule FormTaskRequest_eq) (simp_all add: sample_opened_def calc_invD(7) [OF sample_cd_inv])
  moreover have "sample_sent\<lparr>broker_connection := (broker_connection sample_sent)\<lparr>replies_in := []\<rparr>\<rparr> = sample_sent"
    by (simp add: sample_sent_def)
  ultimately show ?thesis
    using request_id_roundtrip [OF unary_wire_ok, where d' = sample_sent and rest = "[]"]
    by (fastforce simp: request_def)
qed

text \<open>An answer for a task that has not been sent yet.\<close>

definition sample_early :: Dispatcher where
  "sample_early = sample_opened\<lparr>broker_connection :=
     \<lparr>requests_out = [], replies_in = [ser_TaskId unary_wire \<lparr>tid_problem = 0, tid_task = 1\<rparr>]\<rparr>\<rparr>"

lemma sample_early_run: "sample_dispatch [sample_problem] sample_early"
  using dispatcher_run.answer [OF sample_opened_run, of "ser_TaskId unary_wire \<lparr>tid_problem = 0, tid_task = 1\<rparr>"]
  by (simp add: sample_early_def sample_opened_def)

theorem UpdateComputableTasks_errors_witness:
  "UpdateComputableTasks unary_wire sample_early = Inl OutOfRange \<and>
   UpdateComputableTasks unary_wire sample_answered \<noteq> Inl OutOfRange"
  using UpdateComputableTasks_errors [OF sample_contract sample_early_run, of OutOfRange]
    UpdateComputableTasks_errors [OF sample_contract sample_answered_run, of OutOfRange]
  by (simp add: sample_early_def sample_opened_def sample_answered_def sample_sent_def unary_TaskId
      sample_cd_def completed_tasks_def processing_tasks_def)

theorem CalculateProblem_finish_result_witness:
  "fst (CalculateProblem_finish local_stubs 2 0 (Dispatcher_New, sample_tables)) = Inr (RScalar 4)"
proof -
  have "Client_ReadData (read_stub local_stubs) (DynRecordId 2 0) sample_tables = (Inr (RScalar 4), sample_tables)"
    using Client_read_present [OF db_servedD(2) [OF local_stubs_served], of 2 0 sample_tables "RScalar 4"] unary_codec
    by (simp add: sample_tables_def read_at_def ReadDataImpl_def to_u32_def ExprResult_to_Field_def field_codec_ok_def)
  then show ?thesis
    using CalculateProblem_finish_result [OF local_stubs_served, of 2 0 Dispatcher_New sample_tables] by simp
qed

end
