(* ===== verification/Worker.thy ===== *)
theory Worker
  imports Database Calculation
begin

text \<open>
  A worker, \<open>worker/src/worker-impl\<close>: the loop of \<open>worker_impl.cpp\<close> that takes the
  broker's publications and sends the answers, and the threads of \<open>thread_pool.cpp\<close> that
  compute tasks against the database. Each critical section, each computation and each turn of the
  loop is one step; threads and loop interleave.
\<close>

section \<open>State and operations\<close>

text \<open>
  \<open>tasks_\<close>, and for each thread that is computing, its task. The other threads wait in
  \<open>Poll\<close>; there are \<open>core_count_\<close> threads.
\<close>

record ThreadPool =
  pool_tasks :: "WorkerTask list"
  pool_busy :: "WorkerTask list"

record Worker =
  sub_in :: "(bytes \<times> bytes) list"
  dealer_out :: "bytes list"
  identity :: string
  core_count :: size_t
  thread_pool :: ThreadPool
  finished_tasks :: "WorkerTaskId list"

text \<open>\<open>core_count\<close> is the number read from the environment.\<close>

definition Worker_New :: "string \<Rightarrow> int \<Rightarrow> Worker" where
  "Worker_New ident n = \<lparr>sub_in = [], dealer_out = [], identity = ident, core_count = word_of_int n,
     thread_pool = \<lparr>pool_tasks = [], pool_busy = []\<rparr>, finished_tasks = []\<rparr>"

definition PushTask :: "WorkerTask \<Rightarrow> ThreadPool \<Rightarrow> ThreadPool" where
  "PushTask task pool = pool\<lparr>pool_tasks := queue_push task (pool_tasks pool)\<rparr>"

text \<open>The critical section of \<open>Poll\<close>: wait for a task, then take it.\<close>

definition Poll_take :: "ThreadPool \<Rightarrow> (WorkerTask \<times> ThreadPool) res" where
  "Poll_take pool =
     (if pool_tasks pool = [] then Inl Blocked
      else bindE (queue_front (pool_tasks pool)) (\<lambda>task.
           bindE (queue_pop (pool_tasks pool)) (\<lambda>tasks.
             Inr (task, pool\<lparr>pool_tasks := tasks, pool_busy := pool_busy pool @ [task]\<rparr>))))"

definition ExtractOperand :: "DbStubs \<Rightarrow> Operand \<Rightarrow> ExprResult list \<times> Tables \<Rightarrow> (ExprResult list \<times> Tables) res" where
  "ExtractOperand st operand = (\<lambda>(operands, db).
     case operand of
       StaticOperand ident \<Rightarrow>
         (let (r, db) = Client_ReadData (read_stub st) (RecordName ident) db
          in bindE r (\<lambda>v. Inr (operands @ [v], db)))
     | DynOperand tid \<Rightarrow>
         (let (r, db) = Client_ReadData (read_stub st)
              (DynRecordId (of_u32 (tid_problem tid)) (of_u32 (tid_task tid))) db
          in bindE r (\<lambda>v. Inr (operands @ [v], db)))
     | OperandNotSet \<Rightarrow> Inl (LogicError ''Invalid message''))"

definition ExtractOperands :: "DbStubs \<Rightarrow> WorkerTask \<Rightarrow> Tables \<Rightarrow> (ExprResult list \<times> Tables) res" where
  "ExtractOperands st task db = foldE (ExtractOperand st) (tk_operands (wt_task task)) ([], db)"

definition CalculateTask ::
  "DbStubs \<Rightarrow> WorkerTask \<Rightarrow> WorkerTaskId list \<times> Tables \<Rightarrow> (WorkerTaskId list \<times> Tables) res" where
  "CalculateTask st task = (\<lambda>(output_queue, db).
     bindE (ExtractOperands st task db) (\<lambda>(operands, db).
     bindE (CalculateTaskImpl (ExprType_of_nat (unat (tk_operation_type (wt_task task)))) operands) (\<lambda>expr_result.
       let db = Client_WriteDynamicData (write_stub st) (of_u32 (tid_problem (tk_id (wt_task task))))
                  (of_u32 (tid_task (tk_id (wt_task task)))) expr_result db;
           response = \<lparr>wid_identity = wt_identity task, wid_id = tk_id (wt_task task)\<rparr>
       in Inr (queue_push response output_queue, db))))"

definition SendAckMessage :: "Wire \<Rightarrow> Worker \<Rightarrow> Worker" where
  "SendAckMessage w s =
     s\<lparr>dealer_out := dealer_out s @ [ser_WorkerMessage w (CoreCount (to_u32 (core_count s - 1)))]\<rparr>"

definition ReadRequest :: "Wire \<Rightarrow> Worker \<Rightarrow> Worker res" where
  "ReadRequest w s = (case sub_in s of
     [] \<Rightarrow> Inl Blocked
   | (topic, request) # rest \<Rightarrow>
       (let s = s\<lparr>sub_in := rest\<rparr> in
        bindE (FromMessage (parse_WorkerTask w) request) (\<lambda>task.
          if wt_identity task \<noteq> identity s then Inr s
          else Inr (s\<lparr>thread_pool := PushTask task (thread_pool s)\<rparr>))))"

definition CheckOutputQueue :: "Wire \<Rightarrow> Worker \<Rightarrow> Worker res" where
  "CheckOutputQueue w s =
     (if finished_tasks s = [] then Inr s
      else bindE (queue_front (finished_tasks s)) (\<lambda>finished_task.
           bindE (queue_pop (finished_tasks s)) (\<lambda>q.
             Inr (s\<lparr>finished_tasks := q,
                    dealer_out := dealer_out s @ [ser_WorkerMessage w (FinishedTask finished_task)]\<rparr>))))"

text \<open>One turn of the loop of \<open>Run\<close>; the poll does not wait.\<close>

definition Worker_Run_turn :: "Wire \<Rightarrow> Worker \<Rightarrow> Worker res" where
  "Worker_Run_turn w s =
     bindE (if sub_in s \<noteq> [] then ReadRequest w s else Inr s) (CheckOutputQueue w)"

definition task_key :: "TaskId \<Rightarrow> u32 \<times> u32" where
  "task_key i = (tid_problem i, tid_task i)"

section \<open>Runs of a worker\<close>

text \<open>
  The steps of a worker beside a database that other clients use at any time and in any way,
  the \<open>clear\<close> of the manager included. The last argument is the set of the records that
  another client has removed since this worker last stored them.
\<close>

inductive worker_run ::
  "Wire \<Rightarrow> DbStubs \<Rightarrow> string \<Rightarrow> int \<Rightarrow> (bytes \<times> bytes) list \<Rightarrow> Worker \<Rightarrow> Tables \<Rightarrow> (u32 \<times> u32) set \<Rightarrow> bool"
  for w st ident n where
  start: "worker_run w st ident n [] (SendAckMessage w (Worker_New ident n)) db {}"
| publication: "worker_run w st ident n fs s db gone \<Longrightarrow>
    worker_run w st ident n (fs @ [f]) (s\<lparr>sub_in := sub_in s @ [f]\<rparr>) db gone"
| others: "worker_run w st ident n fs s db gone \<Longrightarrow>
    worker_run w st ident n fs s db'
      (gone \<union> {k. dynamic_data db k \<noteq> None \<and> dynamic_data db' k = None})"
| turn: "worker_run w st ident n fs s db gone \<Longrightarrow> Worker_Run_turn w s = Inr s' \<Longrightarrow>
    worker_run w st ident n fs s' db gone"
| take: "worker_run w st ident n fs s db gone \<Longrightarrow> length (pool_busy (thread_pool s)) < unat (core_count s) \<Longrightarrow>
    Poll_take (thread_pool s) = Inr (task, pool) \<Longrightarrow>
    worker_run w st ident n fs (s\<lparr>thread_pool := pool\<rparr>) db gone"
| finish: "worker_run w st ident n fs s db gone \<Longrightarrow> pool_busy (thread_pool s) = xs @ task # ys \<Longrightarrow>
    CalculateTask st task (finished_tasks s, db) = Inr (q, db') \<Longrightarrow>
    worker_run w st ident n fs
      (s\<lparr>thread_pool := (thread_pool s)\<lparr>pool_busy := xs @ ys\<rparr>, finished_tasks := q\<rparr>) db'
      (gone - {task_key (tk_id (wt_task task))})"

section \<open>One task against the database\<close>

definition operand_value :: "DbStubs \<Rightarrow> Tables \<Rightarrow> Operand \<Rightarrow> ExprResult res" where
  "operand_value st db operand = (case operand of
     StaticOperand x \<Rightarrow> fst (Client_ReadData (read_stub st) (RecordName x) db)
   | DynOperand tid \<Rightarrow> fst (Client_ReadData (read_stub st)
       (DynRecordId (of_u32 (tid_problem tid)) (of_u32 (tid_task tid))) db)
   | OperandNotSet \<Rightarrow> Inl (LogicError ''Invalid message''))"

lemma Client_ReadData_keeps:
  "db_served ser parse st \<Longrightarrow> Client_ReadData (read_stub st) rid db = (fst (Client_ReadData (read_stub st) rid db), db)"
  by (simp add: Client_ReadData_served [OF db_servedD(2)])

lemma ExtractOperand_eq:
  "db_served ser parse st \<Longrightarrow>
   ExtractOperand st x (vs, db) = bindE (operand_value st db x) (\<lambda>v. Inr (vs @ [v], db))"
  using Client_ReadData_keeps [of ser parse st]
  by (cases x) (simp_all add: ExtractOperand_def operand_value_def split_beta prod_eq_iff)

lemma ExtractOperands_eq:
  assumes "db_served ser parse st"
  shows "ExtractOperands st task db =
    bindE (mapE (operand_value st db) (tk_operands (wt_task task))) (\<lambda>vs. Inr (vs, db))"
proof -
  have "foldE (ExtractOperand st) xs (acc, db) =
      bindE (mapE (operand_value st db) xs) (\<lambda>vs. Inr (acc @ vs, db))" for xs acc
    by (induction xs arbitrary: acc)
      (auto simp: ExtractOperand_eq [OF assms] bindE_assoc intro!: bindE_cong)
  then show ?thesis by (simp add: ExtractOperands_def)
qed

definition answer_of :: "WorkerTask \<Rightarrow> WorkerTaskId" where
  "answer_of task = \<lparr>wid_identity = wt_identity task, wid_id = tk_id (wt_task task)\<rparr>"

definition task_result :: "DbStubs \<Rightarrow> Tables \<Rightarrow> Task \<Rightarrow> ExprResult res" where
  "task_result st db task = bindE (mapE (operand_value st db) (tk_operands task))
     (CalculateTaskImpl (ExprType_of_nat (unat (tk_operation_type task))))"

lemma CalculateTask_eq:
  assumes "db_served ser parse st"
  shows "CalculateTask st task (q, db) = bindE (task_result st db (wt_task task)) (\<lambda>r.
    Inr (q @ [answer_of task],
         tables.try_write ser (task_key (tk_id (wt_task task))) (ExprResult_to_Field r) db))"
  by (simp add: CalculateTask_def ExtractOperands_eq [OF assms] task_result_def bindE_assoc Let_def
      Client_Write_served [OF db_servedD(1) [OF assms]] task_key_def answer_of_def queue_push_def
      cong: bindE_cong)

lemma map_le_present: "m \<subseteq>\<^sub>m m' \<Longrightarrow> m k \<noteq> None \<Longrightarrow> m' k \<noteq> None"
  by (auto simp: map_le_def dom_def)

lemma WriteDynamicDataImpl_adds:
  "WriteDynamicDataImpl ser r db = Inr db' \<Longrightarrow> dynamic_data db \<subseteq>\<^sub>m dynamic_data db'"
  by (auto simp: WriteDynamicDataImpl_def map_le_def Let_def split: if_splits)

lemma try_write_adds: "dynamic_data db \<subseteq>\<^sub>m dynamic_data (tables.try_write ser k f db)"
  using WriteDynamicDataImpl_adds by (simp add: tables.try_write_def split: sum.splits)

lemma CalculateTask_adds:
  assumes "db_served ser parse st" and "CalculateTask st task (q, db) = Inr (q', db')"
  shows "q' = q @ [answer_of task]" and "dynamic_data db \<subseteq>\<^sub>m dynamic_data db'"
    and "dynamic_data db' (task_key (tk_id (wt_task task))) \<noteq> None"
proof -
  from assms(2) obtain r where q: "q' = q @ [answer_of task]"
    and db': "db' = tables.try_write ser (task_key (tk_id (wt_task task))) (ExprResult_to_Field r) db"
    by (auto simp: CalculateTask_eq [OF assms(1)] bindE_eq_Inr)
  show "q' = q @ [answer_of task]" by (rule q)
  show "dynamic_data db \<subseteq>\<^sub>m dynamic_data db'" unfolding db' by (rule try_write_adds)
  show "dynamic_data db' (task_key (tk_id (wt_task task))) \<noteq> None"
    unfolding db' tables.present_try_write by simp
qed

section \<open>The invariant\<close>

definition addressed :: "Wire \<Rightarrow> string \<Rightarrow> bytes \<times> bytes \<Rightarrow> WorkerTask list" where
  "addressed w ident f = (case parse_WorkerTask w (snd f) of
     Some task \<Rightarrow> if wt_identity task = ident then [task] else [] | None \<Rightarrow> [])"

definition under_way :: "Worker \<Rightarrow> WorkerTaskId multiset" where
  "under_way s = image_mset answer_of (mset (pool_tasks (thread_pool s)) + mset (pool_busy (thread_pool s)))
     + mset (finished_tasks s)"

definition worker_inv ::
  "Wire \<Rightarrow> string \<Rightarrow> int \<Rightarrow> (bytes \<times> bytes) list \<Rightarrow> WorkerTaskId list \<Rightarrow> Worker \<Rightarrow> Tables \<Rightarrow>
    (u32 \<times> u32) set \<Rightarrow> bool" where
  "worker_inv w ident n taken answers s db gone \<longleftrightarrow>
     identity s = ident \<and> core_count s = word_of_int n \<and>
     length (pool_busy (thread_pool s)) \<le> unat (word_of_int n :: size_t) \<and>
     dealer_out s = ser_WorkerMessage w (CoreCount (to_u32 (word_of_int n - 1))) #
       map (\<lambda>i. ser_WorkerMessage w (FinishedTask i)) answers \<and>
     image_mset answer_of (mset (concat (map (addressed w ident) taken))) = under_way s + mset answers \<and>
     (\<forall>i \<in> set (finished_tasks s) \<union> set answers.
        task_key (wid_id i) \<in> gone \<or> dynamic_data db (task_key (wid_id i)) \<noteq> None)"

lemma ReadRequest_inv:
  assumes "worker_inv w ident n taken answers s db gone" and "ReadRequest w s = Inr s'"
  shows "\<exists>f. sub_in s = f # sub_in s' \<and> worker_inv w ident n (taken @ [f]) answers s' db gone"
proof -
  from assms(2) obtain f rest task where f: "sub_in s = f # rest" "parse_WorkerTask w (snd f) = Some task"
    by (auto simp: ReadRequest_def FromMessage_def split: list.splits option.splits)
  have s': "s' = (if wt_identity task \<noteq> identity s then s\<lparr>sub_in := rest\<rparr>
      else s\<lparr>sub_in := rest, thread_pool := PushTask task (thread_pool s)\<rparr>)"
    using assms(2) f by (cases f) (simp add: ReadRequest_def FromMessage_def Let_def split: if_splits)
  have "addressed w ident f = (if wt_identity task = ident then [task] else [])"
    using f by (simp add: addressed_def)
  with assms(1) f s' show ?thesis
    by (auto simp: worker_inv_def under_way_def PushTask_def queue_push_def)
qed

lemma CheckOutputQueue_inv:
  assumes "worker_inv w ident n taken answers s db gone" and "CheckOutputQueue w s = Inr s'"
  shows "sub_in s' = sub_in s \<and> (\<exists>answers'. worker_inv w ident n taken answers' s' db gone)"
proof (cases "finished_tasks s")
  case Nil
  with assms show ?thesis by (auto simp: CheckOutputQueue_def)
next
  case (Cons i q)
  with assms(2) have "s' = s\<lparr>finished_tasks := q,
      dealer_out := dealer_out s @ [ser_WorkerMessage w (FinishedTask i)]\<rparr>"
    by (simp add: CheckOutputQueue_def)
  with assms(1) Cons have "worker_inv w ident n taken (answers @ [i]) s' db gone"
    by (simp add: worker_inv_def under_way_def)
  with \<open>s' = _\<close> show ?thesis by auto
qed

lemma worker_inv_turn:
  assumes "worker_inv w ident n taken answers s db gone" and "Worker_Run_turn w s = Inr s'"
  shows "\<exists>new answers'. sub_in s = new @ sub_in s' \<and> worker_inv w ident n (taken @ new) answers' s' db gone"
proof (cases "sub_in s = []")
  case True
  with assms CheckOutputQueue_inv [OF assms(1), of s'] show ?thesis
    by (auto simp: Worker_Run_turn_def)
next
  case False
  with assms(2) obtain s1 where s1: "ReadRequest w s = Inr s1" "CheckOutputQueue w s1 = Inr s'"
    by (auto simp: Worker_Run_turn_def bindE_eq_Inr)
  obtain f where f: "sub_in s = f # sub_in s1" "worker_inv w ident n (taken @ [f]) answers s1 db gone"
    using ReadRequest_inv [OF assms(1) s1(1)] by blast
  then show ?thesis
    using CheckOutputQueue_inv [OF f(2) s1(2)] by (intro exI [of _ "[f]"]) auto
qed

lemma Poll_take_eq:
  "Poll_take pool = Inr (task, pool') \<longleftrightarrow>
   (\<exists>rest. pool_tasks pool = task # rest \<and>
      pool' = pool\<lparr>pool_tasks := rest, pool_busy := pool_busy pool @ [task]\<rparr>)"
  by (cases "pool_tasks pool") (auto simp: Poll_take_def)

lemma worker_inv_take:
  "worker_inv w ident n taken answers s db gone \<Longrightarrow> length (pool_busy (thread_pool s)) < unat (core_count s) \<Longrightarrow>
   Poll_take (thread_pool s) = Inr (task, pool) \<Longrightarrow>
   worker_inv w ident n taken answers (s\<lparr>thread_pool := pool\<rparr>) db gone"
  by (auto simp: Poll_take_eq worker_inv_def under_way_def)

lemma worker_inv_others:
  assumes "worker_inv w ident n taken answers s db gone"
  shows "worker_inv w ident n taken answers s db'
    (gone \<union> {k. dynamic_data db k \<noteq> None \<and> dynamic_data db' k = None})"
  using assms unfolding worker_inv_def by blast

lemma worker_inv_finish:
  assumes "db_served ser parse st" and inv: "worker_inv w ident n taken answers s db gone"
    and busy: "pool_busy (thread_pool s) = xs @ task # ys"
    and calc: "CalculateTask st task (finished_tasks s, db) = Inr (q, db')"
  shows "worker_inv w ident n taken answers
    (s\<lparr>thread_pool := (thread_pool s)\<lparr>pool_busy := xs @ ys\<rparr>, finished_tasks := q\<rparr>) db'
    (gone - {task_key (tk_id (wt_task task))})"
proof -
  note adds = CalculateTask_adds [OF assms(1) calc]
  have "\<forall>i \<in> set (finished_tasks s) \<union> set answers.
      task_key (wid_id i) \<in> gone - {task_key (tk_id (wt_task task))} \<or> dynamic_data db' (task_key (wid_id i)) \<noteq> None"
    using inv map_le_present [OF adds(2)] adds(3) unfolding worker_inv_def by (metis Diff_iff singletonD)
  with inv busy adds(1,3) show ?thesis
    by (auto simp: worker_inv_def under_way_def answer_of_def)
qed

lemma worker_inv_run:
  assumes "db_served ser parse st" and "worker_run w st ident n fs s db gone"
  shows "\<exists>taken answers. fs = taken @ sub_in s \<and> worker_inv w ident n taken answers s db gone"
  using assms(2)
proof induction
  case (start db)
  show ?case
    by (intro exI [of _ "[]"])
      (simp add: worker_inv_def under_way_def SendAckMessage_def Worker_New_def)
next
  case (publication fs s db gone f)
  then obtain taken answers where "fs = taken @ sub_in s" "worker_inv w ident n taken answers s db gone" by blast
  then show ?case
    by (intro exI [of _ taken] exI [of _ answers]) (simp add: worker_inv_def under_way_def)
next
  case (others fs s db gone db')
  then obtain taken answers where ih: "fs = taken @ sub_in s" "worker_inv w ident n taken answers s db gone" by blast
  show ?case
    using ih(1) worker_inv_others [OF ih(2)]
    by (intro exI [of _ taken] exI [of _ answers] conjI)
next
  case (turn fs s db gone s')
  then obtain taken answers where ih: "fs = taken @ sub_in s" "worker_inv w ident n taken answers s db gone" by blast
  obtain new answers' where "sub_in s = new @ sub_in s'" "worker_inv w ident n (taken @ new) answers' s' db gone"
    using worker_inv_turn [OF ih(2) turn.hyps(2)] by blast
  then show ?case
    using ih(1) by (intro exI [of _ "taken @ new"] exI [of _ answers']) simp
next
  case (take fs s db gone task pool)
  then obtain taken answers where ih: "fs = taken @ sub_in s" "worker_inv w ident n taken answers s db gone" by blast
  show ?case
    using ih(1) worker_inv_take [OF ih(2) take.hyps(2,3)]
    by (intro exI [of _ taken] exI [of _ answers] conjI) (simp, assumption)
next
  case (finish fs s db gone xs task ys q db')
  then obtain taken answers where ih: "fs = taken @ sub_in s" "worker_inv w ident n taken answers s db gone" by blast
  show ?case
    using ih(1) worker_inv_finish [OF assms(1) ih(2) finish.hyps(2,3)]
    by (intro exI [of _ taken] exI [of _ answers] conjI) (simp, assumption)
qed

section \<open>Properties\<close>

text \<open>
  C7. However the loop and the threads of a worker interleave, every task addressed to it that it
  has taken off the socket is in exactly one place, with its multiplicity: waiting, being computed,
  finished or answered; an answer is queued or sent only after the result of its task has been
  stored, and the record stays in the database unless another client (the manager's \<open>clear\<close>, say)
  has removed it since; and no more tasks are computed at a time than the worker has threads.
\<close>

theorem worker_tasks_accounted:
  assumes "db_served ser parse st" and "worker_run w st ident n fs s db gone"
  shows "\<exists>taken answers. fs = taken @ sub_in s \<and>
    dealer_out s = ser_WorkerMessage w (CoreCount (to_u32 (word_of_int n - 1))) #
      map (\<lambda>i. ser_WorkerMessage w (FinishedTask i)) answers \<and>
    image_mset answer_of (mset (concat (map (addressed w ident) taken))) =
      image_mset answer_of (mset (pool_tasks (thread_pool s)) + mset (pool_busy (thread_pool s))) +
      mset (finished_tasks s) + mset answers \<and>
    (\<forall>i \<in> set (finished_tasks s) \<union> set answers.
      task_key (wid_id i) \<in> gone \<or> dynamic_data db (task_key (wid_id i)) \<noteq> None) \<and>
    length (pool_busy (thread_pool s)) \<le> unat (core_count s)"
  using worker_inv_run [OF assms] unfolding worker_inv_def under_way_def by (metis (no_types, lifting))

text \<open>
  Computing a task reads its operands in order, applies the operation, stores the result
  under the task's id unless a record is there already, and queues exactly one answer; when an
  operand or the operation fails, nothing is stored and nothing is answered.
\<close>

theorem CalculateTask_result:
  assumes "db_served ser parse st" and "field_codec_ok ser parse"
  shows "(\<forall>vs r. mapE (operand_value st db) (tk_operands (wt_task task)) = Inr vs \<and>
            CalculateTaskImpl (ExprType_of_nat (unat (tk_operation_type (wt_task task)))) vs = Inr r \<longrightarrow>
          (\<exists>db'. CalculateTask st task (q, db) = Inr (q @ [answer_of task], db') \<and>
            static_data db' = static_data db \<and>
            (dynamic_data db (task_key (tk_id (wt_task task))) = None \<longrightarrow>
              operand_value st db' (DynOperand (tk_id (wt_task task))) = Inr r) \<and>
            (dynamic_data db (task_key (tk_id (wt_task task))) \<noteq> None \<longrightarrow> db' = db)))
       \<and> (\<forall>err. mapE (operand_value st db) (tk_operands (wt_task task)) = Inl err \<longrightarrow>
            CalculateTask st task (q, db) = Inl err)
       \<and> (\<forall>vs err. mapE (operand_value st db) (tk_operands (wt_task task)) = Inr vs \<and>
            CalculateTaskImpl (ExprType_of_nat (unat (tk_operation_type (wt_task task)))) vs = Inl err \<longrightarrow>
            CalculateTask st task (q, db) = Inl err)"
proof -
  let ?k = "task_key (tk_id (wt_task task))"
  have stored: "operand_value st (tables.try_write ser ?k (ExprResult_to_Field r) db)
      (DynOperand (tk_id (wt_task task))) = Inr r" if "dynamic_data db ?k = None" for r
  proof -
    have "read_at parse ?k (tables.try_write ser ?k (ExprResult_to_Field r) db) = Inr (ExprResult_to_Field r)"
      by (rule tables.try_write_fresh) (use that assms(2) in \<open>simp_all add: field_codec_ok_def\<close>)
    then show ?thesis
      by (simp add: operand_value_def task_key_def Client_read_present [OF db_servedD(2) [OF assms(1)]])
  qed
  moreover have "tables.try_write ser ?k f db = db" if "dynamic_data db ?k \<noteq> None" for f
    using tables.write_present [OF that, of ser f] by (auto simp: tables.try_write_def)
  moreover have "static_data (tables.try_write ser ?k f db) = static_data db" for f
    by (simp add: tables.try_write_def WriteDynamicDataImpl_def Let_def)
  ultimately show ?thesis
    by (simp add: CalculateTask_eq [OF assms(1)] task_result_def)
qed

text \<open>
  A worker started with \<open>n\<close> cores, and so with \<open>n\<close> threads, announces \<open>n - 1\<close> of
  them; started with 0 it announces \<open>2 ^ 32 - 1\<close> and has no thread at all.
\<close>

theorem SendAckMessage_announces:
  assumes "codec_ok (ser_WorkerMessage w) (parse_WorkerMessage w)" and "0 \<le> n" and "n \<le> 2 ^ 32"
  shows "\<exists>c. parse_WorkerMessage w (last (dealer_out (SendAckMessage w (Worker_New ident n)))) = Some (CoreCount c) \<and>
    int (unat c) = (if n = 0 then 2 ^ 32 - 1 else n - 1) \<and>
    int (unat (core_count (Worker_New ident n))) = n"
proof -
  have n: "int (unat (word_of_int n :: size_t)) = n"
    using assms(2,3) by (simp add: unat_eq_nat_uint uint_word_of_int)
  have "unat (word_of_int n - 1 :: size_t) mod 2 ^ 32 = (if n = 0 then 2 ^ 32 - 1 else nat (n - 1))"
  proof (cases "n = 0")
    case False
    with n have "(word_of_int n :: size_t) \<noteq> 0" by auto
    moreover from n have "unat (word_of_int n :: size_t) = nat n" by linarith
    ultimately show ?thesis using False assms(2,3) by (simp add: unat_minus_one nat_diff_distrib)
  qed (simp add: unsigned_minus_1_eq_mask mask_eq_exp_minus_1)
  then have "int (unat (to_u32 (word_of_int n - 1))) = (if n = 0 then 2 ^ 32 - 1 else n - 1)"
    using assms(2) by (simp add: unat_to_u32)
  with n assms(1) show ?thesis
    by (simp add: SendAckMessage_def Worker_New_def codec_ok_def)
qed

text \<open>
  A turn of the worker's loop fails only on a publication that is no worker task, and it
  never waits.
\<close>

theorem Worker_Run_turn_errors:
  "Worker_Run_turn w s = Inl e \<longleftrightarrow>
   (\<exists>f rest. sub_in s = f # rest \<and> parse_WorkerTask w (snd f) = None \<and>
      e = DomainError ''Unable to parse message'')"
proof -
  have out: "\<exists>s''. CheckOutputQueue w s' = Inr s''" for s'
    by (cases "finished_tasks s'") (simp_all add: CheckOutputQueue_def)
  then have "CheckOutputQueue w s' \<noteq> Inl e" for s'
    by (metis Inl_Inr_False)
  then show ?thesis
    by (cases "sub_in s")
      (auto simp: Worker_Run_turn_def ReadRequest_def FromMessage_def bindE_eq_Inl Let_def
        split: option.splits if_splits)
qed

section \<open>Witnesses\<close>

text \<open>A worker with two cores is sent the sum of the list \<open>A\<close> and computes it.\<close>

definition sum_task :: WorkerTask where
  "sum_task = \<lparr>wt_identity = ''a'', wt_task = \<lparr>tk_id = \<lparr>tid_problem = 1, tid_task = 0\<rparr>,
     tk_operation_type = 4, tk_operands = [StaticOperand ''A'']\<rparr>\<rparr>"

lemma sum_task_fields [simp]:
  "wt_identity sum_task = ''a''" "tk_operands (wt_task sum_task) = [StaticOperand ''A'']"
  "tk_operation_type (wt_task sum_task) = 4" "task_key (tk_id (wt_task sum_task)) = (1, 0)"
  by (simp_all add: sum_task_def task_key_def)

lemma sum_task_operands:
  "mapE (operand_value local_stubs sample_tables) (tk_operands (wt_task sum_task)) = Inr [RList [3, - 1]]"
  using unary_codec
  by (simp add: operand_value_def Client_ReadData_served [OF db_servedD(2) [OF local_stubs_served]]
      RecordIdVisitor_def ReadDataImpl_def sample_tables_def Field_to_ExprResult_def field_codec_ok_def)

lemma sum_task_value: "CalculateTaskImpl (ExprType_of_nat (unat (4 :: u32))) [RList [3, - 1]] = Inr (RScalar 2)"
  by (simp add: CalculateTaskImpl_def ExprType_of_nat_def ExprType_values_def on_list_def Sum_l_def
      Sum_ss_def chk_def in_int_def std_reduce_def)

definition sum_tables :: Tables where
  "sum_tables = tables.try_write unary_ser (1, 0) (FieldScalar 2) sample_tables"

lemma sum_task_result: "task_result local_stubs sample_tables (wt_task sum_task) = Inr (RScalar 2)"
  unfolding task_result_def sum_task_operands bindE_Inr using sum_task_value by simp

lemma sum_task_calculated:
  "CalculateTask local_stubs sum_task ([], sample_tables) = Inr ([answer_of sum_task], sum_tables)"
  by (simp add: CalculateTask_eq [OF local_stubs_served] sum_task_result sum_tables_def
      ExprResult_to_Field_def)

definition sample_worker :: Worker where
  "sample_worker = (SendAckMessage unary_wire (Worker_New ''a'' 2))\<lparr>finished_tasks := [answer_of sum_task]\<rparr>"

lemma unary_WorkerTask: "FromMessage (parse_WorkerTask unary_wire) (ser_WorkerTask unary_wire t) = Inr t"
  using wire_okD [OF unary_wire_ok] by simp

lemma sample_worker_run:
  "worker_run unary_wire local_stubs ''a'' 2 [(''work'', ser_WorkerTask unary_wire sum_task)] sample_worker sum_tables {}"
proof -
  let ?s = "SendAckMessage unary_wire (Worker_New ''a'' 2)"
  let ?f = "(''work'', ser_WorkerTask unary_wire sum_task)"
  let ?run = "worker_run unary_wire local_stubs ''a'' 2"
  have "?run [?f] (?s\<lparr>sub_in := [?f]\<rparr>) sample_tables {}"
    using worker_run.publication [OF worker_run.start, of unary_wire local_stubs "''a''" 2 ?f sample_tables]
    by (simp add: SendAckMessage_def Worker_New_def)
  moreover have "Worker_Run_turn unary_wire (?s\<lparr>sub_in := [?f]\<rparr>) =
      Inr (?s\<lparr>thread_pool := \<lparr>pool_tasks = [sum_task], pool_busy = []\<rparr>\<rparr>)"
    by (simp add: Worker_Run_turn_def ReadRequest_def CheckOutputQueue_def SendAckMessage_def
        Worker_New_def unary_WorkerTask PushTask_def queue_push_def)
  ultimately have "?run [?f] (?s\<lparr>thread_pool := \<lparr>pool_tasks = [sum_task], pool_busy = []\<rparr>\<rparr>) sample_tables {}"
    by (rule worker_run.turn)
  moreover have "Poll_take \<lparr>pool_tasks = [sum_task], pool_busy = []\<rparr> =
      Inr (sum_task, \<lparr>pool_tasks = [], pool_busy = [sum_task]\<rparr>)"
    by (simp add: Poll_take_def)
  ultimately have "?run [?f] (?s\<lparr>thread_pool := \<lparr>pool_tasks = [], pool_busy = [sum_task]\<rparr>\<rparr>) sample_tables {}"
    using worker_run.take [of unary_wire local_stubs "''a''" 2 "[?f]"
        "?s\<lparr>thread_pool := \<lparr>pool_tasks = [sum_task], pool_busy = []\<rparr>\<rparr>" sample_tables]
    by (simp add: SendAckMessage_def Worker_New_def)
  then show ?thesis
    using worker_run.finish [of unary_wire local_stubs "''a''" 2 "[?f]"
        "?s\<lparr>thread_pool := \<lparr>pool_tasks = [], pool_busy = [sum_task]\<rparr>\<rparr>" sample_tables "{}" "[]" sum_task "[]"]
      sum_task_calculated
    by (simp add: SendAckMessage_def Worker_New_def sample_worker_def)
qed

theorem worker_tasks_accounted_witness:
  "dynamic_data sum_tables (1, 0) \<noteq> None"
proof -
  have "answer_of sum_task \<in> set (finished_tasks sample_worker)" by (simp add: sample_worker_def)
  then have "dynamic_data sum_tables (task_key (wid_id (answer_of sum_task))) \<noteq> None"
    using worker_tasks_accounted [OF local_stubs_served sample_worker_run] by blast
  then show ?thesis by (simp add: answer_of_def)
qed

theorem CalculateTask_result_witness:
  "\<exists>db'. CalculateTask local_stubs sum_task ([], sample_tables) = Inr ([answer_of sum_task], db') \<and>
     operand_value local_stubs db' (DynOperand (tk_id (wt_task sum_task))) = Inr (RScalar 2)"
proof -
  have "dynamic_data sample_tables (task_key (tk_id (wt_task sum_task))) = None"
    by (simp add: sample_tables_def)
  then show ?thesis
    using CalculateTask_result [OF local_stubs_served unary_codec, of sample_tables sum_task "[]"]
      sum_task_operands sum_task_value by auto
qed

theorem SendAckMessage_announces_witness:
  "\<exists>c. parse_WorkerMessage unary_wire (last (dealer_out (SendAckMessage unary_wire (Worker_New ''a'' 4)))) =
     Some (CoreCount c) \<and> int (unat c) = 3 \<and> int (unat (core_count (Worker_New ''a'' 4))) = 4"
  using SendAckMessage_announces [of unary_wire 4 "''a''"] unary_wire_ok by (simp add: wire_ok_def)

end
