(* ===== verification/System.thy ===== *)
theory System
  imports Dispatch Worker
begin

text \<open>
  Manager, workers and database together, with the broker replaced by what it guarantees: the
  tasks that are computed have been requested, and the answers are for tasks that have been
  computed. So a step of the whole is a step of the dispatcher, or some worker computing a task
  that has been requested, at any time and any number of times, or an answer. Theory \<open>Cluster\<close>
  shows that the processes behave like this.
\<close>

section \<open>Runs of the system\<close>

text \<open>A task is answered when its result is in the database, or was and its problem is closed.\<close>

definition present :: "u32 \<times> u32 \<Rightarrow> Tables \<Rightarrow> bool" where
  "present k db \<longleftrightarrow> dynamic_data db k \<noteq> None"

definition task_answered :: "Expr list \<Rightarrow> Dispatcher \<Rightarrow> Tables \<Rightarrow> TaskId \<Rightarrow> bool" where
  "task_answered ps d db i \<longleftrightarrow> present (task_key i) db \<or>
     unat (tid_problem i) < length ps \<and> map_of (problem_id_to_calculation_data d) (of_u32 (tid_problem i)) = None"

inductive system_run ::
  "Wire \<Rightarrow> DbStubs \<Rightarrow> (Graph \<Rightarrow> nat list res) \<Rightarrow> ((nat \<times> nat list) list \<Rightarrow> (nat \<times> nat list) list) \<Rightarrow>
   Tables \<Rightarrow> Expr list \<Rightarrow> Dispatcher \<Rightarrow> Tables \<Rightarrow> bool"
  for w st topo order db0 where
  start: "system_run w st topo order db0 [] Dispatcher_New db0"
| new_problem: "system_run w st topo order db0 ps d db \<Longrightarrow>
    CalculateProblem_start topo (AST (Some e)) d = Inr (ids, d') \<Longrightarrow>
    system_run w st topo order db0 (ps @ [e]) d' db"
| send: "system_run w st topo order db0 ps d db \<Longrightarrow> SendComputableTasks w order d = Inr d' \<Longrightarrow>
    system_run w st topo order db0 ps d' db"
| work: "system_run w st topo order db0 ps d db \<Longrightarrow> m \<in> set (requests_out (broker_connection d)) \<Longrightarrow>
    parse_Task w m = Some task \<Longrightarrow>
    CalculateTask st \<lparr>wt_identity = ident, wt_task = task\<rparr> (q, db) = Inr (q', db') \<Longrightarrow>
    system_run w st topo order db0 ps d db'"
| answer: "system_run w st topo order db0 ps d db \<Longrightarrow> task_answered ps d db i \<Longrightarrow>
    system_run w st topo order db0 ps (d\<lparr>broker_connection := (broker_connection d)
      \<lparr>replies_in := replies_in (broker_connection d) @ [ser_TaskId w i]\<rparr>\<rparr>) db"
| update: "system_run w st topo order db0 ps d db \<Longrightarrow> UpdateComputableTasks w d = Inr d' \<Longrightarrow>
    system_run w st topo order db0 ps d' db"
| finish: "system_run w st topo order db0 ps d db \<Longrightarrow> CalculateProblem_ready pid d = Inr True \<Longrightarrow>
    CalculateProblem_finish st pid (root_task (ps ! unat pid)) (d, db) = (r, d', db') \<Longrightarrow>
    system_run w st topo order db0 ps d' db'"

text \<open>To the dispatcher, such a run is one of its own.\<close>

lemma finish_dispatcher:
  "CalculateProblem_finish st pid t (d, db) = (r, d', db') \<Longrightarrow> d' = ClearProblem pid d"
  by (auto simp: CalculateProblem_finish_def Let_def split: prod.splits sum.splits)

lemma system_dispatcher_run: "system_run w st topo order db0 ps d db \<Longrightarrow> dispatcher_run w topo order ps d"
proof (induction rule: system_run.induct)
  case (finish ps d db pid r d' db')
  then show ?case using finish_dispatcher dispatcher_run.clear by metis
qed (blast intro: dispatcher_run.intros)+

section \<open>What the database holds\<close>

text \<open>The values of the variables: the static data of the database.\<close>

definition env_of :: "DbStubs \<Rightarrow> Tables \<Rightarrow> VariableId \<Rightarrow> ExprResult option" where
  "env_of st db x = (case fst (Client_ReadData (read_stub st) (RecordName x) db) of Inl _ \<Rightarrow> None | Inr v \<Rightarrow> Some v)"

text \<open>The key of the result of a task, and that every record is the value of its task.\<close>

definition key_of :: "nat \<Rightarrow> nat \<Rightarrow> u32 \<times> u32" where
  "key_of p t = (word_of_nat p, word_of_nat t)"

definition results_ok ::
  "(bytes \<Rightarrow> bool \<times> Field) \<Rightarrow> (VariableId \<Rightarrow> ExprResult option) \<Rightarrow> Expr list \<Rightarrow> Tables \<Rightarrow> bool" where
  "results_ok parse env ps db \<longleftrightarrow> (\<forall>k b. dynamic_data db k = Some b \<longrightarrow>
     (\<exists>p t v. p < length ps \<and> t < length (records_of (ps ! p)) \<and> \<not> is_leaf (records_of (ps ! p) ! t) \<and>
        k = key_of p t \<and> parse b = (True, ExprResult_to_Field v) \<and> eval env (records_of (ps ! p) ! t) = Inr v))"

definition small_problems :: "Expr list \<Rightarrow> bool" where
  "small_problems ps \<longleftrightarrow> length ps \<le> 2 ^ 32 \<and> (\<forall>e \<in> set ps. length (records_of e) \<le> 2 ^ 32)"

lemma key_of_inject:
  assumes "p < 2 ^ 32" "p' < 2 ^ 32" "t < 2 ^ 32" "t' < 2 ^ 32"
  shows "key_of p t = key_of p' t' \<longleftrightarrow> p = p' \<and> t = t'"
  using assms by (auto simp: key_of_def word_unat_eq_iff unat_of_nat take_bit_nat_eq_self)

lemma task_key_request:
  assumes "t < 2 ^ 32"
  shows "task_key (request_id pid t) = key_of (unat pid) t"
proof -
  have "to_u32 pid = word_of_nat (unat pid)"
    by (simp add: to_u32_def)
  with assms show ?thesis by (simp add: task_key_def request_id_def key_of_def to_u32_word_of_nat)
qed

lemma results_ok_mono: "results_ok parse env ps db \<Longrightarrow> results_ok parse env (ps @ qs) db"
proof -
  assume ok: "results_ok parse env ps db"
  have old: "(ps @ qs) ! p = ps ! p" "p < length (ps @ qs)" if "p < length ps" for p
    using that by (simp_all add: nth_append)
  show ?thesis unfolding results_ok_def
  proof (intro allI impI)
    fix k b assume "dynamic_data db k = Some b"
    then obtain p t v where "p < length ps" "t < length (records_of (ps ! p))" "\<not> is_leaf (records_of (ps ! p) ! t)"
      "k = key_of p t" "parse b = (True, ExprResult_to_Field v)" "eval env (records_of (ps ! p) ! t) = Inr v"
      using ok unfolding results_ok_def by blast
    with old [of p] show "\<exists>p t v. p < length (ps @ qs) \<and> t < length (records_of ((ps @ qs) ! p)) \<and>
        \<not> is_leaf (records_of ((ps @ qs) ! p) ! t) \<and> k = key_of p t \<and> parse b = (True, ExprResult_to_Field v) \<and>
        eval env (records_of ((ps @ qs) ! p) ! t) = Inr v"
      by (intro exI[of _ p] exI[of _ t] exI[of _ v]) simp
  qed
qed

lemma results_ok_sub:
  "results_ok parse env ps db \<Longrightarrow> dynamic_data db' \<subseteq>\<^sub>m dynamic_data db \<Longrightarrow> results_ok parse env ps db'"
  unfolding results_ok_def map_le_def by (metis domI)

text \<open>Reading the record of a task gives the value of its node.\<close>

lemma results_read:
  assumes ok: "results_ok parse env ps db" and st: "db_served ser parse st" and small: "small_problems ps"
    and p: "unat pid < length ps" and t: "t < length (records_of (ps ! unat pid))"
    and rd: "fst (Client_ReadData (read_stub st) (DynRecordId pid' t') db) = Inr v"
    and key: "(to_u32 pid', to_u32 t') = key_of (unat pid) t"
  shows "eval env (records_of (ps ! unat pid) ! t) = Inr v"
proof -
  have rd': "fst (Client_ReadData (read_stub st) (DynRecordId pid' t') db) =
      (case dynamic_data db (to_u32 pid', to_u32 t') of
         None \<Rightarrow> Inl (LogicError ''Invalid message'')
       | Some b \<Rightarrow> if fst (parse b) then Field_to_ExprResult (snd (parse b)) else Inl (LogicError ''Invalid message''))"
    by (simp add: Client_ReadData_served [OF db_servedD(2) [OF st]] RecordIdVisitor_def ReadDataImpl_def split_beta
        split: option.splits)
  then obtain b where b: "dynamic_data db (key_of (unat pid) t) = Some b"
    using rd key by (auto split: option.splits)
  then obtain p' u v' where p': "p' < length ps" "u < length (records_of (ps ! p'))" "key_of (unat pid) t = key_of p' u"
    "parse b = (True, ExprResult_to_Field v')" "eval env (records_of (ps ! p') ! u) = Inr v'"
    using ok unfolding results_ok_def by blast
  have "v' = v" using rd rd' b p'(4) key by simp
  moreover have "length (records_of (ps ! unat pid)) \<le> 2 ^ 32" "length (records_of (ps ! p')) \<le> 2 ^ 32" "length ps \<le> 2 ^ 32"
    using small p p'(1) by (auto simp: small_problems_def)
  then have "unat pid = p' \<and> t = u"
    using p'(3) p p'(1,2) t key_of_inject [of "unat pid" p' t u] by linarith
  ultimately show ?thesis using p'(5) by simp
qed


section \<open>Computing a requested task\<close>

text \<open>An operand of a request is read as the value of the operand's expression.\<close>

lemma operand_value_eval:
  assumes ok: "results_ok parse env ps db" and st: "db_served ser parse st" and small: "small_problems ps"
    and p: "unat pid < length ps" and wf: "wf_Expr (ps ! unat pid)"
    and t: "t < length (records_of (ps ! unat pid))" and x: "x \<in> set (operands (records_of (ps ! unat pid) ! t))"
    and env: "env = env_of st db"
    and v: "operand_value st db (request_operand (ps ! unat pid) pid x) = Inr v"
  shows "eval env x = Inr v"
proof -
  let ?e = "ps ! unat pid" and ?u = "index_of (records_of (ps ! unat pid)) x"
  note u = operand_index [OF wf t x]
  have var: "lookup_var env y = Inr v" if "operand_value st db (StaticOperand y) = Inr v" for y
    using that by (simp add: lookup_var_def env env_of_def operand_value_def)
  have dyn: "eval env x = Inr v" if "operand_value st db (DynOperand (request_id pid ?u)) = Inr v"
  proof -
    have "?u < 2 ^ 32" using u(1) small p by (auto simp: small_problems_def dest: bspec [OF _ nth_mem])
    then have "task_key (request_id pid ?u) = key_of (unat pid) ?u" by (rule task_key_request)
    then show ?thesis
      using results_read [OF ok st small p u(1), of "of_u32 (tid_problem (request_id pid ?u))"
          "of_u32 (tid_task (request_id pid ?u))" v] that u(2)
      by (simp add: operand_value_def task_key_def)
  qed
  show ?thesis
    using v var dyn by (cases x) (simp_all add: request_operand_def)
qed

lemma task_result_eval:
  assumes ok: "results_ok parse env ps db" and st: "db_served ser parse st" and small: "small_problems ps"
    and p: "unat pid < length ps" and wf: "wf_Expr (ps ! unat pid)"
    and t: "t < length (records_of (ps ! unat pid))" and leaf: "\<not> is_leaf (records_of (ps ! unat pid) ! t)"
    and env: "env = env_of st db" and r: "task_result st db (request (ps ! unat pid) pid t) = Inr r"
  shows "eval env (records_of (ps ! unat pid) ! t) = Inr r"
proof -
  let ?e = "ps ! unat pid" and ?x = "records_of (ps ! unat pid) ! t"
  have wfx: "wf_Expr ?x" using records_of_wf [OF wf nth_mem [OF t]] .
  obtain vs where vs: "mapE (\<lambda>y. operand_value st db (request_operand ?e pid y)) (operands ?x) = Inr vs"
    and calc: "CalculateTaskImpl (Some (GetType ?x)) vs = Inr r"
    using r ExprType_to_nat_less [of "GetType ?x"]
    by (auto simp: task_result_def request_def bindE_eq_Inr mapE_map unat_of_nat take_bit_nat_eq_self)
  have "eval env (operands ?x ! i) = Inr (vs ! i)" if "i < length (operands ?x)" for i
    using operand_value_eval [OF ok st small p wf t nth_mem [OF that] env] mapE_nth [OF vs that] by blast
  then have "mapE (eval env) (operands ?x) = Inr vs"
    using mapE_length [OF vs] by (simp add: mapE_eq_Inr_iff list_all2_conv_all_nth)
  with calc CalculateTaskImpl_eval [OF wfx leaf, of env] show ?thesis by simp
qed

lemma try_write_tables:
  "dynamic_data (tables.try_write ser k f db) =
     (if dynamic_data db k \<noteq> None then dynamic_data db else (dynamic_data db)(k \<mapsto> ser f))"
  "static_data (tables.try_write ser k f db) = static_data db"
  unfolding tables.try_write_def by (auto simp: WriteDynamicDataImpl_def Let_def record_at_def)

lemma results_ok_work:
  assumes ok: "results_ok parse env ps db" and st: "db_served ser parse st" and codec: "field_codec_ok ser parse"
    and small: "small_problems ps" and p: "unat pid < length ps" and wf: "wf_Expr (ps ! unat pid)"
    and t: "t < length (records_of (ps ! unat pid))" and leaf: "\<not> is_leaf (records_of (ps ! unat pid) ! t)"
    and env: "env = env_of st db"
    and run: "CalculateTask st \<lparr>wt_identity = ident, wt_task = request (ps ! unat pid) pid t\<rparr> (q, db) = Inr (q', db')"
  shows "results_ok parse env ps db' \<and> static_data db' = static_data db"
proof -
  let ?k = "key_of (unat pid) t"
  have "t < 2 ^ 32" using t small p by (auto simp: small_problems_def dest: bspec [OF _ nth_mem])
  then have key: "task_key (request_id pid t) = ?k" by (rule task_key_request)
  obtain r where r: "task_result st db (request (ps ! unat pid) pid t) = Inr r"
    and db': "db' = tables.try_write ser ?k (ExprResult_to_Field r) db"
    using run key by (auto simp: CalculateTask_eq [OF st] bindE_eq_Inr request_def)
  have val: "eval env (records_of (ps ! unat pid) ! t) = Inr r"
    by (rule task_result_eval [OF ok st small p wf t leaf env r])
  have "parse (ser (ExprResult_to_Field r)) = (True, ExprResult_to_Field r)"
    using codec by (simp add: field_codec_ok_def)
  then have "results_ok parse env ps db'"
    using ok p t leaf val unfolding results_ok_def db' try_write_tables
    by (auto split: if_splits)
  then show ?thesis by (simp add: db' try_write_tables)
qed


section \<open>Answers\<close>

text \<open>
  A caller is woken only for a result that is there, and every answer on its way is for a result
  that is there or for a problem that is closed.
\<close>

definition answer_ok :: "Wire \<Rightarrow> Expr list \<Rightarrow> Dispatcher \<Rightarrow> Tables \<Rightarrow> bytes \<Rightarrow> bool" where
  "answer_ok w ps d db m \<longleftrightarrow> (\<exists>i. m = ser_TaskId w i \<and> task_answered ps d db i)"

definition answers_ok :: "Wire \<Rightarrow> Expr list \<Rightarrow> Dispatcher \<Rightarrow> Tables \<Rightarrow> bool" where
  "answers_ok w ps d db \<longleftrightarrow>
     (\<forall>pid. map_of (problem_id_to_sync_data d) pid = Some True \<longrightarrow>
        present (key_of (unat pid) (root_task (ps ! unat pid))) db) \<and>
     (\<forall>m \<in> set (replies_in (broker_connection d)). answer_ok w ps d db m)"

lemma sync_open:
  assumes "dispatcher_inv w ps sent d" and "map_of (problem_id_to_sync_data d) pid = Some b"
  obtains cd where "map_of (problem_id_to_calculation_data d) pid = Some cd" "unat pid < length ps"
  using dispatcher_invD(6) [OF assms(1), of pid] live_problem(2) [OF assms(1), of pid] assms(2)
  by (cases "map_of (problem_id_to_calculation_data d) pid") auto

lemma present_tables: "dynamic_data db \<subseteq>\<^sub>m dynamic_data db' \<Longrightarrow> present k db \<Longrightarrow> present k db'"
  using map_le_present [of "dynamic_data db" "dynamic_data db'" k] by (simp add: present_def)

lemma task_answered_tables: "dynamic_data db \<subseteq>\<^sub>m dynamic_data db' \<Longrightarrow> task_answered ps d db i \<Longrightarrow> task_answered ps d db' i"
  unfolding task_answered_def using present_tables by blast

lemma answers_ok_tables:
  "answers_ok w ps d db \<Longrightarrow> dynamic_data db \<subseteq>\<^sub>m dynamic_data db' \<Longrightarrow> answers_ok w ps d db'"
  unfolding answers_ok_def answer_ok_def using present_tables task_answered_tables by meson

text \<open>What a dispatcher step may change: the problems stay open or closed, and answers stay.\<close>

lemma task_answered_closed:
  "(\<And>pid. map_of (problem_id_to_calculation_data d) pid = None \<Longrightarrow> map_of (problem_id_to_calculation_data d') pid = None)
   \<Longrightarrow> task_answered ps d db i \<Longrightarrow> task_answered ps d' db i"
  unfolding task_answered_def by blast

lemma answers_ok_frame:
  assumes "answers_ok w ps d db"
    and "problem_id_to_sync_data d' = problem_id_to_sync_data d"
    and "set (replies_in (broker_connection d')) \<subseteq> set (replies_in (broker_connection d))"
    and "\<And>pid. map_of (problem_id_to_calculation_data d) pid = None \<Longrightarrow> map_of (problem_id_to_calculation_data d') pid = None"
  shows "answers_ok w ps d' db"
  using assms(1-3) task_answered_closed [OF assms(4)] unfolding answers_ok_def answer_ok_def by (metis subsetD)

definition same_problems :: "Dispatcher \<Rightarrow> Dispatcher \<Rightarrow> bool" where
  "same_problems d d' \<longleftrightarrow> problem_id_to_sync_data d' = problem_id_to_sync_data d \<and>
     replies_in (broker_connection d') = replies_in (broker_connection d) \<and>
     set (um_keys (problem_id_to_calculation_data d')) = set (um_keys (problem_id_to_calculation_data d))"

lemma same_problems_put:
  assumes "map_of (problem_id_to_calculation_data d) pid = Some cd"
  shows "same_problems d (put_calculation_data pid cd' d)"
proof -
  have "pid \<in> set (um_keys (problem_id_to_calculation_data d))"
    using assms by (metis um_contains_def um_contains_iff option.distinct(1))
  then show ?thesis by (simp add: same_problems_def put_calculation_data_def um_keys_put_present)
qed

lemma same_problems_refl: "same_problems d d"
  by (simp add: same_problems_def)

lemma same_problems_trans: "same_problems d d1 \<Longrightarrow> same_problems d1 d2 \<Longrightarrow> same_problems d d2"
  by (simp add: same_problems_def)

lemma SendComputableTask_frame: "SendComputableTask w pid entry d = Inr d' \<Longrightarrow> same_problems d d'"
proof -
  assume "SendComputableTask w pid entry d = Inr d'"
  then obtain task cd st where "map_of (problem_id_to_calculation_data d) pid = Some cd"
    "d' = put_calculation_data pid (cd\<lparr>processed_tasks_to_status := st\<rparr>)
       (d\<lparr>broker_connection := SendRequest w task (broker_connection d)\<rparr>)"
    by (auto simp: SendComputableTask_def bindE_eq_Inr Let_def split: prod.splits)
  then show ?thesis
    using same_problems_put [of "d\<lparr>broker_connection := SendRequest w task (broker_connection d)\<rparr>" pid cd]
    by (simp add: same_problems_def SendRequest_def)
qed

lemma SendComputableTasks_frame:
  assumes "SendComputableTasks w order d = Inr d'"
  shows "same_problems d d'"
proof -
  have inner: "same_problems d1 d2" if "SendComputableTasksOf w order pid d1 = Inr d2" for pid d1 d2
  proof -
    from that obtain es d3 cd where loop: "foldE (SendComputableTask w pid) es d1 = Inr d3"
      and cd: "map_of (problem_id_to_calculation_data d3) pid = Some cd"
        "d2 = put_calculation_data pid (cd\<lparr>computable_task_to_dependencies := []\<rparr>) d3"
      by (auto simp: SendComputableTasksOf_def bindE_eq_Inr)
    have "same_problems d1 d3"
      using loop same_problems_refl
      by (rule foldE_invariant) (blast intro: same_problems_trans SendComputableTask_frame)
    with cd same_problems_put [OF cd(1)] show ?thesis using same_problems_trans by blast
  qed
  show ?thesis
    using assms [unfolded SendComputableTasks_def] same_problems_refl
    by (rule foldE_invariant) (blast intro: same_problems_trans inner)
qed

lemma same_problems_answers: "same_problems d d' \<Longrightarrow> answers_ok w ps d db \<Longrightarrow> answers_ok w ps d' db"
  by (rule answers_ok_frame)
    (auto simp: same_problems_def um_keys_def map_of_eq_None_iff)


text \<open>A new problem gets a number no problem had before, so closed problems stay closed.\<close>

lemma start_effect:
  assumes inv: "dispatcher_inv w ps sent d" and small: "length ps < 2 ^ 64"
    and step: "CalculateProblem_start topo ast d = Inr (ids, d')"
  shows "unat (PROBLEM_ID d) = length ps" "broker_connection d' = broker_connection d"
    "map_of (problem_id_to_sync_data d') p = (if p = PROBLEM_ID d then Some False else map_of (problem_id_to_sync_data d) p)"
    "p \<noteq> PROBLEM_ID d \<Longrightarrow> map_of (problem_id_to_calculation_data d) p = None \<Longrightarrow>
       map_of (problem_id_to_calculation_data d') p = None"
proof -
  obtain cd where d': "d' = snd (PushProblem cd d)"
    using step by (auto simp: CalculateProblem_start_def bindE_eq_Inr Let_def split_beta)
  let ?pid = "PROBLEM_ID d"
  show pid: "unat ?pid = length ps"
    using dispatcher_invD(1) [OF inv] small by (simp add: unat_of_nat take_bit_nat_eq_self)
  then have "map_of (problem_id_to_calculation_data d) ?pid = None"
    using live_problem(2) [OF inv, of ?pid] by (cases "map_of (problem_id_to_calculation_data d) ?pid") auto
  then show "map_of (problem_id_to_sync_data d') p = (if p = ?pid then Some False else map_of (problem_id_to_sync_data d) p)"
    using dispatcher_invD(6) [OF inv] by (auto simp: d' PushProblem_def Let_def um_simps)
  show "broker_connection d' = broker_connection d" by (simp add: d' PushProblem_def Let_def)
  have "set (um_keys (problem_id_to_calculation_data d')) = insert ?pid (set (um_keys (problem_id_to_calculation_data d)))"
    by (simp add: d' PushProblem_def Let_def om_keys_emplace)
  then show "p \<noteq> ?pid \<Longrightarrow> map_of (problem_id_to_calculation_data d) p = None \<Longrightarrow>
      map_of (problem_id_to_calculation_data d') p = None"
    by (auto simp: um_keys_def map_of_eq_None_iff)
qed

lemma task_answered_new:
  assumes "dispatcher_inv w ps sent d" and "length ps < 2 ^ 64"
    and "CalculateProblem_start topo ast d = Inr (ids, d')" and "task_answered ps d db i"
  shows "task_answered (ps @ [e]) d' db i"
proof -
  note effect = start_effect [OF assms(1-3)]
  have "of_u32 (tid_problem i) \<noteq> PROBLEM_ID d" if "unat (tid_problem i) < length ps"
    using that effect(1) by (metis less_irrefl unat_of_u32)
  with assms(4) effect(4) [of "of_u32 (tid_problem i)"] show ?thesis
    unfolding task_answered_def by auto
qed

lemma answers_ok_new:
  assumes inv: "dispatcher_inv w ps sent d" and small: "length ps < 2 ^ 64" and ok: "answers_ok w ps d db"
    and step: "CalculateProblem_start topo ast d = Inr (ids, d')"
  shows "answers_ok w (ps @ [e]) d' db"
proof -
  note effect = start_effect [OF inv small step]
  have "present (key_of (unat p) (root_task ((ps @ [e]) ! unat p))) db"
    if "map_of (problem_id_to_sync_data d') p = Some True" for p
  proof -
    have old: "map_of (problem_id_to_sync_data d) p = Some True" using that effect(3) [of p] by (auto split: if_splits)
    then have "unat p < length ps" using sync_open [OF inv old] by blast
    with ok old show ?thesis by (simp add: answers_ok_def nth_append)
  qed
  moreover have "answer_ok w (ps @ [e]) d' db m" if "m \<in> set (replies_in (broker_connection d'))" for m
    using that ok task_answered_new [OF inv small step] effect(2) unfolding answers_ok_def answer_ok_def by metis
  ultimately show ?thesis unfolding answers_ok_def by blast
qed

lemma answers_ok_update:
  assumes wire: "wire_ok w" and inv: "dispatcher_inv w ps sent d" and ok: "answers_ok w ps d db"
    and small: "small_problems ps" and step: "UpdateComputableTasks w d = Inr d'"
  shows "answers_ok w ps d' db"
proof (cases "replies_in (broker_connection d)")
  case Nil
  with step have "d' = d" by (simp add: UpdateComputableTasks_def ReadReply_def)
  with ok show ?thesis by simp
next
  case (Cons m rest)
  let ?d = "d\<lparr>broker_connection := (broker_connection d)\<lparr>replies_in := rest\<rparr>\<rparr>"
  obtain i where m: "m = ser_TaskId w i" and i: "present (task_key i) db \<or>
      map_of (problem_id_to_calculation_data d) (of_u32 (tid_problem i)) = None"
    using ok Cons unfolding answers_ok_def answer_ok_def task_answered_def by auto
  let ?p = "of_u32 (tid_problem i)" and ?t = "unat (tid_task i)"
  have read: "ReadReply w (broker_connection d) = Inr (Some i, (broker_connection d)\<lparr>replies_in := rest\<rparr>)"
    using Cons wire_okD(2) [OF wire, of i] by (simp add: ReadReply_def m)
  then obtain cd where cd: "map_of (problem_id_to_calculation_data d) ?p = Some cd"
    using step by (auto simp: UpdateComputableTasks_def bindE_eq_Inr Let_def)
  then have here: "present (task_key i) db" using i by simp
  have inv': "dispatcher_inv w ps sent ?d" using inv dispatcher_inv_connection by simp
  have cd': "map_of (problem_id_to_calculation_data ?d) ?p = Some cd" using cd by simp
  have sync: "map_of (problem_id_to_sync_data ?d) ?p \<noteq> None"
    using dispatcher_invD(4) [OF inv' cd'] unfolding problem_inv_def by simp
  note calc = live_problem(1) [OF inv cd]
  have root: "queue_back (GetSortedTasks (decompositor cd)) = Inr (root_task (ps ! unat ?p))"
    using GetSortedTasks_back [OF calc_invD(1) [OF calc]] by (simp add: root_task_def)
  have run: "(if ?t = root_task (ps ! unat ?p) then NotifyComputedProblem ?p ?t ?d else UpdateComputableTasksImpl ?p ?t ?d) = Inr d'"
    using step by (simp add: UpdateComputableTasks_def read um_at_def cd root Let_def)
  have key: "task_key i = key_of (unat ?p) ?t" by (simp add: task_key_def key_of_def)
  have ok': "answers_ok w ps ?d db" by (rule answers_ok_frame [OF ok]) (auto simp: Cons)
  show ?thesis
  proof (cases "?t = root_task (ps ! unat ?p)")
    case True
    then obtain cd1 where d': "d' = (put_calculation_data ?p cd1 ?d)
        \<lparr>problem_id_to_sync_data := um_put ?p True (problem_id_to_sync_data ?d)\<rparr>"
      using run NotifyComputedProblem_eq [OF cd' sync, of ?t] by (auto split: if_splits)
    have "answers_ok w ps (put_calculation_data ?p cd1 ?d) db"
      by (rule same_problems_answers [OF same_problems_put [OF cd'] ok'])
    then show ?thesis
      using here key True unfolding d' answers_ok_def answer_ok_def task_answered_def
      by (simp add: um_simps put_calculation_data_def)
  next
    case False
    then obtain cd1 where "d' = put_calculation_data ?p cd1 ?d"
      using run UpdateComputableTasksImpl_eq [OF cd' calc, of ?t] by (auto split: if_splits)
    then show ?thesis using same_problems_answers [OF same_problems_put [OF cd'] ok'] by simp
  qed
qed


lemma clear_tables:
  "dynamic_data (ClearIntermediateCalculationsImpl g db) k = (if fst k = g then None else dynamic_data db k)"
  "static_data (ClearIntermediateCalculationsImpl g db) = static_data db"
  by (cases k) (simp_all add: ClearIntermediateCalculationsImpl_def)

lemma finish_tables:
  assumes "db_served ser parse st" and "CalculateProblem_finish st pid t (d, db) = (r, d', db')"
  shows "d' = ClearProblem pid d" "static_data db' = static_data db" "dynamic_data db' \<subseteq>\<^sub>m dynamic_data db"
    "fst k \<noteq> to_u32 pid \<Longrightarrow> dynamic_data db' k = dynamic_data db k"
  using CalculateProblem_finish_cases [OF assms(1), of pid t d db] assms(2)
  by (auto simp: clear_tables map_le_def dom_def split: sum.splits if_splits)

lemma task_answered_finish:
  assumes st: "db_served ser parse st" and pid: "unat pid < length ps" and bound: "length ps \<le> 2 ^ 32"
    and step: "CalculateProblem_finish st pid t (d, db) = (r, d', db')" and i: "task_answered ps d db i"
  shows "task_answered ps d' db' i"
proof -
  note effect = finish_tables [OF st step]
  have closed: "map_of (problem_id_to_calculation_data d') q = None"
    if "q = pid \<or> map_of (problem_id_to_calculation_data d) q = None" for q
    using that by (auto simp: effect(1) ClearProblem_def um_simps)
  show ?thesis
  proof (cases "tid_problem i = to_u32 pid")
    case True
    have "of_u32 (tid_problem i) = pid"
      using True pid bound by (simp add: word_unat_eq_iff unat_to_u32)
    with pid closed show ?thesis unfolding task_answered_def by (metis unat_of_u32)
  next
    case False
    then have "present (task_key i) db' = present (task_key i) db"
      using effect(4) [of "task_key i"] by (simp add: present_def task_key_def)
    with i closed show ?thesis unfolding task_answered_def by blast
  qed
qed

lemma ready_open:
  assumes "dispatcher_inv w ps sent d" and "CalculateProblem_ready pid d = Inr True"
  shows "map_of (problem_id_to_sync_data d) pid = Some True" "unat pid < length ps"
proof -
  show sync: "map_of (problem_id_to_sync_data d) pid = Some True"
    using assms(2) by (simp add: CalculateProblem_ready_def)
  show "unat pid < length ps" using sync_open [OF assms(1) sync] by blast
qed

lemma key_of_other:
  assumes "length ps \<le> 2 ^ 32" and "unat p < length ps" and "unat pid < length ps" and "p \<noteq> pid"
  shows "fst (key_of (unat p) u) \<noteq> to_u32 pid"
proof -
  have "fst (key_of (unat p) u) = to_u32 p" by (simp add: key_of_def to_u32_def)
  with assms show ?thesis by (simp add: word_unat_eq_iff unat_to_u32)
qed

lemma answers_ok_finish:
  assumes st: "db_served ser parse st" and inv: "dispatcher_inv w ps sent d" and ok: "answers_ok w ps d db"
    and small: "small_problems ps" and ready: "CalculateProblem_ready pid d = Inr True"
    and step: "CalculateProblem_finish st pid t (d, db) = (r, d', db')"
  shows "answers_ok w ps d' db'"
proof -
  note effect = finish_tables [OF st step] and pid = ready_open(2) [OF inv ready]
  have bound: "length ps \<le> 2 ^ 32" using small by (simp add: small_problems_def)
  note other = key_of_other [OF bound _ pid]
  have "present (key_of (unat p) (root_task (ps ! unat p))) db'"
    if "map_of (problem_id_to_sync_data d') p = Some True" for p
  proof -
    have ne: "p \<noteq> pid" and old: "map_of (problem_id_to_sync_data d) p = Some True"
      using that by (auto simp: effect(1) ClearProblem_def um_simps split: if_splits)
    have "unat p < length ps" using sync_open [OF inv old] by blast
    from other [OF this ne] effect(4) [of "key_of (unat p) (root_task (ps ! unat p))"] ok old show ?thesis
      by (simp add: answers_ok_def present_def)
  qed
  moreover have "answer_ok w ps d' db' m" if "m \<in> set (replies_in (broker_connection d'))" for m
  proof -
    have "m \<in> set (replies_in (broker_connection d))" using that by (simp add: effect(1) ClearProblem_def)
    then show ?thesis
      using ok task_answered_finish [OF st pid bound step] unfolding answers_ok_def answer_ok_def by blast
  qed
  ultimately show ?thesis unfolding answers_ok_def by blast
qed

section \<open>The invariant of the system\<close>

lemma env_of_static: "db_served ser parse st \<Longrightarrow> static_data db' = static_data db \<Longrightarrow> env_of st db' = env_of st db"
  by (rule ext) (simp add: env_of_def Client_ReadData_served [OF db_servedD(2)] RecordIdVisitor_def ReadDataImpl_def)

lemma small_problems_prefix: "small_problems (ps @ [e]) \<Longrightarrow> small_problems ps"
  by (simp add: small_problems_def)

lemma small_problems_length: "small_problems ps \<Longrightarrow> length ps < 2 ^ 64"
  by (simp add: small_problems_def)

definition system_inv :: "Wire \<Rightarrow> (bytes \<Rightarrow> bool \<times> Field) \<Rightarrow> DbStubs \<Rightarrow> Tables \<Rightarrow> Expr list \<Rightarrow> Dispatcher \<Rightarrow> Tables \<Rightarrow> bool" where
  "system_inv w parse st db0 ps d db \<longleftrightarrow> static_data db = static_data db0 \<and>
     results_ok parse (env_of st db0) ps db \<and> answers_ok w ps d db \<and> (\<forall>e \<in> set ps. wf_Expr e)"

lemma system_invD:
  assumes "system_inv w parse st db0 ps d db"
  shows "static_data db = static_data db0" "results_ok parse (env_of st db0) ps db" "answers_ok w ps d db"
    "e \<in> set ps \<Longrightarrow> wf_Expr e"
  using assms unfolding system_inv_def by blast+

text \<open>A request that is on its way is for a task that has been sent.\<close>

lemma task_of_request:
  assumes wire: "wire_ok w" and disp: "dispatcher_inv w ps sent d"
    and m: "m \<in> set (requests_out (broker_connection d))" "parse_Task w m = Some task"
  obtains pid t where "(pid, t) \<in> set sent" "task = request (ps ! unat pid) pid t" "unat pid < length ps"
    "t < length (records_of (ps ! unat pid))" "\<not> is_leaf (records_of (ps ! unat pid) ! t)"
proof -
  note sent = dispatcher_invD(5) [OF disp, unfolded sent_ok_def]
  obtain pid t where pt: "(pid, t) \<in> set sent" "m = ser_Task w (request (ps ! unat pid) pid t)"
    using m(1) sent by auto
  moreover from this have "task = request (ps ! unat pid) pid t"
    using m(2) wire by (simp add: wire_ok_def codec_ok_def)
  ultimately show ?thesis using that sent by blast
qed

lemma system_inv_work:
  assumes wire: "wire_ok w" and st: "db_served ser parse st" and codec: "field_codec_ok ser parse"
    and inv: "system_inv w parse st db0 ps d db" and disp: "dispatcher_inv w ps sent d" and small: "small_problems ps"
    and m: "m \<in> set (requests_out (broker_connection d))" "parse_Task w m = Some task"
    and run: "CalculateTask st \<lparr>wt_identity = ident, wt_task = task\<rparr> (q, db) = Inr (q', db')"
  shows "system_inv w parse st db0 ps d db'"
proof -
  obtain pid t where task: "task = request (ps ! unat pid) pid t"
    and p: "unat pid < length ps" "t < length (records_of (ps ! unat pid))" "\<not> is_leaf (records_of (ps ! unat pid) ! t)"
    using task_of_request [OF wire disp m] by blast
  have wf: "wf_Expr (ps ! unat pid)" using system_invD(4) [OF inv] p(1) by simp
  have env: "env_of st db0 = env_of st db"
    using env_of_static [OF st] system_invD(1) [OF inv] by metis
  have "results_ok parse (env_of st db0) ps db' \<and> static_data db' = static_data db"
    by (rule results_ok_work [OF system_invD(2) [OF inv] st codec small p(1) wf p(2,3) env run [unfolded task]])
  moreover have "answers_ok w ps d db'"
    using answers_ok_tables [OF system_invD(3) [OF inv] CalculateTask_adds(2) [OF st run]] .
  ultimately show ?thesis using inv unfolding system_inv_def by simp
qed


lemma system_inv_run:
  assumes topo: "\<And>e. wf_Expr e \<Longrightarrow> topological_sort_ok topo (graph_of (records_of e))" and order: "iteration_ok order"
    and wire: "wire_ok w" and st: "db_served ser parse st" and codec: "field_codec_ok ser parse"
    and fresh: "dynamic_data db0 = Map.empty"
    and run: "system_run w st topo order db0 ps d db" and small: "small_problems ps"
  shows "system_inv w parse st db0 ps d db \<and> (\<exists>sent. dispatcher_inv w ps sent d)"
proof -
  have disp: "\<exists>sent. dispatcher_inv w ps sent d"
    if "system_run w st topo order db0 ps d db" "small_problems ps" for ps d db
    using dispatcher_inv_run [OF topo order system_dispatcher_run [OF that(1)] small_problems_length [OF that(2)]] .
  have "system_inv w parse st db0 ps d db" using run small
  proof (induction rule: system_run.induct)
    case start
    show ?case
      by (simp add: system_inv_def results_ok_def answers_ok_def Dispatcher_New_def fresh)
  next
    case (new_problem ps d db e ids d')
    note small = small_problems_prefix [OF new_problem.prems]
    obtain sent where sent: "dispatcher_inv w ps sent d" using disp [OF new_problem.hyps(1) small] by blast
    note len = small_problems_length [OF small]
    have "wf_Expr e" using dispatcher_inv_new [OF sent len topo new_problem.hyps(2)] by blast
    then show ?case
      using new_problem.IH [OF small] results_ok_mono answers_ok_new [OF sent len _ new_problem.hyps(2)]
      unfolding system_inv_def by auto
  next
    case (send ps d db d')
    then show ?case
      using same_problems_answers [OF SendComputableTasks_frame [OF send.hyps(2)]] unfolding system_inv_def by blast
  next
    case (work ps d db m task ident q q' db')
    obtain sent where sent: "dispatcher_inv w ps sent d" using disp [OF work.hyps(1) work.prems] by blast
    show ?case
      by (rule system_inv_work [OF wire st codec work.IH [OF work.prems] sent work.prems work.hyps(2-4)])
  next
    case (answer ps d db i)
    then show ?case
      unfolding system_inv_def answers_ok_def answer_ok_def task_answered_def by auto
  next
    case (update ps d db d')
    obtain sent where sent: "dispatcher_inv w ps sent d" using disp [OF update.hyps(1) update.prems] by blast
    show ?case
      using update.IH [OF update.prems] answers_ok_update [OF wire sent _ update.prems update.hyps(2)]
      unfolding system_inv_def by blast
  next
    case (finish ps d db pid r d' db')
    obtain sent where sent: "dispatcher_inv w ps sent d" using disp [OF finish.hyps(1) finish.prems] by blast
    note inv = finish.IH [OF finish.prems]
    show ?case
      using inv finish_tables(2,3) [OF st finish.hyps(3)] results_ok_sub
        answers_ok_finish [OF st sent system_invD(3) [OF inv] finish.prems finish.hyps(2,3)]
      unfolding system_inv_def by metis
  qed
  with disp [OF run small] show ?thesis by blast
qed

section \<open>Properties\<close>

lemma ready_result:
  assumes inv: "system_inv w parse st db0 ps d db" and disp: "dispatcher_inv w ps sent d" and small: "small_problems ps"
    and st: "db_served ser parse st" and ready: "CalculateProblem_ready pid d = Inr True"
  shows "\<exists>r. fst (Client_ReadData (read_stub st) (DynRecordId pid (word_of_nat (root_task (ps ! unat pid)))) db) = Inr r \<and>
    eval (env_of st db0) (ps ! unat pid) = Inr r"
proof -
  let ?e = "ps ! unat pid" and ?t = "root_task (ps ! unat pid)"
  note sync = ready_open(1) [OF disp ready] and pid = ready_open(2) [OF disp ready]
  have t: "?t < length (records_of ?e)" by (simp add: root_task_def)
  have "?t < 2 ^ 32" using t small pid by (auto simp: small_problems_def dest: bspec [OF _ nth_mem])
  then have key: "(to_u32 pid, to_u32 (word_of_nat ?t)) = key_of (unat pid) ?t"
    by (simp add: key_of_def to_u32_word_of_nat) (simp add: to_u32_def)
  obtain b where b: "dynamic_data db (key_of (unat pid) ?t) = Some b"
    using system_invD(3) [OF inv] sync by (auto simp: answers_ok_def present_def)
  then obtain v where v: "parse b = (True, ExprResult_to_Field v)"
    using system_invD(2) [OF inv] unfolding results_ok_def by blast
  have rd: "fst (Client_ReadData (read_stub st) (DynRecordId pid (word_of_nat ?t)) db) = Inr v"
    using b v by (simp add: Client_ReadData_served [OF db_servedD(2) [OF st]] RecordIdVisitor_def ReadDataImpl_def key)
  have "eval (env_of st db0) (records_of ?e ! ?t) = Inr v"
    by (rule results_read [OF system_invD(2) [OF inv] st small pid t rd key])
  moreover have "records_of ?e ! ?t = ?e"
    using records_root [of ?e] system_invD(4) [OF inv nth_mem [OF pid]] by (simp add: root_task_def)
  ultimately show ?thesis using rd by auto
qed

text \<open>A caller that is woken returns the value of its expression, and its results are gone.\<close>

lemma finish_correct:
  assumes "\<And>e. wf_Expr e \<Longrightarrow> topological_sort_ok topo (graph_of (records_of e))" and "iteration_ok order"
    and "wire_ok w" and st: "db_served ser parse st" and "field_codec_ok ser parse"
    and "dynamic_data db0 = Map.empty"
    and "system_run w st topo order db0 ps d db" and small: "small_problems ps"
    and ready: "CalculateProblem_ready pid d = Inr True"
  shows "\<exists>r d' db'. CalculateProblem_finish st pid (root_task (ps ! unat pid)) (d, db) = (Inr r, d', db') \<and>
    eval (env_of st db0) (ps ! unat pid) = Inr r \<and>
    (\<forall>t. dynamic_data db' (to_u32 pid, t) = None)"
proof -
  obtain sent where inv: "system_inv w parse st db0 ps d db" and disp: "dispatcher_inv w ps sent d"
    using system_inv_run [OF assms(1-8)] by blast
  obtain r where r: "fst (Client_ReadData (read_stub st) (DynRecordId pid (word_of_nat (root_task (ps ! unat pid)))) db) = Inr r"
    "eval (env_of st db0) (ps ! unat pid) = Inr r"
    using ready_result [OF inv disp small st ready] by blast
  then show ?thesis
    using CalculateProblem_finish_cases [OF st, of pid "root_task (ps ! unat pid)" d db]
    by (simp add: clear_tables)
qed

text \<open>
  C3. The database never holds a wrong result: every record is the value of the node its key
  names, in the expression of the problem its key names.
\<close>

theorem stored_results_correct:
  assumes "\<And>e. wf_Expr e \<Longrightarrow> topological_sort_ok topo (graph_of (records_of e))" and "iteration_ok order"
    and "wire_ok w" and st: "db_served ser parse st" and "field_codec_ok ser parse"
    and "dynamic_data db0 = Map.empty"
    and "system_run w st topo order db0 ps d db" and small: "small_problems ps"
    and "dynamic_data db (p, t) = Some b"
  shows "unat p < length ps \<and> unat t < length (records_of (ps ! unat p)) \<and>
    (\<exists>v. parse b = (True, ExprResult_to_Field v) \<and> eval (env_of st db0) (records_of (ps ! unat p) ! unat t) = Inr v)"
proof -
  have "results_ok parse (env_of st db0) ps db"
    using system_inv_run [OF assms(1-8)] system_invD(2) by blast
  then obtain p' t' v where p': "p' < length ps" "t' < length (records_of (ps ! p'))" "(p, t) = key_of p' t'"
    "parse b = (True, ExprResult_to_Field v)" "eval (env_of st db0) (records_of (ps ! p') ! t') = Inr v"
    using assms(9) unfolding results_ok_def by blast
  have "length ps \<le> 2 ^ 32" "length (records_of (ps ! p')) \<le> 2 ^ 32"
    using small p'(1) by (auto simp: small_problems_def)
  with p'(1-3) have "unat p = p'" "unat t = t'"
    by (auto simp: key_of_def unat_of_nat take_bit_nat_eq_self)
  with p' show ?thesis by auto
qed


text \<open>A problem that is a single variable stays open, with its flag not set.\<close>

lemma leaf_root: "is_leaf e \<Longrightarrow> records_of e = [e] \<and> root_task e = 0"
  by (cases e) (simp_all add: records_of_def add_record_def root_task_def)

lemma leaf_not_ready:
  assumes inv: "system_inv w parse st db0 ps d db" and disp: "dispatcher_inv w ps sent d"
    and small: "small_problems ps" and pid: "unat pid < length ps" and leaf: "is_leaf (ps ! unat pid)"
  shows "map_of (problem_id_to_sync_data d) pid \<noteq> Some True"
proof
  assume "map_of (problem_id_to_sync_data d) pid = Some True"
  then obtain b where "dynamic_data db (key_of (unat pid) 0) = Some b"
    using system_invD(3) [OF inv] leaf_root [OF leaf] by (auto simp: answers_ok_def present_def)
  then obtain p t where p: "p < length ps" "t < length (records_of (ps ! p))"
    "\<not> is_leaf (records_of (ps ! p) ! t)" "key_of (unat pid) 0 = key_of p t"
    using system_invD(2) [OF inv] unfolding results_ok_def by blast
  have "length ps \<le> 2 ^ 32" "length (records_of (ps ! p)) \<le> 2 ^ 32"
    using small p(1) by (auto simp: small_problems_def)
  then have "unat pid = p" "t = 0"
    using p(1,2,4) pid key_of_inject [of "unat pid" p 0 t] by linarith+
  with p(3) leaf leaf_root [OF leaf] show False by auto
qed

lemma UpdateComputableTasks_open:
  assumes "UpdateComputableTasks w d = Inr d'" and "map_of (problem_id_to_calculation_data d) pid \<noteq> None"
  shows "map_of (problem_id_to_calculation_data d') pid \<noteq> None"
  using assms
  by (auto simp: UpdateComputableTasks_def NotifyComputedProblem_def UpdateComputableTasksImpl_def
      bindE_eq_Inr Let_def put_calculation_data_def um_simps split_beta split: option.splits if_splits)

text \<open>
  C22. A caller whose expression is a single variable waits for ever: in every run of the system
  its problem stays open and its flag is never set, since no request for it is ever made, nothing
  of it can be computed, and so no answer for it comes.
\<close>

theorem single_variable_never_woken:
  assumes topo: "\<And>e. wf_Expr e \<Longrightarrow> topological_sort_ok topo (graph_of (records_of e))" and order: "iteration_ok order"
    and wire: "wire_ok w" and st: "db_served ser parse st" and codec: "field_codec_ok ser parse"
    and fresh: "dynamic_data db0 = Map.empty"
    and run: "system_run w st topo order db0 ps d db" and small: "small_problems ps"
    and "unat pid < length ps" and "is_leaf (ps ! unat pid)"
  shows "CalculateProblem_ready pid d = Inr False \<and>
    (\<exists>cd. map_of (problem_id_to_calculation_data d) pid = Some cd \<and>
       computable_task_to_dependencies cd = [] \<and> processing_tasks cd = {}) \<and>
    (\<exists>sent. requests_out (broker_connection d) =
       map (\<lambda>(pid, t). ser_Task w (request (ps ! unat pid) pid t)) sent \<and> (\<forall>t. (pid, t) \<notin> set sent))"
proof -
  have invs: "system_inv w parse st db0 ps d db \<and> (\<exists>sent. dispatcher_inv w ps sent d)"
    if "system_run w st topo order db0 ps d db" "small_problems ps" for ps d db
    using system_inv_run [OF topo order wire st codec fresh that] .
  have never: "map_of (problem_id_to_sync_data d) pid \<noteq> Some True"
    if "system_run w st topo order db0 ps d db" "small_problems ps" "unat pid < length ps" "is_leaf (ps ! unat pid)"
    for ps d db
    using invs [OF that(1,2)] leaf_not_ready that(2-4) by blast
  have opened: "map_of (problem_id_to_calculation_data d) pid \<noteq> None" using run small assms(9,10)
  proof (induction rule: system_run.induct)
    case (new_problem ps d db e ids d')
    note prefix = small_problems_prefix [OF new_problem.prems(1)]
    obtain sent where sent: "dispatcher_inv w ps sent d" using invs [OF new_problem.hyps(1) prefix] by blast
    note step = start_effect [OF sent small_problems_length [OF prefix] new_problem.hyps(2)]
    have inv': "dispatcher_inv w (ps @ [e]) sent d'"
      using dispatcher_inv_new [OF sent small_problems_length [OF prefix] topo new_problem.hyps(2)] by blast
    have "map_of (problem_id_to_sync_data d') pid \<noteq> None"
    proof (cases "pid = PROBLEM_ID d")
      case False
      then have "unat pid < length ps"
        using new_problem.prems(2) step(1) by (simp add: word_unat_eq_iff)
      then obtain cd where "map_of (problem_id_to_calculation_data d) pid = Some cd"
        using new_problem.IH [OF prefix] new_problem.prems(3) by (auto simp: nth_append)
      from dispatcher_invD(4) [OF sent this] have "map_of (problem_id_to_sync_data d) pid \<noteq> None"
        unfolding problem_inv_def by blast
      with False step(3) [of pid] show ?thesis by simp
    qed (simp add: step(3))
    then show ?case using dispatcher_invD(6) [OF inv', where pid = pid] by argo
  next
    case (send ps d db d')
    then show ?case
      using SendComputableTasks_frame [OF send.hyps(2)]
      by (auto simp: same_problems_def um_keys_def map_of_eq_None_iff)
  next
    case (update ps d db d')
    then show ?case using UpdateComputableTasks_open by blast
  next
    case (finish ps d db q r d' db')
    have "map_of (problem_id_to_sync_data d) q = Some True"
      using finish.hyps(2) by (simp add: CalculateProblem_ready_def)
    with never [OF finish.hyps(1) finish.prems] have "q \<noteq> pid" by blast
    with finish show ?case
      by (simp add: finish_dispatcher [OF finish.hyps(3)] ClearProblem_def um_simps)
  qed simp_all
  then obtain cd where cd: "map_of (problem_id_to_calculation_data d) pid = Some cd" by blast
  obtain sent where sent: "dispatcher_inv w ps sent d" using invs [OF run small] by blast
  have "map_of (problem_id_to_sync_data d) pid = Some False"
    using dispatcher_invD(4) [OF sent cd] never [OF run small assms(9,10)] by (auto simp: problem_inv_def)
  then have "CalculateProblem_ready pid d = Inr False" by (simp add: CalculateProblem_ready_def um_at_def)
  with cd leaf_problem_idle [OF sent assms(10)] dispatcher_invD(5) [OF sent] show ?thesis
    unfolding sent_ok_def by blast
qed

section \<open>A run\<close>

text \<open>The sum of the list \<open>A\<close>, from an empty table of results.\<close>

definition fresh_tables :: Tables where
  "fresh_tables = sample_tables\<lparr>dynamic_data := Map.empty\<rparr>"

definition summed_tables :: Tables where
  "summed_tables = tables.try_write unary_ser (0, 1) (FieldScalar 2) fresh_tables"

abbreviation sample_system :: "Expr list \<Rightarrow> Dispatcher \<Rightarrow> Tables \<Rightarrow> bool" where
  "sample_system \<equiv> system_run unary_wire local_stubs sample_topo (\<lambda>m. m) fresh_tables"

lemma sample_request: "request sample_problem 0 1 =
    \<lparr>tk_id = \<lparr>tid_problem = 0, tid_task = 1\<rparr>, tk_operation_type = 4, tk_operands = [StaticOperand ''A'']\<rparr>"
  by (simp add: request_def request_id_def to_u32_def sample_problem_def request_operand_def operands_def
      records_of_def add_record_def)

lemma sample_operand: "operand_value local_stubs fresh_tables (StaticOperand ''A'') = Inr (RList [3, - 1])"
  using sum_task_operands
  by (simp add: operand_value_def Client_ReadData_served [OF db_servedD(2) [OF local_stubs_served]]
      RecordIdVisitor_def ReadDataImpl_def fresh_tables_def bindE_eq_Inr)

lemma sample_calculated:
  "CalculateTask local_stubs \<lparr>wt_identity = ''a'', wt_task = request sample_problem 0 1\<rparr> ([], fresh_tables) =
   Inr ([answer_of \<lparr>wt_identity = ''a'', wt_task = request sample_problem 0 1\<rparr>], summed_tables)"
proof -
  have "task_result local_stubs fresh_tables (request sample_problem 0 1) = Inr (RScalar 2)"
    unfolding task_result_def sample_request using sum_task_value sample_operand by simp
  then show ?thesis
    by (simp add: CalculateTask_eq [OF local_stubs_served] summed_tables_def ExprResult_to_Field_def)
      (simp add: request_def request_id_def to_u32_def task_key_def)
qed

lemma sample_system_run: "sample_system [sample_problem] sample_answered summed_tables"
proof -
  have "sample_system [sample_problem] sample_sent fresh_tables"
    using system_run.send [OF system_run.new_problem [OF system_run.start sample_opened_step] sample_sent_step] by simp
  moreover have "ser_Task unary_wire (request sample_problem 0 1) \<in> set (requests_out (broker_connection sample_sent))"
    by (simp add: sample_sent_def)
  moreover have "parse_Task unary_wire (ser_Task unary_wire (request sample_problem 0 1)) = Some (request sample_problem 0 1)"
    using unary_wire_ok by (simp add: wire_ok_def codec_ok_def)
  ultimately have "sample_system [sample_problem] sample_sent summed_tables"
    using sample_calculated by (rule system_run.work)
  moreover have "task_answered [sample_problem] sample_sent summed_tables \<lparr>tid_problem = 0, tid_task = 1\<rparr>"
    by (simp add: task_answered_def present_def summed_tables_def try_write_tables task_key_def fresh_tables_def)
  ultimately have "sample_system [sample_problem] sample_replied summed_tables"
    unfolding sample_replied_eq by (rule system_run.answer)
  then show ?thesis using sample_answered_step by (rule system_run.update)
qed

lemma sample_small: "small_problems [sample_problem]"
  by (simp add: small_problems_def)

lemma fresh_dynamic: "dynamic_data fresh_tables = Map.empty"
  by (simp add: fresh_tables_def)

lemmas sample_system_contract = sample_topo_ok iteration_ok_id unary_wire_ok local_stubs_served unary_codec
  fresh_dynamic sample_system_run sample_small

theorem stored_results_correct_witness:
  "\<exists>b v. dynamic_data summed_tables (0, 1) = Some b \<and> unary_parse b = (True, ExprResult_to_Field v) \<and>
     eval (env_of local_stubs fresh_tables) sample_problem = Inr v"
proof -
  have b: "dynamic_data summed_tables (0, 1) = Some (unary_ser (FieldScalar 2))"
    by (simp add: summed_tables_def try_write_tables fresh_tables_def)
  from stored_results_correct [OF sample_system_contract b] b show ?thesis by auto
qed

theorem single_variable_never_woken_witness:
  "\<exists>d. sample_system [ListExpr ''A''] d fresh_tables \<and> CalculateProblem_ready 0 d = Inr False"
proof -
  obtain cd where start: "CalculateProblem_start sample_topo (AST (Some (ListExpr ''A''))) Dispatcher_New =
      Inr ((0, root_task (ListExpr ''A'')), problem_pushed cd Dispatcher_New)"
    using CalculateProblem_start_cases [OF sample_topo_ok, of "ListExpr ''A''" Dispatcher_New]
    by (auto simp: has_const_def records_of_def add_record_def Dispatcher_New_def)
  have run: "sample_system [ListExpr ''A''] (problem_pushed cd Dispatcher_New) fresh_tables"
    using system_run.new_problem [OF system_run.start start] by simp
  have "small_problems [ListExpr ''A'']"
    by (simp add: small_problems_def records_of_def add_record_def)
  from single_variable_never_woken [OF sample_topo_ok iteration_ok_id unary_wire_ok local_stubs_served
      unary_codec fresh_dynamic run this, of 0]
  have "CalculateProblem_ready 0 (problem_pushed cd Dispatcher_New) = Inr False" by simp
  with run show ?thesis by blast
qed

end
