(* ===== verification/Broker.thy ===== *)
theory Broker
  imports Messages
begin

text \<open>
  The broker, \<open>broker/src/broker-impl\<close>: it keeps the number of free cores of each registered
  worker and the tasks that wait for one, hands the manager's tasks to workers over the publisher
  socket and the workers' answers back to the manager. The sockets are the frames that arrived and
  were not received yet, and the frames sent so far. The serialisers are the \<open>Wire\<close> parameter
  \<open>w\<close>; the order in which \<open>std::unordered_map\<close> iterates is the parameter \<open>order\<close>.
\<close>

section \<open>State and operations\<close>

record Broker =
  router_revents :: bool
  manager_revents :: bool
  router_in :: "(bytes \<times> bytes) list"
  manager_in :: "bytes list"
  pub_out :: "(bytes \<times> bytes) list"
  manager_out :: "bytes list"
  core_counts :: "(string, size_t) umap"
  task_queue :: "Task list"

definition TOPIC :: bytes where
  "TOPIC = ''work''"

definition Broker_New :: Broker where
  "Broker_New = \<lparr>router_revents = False, manager_revents = False, router_in = [], manager_in = [],
     pub_out = [], manager_out = [], core_counts = [], task_queue = []\<rparr>"

definition SendTaskToWorkerImpl :: "Wire \<Rightarrow> WorkerTask \<Rightarrow> Broker \<Rightarrow> Broker res" where
  "SendTaskToWorkerImpl w worker_task b =
     (let b = b\<lparr>pub_out := pub_out b @ [(TOPIC, ser_WorkerTask w worker_task)]\<rparr>
      in bindE (um_at (core_counts b) (wt_identity worker_task)) (\<lambda>n.
           Inr (b\<lparr>core_counts := um_put (wt_identity worker_task) (n - 1) (core_counts b)\<rparr>)))"

definition SendTaskToWorkerFromQueue :: "Wire \<Rightarrow> string \<Rightarrow> Broker \<Rightarrow> Broker res" where
  "SendTaskToWorkerFromQueue w identity b =
     bindE (queue_back (task_queue b)) (\<lambda>manager_task.
     bindE (queue_pop (task_queue b)) (\<lambda>q.
       SendTaskToWorkerImpl w \<lparr>wt_identity = identity, wt_task = manager_task\<rparr> (b\<lparr>task_queue := q\<rparr>)))"

text \<open>
  The send on the PAIR socket blocks while the socket has no peer or is at its high-water mark.
  The model has the turn at the moment at which the send has completed: nothing else happens in
  the broker while it waits, and what arrives meanwhile stays on the sockets.
\<close>

definition SendResultToManager :: "Wire \<Rightarrow> WorkerTaskId \<Rightarrow> Broker \<Rightarrow> Broker" where
  "SendResultToManager w worker_task_id b =
     b\<lparr>manager_out := manager_out b @ [ser_TaskId w (wid_id worker_task_id)]\<rparr>"

definition WorkerMessage_core_count :: "WorkerMessage \<Rightarrow> u32" where
  "WorkerMessage_core_count message = (case message of CoreCount n \<Rightarrow> n | _ \<Rightarrow> 0)"

definition RegisterWorker :: "string \<Rightarrow> WorkerMessage \<Rightarrow> Broker \<Rightarrow> Broker res" where
  "RegisterWorker identity message b =
     (if um_contains (core_counts b) identity
      then Inl (LogicError ''Worker with exisiting identity tried to register'')
      else Inr (b\<lparr>core_counts := um_emplace identity (of_u32 (WorkerMessage_core_count message)) (core_counts b)\<rparr>))"

definition ProcessWorkerTaskReply :: "Wire \<Rightarrow> WorkerTaskId \<Rightarrow> Broker \<Rightarrow> Broker res" where
  "ProcessWorkerTaskReply w message b =
     (let identity = wid_identity message in
      bindE (um_at (core_counts b) identity) (\<lambda>n.
        let b = b\<lparr>core_counts := um_put identity (n + 1) (core_counts b)\<rparr> in
        bindE (if task_queue b \<noteq> [] then SendTaskToWorkerFromQueue w identity b else Inr b) (\<lambda>b.
          Inr (SendResultToManager w message b))))"

definition ReceiveWorkerMessage :: "Wire \<Rightarrow> Broker \<Rightarrow> Broker res" where
  "ReceiveWorkerMessage w b = (case router_in b of
     [] \<Rightarrow> Inl Blocked
   | (identity, worker_message) # rest \<Rightarrow>
       (let b = b\<lparr>router_in := rest\<rparr> in
        bindE (FromMessage (parse_WorkerMessage w) worker_message) (\<lambda>message.
          case message of
            CoreCount n \<Rightarrow> RegisterWorker identity message b
          | FinishedTask i \<Rightarrow> ProcessWorkerTaskReply w i b
          | WorkerMessageNotSet \<Rightarrow> Inl (LogicError ''Invalid message''))))"

text \<open>
  The map is never erased from, so its iteration order depends only on the entries in the order
  they were inserted.
\<close>

type_synonym iteration = "(string, size_t) umap \<Rightarrow> (string \<times> size_t) list"

definition SendTaskToWorker :: "Wire \<Rightarrow> iteration \<Rightarrow> Task \<Rightarrow> Broker \<Rightarrow> Broker res" where
  "SendTaskToWorker w order manager_task b =
     (case find (\<lambda>worker_to_core_count. snd worker_to_core_count \<noteq> 0) (order (core_counts b)) of
        None \<Rightarrow> Inr (b\<lparr>task_queue := queue_push manager_task (task_queue b)\<rparr>)
      | Some it \<Rightarrow> SendTaskToWorkerImpl w \<lparr>wt_identity = fst it, wt_task = manager_task\<rparr> b)"

definition ReceiveManagerRequest :: "Wire \<Rightarrow> iteration \<Rightarrow> Broker \<Rightarrow> Broker res" where
  "ReceiveManagerRequest w order b = (case manager_in b of
     [] \<Rightarrow> Inl Blocked
   | manager_message # rest \<Rightarrow>
       (let b = b\<lparr>manager_in := rest\<rparr> in
        bindE (FromMessage (parse_Task w) manager_message) (\<lambda>manager_task.
          SendTaskToWorker w order manager_task b)))"

text \<open>
  \<open>zmq::poll\<close> without a time limit waits until one of the first \<open>n\<close> items is readable and sets
  the \<open>revents\<close> of those \<open>n\<close>; the others keep their value. One turn of the loop of \<open>Run\<close>.
\<close>

definition Broker_poll :: "Broker \<Rightarrow> Broker res" where
  "Broker_poll b =
     (if core_counts b = []
      then if router_in b = [] then Inl Blocked else Inr (b\<lparr>router_revents := True\<rparr>)
      else if router_in b = [] \<and> manager_in b = [] then Inl Blocked
      else Inr (b\<lparr>router_revents := router_in b \<noteq> [], manager_revents := manager_in b \<noteq> []\<rparr>))"

definition Broker_Run_turn :: "Wire \<Rightarrow> iteration \<Rightarrow> Broker \<Rightarrow> Broker res" where
  "Broker_Run_turn w order b =
     bindE (Broker_poll b) (\<lambda>b.
     bindE (if router_revents b then ReceiveWorkerMessage w b else Inr b) (\<lambda>b.
       if manager_revents b then ReceiveManagerRequest w order b else Inr b))"

section \<open>Case analysis of the handlers\<close>

lemma SendTaskToWorkerImpl_eq:
  "map_of (core_counts b) (wt_identity t) = Some n \<Longrightarrow>
   SendTaskToWorkerImpl w t b =
     Inr (b\<lparr>pub_out := pub_out b @ [(TOPIC, ser_WorkerTask w t)],
            core_counts := um_put (wt_identity t) (n - 1) (core_counts b)\<rparr>)"
  by (simp add: SendTaskToWorkerImpl_def um_at_def)

lemma SendTaskToWorkerFromQueue_eq:
  assumes "task_queue b \<noteq> []" and "map_of (core_counts b) identity = Some n"
  shows "SendTaskToWorkerFromQueue w identity b =
     Inr (b\<lparr>task_queue := tl (task_queue b),
            pub_out := pub_out b @
              [(TOPIC, ser_WorkerTask w \<lparr>wt_identity = identity, wt_task = last (task_queue b)\<rparr>)],
            core_counts := um_put identity (n - 1) (core_counts b)\<rparr>)"
  using assms by (cases "task_queue b")
    (simp_all add: SendTaskToWorkerFromQueue_def queue_back_def queue_pop_def SendTaskToWorkerImpl_eq)

text \<open>A reply frees a core, which the task at the back of a non-empty queue takes at once.\<close>

lemma ProcessWorkerTaskReply_eq:
  assumes n: "map_of (core_counts b) (wid_identity i) = Some n"
  shows "ProcessWorkerTaskReply w i b =
    (if task_queue b = []
     then Inr (b\<lparr>core_counts := um_put (wid_identity i) (n + 1) (core_counts b),
                 manager_out := manager_out b @ [ser_TaskId w (wid_id i)]\<rparr>)
     else Inr (b\<lparr>task_queue := tl (task_queue b),
                 pub_out := pub_out b @ [(TOPIC, ser_WorkerTask w
                   \<lparr>wt_identity = wid_identity i, wt_task = last (task_queue b)\<rparr>)],
                 manager_out := manager_out b @ [ser_TaskId w (wid_id i)]\<rparr>))"
  using n SendTaskToWorkerFromQueue_eq
    [of "b\<lparr>core_counts := um_put (wid_identity i) (n + 1) (core_counts b)\<rparr>" "wid_identity i" "n + 1" w]
  by (simp add: ProcessWorkerTaskReply_def um_at_def SendResultToManager_def um_simps um_put_same)

lemma ProcessWorkerTaskReply_unknown:
  "map_of (core_counts b) (wid_identity i) = None \<Longrightarrow> ProcessWorkerTaskReply w i b = Inl OutOfRange"
  by (simp add: ProcessWorkerTaskReply_def um_at_def)

lemma ReceiveWorkerMessage_cases:
  assumes "ReceiveWorkerMessage w b = Inr b'"
  obtains (register) identity frame rest n where
      "router_in b = (identity, frame) # rest" "parse_WorkerMessage w frame = Some (CoreCount n)"
      "map_of (core_counts b) identity = None"
      "b' = b\<lparr>router_in := rest, core_counts := core_counts b @ [(identity, of_u32 n)]\<rparr>"
  | (reply) identity frame rest i n where
      "router_in b = (identity, frame) # rest" "parse_WorkerMessage w frame = Some (FinishedTask i)"
      "map_of (core_counts b) (wid_identity i) = Some n" "task_queue b = []"
      "b' = b\<lparr>router_in := rest, core_counts := um_put (wid_identity i) (n + 1) (core_counts b),
             manager_out := manager_out b @ [ser_TaskId w (wid_id i)]\<rparr>"
  | (reply_queued) identity frame rest i n where
      "router_in b = (identity, frame) # rest" "parse_WorkerMessage w frame = Some (FinishedTask i)"
      "map_of (core_counts b) (wid_identity i) = Some n" "task_queue b \<noteq> []"
      "b' = b\<lparr>router_in := rest, task_queue := tl (task_queue b),
             pub_out := pub_out b @ [(TOPIC, ser_WorkerTask w
               \<lparr>wt_identity = wid_identity i, wt_task = last (task_queue b)\<rparr>)],
             manager_out := manager_out b @ [ser_TaskId w (wid_id i)]\<rparr>"
proof -
  from assms obtain identity frame rest m where r: "router_in b = (identity, frame) # rest"
    and m: "parse_WorkerMessage w frame = Some m"
    by (auto simp: ReceiveWorkerMessage_def FromMessage_def split: list.splits option.splits)
  show ?thesis
  proof (cases m)
    case WorkerMessageNotSet
    with assms r m show ?thesis by (simp add: ReceiveWorkerMessage_def FromMessage_def)
  next
    case (CoreCount n)
    with assms r m register show ?thesis
      by (auto simp: ReceiveWorkerMessage_def FromMessage_def RegisterWorker_def um_emplace_def
          um_contains_def WorkerMessage_core_count_def Let_def split: if_splits)
  next
    case (FinishedTask i)
    show ?thesis
    proof (cases "map_of (core_counts b) (wid_identity i)")
      case None
      with assms r m FinishedTask show ?thesis
        by (simp add: ReceiveWorkerMessage_def FromMessage_def ProcessWorkerTaskReply_unknown)
    next
      case (Some n)
      then have "ReceiveWorkerMessage w b = ProcessWorkerTaskReply w i (b\<lparr>router_in := rest\<rparr>)"
        using r m FinishedTask by (simp add: ReceiveWorkerMessage_def FromMessage_def)
      with assms r m FinishedTask Some reply [of identity frame rest i n]
        reply_queued [of identity frame rest i n] show ?thesis
        by (cases "task_queue b = []") (simp_all add: ProcessWorkerTaskReply_eq)
    qed
  qed
qed

lemma iteration_find:
  assumes "iteration_ok order" and "um_ok m" and "find (\<lambda>e. snd e \<noteq> 0) (order m) = Some it"
  shows "map_of m (fst it) = Some (snd it) \<and> snd it \<noteq> 0"
proof -
  from assms(3) have "it \<in> set (order m)" and nz: "snd it \<noteq> 0"
    by (auto simp: find_Some_iff)
  moreover have "set (order m) = set m"
    by (rule iteration_set [OF assms(1)])
  ultimately have "(fst it, snd it) \<in> set m" by simp
  with assms(2) nz show ?thesis by (simp only: map_of_in_set) simp
qed

lemma iteration_find_None:
  assumes "iteration_ok order" and "um_ok m"
  shows "find (\<lambda>e. snd e \<noteq> 0) (order m) = None \<longleftrightarrow> (\<forall>k n. map_of m k = Some n \<longrightarrow> n = 0)"
proof -
  have "set (order m) = set m"
    by (rule iteration_set [OF assms(1)])
  then show ?thesis using map_of_in_set [OF assms(2)] by (auto simp: find_None_iff)
qed

lemma SendTaskToWorker_cases:
  assumes "SendTaskToWorker w order t b = Inr b'" and "iteration_ok order" and "um_ok (core_counts b)"
  obtains (queue) "\<forall>k n. map_of (core_counts b) k = Some n \<longrightarrow> n = 0"
      "b' = b\<lparr>task_queue := task_queue b @ [t]\<rparr>"
  | (send) identity n where "map_of (core_counts b) identity = Some n" "n \<noteq> 0"
      "b' = b\<lparr>pub_out := pub_out b @ [(TOPIC, ser_WorkerTask w \<lparr>wt_identity = identity, wt_task = t\<rparr>)],
             core_counts := um_put identity (n - 1) (core_counts b)\<rparr>"
proof (cases "find (\<lambda>e. snd e \<noteq> 0) (order (core_counts b))")
  case None
  with assms iteration_find_None [OF assms(2,3)] queue show ?thesis
    by (simp add: SendTaskToWorker_def queue_push_def)
next
  case (Some it)
  with assms iteration_find [OF assms(2,3) Some] send [of "fst it" "snd it"] show ?thesis
    by (simp add: SendTaskToWorker_def SendTaskToWorkerImpl_eq)
qed

lemma SendTaskToWorker_total:
  assumes "iteration_ok order" and "um_ok (core_counts b)"
  shows "\<exists>b'. SendTaskToWorker w order t b = Inr b'"
  using iteration_find [OF assms]
  by (cases "find (\<lambda>e. snd e \<noteq> 0) (order (core_counts b))")
    (auto simp: SendTaskToWorker_def SendTaskToWorkerImpl_eq)

lemma ReceiveManagerRequest_cases:
  assumes "ReceiveManagerRequest w order b = Inr b'"
  obtains frame rest t where "manager_in b = frame # rest" "parse_Task w frame = Some t"
    "SendTaskToWorker w order t (b\<lparr>manager_in := rest\<rparr>) = Inr b'"
  using assms by (auto simp: ReceiveManagerRequest_def FromMessage_def bindE_eq_Inr
      split: list.splits option.splits)

section \<open>Runs of the broker\<close>

text \<open>
  The broker from its start, with everything that has arrived at the two sockets so far, in order
  of arrival. Frames may arrive at any time; a turn that ends in an exception ends the process.
\<close>

inductive broker_run :: "Wire \<Rightarrow> iteration \<Rightarrow> (bytes \<times> bytes) list \<Rightarrow> bytes list \<Rightarrow> Broker \<Rightarrow> bool"
  for w order where
  start: "broker_run w order [] [] Broker_New"
| from_worker: "broker_run w order ws ms b \<Longrightarrow>
    broker_run w order (ws @ [x]) ms (b\<lparr>router_in := router_in b @ [x]\<rparr>)"
| from_manager: "broker_run w order ws ms b \<Longrightarrow>
    broker_run w order ws (ms @ [m]) (b\<lparr>manager_in := manager_in b @ [m]\<rparr>)"
| turn: "broker_run w order ws ms b \<Longrightarrow> Broker_Run_turn w order b = Inr b' \<Longrightarrow>
    broker_run w order ws ms b'"

inductive_cases broker_run_startE: "broker_run w order ws ms Broker_New"

text \<open>Cores a worker announced, answers it gave, and tasks published for it.\<close>

definition announced :: "Wire \<Rightarrow> string \<Rightarrow> bytes \<times> bytes \<Rightarrow> nat" where
  "announced w ident x = (case parse_WorkerMessage w (snd x) of
     Some (CoreCount n) \<Rightarrow> if fst x = ident then unat n else 0 | _ \<Rightarrow> 0)"

definition answers :: "Wire \<Rightarrow> bytes \<times> bytes \<Rightarrow> WorkerTaskId list" where
  "answers w x = (case parse_WorkerMessage w (snd x) of Some (FinishedTask i) \<Rightarrow> [i] | _ \<Rightarrow> [])"

definition registered_cores :: "Wire \<Rightarrow> string \<Rightarrow> (bytes \<times> bytes) list \<Rightarrow> nat" where
  "registered_cores w ident xs = sum_list (map (announced w ident) xs)"

definition all_answers :: "Wire \<Rightarrow> (bytes \<times> bytes) list \<Rightarrow> WorkerTaskId list" where
  "all_answers w xs = concat (map (answers w) xs)"

definition answered :: "Wire \<Rightarrow> string \<Rightarrow> (bytes \<times> bytes) list \<Rightarrow> nat" where
  "answered w ident xs = length (filter (\<lambda>i. wid_identity i = ident) (all_answers w xs))"

definition published :: "Wire \<Rightarrow> string \<Rightarrow> Broker \<Rightarrow> nat" where
  "published w ident b =
     length (filter (\<lambda>x. map_option wt_identity (parse_WorkerTask w (snd x)) = Some ident) (pub_out b))"

definition free_cores :: "string \<Rightarrow> Broker \<Rightarrow> nat" where
  "free_cores ident b = (case map_of (core_counts b) ident of None \<Rightarrow> 0 | Some n \<Rightarrow> unat n)"

lemma count_simps [simp]:
  "registered_cores w ident [] = 0" "all_answers w [] = []" "answered w ident [] = 0"
  "registered_cores w ident (xs @ [x]) = registered_cores w ident xs + announced w ident x"
  "all_answers w (xs @ [x]) = all_answers w xs @ answers w x"
  "answered w ident (xs @ [x]) =
     answered w ident xs + length (filter (\<lambda>i. wid_identity i = ident) (answers w x))"
  by (simp_all add: registered_cores_def all_answers_def answered_def)

lemma free_cores_simps [simp]:
  "free_cores ident (b\<lparr>core_counts := um_put k n m\<rparr>) =
     (if ident = k then unat n else free_cores ident (b\<lparr>core_counts := m\<rparr>))"
  "map_of m k = None \<Longrightarrow> free_cores ident (b\<lparr>core_counts := m @ [(k, n)]\<rparr>) =
     (if ident = k then unat n else free_cores ident (b\<lparr>core_counts := m\<rparr>))"
  "b\<lparr>core_counts := core_counts b\<rparr> = b"
  by (auto simp: free_cores_def um_simps map_add_def split: option.splits)

text \<open>
  The accounting: an invariant over what has been received. It is stated for the workers whose
  counters have not wrapped around, which takes \<open>2 ^ 64\<close> cores and answers.
\<close>

definition balanced :: "Wire \<Rightarrow> (bytes \<times> bytes) list \<Rightarrow> Broker \<Rightarrow> bool" where
  "balanced w received b \<longleftrightarrow> um_ok (core_counts b) \<and> (\<forall>ident.
     registered_cores w ident received + answered w ident received < 2 ^ 64 \<longrightarrow>
     published w ident b + free_cores ident b = registered_cores w ident received + answered w ident received)"

lemma published_append:
  "codec_ok (ser_WorkerTask w) (parse_WorkerTask w) \<Longrightarrow>
   published w ident (b\<lparr>pub_out := pub_out b @ [(x, ser_WorkerTask w t)]\<rparr>) =
     published w ident b + (if wt_identity t = ident then 1 else 0)"
  by (simp add: published_def codec_ok_def)

lemma published_cong [simp]:
  "published w ident (b\<lparr>core_counts := cc\<rparr>) = published w ident b"
  "published w ident (b\<lparr>task_queue := q\<rparr>) = published w ident b"
  "published w ident (b\<lparr>manager_out := mo\<rparr>) = published w ident b"
  "published w ident (b\<lparr>router_in := ri\<rparr>) = published w ident b"
  "published w ident (b\<lparr>manager_in := mi\<rparr>) = published w ident b"
  "published w ident (b\<lparr>router_revents := v\<rparr>) = published w ident b"
  "published w ident (b\<lparr>manager_revents := v\<rparr>) = published w ident b"
  by (simp_all add: published_def)

lemma free_cores_cong [simp]:
  "free_cores ident (b\<lparr>pub_out := po\<rparr>) = free_cores ident b"
  "free_cores ident (b\<lparr>task_queue := q\<rparr>) = free_cores ident b"
  "free_cores ident (b\<lparr>manager_out := mo\<rparr>) = free_cores ident b"
  "free_cores ident (b\<lparr>router_in := ri\<rparr>) = free_cores ident b"
  "free_cores ident (b\<lparr>manager_in := mi\<rparr>) = free_cores ident b"
  "free_cores ident (b\<lparr>router_revents := v\<rparr>) = free_cores ident b"
  "free_cores ident (b\<lparr>manager_revents := v\<rparr>) = free_cores ident b"
  by (simp_all add: free_cores_def)

lemma balanced_cong [simp]:
  "balanced w xs (b\<lparr>manager_out := mo\<rparr>) = balanced w xs b"
  "balanced w xs (b\<lparr>task_queue := q\<rparr>) = balanced w xs b"
  "balanced w xs (b\<lparr>router_in := ri\<rparr>) = balanced w xs b"
  "balanced w xs (b\<lparr>manager_in := mi\<rparr>) = balanced w xs b"
  "balanced w xs (b\<lparr>router_revents := v\<rparr>) = balanced w xs b"
  "balanced w xs (b\<lparr>manager_revents := v\<rparr>) = balanced w xs b"
  by (simp_all add: balanced_def)

lemma unat_minus_one_size_t: "n \<noteq> 0 \<Longrightarrow> Suc (unat (n - 1)) = unat (n :: size_t)"
  by (simp add: unat_minus_one unat_gt_0)

lemma unat_plus_one_size_t: "unat n + 1 < 2 ^ 64 \<Longrightarrow> unat (n + 1) = Suc (unat (n :: size_t))"
  using unat_add_lem [of n 1] by simp

lemma balancedD:
  "balanced w xs b \<Longrightarrow> registered_cores w ident xs + answered w ident xs < 2 ^ 64 \<Longrightarrow>
   published w ident b + free_cores ident b = registered_cores w ident xs + answered w ident xs"
  by (simp add: balanced_def)

lemma balanced_send:
  assumes codec: "codec_ok (ser_WorkerTask w) (parse_WorkerTask w)" and bal: "balanced w xs b"
    and n: "map_of (core_counts b) (wt_identity t) = Some n" "n \<noteq> 0"
  shows "balanced w xs (b\<lparr>pub_out := pub_out b @ [(TOPIC, ser_WorkerTask w t)],
    core_counts := um_put (wt_identity t) (n - 1) (core_counts b)\<rparr>)"
proof -
  have "free_cores (wt_identity t) b = Suc (unat (n - 1))"
    using n by (simp add: free_cores_def unat_minus_one_size_t)
  then show ?thesis
    using bal by (auto simp: balanced_def published_append [OF codec])
qed

lemma free_cores_unregistered: "map_of (core_counts b) ident = None \<Longrightarrow> free_cores ident b = 0"
  by (simp add: free_cores_def)

lemma balanced_register:
  assumes bal: "balanced w xs b" and "map_of (core_counts b) (fst x) = None"
    and "parse_WorkerMessage w (snd x) = Some (CoreCount n)"
  shows "balanced w (xs @ [x]) (b\<lparr>core_counts := core_counts b @ [(fst x, of_u32 n)]\<rparr>)"
proof -
  have x: "answers w x = []" "announced w ident x = (if fst x = ident then unat n else 0)" for ident
    using assms(3) by (simp_all add: answers_def announced_def)
  have "um_ok (core_counts b @ [(fst x, of_u32 n)])"
    using bal assms(2) um_ok_emplace [of "core_counts b" "fst x" "of_u32 n"]
    by (simp add: balanced_def um_emplace_def um_contains_def)
  moreover have "registered_cores w (fst x) xs + answered w (fst x) xs < 2 ^ 64 \<Longrightarrow>
      published w (fst x) b = registered_cores w (fst x) xs + answered w (fst x) xs"
    using balancedD [OF bal, of "fst x"] free_cores_unregistered [OF assms(2)] by simp
  ultimately show ?thesis
    using bal assms(2) by (auto simp: balanced_def x)
qed

lemma balanced_answer:
  assumes bal: "balanced w xs b" and n: "map_of (core_counts b) (wid_identity i) = Some n"
    and "parse_WorkerMessage w (snd x) = Some (FinishedTask i)"
  shows "balanced w (xs @ [x]) (b\<lparr>core_counts := um_put (wid_identity i) (n + 1) (core_counts b)\<rparr>)"
    (is "balanced _ _ ?b")
proof -
  have x: "answers w x = [i]" "announced w ident x = 0" for ident
    using assms(3) by (simp_all add: answers_def announced_def)
  have "published w ident ?b + free_cores ident ?b =
      registered_cores w ident (xs @ [x]) + answered w ident (xs @ [x])"
    if small: "registered_cores w ident (xs @ [x]) + answered w ident (xs @ [x]) < 2 ^ 64" for ident
  proof (cases "ident = wid_identity i")
    case True
    with small have "registered_cores w ident xs + answered w ident xs + 1 < 2 ^ 64"
      by (simp add: x)
    moreover from this have bal': "published w ident b + unat n = registered_cores w ident xs + answered w ident xs"
      using balancedD [OF bal, of ident] n True by (simp add: free_cores_def)
    ultimately have "unat n + 1 < 2 ^ 64" by linarith
    with bal' True show ?thesis by (simp add: x unat_plus_one_size_t)
  next
    case False
    with small balancedD [OF bal, of ident] show ?thesis by (simp add: x)
  qed
  with bal show ?thesis by (simp add: balanced_def)
qed

lemma balanced_swap:
  assumes codec: "codec_ok (ser_WorkerTask w) (parse_WorkerTask w)" and bal: "balanced w xs b"
    and n: "map_of (core_counts b) (wid_identity i) = Some n"
    and x: "parse_WorkerMessage w (snd x) = Some (FinishedTask i)"
  shows "balanced w (xs @ [x]) (b\<lparr>pub_out := pub_out b @
    [(TOPIC, ser_WorkerTask w \<lparr>wt_identity = wid_identity i, wt_task = t\<rparr>)]\<rparr>)"
proof -
  have "answers w x = [i]" "announced w ident x = 0" for ident
    using x by (simp_all add: answers_def announced_def)
  then show ?thesis
    using bal by (auto simp: balanced_def published_append [OF codec])
qed

text \<open>What holds of the broker at every moment.\<close>

definition requested_by :: "Wire \<Rightarrow> bytes list \<Rightarrow> Task set" where
  "requested_by w handled = {t. \<exists>f \<in> set handled. parse_Task w f = Some t}"

definition broker_inv :: "Wire \<Rightarrow> (bytes \<times> bytes) list \<Rightarrow> bytes list \<Rightarrow> Broker \<Rightarrow> bool" where
  "broker_inv w received handled b \<longleftrightarrow>
     balanced w received b \<and>
     manager_out b = map (\<lambda>i. ser_TaskId w (wid_id i)) (all_answers w received) \<and>
     length (pub_out b) + length (task_queue b) = length handled \<and>
     set (task_queue b) \<subseteq> requested_by w handled \<and>
     (\<forall>x \<in> set (pub_out b). \<exists>t. parse_WorkerTask w (snd x) = Some t \<and> wt_task t \<in> requested_by w handled) \<and>
     (core_counts b = [] \<longrightarrow> \<not> manager_revents b \<and> handled = [])"

lemma requested_by_append [simp]:
  "requested_by w [] = {}"
  "requested_by w (fs @ gs) = requested_by w fs \<union> requested_by w gs"
  "parse_Task w f = Some t \<Longrightarrow> requested_by w [f] = {t}"
  by (auto simp: requested_by_def)

lemma codec_parse: "codec_ok ser parse \<Longrightarrow> parse (ser x) = Some x"
  by (simp add: codec_ok_def)

lemma um_put_not_Nil [simp]: "um_put k v m \<noteq> []"
  by (cases m) (auto split: if_splits)

lemma broker_inv_worker:
  assumes "codec_ok (ser_WorkerTask w) (parse_WorkerTask w)"
    and "broker_inv w xs k b" and "ReceiveWorkerMessage w b = Inr b'"
  shows "\<exists>x. router_in b = x # router_in b' \<and> manager_in b' = manager_in b \<and>
    manager_revents b' = manager_revents b \<and> core_counts b' \<noteq> [] \<and> broker_inv w (xs @ [x]) k b'"
  using assms(3)
proof (cases rule: ReceiveWorkerMessage_cases)
  case (register identity frame rest n)
  then have "answers w (identity, frame) = []" by (simp add: answers_def)
  with register assms balanced_register [of w xs "b\<lparr>router_in := rest\<rparr>" "(identity, frame)" n]
  show ?thesis by (simp add: broker_inv_def)
next
  case (reply identity frame rest i n)
  then have "answers w (identity, frame) = [i]" by (simp add: answers_def)
  with reply assms balanced_answer [of w xs "b\<lparr>router_in := rest\<rparr>" i n "(identity, frame)"]
  show ?thesis by (simp add: broker_inv_def)
next
  case (reply_queued identity frame rest i n)
  then have "answers w (identity, frame) = [i]" by (simp add: answers_def)
  with reply_queued assms balanced_swap [of w xs "b\<lparr>router_in := rest, task_queue := tl (task_queue b)\<rparr>"
      i n "(identity, frame)" "last (task_queue b)"] codec_parse [OF assms(1)]
    last_in_set [of "task_queue b"] list.set_sel(2) [of "task_queue b"]
    add_Suc_right [of "length (pub_out b)" "length (task_queue b) - 1", symmetric]
  show ?thesis by (auto simp: broker_inv_def)
qed

lemma broker_inv_manager:
  assumes "codec_ok (ser_WorkerTask w) (parse_WorkerTask w)" and "iteration_ok order"
    and inv: "broker_inv w xs k b" and "core_counts b \<noteq> []" and "ReceiveManagerRequest w order b = Inr b'"
  shows "\<exists>m. manager_in b = m # manager_in b' \<and> router_in b' = router_in b \<and>
    broker_inv w xs (k @ [m]) b'"
  using assms(5)
proof (cases rule: ReceiveManagerRequest_cases)
  case (1 frame rest t)
  have ok: "um_ok (core_counts (b\<lparr>manager_in := rest\<rparr>))"
    using inv by (simp add: broker_inv_def balanced_def)
  from 1(3) assms(2) ok show ?thesis
  proof (cases rule: SendTaskToWorker_cases)
    case queue
    with 1 inv assms(4) show ?thesis by (auto simp: broker_inv_def)
  next
    case (send identity n)
    with 1 inv assms(1,4) balanced_send [of w xs "b\<lparr>manager_in := rest\<rparr>"
        "\<lparr>wt_identity = identity, wt_task = t\<rparr>" n] codec_parse [OF assms(1)] show ?thesis
      by (auto simp: broker_inv_def)
  qed
qed

lemma Broker_poll_cases:
  assumes "Broker_poll b = Inr b'"
  obtains (workers_only) "core_counts b = []" "router_in b \<noteq> []" "b' = b\<lparr>router_revents := True\<rparr>"
  | (both) "core_counts b \<noteq> []" "router_in b \<noteq> [] \<or> manager_in b \<noteq> []"
      "b' = b\<lparr>router_revents := router_in b \<noteq> [], manager_revents := manager_in b \<noteq> []\<rparr>"
  using assms by (auto simp: Broker_poll_def split: if_splits)

text \<open>After the poll, a socket is read only if there is something to read.\<close>

definition readable :: "Broker \<Rightarrow> bool" where
  "readable b \<longleftrightarrow> (router_revents b \<longrightarrow> router_in b \<noteq> []) \<and>
     (manager_revents b \<longrightarrow> manager_in b \<noteq> [] \<and> core_counts b \<noteq> [])"

lemma broker_inv_poll:
  "broker_inv w xs k b \<Longrightarrow> Broker_poll b = Inr b' \<Longrightarrow>
   broker_inv w xs k b' \<and> readable b' \<and> router_in b' = router_in b \<and> manager_in b' = manager_in b"
  by (erule Broker_poll_cases) (auto simp: broker_inv_def readable_def)

lemma broker_inv_turn:
  assumes codec: "codec_ok (ser_WorkerTask w) (parse_WorkerTask w)" and order: "iteration_ok order"
    and inv: "broker_inv w xs k b" and step: "Broker_Run_turn w order b = Inr b'"
  shows "\<exists>new_ws new_ms. router_in b = new_ws @ router_in b' \<and> manager_in b = new_ms @ manager_in b' \<and>
    broker_inv w (xs @ new_ws) (k @ new_ms) b'"
proof -
  from step obtain b1 b2 where poll: "Broker_poll b = Inr b1"
    and worker: "(if router_revents b1 then ReceiveWorkerMessage w b1 else Inr b1) = Inr b2"
    and manager: "(if manager_revents b2 then ReceiveManagerRequest w order b2 else Inr b2) = Inr b'"
    by (auto simp: Broker_Run_turn_def bindE_eq_Inr)
  note b1 = broker_inv_poll [OF inv poll]
  obtain ws where b2: "router_in b1 = ws @ router_in b2" "manager_in b2 = manager_in b1"
    "manager_revents b2 \<Longrightarrow> core_counts b2 \<noteq> []" "broker_inv w (xs @ ws) k b2"
  proof (cases "router_revents b1")
    case True
    with worker obtain x where "router_in b1 = x # router_in b2" "manager_in b2 = manager_in b1"
      "core_counts b2 \<noteq> []" "broker_inv w (xs @ [x]) k b2"
      using broker_inv_worker [OF codec, of xs k b1 b2] b1 by auto
    then show ?thesis using that [of "[x]"] by simp
  next
    case False
    with worker b1 that [of "[]"] show ?thesis by (simp add: readable_def)
  qed
  show ?thesis
  proof (cases "manager_revents b2")
    case True
    with manager b2 obtain m where "manager_in b2 = m # manager_in b'" "router_in b' = router_in b2"
      "broker_inv w (xs @ ws) (k @ [m]) b'"
      using broker_inv_manager [OF codec order, of "xs @ ws" k b2 b'] by auto
    then show ?thesis using b1 b2 by (intro exI [of _ ws] exI [of _ "[m]"]) simp
  next
    case False
    with manager b1 b2 show ?thesis by (intro exI [of _ ws] exI [of _ "[]"]) simp
  qed
qed

lemma broker_inv_run:
  assumes "codec_ok (ser_WorkerTask w) (parse_WorkerTask w)" and "iteration_ok order"
    and "broker_run w order ws ms b"
  shows "\<exists>received handled. ws = received @ router_in b \<and> ms = handled @ manager_in b \<and>
    broker_inv w received handled b"
  using assms(3)
proof induction
  case start
  show ?case by (simp add: Broker_New_def broker_inv_def balanced_def published_def free_cores_def)
next
  case (from_worker ws ms b x)
  then show ?case by (auto simp: broker_inv_def)
next
  case (from_manager ws ms b m)
  then show ?case by (auto simp: broker_inv_def)
next
  case (turn ws ms b b')
  then obtain received handled where ih: "ws = received @ router_in b" "ms = handled @ manager_in b"
    "broker_inv w received handled b" by blast
  obtain new_ws new_ms where new: "router_in b = new_ws @ router_in b'" "manager_in b = new_ms @ manager_in b'"
    "broker_inv w (received @ new_ws) (handled @ new_ms) b'"
    using broker_inv_turn [OF assms(1,2) ih(3) turn.hyps(2)] by blast
  then show ?case
    by (intro exI [of _ "received @ new_ws"] exI [of _ "handled @ new_ms"]) (simp add: ih)
qed

lemma ReceiveWorkerMessage_Blocked [simp]: "ReceiveWorkerMessage w b = Inl Blocked \<longleftrightarrow> router_in b = []"
proof (cases "router_in b")
  case (Cons x rest)
  have reply: "ProcessWorkerTaskReply w i (b\<lparr>router_in := rest\<rparr>) \<noteq> Inl Blocked" for i
    by (cases "map_of (core_counts b) (wid_identity i)")
      (simp_all add: ProcessWorkerTaskReply_eq ProcessWorkerTaskReply_unknown)
  show ?thesis
    using Cons reply by (cases x)
      (auto simp: ReceiveWorkerMessage_def FromMessage_def RegisterWorker_def Let_def
        split: option.splits WorkerMessage.splits)
qed (simp add: ReceiveWorkerMessage_def)

lemma ReceiveManagerRequest_Blocked:
  "iteration_ok order \<Longrightarrow> um_ok (core_counts b) \<Longrightarrow>
   ReceiveManagerRequest w order b = Inl Blocked \<longleftrightarrow> manager_in b = []"
proof (cases "manager_in b")
  case (Cons m rest)
  assume "iteration_ok order" "um_ok (core_counts b)"
  then have "\<exists>b'. SendTaskToWorker w order t (b\<lparr>manager_in := rest\<rparr>) = Inr b'" for t
    by (intro SendTaskToWorker_total) simp_all
  then have "SendTaskToWorker w order t (b\<lparr>manager_in := rest\<rparr>) \<noteq> Inl Blocked" for t
    by (metis Inl_Inr_False)
  with Cons show ?thesis
    by (auto simp: ReceiveManagerRequest_def FromMessage_def split: option.splits)
qed (simp add: ReceiveManagerRequest_def)

lemma Broker_poll_Blocked [simp]:
  "Broker_poll b = Inl e \<longleftrightarrow> e = Blocked \<and> router_in b = [] \<and> (core_counts b = [] \<or> manager_in b = [])"
  by (auto simp: Broker_poll_def)

lemma turn_after_poll:
  assumes codec: "codec_ok (ser_WorkerTask w) (parse_WorkerTask w)" and order: "iteration_ok order"
    and inv: "broker_inv w xs k b" and poll: "Broker_poll b = Inr b1"
  shows "bindE (if router_revents b1 then ReceiveWorkerMessage w b1 else Inr b1)
      (\<lambda>b. if manager_revents b then ReceiveManagerRequest w order b else Inr b) \<noteq> Inl Blocked"
    and "core_counts b = [] \<Longrightarrow>
      bindE (if router_revents b1 then ReceiveWorkerMessage w b1 else Inr b1)
        (\<lambda>b. if manager_revents b then ReceiveManagerRequest w order b else Inr b) = Inr b' \<Longrightarrow>
      manager_in b' = manager_in b"
proof -
  note b1 = broker_inv_poll [OF inv poll]
  have b2: "manager_revents b2 = manager_revents b1 \<and> manager_in b2 = manager_in b1 \<and> um_ok (core_counts b2)"
    if "(if router_revents b1 then ReceiveWorkerMessage w b1 else Inr b1) = Inr b2" for b2
  proof (cases "router_revents b1")
    case True
    with that obtain x where "manager_in b2 = manager_in b1" "manager_revents b2 = manager_revents b1"
      "broker_inv w (xs @ [x]) k b2"
      using broker_inv_worker [OF codec, of xs k b1 b2] b1 by auto
    then show ?thesis by (simp add: broker_inv_def balanced_def)
  next
    case False
    with that b1 show ?thesis by (simp add: broker_inv_def balanced_def)
  qed
  have "ReceiveManagerRequest w order b2 \<noteq> Inl Blocked"
    if "(if router_revents b1 then ReceiveWorkerMessage w b1 else Inr b1) = Inr b2" "manager_revents b2" for b2
    using b2 [OF that(1)] that(2) b1 by (auto simp: ReceiveManagerRequest_Blocked [OF order] readable_def)
  then show "bindE (if router_revents b1 then ReceiveWorkerMessage w b1 else Inr b1)
      (\<lambda>b. if manager_revents b then ReceiveManagerRequest w order b else Inr b) \<noteq> Inl Blocked"
    using b1 by (auto simp: bindE_eq_Inl readable_def split: if_splits)
  assume "core_counts b = []"
    and step: "bindE (if router_revents b1 then ReceiveWorkerMessage w b1 else Inr b1)
        (\<lambda>b. if manager_revents b then ReceiveManagerRequest w order b else Inr b) = Inr b'"
  from poll this(1) have "\<not> manager_revents b1"
    using inv by (auto elim!: Broker_poll_cases simp: broker_inv_def)
  moreover from step obtain b2 where "(if router_revents b1 then ReceiveWorkerMessage w b1 else Inr b1) = Inr b2"
    "(if manager_revents b2 then ReceiveManagerRequest w order b2 else Inr b2) = Inr b'"
    by (auto simp: bindE_eq_Inr)
  ultimately show "manager_in b' = manager_in b"
    using b2 [of b2] b1 by simp
qed

section \<open>Properties\<close>

text \<open>
  C6. At every moment, the tasks published for a worker and its free cores together equal the
  cores it announced and the answers received from it, so a worker never has more tasks under way
  than it has cores, and the counters never go below zero; every answer has been passed on to the
  manager, in order; and as many tasks were published or are queued as requests of the manager
  were handled, each of them one of these requests. It need not be each request once: what the
  queue drops and what it repeats instead is property C18.
\<close>

theorem core_accounting:
  assumes "codec_ok (ser_WorkerTask w) (parse_WorkerTask w)" and "iteration_ok order"
    and "broker_run w order ws ms b"
  shows "\<exists>received handled. ws = received @ router_in b \<and> ms = handled @ manager_in b \<and>
    (\<forall>ident. registered_cores w ident received + answered w ident received < 2 ^ 64 \<longrightarrow>
       published w ident b + free_cores ident b = registered_cores w ident received + answered w ident received) \<and>
    manager_out b = map (\<lambda>i. ser_TaskId w (wid_id i)) (all_answers w received) \<and>
    length (pub_out b) + length (task_queue b) = length handled \<and>
    set (task_queue b) \<subseteq> requested_by w handled \<and>
    (\<forall>x \<in> set (pub_out b). \<exists>t. parse_WorkerTask w (snd x) = Some t \<and> wt_task t \<in> requested_by w handled)"
  using broker_inv_run [OF assms] unfolding broker_inv_def balanced_def by blast

lemma SendTaskToWorker_manager_out:
  "SendTaskToWorker w order t b = Inr b' \<Longrightarrow> manager_out b' = manager_out b"
  by (auto simp: SendTaskToWorker_def SendTaskToWorkerImpl_def bindE_eq_Inr Let_def split: option.splits)

lemma turn_manager_out:
  assumes "Broker_Run_turn w order b = Inr b'"
  shows "\<exists>sent. manager_out b' = manager_out b @ sent \<and> length sent \<le> 1"
proof -
  from assms obtain b1 b2 where poll: "Broker_poll b = Inr b1"
    and worker: "(if router_revents b1 then ReceiveWorkerMessage w b1 else Inr b1) = Inr b2"
    and manager: "(if manager_revents b2 then ReceiveManagerRequest w order b2 else Inr b2) = Inr b'"
    by (auto simp: Broker_Run_turn_def bindE_eq_Inr)
  have "manager_out b1 = manager_out b" using poll by (auto elim: Broker_poll_cases)
  moreover have "\<exists>sent. manager_out b2 = manager_out b1 @ sent \<and> length sent \<le> 1"
    using worker by (auto split: if_splits elim!: ReceiveWorkerMessage_cases)
  moreover have "manager_out b' = manager_out b2"
    using manager by (auto split: if_splits elim!: ReceiveManagerRequest_cases dest: SendTaskToWorker_manager_out)
  ultimately show ?thesis by simp
qed

text \<open>
  C16. A turn of the loop never waits inside a receive: \<open>Blocked\<close>, the outcome of a wait for a
  frame, is the outcome of a turn exactly when its poll finds nothing to receive, and while no
  worker is registered a turn takes no request from the manager. Besides the poll, what a turn
  can wait for is room on the manager's socket: it sends at most one frame there.
\<close>

theorem Run_turn_receives_ready:
  assumes "codec_ok (ser_WorkerTask w) (parse_WorkerTask w)" and "iteration_ok order"
    and "broker_run w order ws ms b"
  shows "(Broker_Run_turn w order b = Inl Blocked \<longleftrightarrow>
           router_in b = [] \<and> (core_counts b = [] \<or> manager_in b = []))
       \<and> (core_counts b = [] \<longrightarrow> (\<forall>b'. Broker_Run_turn w order b = Inr b' \<longrightarrow> manager_in b' = manager_in b))
       \<and> (\<forall>b'. Broker_Run_turn w order b = Inr b' \<longrightarrow>
            (\<exists>sent. manager_out b' = manager_out b @ sent \<and> length sent \<le> 1))"
proof -
  obtain received handled where inv: "broker_inv w received handled b"
    using broker_inv_run [OF assms] by blast
  show ?thesis
  proof (cases "Broker_poll b")
    case (Inl e)
    then have "e = Blocked \<and> router_in b = [] \<and> (core_counts b = [] \<or> manager_in b = [])"
      by (simp only: Broker_poll_Blocked)
    with Inl turn_manager_out show ?thesis
      by (auto simp: Broker_Run_turn_def simp del: Broker_poll_Blocked)
  next
    case (Inr b1)
    then have "\<not> (router_in b = [] \<and> (core_counts b = [] \<or> manager_in b = []))"
      by (metis Broker_poll_Blocked Inl_Inr_False)
    then show ?thesis
      using turn_after_poll [OF assms(1,2) inv Inr] turn_manager_out [of w order b]
      by (simp add: Broker_Run_turn_def Inr)
  qed
qed

definition work_conserving :: "Broker \<Rightarrow> bool" where
  "work_conserving b \<longleftrightarrow>
     (task_queue b \<noteq> [] \<longrightarrow> (\<forall>k n. map_of (core_counts b) k = Some n \<longrightarrow> n = 0))"

lemma work_conserving_SendTaskToWorker:
  assumes "iteration_ok order" and "um_ok (core_counts b)" and "work_conserving b"
    and "SendTaskToWorker w order t b = Inr b'"
  shows "work_conserving b'"
  using assms(4,1,2)
proof (cases rule: SendTaskToWorker_cases)
  case (send identity n)
  with assms(3) have "task_queue b = []" by (auto simp: work_conserving_def)
  with send show ?thesis by (simp add: work_conserving_def)
qed (simp add: work_conserving_def)

lemma work_conserving_reply:
  assumes "work_conserving b" and "ProcessWorkerTaskReply w i b = Inr b'"
  shows "work_conserving b'"
proof (cases "map_of (core_counts b) (wid_identity i)")
  case None
  with assms(2) show ?thesis by (simp add: ProcessWorkerTaskReply_unknown)
next
  case (Some n)
  with assms show ?thesis
    by (cases "task_queue b = []") (auto simp: ProcessWorkerTaskReply_eq work_conserving_def)
qed

lemma work_conserving_register:
  assumes "work_conserving b" and "RegisterWorker identity (CoreCount n) b = Inr b'"
  shows "work_conserving b' \<longleftrightarrow> task_queue b = [] \<or> n = 0"
proof -
  from assms(2) have b': "b' = b\<lparr>core_counts := um_emplace identity (of_u32 n) (core_counts b)\<rparr>"
    and "map_of (core_counts b) identity = None"
    by (auto simp: RegisterWorker_def um_contains_def WorkerMessage_core_count_def split: if_splits)
  moreover have "of_u32 n = 0 \<longleftrightarrow> n = 0"
    using unat_of_u32 [of n] unat_eq_zero by metis
  ultimately show ?thesis
    using assms(1) by (auto simp: work_conserving_def um_simps)
qed

text \<open>
  C17. Tasks wait only while no registered worker has a free core. Handing out a request and
  handling an answer keep this; registering a worker keeps it only if no task waits or the worker
  has no core, since the queue is not looked at on registration.
\<close>

theorem work_conserving_steps:
  assumes "iteration_ok order" and "um_ok (core_counts b)" and "work_conserving b"
  shows "(\<forall>t b'. SendTaskToWorker w order t b = Inr b' \<longrightarrow> work_conserving b')
       \<and> (\<forall>i b'. ProcessWorkerTaskReply w i b = Inr b' \<longrightarrow> work_conserving b')
       \<and> (\<forall>identity n b'. RegisterWorker identity (CoreCount n) b = Inr b' \<longrightarrow>
            (work_conserving b' \<longleftrightarrow> task_queue b = [] \<or> n = 0))"
  using work_conserving_SendTaskToWorker [OF assms] work_conserving_reply [OF assms(3)]
    work_conserving_register [OF assms(3)] by blast

text \<open>
  C18. When tasks wait and as many answers arrive as there are waiting tasks, the last task of the
  queue is published once for every answer and the others are dropped: the queue is read at its
  back and shortened at its front.
\<close>

theorem queue_drain_repeats_last:
  assumes "task_queue b \<noteq> []" and "length replies = length (task_queue b)"
    and "\<forall>i \<in> set replies. map_of (core_counts b) (wid_identity i) \<noteq> None"
  shows "\<exists>b'. foldE (ProcessWorkerTaskReply w) replies b = Inr b' \<and> task_queue b' = [] \<and>
    pub_out b' = pub_out b @ map (\<lambda>i. (TOPIC, ser_WorkerTask w
      \<lparr>wt_identity = wid_identity i, wt_task = last (task_queue b)\<rparr>)) replies"
  using assms
proof (induction replies arbitrary: b)
  case (Cons i replies)
  then obtain n where "map_of (core_counts b) (wid_identity i) = Some n" by auto
  note step = ProcessWorkerTaskReply_eq [OF this, of w]
  show ?case
  proof (cases "replies = []")
    case True
    with Cons.prems step show ?thesis by (cases "task_queue b") simp_all
  next
    case False
    with Cons.prems have "tl (task_queue b) \<noteq> []" by (cases "task_queue b") auto
    then have "last (tl (task_queue b)) = last (task_queue b)" by (simp add: last_tl)
    with Cons.prems step \<open>tl (task_queue b) \<noteq> []\<close> Cons.IH [of "b\<lparr>task_queue := tl (task_queue b),
        pub_out := pub_out b @ [(TOPIC, ser_WorkerTask w
          \<lparr>wt_identity = wid_identity i, wt_task = last (task_queue b)\<rparr>)],
        manager_out := manager_out b @ [ser_TaskId w (wid_id i)]\<rparr>"]
    show ?thesis by (auto simp: length_tl)
  qed
qed simp

text \<open>
  A message from a worker ends the broker exactly when it cannot be parsed, carries neither a
  core count nor a finished task, registers an identity that is registered already, or answers in
  the name of a worker that is not registered.
\<close>

theorem ReceiveWorkerMessage_errors:
  "ReceiveWorkerMessage w (b\<lparr>router_in := (identity, frame) # rest\<rparr>) = Inl e \<longleftrightarrow>
   (case parse_WorkerMessage w frame of
      None \<Rightarrow> e = DomainError ''Unable to parse message''
    | Some WorkerMessageNotSet \<Rightarrow> e = LogicError ''Invalid message''
    | Some (CoreCount n) \<Rightarrow> um_contains (core_counts b) identity \<and>
        e = LogicError ''Worker with exisiting identity tried to register''
    | Some (FinishedTask i) \<Rightarrow> \<not> um_contains (core_counts b) (wid_identity i) \<and> e = OutOfRange)"
proof -
  have "ProcessWorkerTaskReply w i (b\<lparr>router_in := rest\<rparr>) = Inl e \<longleftrightarrow>
      \<not> um_contains (core_counts b) (wid_identity i) \<and> e = OutOfRange" for i
    by (cases "map_of (core_counts b) (wid_identity i)")
      (auto simp: ProcessWorkerTaskReply_eq ProcessWorkerTaskReply_unknown um_contains_def)
  then show ?thesis
    by (auto simp: ReceiveWorkerMessage_def FromMessage_def RegisterWorker_def Let_def
        split: option.splits WorkerMessage.splits)
qed

section \<open>Witnesses\<close>

text \<open>A worker with one core registers, then the manager asks for a task.\<close>

definition sample_task :: Task where
  "sample_task = \<lparr>tk_id = \<lparr>tid_problem = 1, tid_task = 2\<rparr>, tk_operation_type = 10,
     tk_operands = [StaticOperand ''a'', StaticOperand ''b'']\<rparr>"

definition registration_frame :: "bytes \<times> bytes" where
  "registration_frame = (''a'', ser_WorkerMessage unary_wire (CoreCount 1))"

definition sample_broker :: Broker where
  "sample_broker = Broker_New\<lparr>manager_revents := True,
     pub_out := [(TOPIC, ser_WorkerTask unary_wire \<lparr>wt_identity = ''a'', wt_task = sample_task\<rparr>)],
     core_counts := [(''a'', 0)]\<rparr>"

lemma unary_wire_parses [simp]:
  "FromMessage (parse_Task unary_wire) (ser_Task unary_wire t) = Inr t"
  "FromMessage (parse_WorkerTask unary_wire) (ser_WorkerTask unary_wire wt) = Inr wt"
  "FromMessage (parse_WorkerMessage unary_wire) (ser_WorkerMessage unary_wire m) = Inr m"
  "codec_ok (ser_WorkerTask unary_wire) (parse_WorkerTask unary_wire)"
  using unary_wire_ok by (simp_all add: wire_ok_def)

lemma sample_run:
  "broker_run unary_wire (\<lambda>m. m) [registration_frame] [ser_Task unary_wire sample_task] sample_broker"
proof -
  let ?b0 = "Broker_New\<lparr>router_in := [registration_frame]\<rparr>"
  let ?b1 = "Broker_New\<lparr>router_revents := True, core_counts := [(''a'', 1)]\<rparr>"
  have "broker_run unary_wire (\<lambda>m. m) [registration_frame] [] ?b0"
    using broker_run.from_worker [OF broker_run.start, of unary_wire "\<lambda>m. m" registration_frame]
    by (simp add: Broker_New_def)
  moreover have "Broker_Run_turn unary_wire (\<lambda>m. m) ?b0 = Inr ?b1"
    by (simp add: Broker_Run_turn_def Broker_poll_def Broker_New_def registration_frame_def
        ReceiveWorkerMessage_def RegisterWorker_def um_contains_def um_emplace_def
        WorkerMessage_core_count_def of_u32_def)
  ultimately have "broker_run unary_wire (\<lambda>m. m) [registration_frame] [] ?b1"
    by (rule broker_run.turn)
  then have "broker_run unary_wire (\<lambda>m. m) [registration_frame] [ser_Task unary_wire sample_task]
      (?b1\<lparr>manager_in := [ser_Task unary_wire sample_task]\<rparr>)"
    using broker_run.from_manager [of unary_wire "\<lambda>m. m" "[registration_frame]" "[]" ?b1
        "ser_Task unary_wire sample_task"] by (simp add: Broker_New_def)
  moreover have "Broker_Run_turn unary_wire (\<lambda>m. m) (?b1\<lparr>manager_in := [ser_Task unary_wire sample_task]\<rparr>) =
      Inr sample_broker"
    by (simp add: Broker_Run_turn_def Broker_poll_def Broker_New_def sample_broker_def
        ReceiveManagerRequest_def SendTaskToWorker_def SendTaskToWorkerImpl_def um_at_def)
  ultimately show ?thesis by (rule broker_run.turn)
qed

theorem core_accounting_witness:
  "\<exists>received handled. [registration_frame] = received @ router_in sample_broker \<and>
    [ser_Task unary_wire sample_task] = handled @ manager_in sample_broker \<and>
    (\<forall>ident. registered_cores unary_wire ident received + answered unary_wire ident received < 2 ^ 64 \<longrightarrow>
       published unary_wire ident sample_broker + free_cores ident sample_broker =
       registered_cores unary_wire ident received + answered unary_wire ident received) \<and>
    manager_out sample_broker = map (\<lambda>i. ser_TaskId unary_wire (wid_id i)) (all_answers unary_wire received) \<and>
    length (pub_out sample_broker) + length (task_queue sample_broker) = length handled \<and>
    set (task_queue sample_broker) \<subseteq> requested_by unary_wire handled \<and>
    (\<forall>x \<in> set (pub_out sample_broker). \<exists>t. parse_WorkerTask unary_wire (snd x) = Some t \<and>
      wt_task t \<in> requested_by unary_wire handled)"
  by (rule core_accounting [OF unary_wire_parses(4) iteration_ok_id sample_run])

theorem Run_turn_receives_ready_witness:
  "Broker_Run_turn unary_wire (\<lambda>m. m) sample_broker = Inl Blocked"
  using Run_turn_receives_ready [OF unary_wire_parses(4) iteration_ok_id sample_run]
  by (simp add: sample_broker_def Broker_New_def)

definition sample_waiting :: Broker where
  "sample_waiting = Broker_New\<lparr>core_counts := [(''a'', 0)], task_queue := [sample_task]\<rparr>"

lemma sample_waiting_facts:
  "um_ok (core_counts sample_waiting)" "work_conserving sample_waiting"
  "SendTaskToWorker unary_wire (\<lambda>m. m) sample_task sample_waiting =
     Inr (sample_waiting\<lparr>task_queue := [sample_task, sample_task]\<rparr>)"
  by (simp_all add: sample_waiting_def Broker_New_def um_ok_def um_keys_def work_conserving_def
      SendTaskToWorker_def queue_push_def)

theorem work_conserving_steps_witness:
  "work_conserving (sample_waiting\<lparr>task_queue := [sample_task, sample_task]\<rparr>)"
  using work_conserving_steps [OF iteration_ok_id sample_waiting_facts(1,2), of unary_wire]
    sample_waiting_facts(3) by blast

definition sample_queued :: Broker where
  "sample_queued = Broker_New\<lparr>core_counts := [(''a'', 0)],
     task_queue := [sample_task\<lparr>tk_operation_type := 3\<rparr>, sample_task]\<rparr>"

definition sample_replies :: "WorkerTaskId list" where
  "sample_replies = [\<lparr>wid_identity = ''a'', wid_id = \<lparr>tid_problem = 1, tid_task = 0\<rparr>\<rparr>,
     \<lparr>wid_identity = ''a'', wid_id = \<lparr>tid_problem = 1, tid_task = 1\<rparr>\<rparr>]"

theorem queue_drain_repeats_last_witness:
  "\<exists>b'. foldE (ProcessWorkerTaskReply unary_wire) sample_replies sample_queued = Inr b' \<and>
    task_queue b' = [] \<and>
    pub_out b' = pub_out sample_queued @ map (\<lambda>i. (TOPIC, ser_WorkerTask unary_wire
      \<lparr>wt_identity = wid_identity i, wt_task = last (task_queue sample_queued)\<rparr>)) sample_replies"
  by (rule queue_drain_repeats_last) (simp_all add: sample_queued_def sample_replies_def Broker_New_def)

end
