(* ===== verification/Cluster.thy ===== *)
theory Cluster
  imports System Broker
begin

text \<open>
  All processes together: the manager, the broker, the workers and the database, each making the
  steps of its own theory, and a network between them. The network delivers messages that were
  sent, at any time, in any order and any number of times, or never; what is shown here holds
  whatever it does. The cluster is shown to refine the runs of \<open>System\<close>, where there is no
  broker.
\<close>

section \<open>What messages carry\<close>

text \<open>
  The invariant of a process between the others: \<open>T\<close> holds of every task it has been given or
  passes on, \<open>A\<close> of every task it has been told, or tells, is finished.
\<close>

definition broker_carries :: "Wire \<Rightarrow> (Task \<Rightarrow> bool) \<Rightarrow> (TaskId \<Rightarrow> bool) \<Rightarrow> Broker \<Rightarrow> bool" where
  "broker_carries w T A b \<longleftrightarrow>
     (\<forall>m \<in> set (manager_in b). \<forall>t. parse_Task w m = Some t \<longrightarrow> T t) \<and>
     (\<forall>t \<in> set (task_queue b). T t) \<and>
     (\<forall>f \<in> set (pub_out b). \<forall>x. parse_WorkerTask w (snd f) = Some x \<longrightarrow> T (wt_task x)) \<and>
     (\<forall>f \<in> set (router_in b). \<forall>i. parse_WorkerMessage w (snd f) = Some (FinishedTask i) \<longrightarrow> A (wid_id i)) \<and>
     (\<forall>m \<in> set (manager_out b). \<exists>i. m = ser_TaskId w i \<and> A i)"

definition worker_carries :: "Wire \<Rightarrow> (Task \<Rightarrow> bool) \<Rightarrow> (TaskId \<Rightarrow> bool) \<Rightarrow> Worker \<Rightarrow> bool" where
  "worker_carries w T A s \<longleftrightarrow>
     (\<forall>f \<in> set (sub_in s). \<forall>x. parse_WorkerTask w (snd f) = Some x \<longrightarrow> T (wt_task x)) \<and>
     (\<forall>x \<in> set (pool_tasks (thread_pool s)) \<union> set (pool_busy (thread_pool s)). T (wt_task x)) \<and>
     (\<forall>i \<in> set (finished_tasks s). A (wid_id i)) \<and>
     (\<forall>m \<in> set (dealer_out s). \<forall>i. parse_WorkerMessage w m = Some (FinishedTask i) \<longrightarrow> A (wid_id i))"

lemma broker_carriesD:
  assumes "broker_carries w T A b"
  shows "m \<in> set (manager_in b) \<Longrightarrow> parse_Task w m = Some t \<Longrightarrow> T t"
    "t \<in> set (task_queue b) \<Longrightarrow> T t"
    "f \<in> set (pub_out b) \<Longrightarrow> parse_WorkerTask w (snd f) = Some x \<Longrightarrow> T (wt_task x)"
    "f \<in> set (router_in b) \<Longrightarrow> parse_WorkerMessage w (snd f) = Some (FinishedTask i) \<Longrightarrow> A (wid_id i)"
    "m \<in> set (manager_out b) \<Longrightarrow> \<exists>i. m = ser_TaskId w i \<and> A i"
  using assms unfolding broker_carries_def by blast+

lemma broker_carries_mono:
  "broker_carries w T A b \<Longrightarrow> (\<And>t. T t \<Longrightarrow> T' t) \<Longrightarrow> (\<And>i. A i \<Longrightarrow> A' i) \<Longrightarrow> broker_carries w T' A' b"
  unfolding broker_carries_def by meson

lemma worker_carries_mono:
  "worker_carries w T A s \<Longrightarrow> (\<And>t. T t \<Longrightarrow> T' t) \<Longrightarrow> (\<And>i. A i \<Longrightarrow> A' i) \<Longrightarrow> worker_carries w T' A' s"
  unfolding worker_carries_def by meson

lemma wire_parse:
  assumes "wire_ok w"
  shows "parse_WorkerTask w (ser_WorkerTask w x) = Some x" "parse_WorkerMessage w (ser_WorkerMessage w m) = Some m"
    "parse_Task w (ser_Task w t) = Some t" "parse_TaskId w (ser_TaskId w i) = Some i"
  using assms by (simp_all add: wire_ok_def codec_ok_def)

text \<open>What the argument about the whole relies on, of every process.\<close>

locale carrier =
  fixes carries :: "(Task \<Rightarrow> bool) \<Rightarrow> (TaskId \<Rightarrow> bool) \<Rightarrow> 's \<Rightarrow> bool" and turn :: "'s \<Rightarrow> 's res"
  assumes carries_mono: "carries T A s \<Longrightarrow> (\<And>t. T t \<Longrightarrow> T' t) \<Longrightarrow> (\<And>i. A i \<Longrightarrow> A' i) \<Longrightarrow> carries T' A' s"
    and carries_turn: "carries T A s \<Longrightarrow> turn s = Inr s' \<Longrightarrow> carries T A s'"
begin

text \<open>A process never makes up a task or an answer, whatever becomes of the others meanwhile.\<close>

lemma carries_while:
  assumes "carries (T 0) (A 0) s" and "foldE (\<lambda>_. turn) [0..<n] s = Inr s'"
    and "\<And>k t. T k t \<Longrightarrow> T (Suc k) t" and "\<And>k i. A k i \<Longrightarrow> A (Suc k) i"
  shows "carries (T n) (A n) s'"
  using assms(2)
proof (induction n arbitrary: s')
  case (Suc n)
  then obtain s1 where "foldE (\<lambda>_. turn) [0..<n] s = Inr s1" "turn s1 = Inr s'"
    by (auto simp: foldE_append bindE_eq_Inr)
  with Suc.IH have "carries (T n) (A n) s'" using carries_turn by blast
  then show ?case using assms(3,4) by (rule carries_mono)
qed (use assms(1) in simp)

end

section \<open>The broker passes on what it is given\<close>

lemma carries_SendTaskToWorkerImpl:
  assumes "wire_ok w" and "broker_carries w T A b" and "T (wt_task x)" and "SendTaskToWorkerImpl w x b = Inr b'"
  shows "broker_carries w T A b'"
proof -
  obtain n where "b' = b\<lparr>pub_out := pub_out b @ [(TOPIC, ser_WorkerTask w x)],
      core_counts := um_put (wt_identity x) (n - 1) (core_counts b)\<rparr>"
    using assms(4) by (auto simp: SendTaskToWorkerImpl_def Let_def bindE_eq_Inr)
  with assms(1-3) show ?thesis by (auto simp: broker_carries_def wire_parse)
qed

lemma carries_ReceiveWorkerMessage:
  assumes w: "wire_ok w" and b: "broker_carries w T A b" and step: "ReceiveWorkerMessage w b = Inr b'"
  shows "broker_carries w T A b'"
  using step
proof (cases rule: ReceiveWorkerMessage_cases)
  case (register identity frame rest n)
  with b show ?thesis by (simp add: broker_carries_def)
next
  case (reply identity frame rest i n)
  then have "A (wid_id i)" using broker_carriesD(4) [OF b, of "(identity, frame)" i] by simp
  with reply b show ?thesis by (auto simp: broker_carries_def)
next
  case (reply_queued identity frame rest i n)
  then have "A (wid_id i)" using broker_carriesD(4) [OF b, of "(identity, frame)" i] by simp
  moreover have "T (last (task_queue b))" using broker_carriesD(2) [OF b] reply_queued(4) by simp
  moreover have "t \<in> set (task_queue b)" if "t \<in> set (tl (task_queue b))" for t
    using that list.set_sel(2) [OF reply_queued(4)] by blast
  ultimately show ?thesis using reply_queued b w by (auto simp: broker_carries_def wire_parse)
qed

lemma carries_ReceiveManagerRequest:
  assumes w: "wire_ok w" and b: "broker_carries w T A b" and step: "ReceiveManagerRequest w order b = Inr b'"
  shows "broker_carries w T A b'"
  using step
proof (cases rule: ReceiveManagerRequest_cases)
  case (1 frame rest t)
  have t: "T t" using broker_carriesD(1) [OF b _ 1(2)] 1(1) by simp
  have b1: "broker_carries w T A (b\<lparr>manager_in := rest\<rparr>)" using b 1(1) by (simp add: broker_carries_def)
  show ?thesis
  proof (cases "find (\<lambda>e. snd e \<noteq> 0) (order (core_counts b))")
    case None
    with 1(3) t b1 show ?thesis
      by (auto simp: SendTaskToWorker_def queue_push_def broker_carries_def)
  next
    case (Some it)
    with 1(3) show ?thesis
      using carries_SendTaskToWorkerImpl [OF w b1, of "\<lparr>wt_identity = fst it, wt_task = t\<rparr>"] t
      by (simp add: SendTaskToWorker_def)
  qed
qed

lemma carries_Broker_Run_turn:
  assumes "wire_ok w" and "broker_carries w T A b" and "Broker_Run_turn w order b = Inr b'"
  shows "broker_carries w T A b'"
proof -
  obtain b1 b2 where b1: "Broker_poll b = Inr b1"
    and b2: "(if router_revents b1 then ReceiveWorkerMessage w b1 else Inr b1) = Inr b2"
    and b3: "(if manager_revents b2 then ReceiveManagerRequest w order b2 else Inr b2) = Inr b'"
    using assms(3) by (auto simp: Broker_Run_turn_def bindE_eq_Inr)
  have "broker_carries w T A b1"
    using b1 assms(2) by (auto simp: Broker_poll_def broker_carries_def split: if_splits)
  with b2 have "broker_carries w T A b2"
    using carries_ReceiveWorkerMessage [OF assms(1)] by (auto split: if_splits)
  with b3 show ?thesis
    using carries_ReceiveManagerRequest [OF assms(1)] by (auto split: if_splits)
qed

interpretation broker: carrier "\<lambda>T A b. wire_ok w \<and> broker_carries w T A b" "Broker_Run_turn w order" for w order
  by unfold_locales (blast intro: broker_carries_mono carries_Broker_Run_turn)+

section \<open>The worker computes what it is given\<close>

lemma carries_Worker_Run_turn:
  assumes w: "wire_ok w" and s: "worker_carries w T A s" and step: "Worker_Run_turn w s = Inr s'"
  shows "worker_carries w T A s'"
proof -
  obtain s1 where s1: "(if sub_in s \<noteq> [] then ReadRequest w s else Inr s) = Inr s1" and out: "CheckOutputQueue w s1 = Inr s'"
    using step by (auto simp: Worker_Run_turn_def bindE_eq_Inr)
  have "worker_carries w T A s1"
  proof (cases "sub_in s")
    case (Cons f rest)
    then show ?thesis
      using s1 s by (cases f) (auto simp: ReadRequest_def FromMessage_def Let_def PushTask_def queue_push_def
          worker_carries_def bindE_eq_Inr split: option.splits if_splits)
  qed (use s1 s in simp)
  then show ?thesis
  proof (cases "finished_tasks s1")
    case (Cons i q)
    with \<open>worker_carries w T A s1\<close> out w show ?thesis
      by (auto simp: CheckOutputQueue_def worker_carries_def wire_parse)
  qed (use out \<open>worker_carries w T A s1\<close> in \<open>simp add: CheckOutputQueue_def\<close>)
qed

interpretation worker: carrier "\<lambda>T A s. wire_ok w \<and> worker_carries w T A s" "Worker_Run_turn w" for w
  by unfold_locales (blast intro: worker_carries_mono carries_Worker_Run_turn)+

lemma carries_Poll_take:
  assumes "worker_carries w T A s" and "Poll_take (thread_pool s) = Inr (x, pool)"
  shows "worker_carries w T A (s\<lparr>thread_pool := pool\<rparr>)"
proof -
  obtain rest where "pool_tasks (thread_pool s) = x # rest"
    "pool = (thread_pool s)\<lparr>pool_tasks := rest, pool_busy := pool_busy (thread_pool s) @ [x]\<rparr>"
    using assms(2) by (cases "pool_tasks (thread_pool s)") (auto simp: Poll_take_def)
  with assms(1) show ?thesis by (auto simp: worker_carries_def)
qed

lemma carries_finish:
  assumes "worker_carries w T A s" and "pool_busy (thread_pool s) = xs @ x # ys" and "A (tk_id (wt_task x))"
  shows "worker_carries w T A (s\<lparr>thread_pool := (thread_pool s)\<lparr>pool_busy := xs @ ys\<rparr>,
    finished_tasks := finished_tasks s @ [answer_of x]\<rparr>)"
  using assms by (auto simp: worker_carries_def answer_of_def)


section \<open>Runs of the cluster\<close>

record Cluster =
  cl_manager :: Dispatcher
  cl_broker :: Broker
  cl_workers :: "string \<Rightarrow> Worker"
  cl_tables :: Tables

definition Cluster_New :: "Wire \<Rightarrow> (string \<Rightarrow> int) \<Rightarrow> Tables \<Rightarrow> Cluster" where
  "Cluster_New w cores db0 = \<lparr>cl_manager = Dispatcher_New, cl_broker = Broker_New,
     cl_workers = (\<lambda>ident. SendAckMessage w (Worker_New ident (cores ident))), cl_tables = db0\<rparr>"

definition put_worker :: "string \<Rightarrow> Worker \<Rightarrow> Cluster \<Rightarrow> Cluster" where
  "put_worker ident s c = c\<lparr>cl_workers := (cl_workers c)(ident := s)\<rparr>"

definition manager_receives :: "bytes \<Rightarrow> Dispatcher \<Rightarrow> Dispatcher" where
  "manager_receives m d = d\<lparr>broker_connection := (broker_connection d)
     \<lparr>replies_in := replies_in (broker_connection d) @ [m]\<rparr>\<rparr>"

inductive cluster_run ::
  "Wire \<Rightarrow> DbStubs \<Rightarrow> (Graph \<Rightarrow> nat list res) \<Rightarrow> ((nat \<times> nat list) list \<Rightarrow> (nat \<times> nat list) list) \<Rightarrow> iteration \<Rightarrow>
   (string \<Rightarrow> int) \<Rightarrow> Tables \<Rightarrow> Expr list \<Rightarrow> Cluster \<Rightarrow> bool"
  for w st topo order iter cores db0 where
  start: "cluster_run w st topo order iter cores db0 [] (Cluster_New w cores db0)"
| new_problem: "cluster_run w st topo order iter cores db0 ps c \<Longrightarrow>
    CalculateProblem_start topo (AST (Some e)) (cl_manager c) = Inr (ids, d') \<Longrightarrow>
    cluster_run w st topo order iter cores db0 (ps @ [e]) (c\<lparr>cl_manager := d'\<rparr>)"
| send: "cluster_run w st topo order iter cores db0 ps c \<Longrightarrow>
    SendComputableTasks w order (cl_manager c) = Inr d' \<Longrightarrow>
    cluster_run w st topo order iter cores db0 ps (c\<lparr>cl_manager := d'\<rparr>)"
| update: "cluster_run w st topo order iter cores db0 ps c \<Longrightarrow>
    UpdateComputableTasks w (cl_manager c) = Inr d' \<Longrightarrow>
    cluster_run w st topo order iter cores db0 ps (c\<lparr>cl_manager := d'\<rparr>)"
| finish: "cluster_run w st topo order iter cores db0 ps c \<Longrightarrow>
    CalculateProblem_ready pid (cl_manager c) = Inr True \<Longrightarrow>
    CalculateProblem_finish st pid (root_task (ps ! unat pid)) (cl_manager c, cl_tables c) = (r, d', db') \<Longrightarrow>
    cluster_run w st topo order iter cores db0 ps (c\<lparr>cl_manager := d', cl_tables := db'\<rparr>)"
| to_broker: "cluster_run w st topo order iter cores db0 ps c \<Longrightarrow>
    m \<in> set (requests_out (broker_connection (cl_manager c))) \<Longrightarrow>
    cluster_run w st topo order iter cores db0 ps
      (c\<lparr>cl_broker := (cl_broker c)\<lparr>manager_in := manager_in (cl_broker c) @ [m]\<rparr>\<rparr>)"
| broker_turn: "cluster_run w st topo order iter cores db0 ps c \<Longrightarrow>
    Broker_Run_turn w iter (cl_broker c) = Inr b \<Longrightarrow>
    cluster_run w st topo order iter cores db0 ps (c\<lparr>cl_broker := b\<rparr>)"
| to_worker: "cluster_run w st topo order iter cores db0 ps c \<Longrightarrow> f \<in> set (pub_out (cl_broker c)) \<Longrightarrow>
    s = cl_workers c ident \<Longrightarrow>
    cluster_run w st topo order iter cores db0 ps (put_worker ident (s\<lparr>sub_in := sub_in s @ [f]\<rparr>) c)"
| worker_turn: "cluster_run w st topo order iter cores db0 ps c \<Longrightarrow>
    Worker_Run_turn w (cl_workers c ident) = Inr s \<Longrightarrow>
    cluster_run w st topo order iter cores db0 ps (put_worker ident s c)"
| worker_take: "cluster_run w st topo order iter cores db0 ps c \<Longrightarrow> s = cl_workers c ident \<Longrightarrow>
    length (pool_busy (thread_pool s)) < unat (core_count s) \<Longrightarrow> Poll_take (thread_pool s) = Inr (x, pool) \<Longrightarrow>
    cluster_run w st topo order iter cores db0 ps (put_worker ident (s\<lparr>thread_pool := pool\<rparr>) c)"
| worker_finish: "cluster_run w st topo order iter cores db0 ps c \<Longrightarrow> s = cl_workers c ident \<Longrightarrow>
    pool_busy (thread_pool s) = xs @ x # ys \<Longrightarrow>
    CalculateTask st x (finished_tasks s, cl_tables c) = Inr (q, db') \<Longrightarrow>
    cluster_run w st topo order iter cores db0 ps (put_worker ident
      (s\<lparr>thread_pool := (thread_pool s)\<lparr>pool_busy := xs @ ys\<rparr>, finished_tasks := q\<rparr>) (c\<lparr>cl_tables := db'\<rparr>))"
| to_router: "cluster_run w st topo order iter cores db0 ps c \<Longrightarrow> m \<in> set (dealer_out (cl_workers c ident)) \<Longrightarrow>
    cluster_run w st topo order iter cores db0 ps
      (c\<lparr>cl_broker := (cl_broker c)\<lparr>router_in := router_in (cl_broker c) @ [(ident, m)]\<rparr>\<rparr>)"
| to_manager: "cluster_run w st topo order iter cores db0 ps c \<Longrightarrow> m \<in> set (manager_out (cl_broker c)) \<Longrightarrow>
    cluster_run w st topo order iter cores db0 ps (c\<lparr>cl_manager := manager_receives m (cl_manager c)\<rparr>)"

section \<open>The invariant of the cluster\<close>

definition requested :: "Wire \<Rightarrow> Dispatcher \<Rightarrow> Task \<Rightarrow> bool" where
  "requested w d t \<longleftrightarrow> (\<exists>m \<in> set (requests_out (broker_connection d)). parse_Task w m = Some t)"

definition others_carry :: "Wire \<Rightarrow> (Task \<Rightarrow> bool) \<Rightarrow> (TaskId \<Rightarrow> bool) \<Rightarrow> Cluster \<Rightarrow> bool" where
  "others_carry w T A c \<longleftrightarrow> broker_carries w T A (cl_broker c) \<and> (\<forall>ident. worker_carries w T A (cl_workers c ident))"

abbreviation cluster_carries :: "Wire \<Rightarrow> Expr list \<Rightarrow> Cluster \<Rightarrow> bool" where
  "cluster_carries w ps c \<equiv> others_carry w (requested w (cl_manager c)) (task_answered ps (cl_manager c) (cl_tables c)) c"

lemma others_carry_mono:
  "others_carry w T A c \<Longrightarrow> (\<And>t. T t \<Longrightarrow> T' t) \<Longrightarrow> (\<And>i. A i \<Longrightarrow> A' i) \<Longrightarrow>
   cl_broker c' = cl_broker c \<Longrightarrow> cl_workers c' = cl_workers c \<Longrightarrow> others_carry w T' A' c'"
proof -
  assume mono: "\<And>t. T t \<Longrightarrow> T' t" "\<And>i. A i \<Longrightarrow> A' i"
  assume "others_carry w T A c" "cl_broker c' = cl_broker c" "cl_workers c' = cl_workers c"
  then show ?thesis
    using broker_carries_mono [of w T A "cl_broker c" T' A'] worker_carries_mono [of w T A _ T' A'] mono
    unfolding others_carry_def by metis
qed

lemma SendComputableTask_requests:
  assumes "SendComputableTask w pid entry d = Inr d'"
  shows "set (requests_out (broker_connection d)) \<subseteq> set (requests_out (broker_connection d'))"
  using assms by (auto simp: SendComputableTask_def bindE_eq_Inr Let_def put_calculation_data_def SendRequest_def
      split: prod.splits)

lemma SendComputableTasks_requests:
  assumes "SendComputableTasks w order d = Inr d'"
  shows "set (requests_out (broker_connection d)) \<subseteq> set (requests_out (broker_connection d'))"
proof -
  let ?R = "\<lambda>d. set (requests_out (broker_connection d))"
  have inner: "?R d1 \<subseteq> ?R d2" if "SendComputableTasksOf w order pid d1 = Inr d2" for pid d1 d2
  proof -
    from that obtain es d3 cd where loop: "foldE (SendComputableTask w pid) es d1 = Inr d3"
      and d2: "d2 = put_calculation_data pid cd d3"
      by (auto simp: SendComputableTasksOf_def bindE_eq_Inr)
    have "?R d1 \<subseteq> ?R d3"
      using loop order.refl by (rule foldE_invariant) (use SendComputableTask_requests in blast)
    then show ?thesis by (simp add: d2 put_calculation_data_def)
  qed
  show ?thesis
    using assms [unfolded SendComputableTasks_def] order.refl by (rule foldE_invariant) (use inner in blast)
qed

lemma requested_mono:
  "set (requests_out (broker_connection d)) \<subseteq> set (requests_out (broker_connection d')) \<Longrightarrow>
   requested w d t \<Longrightarrow> requested w d' t"
  unfolding requested_def by blast

lemma update_frame:
  assumes "UpdateComputableTasks w d = Inr d'"
  shows "requests_out (broker_connection d') = requests_out (broker_connection d)"
    and "map_of (problem_id_to_calculation_data d) pid = None \<Longrightarrow> map_of (problem_id_to_calculation_data d') pid = None"
proof -
  obtain i connection where read: "ReadReply w (broker_connection d) = Inr (i, connection)"
    and out: "requests_out connection = requests_out (broker_connection d)"
    using assms by (auto simp: UpdateComputableTasks_def ReadReply_def bindE_eq_Inr split: list.splits)
  let ?d = "d\<lparr>broker_connection := connection\<rparr>"
  have "d' = ?d \<or> (\<exists>p cd cd' sync. map_of (problem_id_to_calculation_data d) p = Some cd \<and>
      d' = (put_calculation_data p cd' ?d)\<lparr>problem_id_to_sync_data := sync\<rparr>)"
  proof (cases i)
    case None
    with assms read show ?thesis by (simp add: UpdateComputableTasks_def)
  next
    case (Some j)
    with assms read obtain p t where "NotifyComputedProblem p t ?d = Inr d' \<or> UpdateComputableTasksImpl p t ?d = Inr d'"
      by (auto simp: UpdateComputableTasks_def Let_def bindE_eq_Inr split: if_splits)
    then obtain cd cd' where "map_of (problem_id_to_calculation_data d) p = Some cd"
      "d' = (put_calculation_data p cd' ?d)\<lparr>problem_id_to_sync_data := problem_id_to_sync_data d'\<rparr>"
      by (auto simp: NotifyComputedProblem_def UpdateComputableTasksImpl_def Let_def bindE_eq_Inr
          put_calculation_data_def split_beta)
    then show ?thesis by blast
  qed
  then show "requests_out (broker_connection d') = requests_out (broker_connection d)"
    "map_of (problem_id_to_calculation_data d) pid = None \<Longrightarrow> map_of (problem_id_to_calculation_data d') pid = None"
    using out by (auto simp: put_calculation_data_def um_simps)
qed


lemma SendComputableTasks_closed:
  "SendComputableTasks w order d = Inr d' \<Longrightarrow> map_of (problem_id_to_calculation_data d) pid = None \<Longrightarrow>
   map_of (problem_id_to_calculation_data d') pid = None"
  using SendComputableTasks_frame by (auto simp: same_problems_def um_keys_def map_of_eq_None_iff)

lemma cluster_carries_New:
  assumes "wire_ok w"
  shows "others_carry w T A (Cluster_New w cores db0)"
  using assms
  by (simp add: others_carry_def Cluster_New_def broker_carries_def Broker_New_def worker_carries_def SendAckMessage_def
      Worker_New_def wire_parse)

lemma carries_to_broker:
  "broker_carries w T A b \<Longrightarrow> (\<And>t. parse_Task w m = Some t \<Longrightarrow> T t) \<Longrightarrow>
   broker_carries w T A (b\<lparr>manager_in := manager_in b @ [m]\<rparr>)"
  by (auto simp: broker_carries_def)

lemma carries_to_router:
  "broker_carries w T A b \<Longrightarrow> worker_carries w T A s \<Longrightarrow> m \<in> set (dealer_out s) \<Longrightarrow>
   broker_carries w T A (b\<lparr>router_in := router_in b @ [(ident, m)]\<rparr>)"
  by (auto simp: broker_carries_def worker_carries_def)

lemma carries_to_worker:
  "broker_carries w T A b \<Longrightarrow> worker_carries w T A s \<Longrightarrow> f \<in> set (pub_out b) \<Longrightarrow>
   worker_carries w T A (s\<lparr>sub_in := sub_in s @ [f]\<rparr>)"
  by (auto simp: broker_carries_def worker_carries_def)

text \<open>A task being computed has been requested, so its computation is a step of the system.\<close>

lemma work_of_worker:
  assumes carries: "worker_carries w (requested w d) A s" and busy: "pool_busy (thread_pool s) = xs @ x # ys"
    and run: "system_run w st topo order db0 ps d db" and calc: "CalculateTask st x (q, db) = Inr (q', db')"
  shows "system_run w st topo order db0 ps d db'"
proof -
  have "requested w d (wt_task x)" using carries busy by (simp add: worker_carries_def)
  then obtain m where m: "m \<in> set (requests_out (broker_connection d))" "parse_Task w m = Some (wt_task x)"
    unfolding requested_def by blast
  have "CalculateTask st \<lparr>wt_identity = wt_identity x, wt_task = wt_task x\<rparr> (q, db) = Inr (q', db')"
    using calc by (cases x) simp
  with run m show ?thesis by (rule system_run.work)
qed


definition cluster_inv ::
  "Wire \<Rightarrow> DbStubs \<Rightarrow> (Graph \<Rightarrow> nat list res) \<Rightarrow> ((nat \<times> nat list) list \<Rightarrow> (nat \<times> nat list) list) \<Rightarrow>
   Tables \<Rightarrow> Expr list \<Rightarrow> Cluster \<Rightarrow> bool" where
  "cluster_inv w st topo order db0 ps c \<longleftrightarrow>
     system_run w st topo order db0 ps (cl_manager c) (cl_tables c) \<and> cluster_carries w ps c"

lemma cluster_invD:
  assumes "cluster_inv w st topo order db0 ps c"
  shows "system_run w st topo order db0 ps (cl_manager c) (cl_tables c)" "cluster_carries w ps c"
    "broker_carries w (requested w (cl_manager c)) (task_answered ps (cl_manager c) (cl_tables c)) (cl_broker c)"
    "worker_carries w (requested w (cl_manager c)) (task_answered ps (cl_manager c) (cl_tables c)) (cl_workers c ident)"
  using assms unfolding cluster_inv_def others_carry_def by blast+

lemma cluster_inv_broker:
  assumes "cluster_inv w st topo order db0 ps c"
    and "broker_carries w (requested w (cl_manager c)) (task_answered ps (cl_manager c) (cl_tables c)) b"
  shows "cluster_inv w st topo order db0 ps (c\<lparr>cl_broker := b\<rparr>)"
  using assms by (simp add: cluster_inv_def others_carry_def)

lemma cluster_inv_worker:
  assumes "cluster_inv w st topo order db0 ps c"
    and "worker_carries w (requested w (cl_manager c)) (task_answered ps (cl_manager c) (cl_tables c)) s"
  shows "cluster_inv w st topo order db0 ps (put_worker ident s c)"
  using assms by (simp add: cluster_inv_def others_carry_def put_worker_def)

lemma cluster_inv_manager:
  assumes "cluster_inv w st topo order db0 ps c" and "system_run w st topo order db0 ps' d' db'"
    and "set (requests_out (broker_connection (cl_manager c))) \<subseteq> set (requests_out (broker_connection d'))"
    and "\<And>i. task_answered ps (cl_manager c) (cl_tables c) i \<Longrightarrow> task_answered ps' d' db' i"
  shows "cluster_inv w st topo order db0 ps' (c\<lparr>cl_manager := d', cl_tables := db'\<rparr>)"
  using others_carry_mono [OF cluster_invD(2) [OF assms(1)] requested_mono [OF assms(3)] assms(4),
      where c' = "c\<lparr>cl_manager := d', cl_tables := db'\<rparr>"] assms(2)
  by (simp add: cluster_inv_def)

lemmas cluster_inv_manager_only = cluster_inv_manager [of w st topo order db0 ps c ps' d' "cl_tables c"
    for w st topo order db0 ps c ps' d', simplified]

lemma cluster_inv_new_problem:
  assumes inv: "cluster_inv w st topo order db0 ps c" and disp: "dispatcher_inv w ps sent (cl_manager c)"
    and small: "small_problems ps" and step: "CalculateProblem_start topo (AST (Some e)) (cl_manager c) = Inr (ids, d')"
  shows "cluster_inv w st topo order db0 (ps @ [e]) (c\<lparr>cl_manager := d'\<rparr>)"
proof (rule cluster_inv_manager_only [OF inv])
  note len = small_problems_length [OF small]
  show "system_run w st topo order db0 (ps @ [e]) d' (cl_tables c)"
    using cluster_invD(1) [OF inv] step by (rule system_run.new_problem)
  show "set (requests_out (broker_connection (cl_manager c))) \<subseteq> set (requests_out (broker_connection d'))"
    using start_effect(2) [OF disp len step] by simp
  show "task_answered (ps @ [e]) d' (cl_tables c) i" if "task_answered ps (cl_manager c) (cl_tables c) i" for i
    using task_answered_new [OF disp len step that] .
qed

lemma cluster_inv_send:
  assumes inv: "cluster_inv w st topo order db0 ps c" and step: "SendComputableTasks w order (cl_manager c) = Inr d'"
  shows "cluster_inv w st topo order db0 ps (c\<lparr>cl_manager := d'\<rparr>)"
  using cluster_inv_manager_only [OF inv system_run.send [OF cluster_invD(1) [OF inv] step] SendComputableTasks_requests [OF step]]
    task_answered_closed [of "cl_manager c" d', OF SendComputableTasks_closed [OF step]] by blast

lemma cluster_inv_update:
  assumes inv: "cluster_inv w st topo order db0 ps c" and step: "UpdateComputableTasks w (cl_manager c) = Inr d'"
  shows "cluster_inv w st topo order db0 ps (c\<lparr>cl_manager := d'\<rparr>)"
  using cluster_inv_manager_only [OF inv system_run.update [OF cluster_invD(1) [OF inv] step]]
    update_frame(1) [OF step] task_answered_closed [of "cl_manager c" d', OF update_frame(2) [OF step]] by simp

lemma cluster_inv_finish:
  assumes inv: "cluster_inv w st topo order db0 ps c" and disp: "dispatcher_inv w ps sent (cl_manager c)"
    and small: "small_problems ps" and st: "db_served ser parse st"
    and ready: "CalculateProblem_ready pid (cl_manager c) = Inr True"
    and step: "CalculateProblem_finish st pid (root_task (ps ! unat pid)) (cl_manager c, cl_tables c) = (r, d', db')"
  shows "cluster_inv w st topo order db0 ps (c\<lparr>cl_manager := d', cl_tables := db'\<rparr>)"
proof (rule cluster_inv_manager [OF inv])
  have "length ps \<le> 2 ^ 32" using small by (simp add: small_problems_def)
  then show "task_answered ps d' db' i" if "task_answered ps (cl_manager c) (cl_tables c) i" for i
    using task_answered_finish [OF st ready_open(2) [OF disp ready] _ step that] by blast
  show "system_run w st topo order db0 ps d' db'"
    using cluster_invD(1) [OF inv] ready step by (rule system_run.finish)
  show "set (requests_out (broker_connection (cl_manager c))) \<subseteq> set (requests_out (broker_connection d'))"
    by (simp add: finish_dispatcher [OF step] ClearProblem_def)
qed

lemma cluster_inv_to_manager:
  assumes inv: "cluster_inv w st topo order db0 ps c" and m: "m \<in> set (manager_out (cl_broker c))"
  shows "cluster_inv w st topo order db0 ps (c\<lparr>cl_manager := manager_receives m (cl_manager c)\<rparr>)"
proof (rule cluster_inv_manager_only [OF inv])
  obtain i where i: "m = ser_TaskId w i" "task_answered ps (cl_manager c) (cl_tables c) i"
    using broker_carriesD(5) [OF cluster_invD(3) [OF inv] m] by blast
  show "system_run w st topo order db0 ps (manager_receives m (cl_manager c)) (cl_tables c)"
    unfolding manager_receives_def i(1) using cluster_invD(1) [OF inv] i(2) by (rule system_run.answer)
qed (simp_all add: manager_receives_def task_answered_def)

text \<open>A task being computed has been requested, so its computation is a step of the system.\<close>

lemma cluster_inv_worker_finish:
  assumes inv: "cluster_inv w st topo order db0 ps c" and st: "db_served ser parse st"
    and s: "s = cl_workers c ident" and busy: "pool_busy (thread_pool s) = xs @ x # ys"
    and calc: "CalculateTask st x (finished_tasks s, cl_tables c) = Inr (q, db')"
  shows "cluster_inv w st topo order db0 ps (put_worker ident
    (s\<lparr>thread_pool := (thread_pool s)\<lparr>pool_busy := xs @ ys\<rparr>, finished_tasks := q\<rparr>) (c\<lparr>cl_tables := db'\<rparr>))"
proof (rule cluster_inv_worker)
  note adds = CalculateTask_adds [OF st calc]
  have "system_run w st topo order db0 ps (cl_manager c) db'"
    using work_of_worker [OF cluster_invD(4) [OF inv] _ cluster_invD(1) [OF inv] calc] busy s by blast
  then show inv': "cluster_inv w st topo order db0 ps (c\<lparr>cl_tables := db'\<rparr>)"
    using cluster_inv_manager [OF inv, of ps "cl_manager c" db'] task_answered_tables [OF adds(2)] by simp
  have "task_answered ps (cl_manager c) db' (tk_id (wt_task x))"
    using adds(3) by (simp add: task_answered_def present_def)
  then show "worker_carries w (requested w (cl_manager (c\<lparr>cl_tables := db'\<rparr>)))
      (task_answered ps (cl_manager (c\<lparr>cl_tables := db'\<rparr>)) (cl_tables (c\<lparr>cl_tables := db'\<rparr>)))
      (s\<lparr>thread_pool := (thread_pool s)\<lparr>pool_busy := xs @ ys\<rparr>, finished_tasks := q\<rparr>)"
    using carries_finish [OF cluster_invD(4) [OF inv', of ident], of xs x ys] busy s adds(1) by simp
qed

lemma cluster_inv_run:
  assumes topo: "\<And>e. wf_Expr e \<Longrightarrow> topological_sort_ok topo (graph_of (records_of e))" and order: "iteration_ok order"
    and wire: "wire_ok w" and st: "db_served ser parse st"
    and run: "cluster_run w st topo order iter cores db0 ps c" and small: "small_problems ps"
  shows "cluster_inv w st topo order db0 ps c"
proof -
  have disp: "\<exists>sent. dispatcher_inv w ps sent (cl_manager c)" if "cluster_inv w st topo order db0 ps c" "small_problems ps" for ps c
    using dispatcher_inv_run [OF topo order system_dispatcher_run [OF cluster_invD(1) [OF that(1)]] small_problems_length [OF that(2)]] .
  show ?thesis using run small
  proof (induction rule: cluster_run.induct)
    case start
    show ?case using cluster_carries_New [OF wire] system_run.start by (simp add: cluster_inv_def Cluster_New_def)
  next
    case (new_problem ps c e ids d')
    then show ?case using disp cluster_inv_new_problem small_problems_prefix by blast
  next
    case (finish ps c pid r d' db')
    then show ?case using disp cluster_inv_finish [OF _ _ _ st] by blast
  next
    case (to_broker ps c m)
    then show ?case
      by (intro cluster_inv_broker carries_to_broker cluster_invD(3)) (auto simp: requested_def)
  next
    case (broker_turn ps c b)
    note inv = broker_turn.IH [OF broker_turn.prems]
    show ?case
      using broker.carries_turn [OF conjI [OF wire cluster_invD(3) [OF inv]] broker_turn.hyps(2)]
      by (intro cluster_inv_broker [OF inv]) simp
  next
    case (to_worker ps c f s ident)
    note inv = to_worker.IH [OF to_worker.prems]
    show ?case
      using carries_to_worker [OF cluster_invD(3) [OF inv] cluster_invD(4) [OF inv] to_worker.hyps(2), of ident] to_worker.hyps(3)
      by (intro cluster_inv_worker [OF inv]) simp
  next
    case (worker_turn ps c ident s)
    note inv = worker_turn.IH [OF worker_turn.prems]
    show ?case
      using worker.carries_turn [OF conjI [OF wire cluster_invD(4) [OF inv]] worker_turn.hyps(2)]
      by (intro cluster_inv_worker [OF inv]) simp
  next
    case (worker_take ps c s ident x pool)
    note inv = worker_take.IH [OF worker_take.prems]
    show ?case
      using carries_Poll_take [OF cluster_invD(4) [OF inv, of ident]] worker_take.hyps(2,4)
      by (intro cluster_inv_worker [OF inv]) simp
  next
    case (to_router ps c m ident)
    note inv = to_router.IH [OF to_router.prems]
    show ?case
      using carries_to_router [OF cluster_invD(3) [OF inv] cluster_invD(4) [OF inv] to_router.hyps(2)]
      by (intro cluster_inv_broker [OF inv]) simp
  qed (blast intro: cluster_inv_send cluster_inv_update cluster_inv_worker_finish [OF _ st] cluster_inv_to_manager)+
qed


section \<open>Properties\<close>

text \<open>
  C1. The answer is right. However the steps of the manager, the broker, the workers, the
  database and the network interleave, and however often messages are delivered and tasks computed,
  when the caller of a problem is woken it returns, and what it returns is the value of its
  expression over the static data of the database; its intermediate results are gone afterwards.
\<close>

theorem CalculateProblem_correct:
  assumes "\<And>e. wf_Expr e \<Longrightarrow> topological_sort_ok topo (graph_of (records_of e))" and "iteration_ok order"
    and "wire_ok w" and "db_served ser parse st" and codec: "field_codec_ok ser parse"
    and fresh: "dynamic_data db0 = Map.empty"
    and "cluster_run w st topo order iter cores db0 ps c" and small: "small_problems ps"
    and ready: "CalculateProblem_ready pid (cl_manager c) = Inr True"
  shows "\<exists>r d' db'. CalculateProblem_finish st pid (root_task (ps ! unat pid)) (cl_manager c, cl_tables c) = (Inr r, d', db') \<and>
    eval (env_of st db0) (ps ! unat pid) = Inr r \<and>
    (\<forall>t. dynamic_data db' (to_u32 pid, t) = None)"
  by (rule finish_correct [OF assms(1-4) codec fresh cluster_invD(1) [OF cluster_inv_run [OF assms(1-4,7) small]] small ready])

text \<open>
  C4. The broker is transparent: every run of the whole cluster is, to the manager and the
  database, a run in which requested tasks are computed and finished tasks answered directly. The
  broker never hands out a task that was not requested and never reports one that was not
  computed.
\<close>

theorem cluster_refines_system:
  assumes "\<And>e. wf_Expr e \<Longrightarrow> topological_sort_ok topo (graph_of (records_of e))" and "iteration_ok order"
    and "wire_ok w" and "db_served ser parse st"
    and "cluster_run w st topo order iter cores db0 ps c" and "small_problems ps"
  shows "system_run w st topo order db0 ps (cl_manager c) (cl_tables c) \<and>
    (\<forall>f \<in> set (pub_out (cl_broker c)). \<forall>x. parse_WorkerTask w (snd f) = Some x \<longrightarrow> requested w (cl_manager c) (wt_task x)) \<and>
    (\<forall>m \<in> set (manager_out (cl_broker c)). \<exists>i. m = ser_TaskId w i \<and> task_answered ps (cl_manager c) (cl_tables c) i)"
proof -
  note inv = cluster_inv_run [OF assms]
  show ?thesis
    using cluster_invD(1) [OF inv] broker_carriesD(3,5) [OF cluster_invD(3) [OF inv]] by blast
qed

section \<open>A run\<close>

text \<open>The run of \<open>System\<close> again, with each message passing through the broker to the worker \<open>a\<close>.\<close>

definition sample_cluster :: "Dispatcher \<Rightarrow> Broker \<Rightarrow> Worker \<Rightarrow> Tables \<Rightarrow> Cluster" where
  "sample_cluster d b s db = put_worker ''a'' s (Cluster_New unary_wire (\<lambda>_. 2) fresh_tables)
     \<lparr>cl_manager := d, cl_broker := b, cl_tables := db\<rparr>"

abbreviation sample_cluster_run :: "Dispatcher \<Rightarrow> Broker \<Rightarrow> Worker \<Rightarrow> Tables \<Rightarrow> bool" where
  "sample_cluster_run d b s db \<equiv> cluster_run unary_wire local_stubs sample_topo (\<lambda>m. m) (\<lambda>m. m) (\<lambda>_. 2) fresh_tables
     [sample_problem] (sample_cluster d b s db)"

lemma sample_cluster_simps [simp]:
  "cl_manager (sample_cluster d b s db) = d" "cl_broker (sample_cluster d b s db) = b"
  "cl_workers (sample_cluster d b s db) ''a'' = s" "cl_tables (sample_cluster d b s db) = db"
  "sample_cluster d b s db\<lparr>cl_manager := d'\<rparr> = sample_cluster d' b s db"
  "sample_cluster d b s db\<lparr>cl_broker := b'\<rparr> = sample_cluster d b' s db"
  "sample_cluster d b s db\<lparr>cl_tables := db'\<rparr> = sample_cluster d b s db'"
  "put_worker ''a'' s' (sample_cluster d b s db) = sample_cluster d b s' db"
  by (simp_all add: sample_cluster_def put_worker_def)

definition sample_job :: WorkerTask where
  "sample_job = \<lparr>wt_identity = ''a'', wt_task = request sample_problem 0 1\<rparr>"

lemma sample_job_fields:
  "wt_identity sample_job = ''a''" "tk_id (wt_task sample_job) = \<lparr>tid_problem = 0, tid_task = 1\<rparr>"
  by (simp_all add: sample_job_def request_def request_id_def to_u32_def)

definition announced :: Worker where
  "announced = SendAckMessage unary_wire (Worker_New ''a'' 2)"

definition registered :: Broker where
  "registered = Broker_New\<lparr>router_revents := True, core_counts := [(''a'', 1)]\<rparr>"

definition published_job :: Broker where
  "published_job = Broker_New\<lparr>manager_revents := True, core_counts := [(''a'', 0)],
     pub_out := [(TOPIC, ser_WorkerTask unary_wire sample_job)]\<rparr>"

lemma announced_simps:
  "sub_in announced = []" "finished_tasks announced = []" "identity announced = ''a''" "core_count announced = 2"
  "thread_pool announced = \<lparr>pool_tasks = [], pool_busy = []\<rparr>" "dealer_out announced = [ser_WorkerMessage unary_wire (CoreCount 1)]"
  by (simp_all add: announced_def SendAckMessage_def Worker_New_def to_u32_def)

lemma sample_cluster_sent: "sample_cluster_run sample_sent Broker_New announced fresh_tables"
proof -
  have start: "Cluster_New unary_wire (\<lambda>_. 2) fresh_tables = sample_cluster Dispatcher_New Broker_New announced fresh_tables"
    by (auto simp: sample_cluster_def Cluster_New_def put_worker_def announced_def)
  have "sample_cluster_run sample_opened Broker_New announced fresh_tables"
    using cluster_run.new_problem [OF cluster_run.start, of sample_topo sample_problem unary_wire "\<lambda>_. 2" fresh_tables]
      sample_opened_step by (simp add: start)
  from cluster_run.send [OF this] sample_sent_step show ?thesis by simp
qed

lemma sample_cluster_published: "sample_cluster_run sample_sent published_job announced fresh_tables"
proof -
  let ?m = "ser_WorkerMessage unary_wire (CoreCount 1)" and ?r = "ser_Task unary_wire (request sample_problem 0 1)"
  have "sample_cluster_run sample_sent (Broker_New\<lparr>router_in := [(''a'', ?m)]\<rparr>) announced fresh_tables"
    using cluster_run.to_router [OF sample_cluster_sent, of ?m "''a''"] by (simp add: announced_simps Broker_New_def)
  moreover have "Broker_Run_turn unary_wire (\<lambda>m. m) (Broker_New\<lparr>router_in := [(''a'', ?m)]\<rparr>) = Inr registered"
    by (simp add: Broker_Run_turn_def Broker_poll_def Broker_New_def ReceiveWorkerMessage_def RegisterWorker_def
        um_contains_def um_emplace_def WorkerMessage_core_count_def of_u32_def registered_def)
  ultimately have "sample_cluster_run sample_sent registered announced fresh_tables"
    using cluster_run.broker_turn by fastforce
  from cluster_run.to_broker [OF this, of ?r]
  have "sample_cluster_run sample_sent (registered\<lparr>manager_in := [?r]\<rparr>) announced fresh_tables"
    by (simp add: sample_sent_def registered_def Broker_New_def)
  moreover have "Broker_Run_turn unary_wire (\<lambda>m. m) (registered\<lparr>manager_in := [?r]\<rparr>) = Inr published_job"
    by (simp add: Broker_Run_turn_def Broker_poll_def Broker_New_def registered_def published_job_def sample_job_def
        ReceiveManagerRequest_def SendTaskToWorker_def SendTaskToWorkerImpl_def um_at_def)
  ultimately show ?thesis using cluster_run.broker_turn by fastforce
qed

lemma sample_cluster_computed:
  "sample_cluster_run sample_sent published_job (announced\<lparr>finished_tasks := [answer_of sample_job]\<rparr>) summed_tables"
proof -
  let ?run = "\<lambda>s. sample_cluster_run sample_sent published_job s fresh_tables"
  let ?f = "(TOPIC, ser_WorkerTask unary_wire sample_job)"
  have "?run (announced\<lparr>sub_in := [?f]\<rparr>)"
    using cluster_run.to_worker [OF sample_cluster_published, of ?f _ "''a''"] by (simp add: published_job_def announced_simps)
  moreover have "Worker_Run_turn unary_wire (announced\<lparr>sub_in := [?f]\<rparr>) =
      Inr (announced\<lparr>thread_pool := \<lparr>pool_tasks = [sample_job], pool_busy = []\<rparr>\<rparr>)"
    by (simp add: Worker_Run_turn_def ReadRequest_def CheckOutputQueue_def PushTask_def queue_push_def
        announced_def SendAckMessage_def Worker_New_def sample_job_fields)
  ultimately have "?run (announced\<lparr>thread_pool := \<lparr>pool_tasks = [sample_job], pool_busy = []\<rparr>\<rparr>)"
    using cluster_run.worker_turn [of _ _ _ _ _ _ _ _ "sample_cluster sample_sent published_job (announced\<lparr>sub_in := [?f]\<rparr>) fresh_tables" "''a''"]
    by simp
  from cluster_run.worker_take [OF this, of _ "''a''" sample_job "\<lparr>pool_tasks = [], pool_busy = [sample_job]\<rparr>"]
  have "?run (announced\<lparr>thread_pool := \<lparr>pool_tasks = [], pool_busy = [sample_job]\<rparr>\<rparr>)"
    by (simp add: announced_simps Poll_take_def)
  from cluster_run.worker_finish [OF this, of _ "''a''" "[]" sample_job "[]"] sample_calculated show ?thesis
    by (simp add: announced_simps sample_job_def) (simp add: announced_def SendAckMessage_def Worker_New_def)
qed

lemma sample_cluster_answered: "\<exists>b s. sample_cluster_run sample_answered b s summed_tables"
proof -
  let ?m = "ser_WorkerMessage unary_wire (FinishedTask (answer_of sample_job))"
  let ?s = "announced\<lparr>dealer_out := dealer_out announced @ [?m]\<rparr>"
  let ?b = "published_job\<lparr>router_in := [(''a'', ?m)]\<rparr>"
  have "Worker_Run_turn unary_wire (announced\<lparr>finished_tasks := [answer_of sample_job]\<rparr>) = Inr ?s"
    by (simp add: Worker_Run_turn_def CheckOutputQueue_def) (simp add: announced_def SendAckMessage_def Worker_New_def)
  then have "sample_cluster_run sample_sent published_job ?s summed_tables"
    using cluster_run.worker_turn [OF sample_cluster_computed, of "''a''"] by simp
  then have "sample_cluster_run sample_sent ?b ?s summed_tables"
    using cluster_run.to_router [of _ _ _ _ _ _ _ _ _ ?m "''a''"] by (fastforce simp: published_job_def Broker_New_def)
  moreover obtain b where b: "Broker_Run_turn unary_wire (\<lambda>m. m) ?b = Inr b"
    "manager_out b = [ser_TaskId unary_wire \<lparr>tid_problem = 0, tid_task = 1\<rparr>]"
    by (simp add: Broker_Run_turn_def Broker_poll_def Broker_New_def published_job_def ReceiveWorkerMessage_def
        ProcessWorkerTaskReply_def answer_of_def sample_job_fields um_at_def SendResultToManager_def)
  ultimately have "sample_cluster_run sample_sent b ?s summed_tables"
    using cluster_run.broker_turn by fastforce
  from cluster_run.to_manager [OF this] b(2) have "sample_cluster_run sample_replied b ?s summed_tables"
    by (simp add: manager_receives_def sample_replied_eq)
  from cluster_run.update [OF this] sample_answered_step show ?thesis by auto
qed

theorem CalculateProblem_correct_witness:
  "\<exists>r d' db'. CalculateProblem_finish local_stubs 0 1 (sample_answered, summed_tables) = (Inr r, d', db') \<and>
     eval (env_of local_stubs fresh_tables) sample_problem = Inr r"
proof -
  obtain b s where run: "sample_cluster_run sample_answered b s summed_tables" using sample_cluster_answered by blast
  have "CalculateProblem_ready 0 (cl_manager (sample_cluster sample_answered b s summed_tables)) = Inr True"
    by (simp add: CalculateProblem_ready_def sample_answered_def)
  from CalculateProblem_correct [OF sample_system_contract(1-6) run sample_small this] show ?thesis by auto
qed

theorem cluster_refines_system_witness:
  "sample_system [sample_problem] sample_sent fresh_tables \<and>
   requested unary_wire sample_sent (wt_task sample_job)"
proof -
  have "parse_WorkerTask unary_wire (ser_WorkerTask unary_wire sample_job) = Some sample_job"
    using wire_parse(1) [OF unary_wire_ok] .
  then show ?thesis
    using cluster_refines_system [OF sample_system_contract(1-4) sample_cluster_published sample_small]
    by (simp add: published_job_def)
qed

end
