(* ===== verification/Liveness.thy ===== *)
theory Liveness
  imports System
begin

text \<open>
  Every problem can be finished. From any state of a run, as long as no answer is on its way for
  a problem that is closed, the system has a sequence of its own steps - sending, computing,
  answering, updating - after which the caller of an open problem is woken, provided the
  expression has a value. With a fair scheduler, workers that take what is requested, and a
  broker and a network that lose nothing, such a sequence is taken; \<open>Broker\<close> shows that the
  broker can lose tasks.
\<close>

section \<open>Reaching a goal\<close>

text \<open>
  A system converges to a goal when from every good state that has not reached it some steps lead
  to a good state of smaller rank.
\<close>

locale convergence =
  fixes step :: "'s \<Rightarrow> 's \<Rightarrow> bool" and good goal :: "'s \<Rightarrow> bool" and rank :: "'s \<Rightarrow> nat"
  assumes advance: "good s \<Longrightarrow> \<not> goal s \<Longrightarrow> \<exists>s'. step\<^sup>*\<^sup>* s s' \<and> good s' \<and> (goal s' \<or> rank s' < rank s)"
begin

lemma converges: "good s \<Longrightarrow> \<exists>s'. step\<^sup>*\<^sup>* s s' \<and> good s' \<and> goal s'"
proof (induction s rule: measure_induct_rule [of rank])
  case (less s)
  show ?case
  proof (cases "goal s")
    case False
    then obtain s' where s': "step\<^sup>*\<^sup>* s s'" "good s'" "goal s' \<or> rank s' < rank s"
      using advance less.prems by blast
    then obtain s'' where "step\<^sup>*\<^sup>* s' s''" "good s''" "goal s''"
      using less.IH [of s'] by blast
    with s'(1) show ?thesis by (meson rtranclp_trans)
  qed (use less.prems in blast)
qed

end

section \<open>The system's own steps\<close>

inductive own_step ::
  "Wire \<Rightarrow> DbStubs \<Rightarrow> ((nat \<times> nat list) list \<Rightarrow> (nat \<times> nat list) list) \<Rightarrow> Expr list \<Rightarrow>
   Dispatcher \<times> Tables \<Rightarrow> Dispatcher \<times> Tables \<Rightarrow> bool"
  for w st order ps where
  send: "SendComputableTasks w order d = Inr d' \<Longrightarrow> own_step w st order ps (d, db) (d', db)"
| work: "m \<in> set (requests_out (broker_connection d)) \<Longrightarrow> parse_Task w m = Some task \<Longrightarrow>
    CalculateTask st \<lparr>wt_identity = ident, wt_task = task\<rparr> (q, db) = Inr (q', db') \<Longrightarrow>
    own_step w st order ps (d, db) (d, db')"
| answer: "task_answered ps d db i \<Longrightarrow> own_step w st order ps (d, db)
    (d\<lparr>broker_connection := (broker_connection d)\<lparr>replies_in := replies_in (broker_connection d) @ [ser_TaskId w i]\<rparr>\<rparr>, db)"
| update: "UpdateComputableTasks w d = Inr d' \<Longrightarrow> own_step w st order ps (d, db) (d', db)"

lemma own_step_run:
  "own_step w st order ps s s' \<Longrightarrow> system_run w st topo order db0 ps (fst s) (snd s) \<Longrightarrow>
   system_run w st topo order db0 ps (fst s') (snd s')"
  by (induction rule: own_step.induct) (auto intro: system_run.intros)

lemma own_steps_run:
  "(own_step w st order ps)\<^sup>*\<^sup>* s s' \<Longrightarrow> system_run w st topo order db0 ps (fst s) (snd s) \<Longrightarrow>
   system_run w st topo order db0 ps (fst s') (snd s')"
  by (induction rule: rtranclp_induct) (auto intro: own_step_run)

section \<open>What the data of an open problem says about the database\<close>

text \<open>
  An operation that is completed has its result in the database; a task whose result is there has
  been sent; and the caller has been woken when the whole is completed.
\<close>

definition problem_progress :: "Expr list \<Rightarrow> (size_t, bool) umap \<Rightarrow> Tables \<Rightarrow> size_t \<Rightarrow> CalculationData \<Rightarrow> bool" where
  "problem_progress ps sync db pid cd \<longleftrightarrow>
     (\<forall>t < length (records_of (ps ! unat pid)). \<not> is_leaf (records_of (ps ! unat pid) ! t) \<longrightarrow>
        t \<in> completed_tasks cd \<longrightarrow> present (key_of (unat pid) t) db) \<and>
     (\<forall>t < length (records_of (ps ! unat pid)). present (key_of (unat pid) t) db \<longrightarrow>
        t \<in> completed_tasks cd \<union> processing_tasks cd) \<and>
     (\<not> is_leaf (ps ! unat pid) \<longrightarrow> root_task (ps ! unat pid) \<in> completed_tasks cd \<longrightarrow> map_of sync pid = Some True)"

lemma problem_progressD:
  assumes "problem_progress ps sync db pid cd"
  shows "t < length (records_of (ps ! unat pid)) \<Longrightarrow> \<not> is_leaf (records_of (ps ! unat pid) ! t) \<Longrightarrow>
      t \<in> completed_tasks cd \<Longrightarrow> present (key_of (unat pid) t) db"
    "t < length (records_of (ps ! unat pid)) \<Longrightarrow> present (key_of (unat pid) t) db \<Longrightarrow>
      t \<in> completed_tasks cd \<union> processing_tasks cd"
    "\<not> is_leaf (ps ! unat pid) \<Longrightarrow> root_task (ps ! unat pid) \<in> completed_tasks cd \<Longrightarrow> map_of sync pid = Some True"
  using assms by (simp_all add: problem_progress_def)

definition progress_inv :: "Expr list \<Rightarrow> Dispatcher \<Rightarrow> Tables \<Rightarrow> bool" where
  "progress_inv ps d db \<longleftrightarrow> (\<forall>pid cd. map_of (problem_id_to_calculation_data d) pid = Some cd \<longrightarrow>
     problem_progress ps (problem_id_to_sync_data d) db pid cd)"

lemma progress_invD:
  "progress_inv ps d db \<Longrightarrow> map_of (problem_id_to_calculation_data d) pid = Some cd \<Longrightarrow>
   problem_progress ps (problem_id_to_sync_data d) db pid cd"
  by (simp add: progress_inv_def)

text \<open>Sending adds to what is being processed and completes nothing.\<close>

definition sends_more :: "Dispatcher \<Rightarrow> Dispatcher \<Rightarrow> bool" where
  "sends_more d d' \<longleftrightarrow> (\<forall>pid cd'. map_of (problem_id_to_calculation_data d') pid = Some cd' \<longrightarrow>
     (\<exists>cd. map_of (problem_id_to_calculation_data d) pid = Some cd \<and> completed_tasks cd' = completed_tasks cd \<and>
        processing_tasks cd \<subseteq> processing_tasks cd'))"

lemma sends_more_refl: "sends_more d d"
  by (simp add: sends_more_def)

lemma sends_more_trans: "sends_more d d1 \<Longrightarrow> sends_more d1 d2 \<Longrightarrow> sends_more d d2"
  by (fastforce simp: sends_more_def)

lemma SendComputableTasks_more:
  assumes inv: "dispatcher_inv w ps sent d" and order: "iteration_ok order"
    and step: "SendComputableTasks w order d = Inr d'"
  shows "sends_more d d'"
proof -
  have inner: "(\<exists>s. dispatcher_inv w ps s d2) \<and> sends_more d d2"
    if d1: "(\<exists>s. dispatcher_inv w ps s d1) \<and> sends_more d d1" and send: "SendComputableTasksOf w order pid d1 = Inr d2" for pid d1 d2
  proof -
    obtain s where s: "dispatcher_inv w ps s d1" using d1 by blast
    obtain cd where cd: "map_of (problem_id_to_calculation_data d1) pid = Some cd"
      using send by (auto simp: SendComputableTasksOf_def bindE_eq_Inr um_at_def split: option.splits)
    let ?es = "order (computable_task_to_dependencies cd)"
    note calc = live_problem(1) [OF s cd]
    have "d2 = after_send w (ps ! unat pid) pid ?es (sent_data ?es cd) d1"
      using SendComputableTasksOf_eq [OF cd calc order] send by simp
    then have "sends_more d1 d2"
      using cd sent_data_sets [OF calc iteration_set [OF order]]
      by (auto simp: sends_more_def after_send_def put_calculation_data_def um_simps)
    with d1 dispatcher_inv_SendOf [OF s order cd send] show ?thesis
      using sends_more_trans by blast
  qed
  have "(\<exists>s. dispatcher_inv w ps s d') \<and> sends_more d d'"
    by (rule foldE_invariant [OF step [unfolded SendComputableTasks_def], where P = "\<lambda>x. (\<exists>s. dispatcher_inv w ps s x) \<and> sends_more d x"])
      (use inv sends_more_refl inner in blast)+
  then show ?thesis by blast
qed


section \<open>Handling an answer\<close>

lemma updated_sets:
  "completed_tasks (updated_data t cd) = insert t (completed_tasks cd)"
  "processing_tasks (updated_data t cd) = processing_tasks cd - {t}"
  using complete_task_sets [of t cd] by (simp_all add: updated_data_def completed_tasks_def processing_tasks_def)

lemma update_answer:
  assumes wire: "wire_ok w" and inv: "dispatcher_inv w ps sent d"
    and replies: "replies_in (broker_connection d) = ser_TaskId w i # rest"
    and cd: "map_of (problem_id_to_calculation_data d) (of_u32 (tid_problem i)) = Some cd"
  shows "unat (tid_task i) \<notin> completed_tasks cd \<union> processing_tasks cd \<Longrightarrow> UpdateComputableTasks w d = Inl OutOfRange"
    and "unat (tid_task i) \<in> completed_tasks cd \<union> processing_tasks cd \<Longrightarrow> \<exists>d' cd'. UpdateComputableTasks w d = Inr d' \<and>
      completed_tasks cd' = insert (unat (tid_task i)) (completed_tasks cd) \<and>
      processing_tasks cd' = processing_tasks cd - {unat (tid_task i)} \<and>
      map_of (problem_id_to_calculation_data d') =
        (map_of (problem_id_to_calculation_data d))(of_u32 (tid_problem i) \<mapsto> cd') \<and>
      map_of (problem_id_to_sync_data d') = (if unat (tid_task i) = root_task (ps ! unat (of_u32 (tid_problem i)))
        then (map_of (problem_id_to_sync_data d))(of_u32 (tid_problem i) \<mapsto> True) else map_of (problem_id_to_sync_data d)) \<and>
      replies_in (broker_connection d') = rest"
proof -
  let ?p = "of_u32 (tid_problem i)" and ?t = "unat (tid_task i)"
  let ?d = "d\<lparr>broker_connection := (broker_connection d)\<lparr>replies_in := rest\<rparr>\<rparr>"
  have inv': "dispatcher_inv w ps sent ?d" using inv dispatcher_inv_connection by simp
  have cd': "map_of (problem_id_to_calculation_data ?d) ?p = Some cd" using cd by simp
  note calc = live_problem(1) [OF inv' cd']
  have sync: "map_of (problem_id_to_sync_data ?d) ?p \<noteq> None"
    using dispatcher_invD(4) [OF inv' cd'] unfolding problem_inv_def by simp
  have step: "UpdateComputableTasks w d = (if ?t = root_task (ps ! unat ?p) then NotifyComputedProblem ?p ?t ?d
      else UpdateComputableTasksImpl ?p ?t ?d)"
    using cd wire_okD(2) [OF wire, of i] GetSortedTasks_back [OF calc_invD(1) [OF calc]]
    by (simp add: UpdateComputableTasks_def ReadReply_def replies um_at_def root_task_def Let_def)
  note eqs = step NotifyComputedProblem_eq [OF cd' sync] UpdateComputableTasksImpl_eq [OF cd' calc]
  show "UpdateComputableTasks w d = Inl OutOfRange" if "?t \<notin> completed_tasks cd \<union> processing_tasks cd"
    unfolding eqs using that by auto
  assume t: "?t \<in> completed_tasks cd \<union> processing_tasks cd"
  show "\<exists>d' cd'. UpdateComputableTasks w d = Inr d' \<and>
      completed_tasks cd' = insert ?t (completed_tasks cd) \<and> processing_tasks cd' = processing_tasks cd - {?t} \<and>
      map_of (problem_id_to_calculation_data d') = (map_of (problem_id_to_calculation_data d))(?p \<mapsto> cd') \<and>
      map_of (problem_id_to_sync_data d') = (if ?t = root_task (ps ! unat ?p)
        then (map_of (problem_id_to_sync_data d))(?p \<mapsto> True) else map_of (problem_id_to_sync_data d)) \<and>
      replies_in (broker_connection d') = rest"
  proof (cases "?t = root_task (ps ! unat ?p)")
    case True
    with t show ?thesis
      by (intro exI [of _ "(put_calculation_data ?p (complete_task ?t cd) ?d)
            \<lparr>problem_id_to_sync_data := um_put ?p True (problem_id_to_sync_data ?d)\<rparr>"] exI [of _ "complete_task ?t cd"])
        (simp add: eqs complete_task_sets put_calculation_data_def um_simps)
  next
    case False
    with t show ?thesis
      by (intro exI [of _ "put_calculation_data ?p (updated_data ?t cd) ?d"] exI [of _ "updated_data ?t cd"])
        (simp add: eqs updated_sets put_calculation_data_def um_simps)
  qed
qed

text \<open>An answer that has been handled was for an open problem, and its result is there.\<close>

lemma update_handled:
  assumes wire: "wire_ok w" and inv: "dispatcher_inv w ps sent d" and ok: "answers_ok w ps d db"
    and step: "UpdateComputableTasks w d = Inr d'" and some: "replies_in (broker_connection d) \<noteq> []"
  obtains i rest cd where "replies_in (broker_connection d) = ser_TaskId w i # rest"
    "map_of (problem_id_to_calculation_data d) (of_u32 (tid_problem i)) = Some cd"
    "unat (tid_task i) \<in> completed_tasks cd \<union> processing_tasks cd" "present (task_key i) db"
proof -
  obtain i rest where i: "replies_in (broker_connection d) = ser_TaskId w i # rest" "task_answered ps d db i"
    using some ok by (cases "replies_in (broker_connection d)") (auto simp: answers_ok_def answer_ok_def)
  moreover obtain cd where cd: "map_of (problem_id_to_calculation_data d) (of_u32 (tid_problem i)) = Some cd"
    using step i(1) wire_okD(2) [OF wire, of i]
    by (auto simp: UpdateComputableTasks_def ReadReply_def bindE_eq_Inr Let_def um_at_def split: option.splits)
  moreover have "unat (tid_task i) \<in> completed_tasks cd \<union> processing_tasks cd"
    using update_answer(1) [OF wire inv i(1) cd] step by fastforce
  moreover have "present (task_key i) db"
    using i(2) cd by (simp add: task_answered_def)
  ultimately show ?thesis using that by blast
qed

section \<open>Every run keeps it\<close>

lemma progress_inv_send:
  assumes "progress_inv ps d db" and "sends_more d d'" and "problem_id_to_sync_data d' = problem_id_to_sync_data d"
  shows "progress_inv ps d' db"
  unfolding progress_inv_def
proof (intro allI impI)
  fix pid cd' assume "map_of (problem_id_to_calculation_data d') pid = Some cd'"
  then obtain cd where cd: "map_of (problem_id_to_calculation_data d) pid = Some cd"
    "completed_tasks cd' = completed_tasks cd" "processing_tasks cd \<subseteq> processing_tasks cd'"
    using assms(2) unfolding sends_more_def by blast
  from progress_invD [OF assms(1) cd(1)] cd(2,3) assms(3)
  show "problem_progress ps (problem_id_to_sync_data d') db pid cd'"
    unfolding problem_progress_def by auto
qed

lemma progress_inv_update:
  assumes wire: "wire_ok w" and inv: "dispatcher_inv w ps sent d" and ok: "answers_ok w ps d db"
    and progress: "progress_inv ps d db" and step: "UpdateComputableTasks w d = Inr d'"
  shows "progress_inv ps d' db"
proof (cases "replies_in (broker_connection d)")
  case Nil
  with step have "d' = d" by (simp add: UpdateComputableTasks_def ReadReply_def)
  with progress show ?thesis by simp
next
  case (Cons m ms)
  then have "replies_in (broker_connection d) \<noteq> []" by simp
  then obtain i rest cd where i: "replies_in (broker_connection d) = ser_TaskId w i # rest"
    "map_of (problem_id_to_calculation_data d) (of_u32 (tid_problem i)) = Some cd"
    "unat (tid_task i) \<in> completed_tasks cd \<union> processing_tasks cd" and here: "present (task_key i) db"
    using update_handled [OF wire inv ok step] by blast
  let ?p = "of_u32 (tid_problem i)" and ?t = "unat (tid_task i)"
  obtain cd' where cd': "completed_tasks cd' = insert ?t (completed_tasks cd)"
    "processing_tasks cd' = processing_tasks cd - {?t}"
    and maps: "map_of (problem_id_to_calculation_data d') = (map_of (problem_id_to_calculation_data d))(?p \<mapsto> cd')"
      "map_of (problem_id_to_sync_data d') = (if ?t = root_task (ps ! unat ?p)
        then (map_of (problem_id_to_sync_data d))(?p \<mapsto> True) else map_of (problem_id_to_sync_data d))"
    using update_answer(2) [OF wire inv i] step by auto
  have key: "task_key i = key_of (unat ?p) ?t" by (simp add: task_key_def key_of_def)
  note old = progress_invD [OF progress]
  have "problem_progress ps (problem_id_to_sync_data d') db ?p cd'"
    using old [OF i(2)] here unfolding problem_progress_def cd' key maps(2) by auto
  moreover have "problem_progress ps (problem_id_to_sync_data d') db p c"
    if "p \<noteq> ?p" "map_of (problem_id_to_calculation_data d) p = Some c" for p c
    using old [OF that(2)] that(1) unfolding problem_progress_def maps(2) by simp
  ultimately show ?thesis unfolding progress_inv_def maps(1) by simp
qed


lemma work_present:
  assumes "db_served ser parse st" and "CalculateTask st task (q, db) = Inr (q', db')"
  shows "present k db' \<longleftrightarrow> k = task_key (tk_id (wt_task task)) \<or> present k db"
  using assms(2) by (auto simp: CalculateTask_eq [OF assms(1)] bindE_eq_Inr present_def try_write_tables split: if_splits)

lemma small_key:
  assumes "small_problems ps" and "p < length ps" and "t < length (records_of (ps ! p))"
  shows "p < 2 ^ 32" "t < 2 ^ 32"
  using assms by (auto simp: small_problems_def dest: bspec [OF _ nth_mem])

lemma progress_inv_work:
  assumes wire: "wire_ok w" and st: "db_served ser parse st" and inv: "dispatcher_inv w ps sent d"
    and small: "small_problems ps" and progress: "progress_inv ps d db"
    and m: "m \<in> set (requests_out (broker_connection d))" "parse_Task w m = Some task"
    and run: "CalculateTask st \<lparr>wt_identity = ident, wt_task = task\<rparr> (q, db) = Inr (q', db')"
  shows "progress_inv ps d db'"
proof -
  obtain pid t where sent: "(pid, t) \<in> set sent" and task: "task = request (ps ! unat pid) pid t"
    and p: "unat pid < length ps" "t < length (records_of (ps ! unat pid))"
    using task_of_request [OF wire inv m] by blast
  have "tk_id task = request_id pid t" by (simp add: task request_def)
  then have here: "present k db' \<longleftrightarrow> k = key_of (unat pid) t \<or> present k db" for k
    using work_present [OF st run] task_key_request [OF small_key(2) [OF small p]] by simp
  have "problem_progress ps (problem_id_to_sync_data d) db' pid' cd"
    if cd: "map_of (problem_id_to_calculation_data d) pid' = Some cd" for pid' cd
  proof -
    have "u \<in> completed_tasks cd \<union> processing_tasks cd"
      if u: "u < length (records_of (ps ! unat pid'))" "key_of (unat pid') u = key_of (unat pid) t" for u
    proof -
      have "unat pid' = unat pid \<and> u = t"
        using u(2) key_of_inject small_key [OF small p] small_key [OF small live_problem(2) [OF inv cd] u(1)] by blast
      then have "pid' = pid" "u = t" by (simp_all add: word_unat_eq_iff)
      then show ?thesis using live_problem(3) [OF inv cd, of t] sent by simp
    qed
    with progress_invD [OF progress cd] show ?thesis
      by (auto simp: problem_progress_def here)
  qed
  then show ?thesis by (simp add: progress_inv_def)
qed

lemma start_opened:
  assumes inv: "dispatcher_inv w ps sent d" and small: "length ps < 2 ^ 64"
    and topo: "\<And>e. wf_Expr e \<Longrightarrow> topological_sort_ok topo (graph_of (records_of e))"
    and step: "CalculateProblem_start topo (AST (Some e)) d = Inr (ids, d')"
  obtains cd where "map_of (problem_id_to_calculation_data d') = (map_of (problem_id_to_calculation_data d))(PROBLEM_ID d \<mapsto> cd)"
    "completed_tasks cd = {t. t < length (records_of e) \<and> is_leaf (records_of e ! t)}"
proof -
  have e: "wf_Expr e" "\<not> has_const e" using dispatcher_inv_new [OF inv small topo step] by blast+
  obtain cd where cd: "CalculationData_New topo (AST (Some e)) = Inr cd" 
    "completed_tasks cd = {t. t < length (records_of e) \<and> is_leaf (records_of e ! t)}"
    using CalculationData_New_inv [OF e(1) topo [OF e(1)] e(2)] by blast
  have d': "d' = snd (PushProblem cd d)"
    using step cd(1) by (auto simp: CalculateProblem_start_def bindE_eq_Inr Let_def split_beta)
  have "map_of (problem_id_to_calculation_data d) (PROBLEM_ID d) = None"
    using live_problem(2) [OF inv, of "PROBLEM_ID d"] start_effect(1) [OF inv small step]
    by (cases "map_of (problem_id_to_calculation_data d) (PROBLEM_ID d)") auto
  then have "map_of (problem_id_to_calculation_data d') = (map_of (problem_id_to_calculation_data d))(PROBLEM_ID d \<mapsto> cd)"
    using dispatcher_invD(2,3) [OF inv] by (simp add: d' PushProblem_def Let_def um_simps um_ok_def)
  with cd(2) show ?thesis using that by blast
qed

lemma fresh_key:
  assumes ok: "results_ok parse env ps db" and small: "small_problems (ps @ [e])" and t: "t < length (records_of e)"
  shows "\<not> present (key_of (length ps) t) db"
proof
  assume "present (key_of (length ps) t) db"
  then obtain p u where p: "p < length ps" "u < length (records_of (ps ! p))" "key_of (length ps) t = key_of p u"
    using ok unfolding results_ok_def present_def by blast
  have new: "length ps < 2 ^ 32" "t < 2 ^ 32"
    using small_key [OF small, of "length ps" t] t by simp_all
  have "length ps = p"
    using p(3) key_of_inject [OF new(1) small_key(1) [OF small_problems_prefix [OF small] p(1,2)] new(2)
        small_key(2) [OF small_problems_prefix [OF small] p(1,2)]] by blast
  with p(1) show False by simp
qed

lemma progress_inv_new:
  assumes inv: "dispatcher_inv w ps sent d" and small: "small_problems (ps @ [e])"
    and topo: "\<And>e. wf_Expr e \<Longrightarrow> topological_sort_ok topo (graph_of (records_of e))"
    and ok: "results_ok parse env ps db" and progress: "progress_inv ps d db"
    and step: "CalculateProblem_start topo (AST (Some e)) d = Inr (ids, d')"
  shows "progress_inv (ps @ [e]) d' db"
proof -
  note len = small_problems_length [OF small_problems_prefix [OF small]]
  note effect = start_effect [OF inv len step]
  have wf: "wf_Expr e" using dispatcher_inv_new [OF inv len topo step] by blast
  obtain cd where calc: "map_of (problem_id_to_calculation_data d') = (map_of (problem_id_to_calculation_data d))(PROBLEM_ID d \<mapsto> cd)"
    and leaves: "completed_tasks cd = {t. t < length (records_of e) \<and> is_leaf (records_of e ! t)}"
    using start_opened [OF inv len topo step] by blast
  have new: "problem_progress (ps @ [e]) (problem_id_to_sync_data d') db (PROBLEM_ID d) cd"
    unfolding problem_progress_def effect(1) leaves root_task_def
    using fresh_key [OF ok small] records_root [OF wf] by auto
  have old: "problem_progress (ps @ [e]) (problem_id_to_sync_data d') db p c"
    if "p \<noteq> PROBLEM_ID d" "map_of (problem_id_to_calculation_data d) p = Some c" for p c
    using progress_invD [OF progress that(2)] live_problem(2) [OF inv that(2)] that(1)
    by (simp add: problem_progress_def nth_append effect(3))
  show ?thesis unfolding progress_inv_def calc using new old by simp
qed

lemma progress_inv_finish:
  assumes st: "db_served ser parse st" and inv: "dispatcher_inv w ps sent d" and small: "small_problems ps"
    and progress: "progress_inv ps d db" and pid: "unat pid < length ps"
    and step: "CalculateProblem_finish st pid t (d, db) = (r, d', db')"
  shows "progress_inv ps d' db'"
  unfolding progress_inv_def
proof (intro allI impI)
  fix p c assume p: "map_of (problem_id_to_calculation_data d') p = Some c"
  note effect = finish_tables [OF st step]
  have ne: "p \<noteq> pid" and old: "map_of (problem_id_to_calculation_data d) p = Some c"
    and sync: "map_of (problem_id_to_sync_data d') p = map_of (problem_id_to_sync_data d) p"
    using p by (auto simp: effect(1) ClearProblem_def um_simps split: if_splits)
  have "fst (key_of (unat p) u) \<noteq> to_u32 pid" for u
    using key_of_other [OF _ live_problem(2) [OF inv old] pid ne] small by (simp add: small_problems_def)
  then have "present (key_of (unat p) u) db' \<longleftrightarrow> present (key_of (unat p) u) db" for u
    using effect(4) by (simp add: present_def)
  with progress_invD [OF progress old] sync show "problem_progress ps (problem_id_to_sync_data d') db' p c"
    by (simp add: problem_progress_def)
qed


lemma progress_inv_run:
  assumes topo: "\<And>e. wf_Expr e \<Longrightarrow> topological_sort_ok topo (graph_of (records_of e))" and order: "iteration_ok order"
    and wire: "wire_ok w" and st: "db_served ser parse st" and codec: "field_codec_ok ser parse"
    and fresh: "dynamic_data db0 = Map.empty"
    and run: "system_run w st topo order db0 ps d db" and small: "small_problems ps"
  shows "progress_inv ps d db"
proof -
  have inv: "system_inv w parse st db0 ps d db \<and> (\<exists>sent. dispatcher_inv w ps sent d)"
    if "system_run w st topo order db0 ps d db" "small_problems ps" for ps d db
    using system_inv_run [OF topo order wire st codec fresh that] .
  show ?thesis using run small
  proof (induction rule: system_run.induct)
    case start
    show ?case by (simp add: progress_inv_def Dispatcher_New_def)
  next
    case (new_problem ps d db e ids d')
    note small = small_problems_prefix [OF new_problem.prems]
    obtain sent where "dispatcher_inv w ps sent d" and "system_inv w parse st db0 ps d db"
      using inv [OF new_problem.hyps(1) small] by blast
    then show ?case
      using progress_inv_new [OF _ new_problem.prems topo _ new_problem.IH [OF small] new_problem.hyps(2)]
        system_invD(2) by blast
  next
    case (send ps d db d')
    then show ?case
      using inv [OF send.hyps(1) send.prems] SendComputableTasks_more [OF _ order send.hyps(2)]
        SendComputableTasks_frame [OF send.hyps(2)] progress_inv_send
      unfolding same_problems_def by blast
  next
    case (work ps d db m task ident q q' db')
    then show ?case
      using inv [OF work.hyps(1) work.prems] progress_inv_work [OF wire st] by blast
  next
    case (answer ps d db i)
    then show ?case by (simp add: progress_inv_def)
  next
    case (update ps d db d')
    then show ?case
      using inv [OF update.hyps(1) update.prems] progress_inv_update [OF wire] system_invD(3) by blast
  next
    case (finish ps d db pid r d' db')
    obtain sent where sent: "dispatcher_inv w ps sent d" using inv [OF finish.hyps(1) finish.prems] by blast
    show ?case
      by (rule progress_inv_finish [OF st sent finish.prems finish.IH [OF finish.prems]
            ready_open(2) [OF sent finish.hyps(2)] finish.hyps(3)])
  qed
qed

section \<open>A task being processed can be computed\<close>

lemma eval_operands:
  assumes "wf_Expr e" and "eval env e = Inr v" and "x \<in> set (operands e)"
  shows "\<exists>u. eval env x = Inr u"
proof (cases "is_leaf e")
  case False
  obtain vs where vs: "mapE (eval env) (operands e) = Inr vs"
    using CalculateTaskImpl_eval [OF assms(1) False, of env] assms(2) by (auto simp: bindE_eq_Inr)
  obtain i where "i < length (operands e)" "operands e ! i = x" using assms(3) by (auto simp: in_set_conv_nth)
  with mapE_nth [OF vs] show ?thesis by blast
qed (use assms(3) leaf_operands in auto)

lemma eval_records:
  assumes "wf_Expr e" and "eval env e = Inr v" and "x \<in> set (records_of e)"
  shows "\<exists>u. eval env x = Inr u"
  using assms
proof (induction e arbitrary: v rule: measure_induct_rule [of size])
  case (less e)
  show ?case
  proof (cases "x = e")
    case False
    then obtain a where a: "a \<in> set (operands e)" "x \<in> set (postorder a)"
      using less.prems(1,3) by (auto simp: postorder_rec)
    then obtain u where "eval env a = Inr u" using eval_operands [OF less.prems(1,2)] by blast
    with less.IH [of a] a less.prems(1) operands_size wf_operands show ?thesis by simp
  qed (use less.prems(2) in blast)
qed

text \<open>An operand has its value in the static data, or in the database once its task is completed.\<close>

lemma operand_available:
  assumes ok: "results_ok parse env ps db" and st: "db_served ser parse st" and small: "small_problems ps"
    and p: "unat pid < length ps" and wf: "wf_Expr (ps ! unat pid)" and const: "\<not> has_const (ps ! unat pid)"
    and t: "t < length (records_of (ps ! unat pid))" and x: "x \<in> set (operands (records_of (ps ! unat pid) ! t))"
    and env: "env = env_of st db" and v: "eval env x = Inr v"
    and here: "\<not> is_leaf x \<Longrightarrow> present (key_of (unat pid) (index_of (records_of (ps ! unat pid)) x)) db"
  shows "operand_value st db (request_operand (ps ! unat pid) pid x) = Inr v"
proof (cases "is_leaf x")
  case True
  have "x \<in> set (records_of (ps ! unat pid))"
    using operand_index [OF wf t x] by (metis nth_mem)
  then have "GetType x \<noteq> scalar_const" using const by (auto simp: has_const_def)
  with True v show ?thesis
    by (cases x) (auto simp: request_operand_def operand_value_def lookup_var_def env env_of_def split: sum.splits)
next
  case False
  let ?u = "index_of (records_of (ps ! unat pid)) x"
  note u = operand_index [OF wf t x]
  obtain b where b: "dynamic_data db (key_of (unat pid) ?u) = Some b"
    using here [OF False] by (auto simp: present_def)
  then obtain w where w: "parse b = (True, ExprResult_to_Field w)"
    using ok unfolding results_ok_def by blast
  note key = task_key_request [OF small_key(2) [OF small p u(1)], of pid]
  have rd: "operand_value st db (DynOperand (request_id pid ?u)) = Inr w"
    using b w key by (simp add: operand_value_def Client_ReadData_served [OF db_servedD(2) [OF st]]
        RecordIdVisitor_def ReadDataImpl_def task_key_def)
  then have "eval env (records_of (ps ! unat pid) ! ?u) = Inr w"
    using results_read [OF ok st small p u(1), of "of_u32 (tid_problem (request_id pid ?u))"
        "of_u32 (tid_task (request_id pid ?u))" w] key by (simp add: operand_value_def task_key_def)
  then have "w = v" using u(2) v by simp
  with rd False show ?thesis by (cases x) (simp_all add: request_operand_def)
qed

lemma task_computable:
  assumes inv: "system_inv w parse st db0 ps d db" and disp: "dispatcher_inv w ps sent d"
    and st: "db_served ser parse st" and small: "small_problems ps" and progress: "progress_inv ps d db"
    and cd: "map_of (problem_id_to_calculation_data d) pid = Some cd"
    and v: "eval (env_of st db0) (ps ! unat pid) = Inr v" and t: "t \<in> processing_tasks cd"
  shows "\<exists>r. task_result st db (request (ps ! unat pid) pid t) = Inr r"
proof -
  let ?e = "ps ! unat pid" and ?env = "env_of st db0"
  let ?x = "records_of ?e ! t"
  note p = live_problem(2) [OF disp cd] and calc = live_problem(1) [OF disp cd]
  note dec = calc_invD(1) [OF calc] and sched = calc_invD(6) [OF calc]
  have t': "t < length (records_of ?e)" "\<not> is_leaf ?x"
    using live_problem(4) [OF disp cd t] dispatcher_invD(5) [OF disp] by (auto simp: sent_ok_def)
  have wf: "wf_Expr ?e" by (rule system_invD(4) [OF inv nth_mem [OF p]])
  note wfx = records_of_wf [OF wf nth_mem [OF t'(1)]]
  have env: "?env = env_of st db" using env_of_static [OF st] system_invD(1) [OF inv] by metis
  define val where "val x = projr (eval ?env x)" for x
  obtain u where u: "eval ?env ?x = Inr u" using eval_records [OF wf v nth_mem [OF t'(1)]] by blast
  have val: "eval ?env x = Inr (val x)" if "x \<in> set (operands ?x)" for x
    using eval_operands [OF wfx u that] by (auto simp: val_def)
  have "operand_value st db (request_operand ?e pid x) = Inr (val x)" if x: "x \<in> set (operands ?x)" for x
  proof (rule operand_available [OF system_invD(2) [OF inv] st small p wf calc_invD(2) [OF calc] t'(1) x env val [OF x]])
    let ?u = "index_of (records_of ?e) x"
    assume "\<not> is_leaf x"
    moreover have "?u \<in> completed_tasks cd"
      using decomp.scheduleD(5) [OF sched, of t] t x decomposes_adjacent [OF dec t'(1)] by auto
    ultimately show "present (key_of (unat pid) ?u) db"
      using problem_progressD(1) [OF progress_invD [OF progress cd]] operand_index [OF wf t'(1) x] by simp
  qed
  then have "mapE (\<lambda>x. operand_value st db (request_operand ?e pid x)) (operands ?x) = Inr (map val (operands ?x))"
    by (rule mapE_total)
  moreover have "mapE (eval ?env) (operands ?x) = Inr (map val (operands ?x))"
    using val by (rule mapE_total)
  ultimately show ?thesis
    using CalculateTaskImpl_eval [OF wfx t'(2), of ?env] u ExprType_to_nat_less [of "GetType ?x"]
    by (simp add: task_result_def request_def mapE_map unat_of_nat take_bit_nat_eq_self)
qed


section \<open>From any state to the end of a problem\<close>

text \<open>What the program relies on: the topological sort, the iteration order of a map, the formats and the database.\<close>

definition contracts ::
  "Wire \<Rightarrow> (Field \<Rightarrow> bytes) \<Rightarrow> (bytes \<Rightarrow> bool \<times> Field) \<Rightarrow> DbStubs \<Rightarrow> (Graph \<Rightarrow> nat list res) \<Rightarrow>
   ((nat \<times> nat list) list \<Rightarrow> (nat \<times> nat list) list) \<Rightarrow> Tables \<Rightarrow> bool" where
  "contracts w ser parse st topo order db0 \<longleftrightarrow>
     (\<forall>e. wf_Expr e \<longrightarrow> topological_sort_ok topo (graph_of (records_of e))) \<and> iteration_ok order \<and>
     wire_ok w \<and> db_served ser parse st \<and> field_codec_ok ser parse \<and> dynamic_data db0 = Map.empty"

lemma contractsD:
  assumes "contracts w ser parse st topo order db0"
  shows "wf_Expr e \<Longrightarrow> topological_sort_ok topo (graph_of (records_of e))" "iteration_ok order"
    "wire_ok w" "db_served ser parse st" "field_codec_ok ser parse" "dynamic_data db0 = Map.empty"
  using assms by (simp_all add: contracts_def)

text \<open>No answer is on its way for a problem that is closed; one that is would end the dispatcher.\<close>

definition answers_open :: "Wire \<Rightarrow> Dispatcher \<Rightarrow> bool" where
  "answers_open w d \<longleftrightarrow> (\<forall>i. ser_TaskId w i \<in> set (replies_in (broker_connection d)) \<longrightarrow>
     map_of (problem_id_to_calculation_data d) (of_u32 (tid_problem i)) \<noteq> None)"

text \<open>A caller waits for a problem that has the value \<open>v\<close>.\<close>

definition waiting ::
  "Wire \<Rightarrow> (Field \<Rightarrow> bytes) \<Rightarrow> (bytes \<Rightarrow> bool \<times> Field) \<Rightarrow> DbStubs \<Rightarrow> (Graph \<Rightarrow> nat list res) \<Rightarrow>
   ((nat \<times> nat list) list \<Rightarrow> (nat \<times> nat list) list) \<Rightarrow> Tables \<Rightarrow> Expr list \<Rightarrow> size_t \<Rightarrow> ExprResult \<Rightarrow>
   Dispatcher \<times> Tables \<Rightarrow> bool" where
  "waiting w ser parse st topo order db0 ps pid v s \<longleftrightarrow> contracts w ser parse st topo order db0 \<and> small_problems ps \<and>
     system_run w st topo order db0 ps (fst s) (snd s) \<and> answers_open w (fst s) \<and>
     map_of (problem_id_to_calculation_data (fst s)) pid \<noteq> None \<and>
     \<not> is_leaf (ps ! unat pid) \<and> eval (env_of st db0) (ps ! unat pid) = Inr v"

definition unanswered :: "Dispatcher \<times> Tables \<Rightarrow> nat" where
  "unanswered s = length (replies_in (broker_connection (fst s)))"

definition uncompleted :: "Expr list \<Rightarrow> size_t \<Rightarrow> Dispatcher \<times> Tables \<Rightarrow> nat" where
  "uncompleted ps pid s = (case map_of (problem_id_to_calculation_data (fst s)) pid of None \<Rightarrow> 0
     | Some cd \<Rightarrow> card ({0..<length (records_of (ps ! unat pid))} - completed_tasks cd))"

lemma waitingD:
  assumes "waiting w ser parse st topo order db0 ps pid v (d, db)"
  obtains sent where "contracts w ser parse st topo order db0" "small_problems ps" "answers_open w d"
    "system_run w st topo order db0 ps d db" "system_inv w parse st db0 ps d db" "dispatcher_inv w ps sent d"
    "progress_inv ps d db" "map_of (problem_id_to_calculation_data d) pid \<noteq> None"
    "\<not> is_leaf (ps ! unat pid)" "eval (env_of st db0) (ps ! unat pid) = Inr v"
proof -
  have w: "contracts w ser parse st topo order db0" "small_problems ps" "system_run w st topo order db0 ps d db"
    and rest: "answers_open w d" "map_of (problem_id_to_calculation_data d) pid \<noteq> None"
      "\<not> is_leaf (ps ! unat pid)" "eval (env_of st db0) (ps ! unat pid) = Inr v"
    using assms by (simp_all add: waiting_def)
  obtain sent where "system_inv w parse st db0 ps d db" "dispatcher_inv w ps sent d"
    using system_inv_run [OF contractsD [OF w(1)] w(3,2)] by blast
  moreover have "progress_inv ps d db"
    by (rule progress_inv_run [OF contractsD [OF w(1)] w(3,2)])
  ultimately show ?thesis using that w rest by blast
qed

lemma waiting_step:
  assumes "waiting w ser parse st topo order db0 ps pid v s" and "(own_step w st order ps)\<^sup>*\<^sup>* s s'"
    and "answers_open w (fst s')" and "map_of (problem_id_to_calculation_data (fst s')) pid \<noteq> None"
  shows "waiting w ser parse st topo order db0 ps pid v s'"
  using assms own_steps_run [OF assms(2)] by (simp add: waiting_def)

text \<open>The result that an answer for an open problem names belongs to a task that has been sent.\<close>

lemma answered_sent:
  assumes ok: "results_ok parse env ps db" and small: "small_problems ps" and progress: "progress_inv ps d db"
    and cd: "map_of (problem_id_to_calculation_data d) (of_u32 (tid_problem i)) = Some cd"
    and here: "present (task_key i) db"
  shows "unat (tid_task i) \<in> completed_tasks cd \<union> processing_tasks cd"
proof -
  obtain p t where p: "p < length ps" "t < length (records_of (ps ! p))" "task_key i = key_of p t"
    using ok here unfolding results_ok_def present_def by blast
  then have eq: "unat (tid_problem i) = p" "unat (tid_task i) = t"
    using small_key [OF small p(1,2)] by (auto simp: task_key_def key_of_def unat_of_nat take_bit_nat_eq_self)
  show ?thesis
    using problem_progressD(2) [OF progress_invD [OF progress cd], of t] p here by (simp add: eq)
qed

lemma draining_advance:
  assumes "waiting w ser parse st topo order db0 ps pid v s" and "unanswered s \<noteq> 0"
  shows "\<exists>s'. (own_step w st order ps)\<^sup>*\<^sup>* s s' \<and> waiting w ser parse st topo order db0 ps pid v s' \<and>
    (unanswered s' = 0 \<or> unanswered s' < unanswered s)"
proof -
  obtain d db where s: "s = (d, db)" by (cases s)
  obtain sent where c: "contracts w ser parse st topo order db0" and small: "small_problems ps" and open_d: "answers_open w d"
    and inv: "system_inv w parse st db0 ps d db" and disp: "dispatcher_inv w ps sent d" and progress: "progress_inv ps d db"
    and pid: "map_of (problem_id_to_calculation_data d) pid \<noteq> None"
    using waitingD [OF assms(1) [unfolded s]] by blast
  obtain i rest where i: "replies_in (broker_connection d) = ser_TaskId w i # rest" "task_answered ps d db i"
    using assms(2) system_invD(3) [OF inv]
    by (cases "replies_in (broker_connection d)") (auto simp: s unanswered_def answers_ok_def answer_ok_def)
  obtain cd where cd: "map_of (problem_id_to_calculation_data d) (of_u32 (tid_problem i)) = Some cd"
    using open_d i(1) by (fastforce simp: answers_open_def)
  have "unat (tid_task i) \<in> completed_tasks cd \<union> processing_tasks cd"
    using answered_sent [OF system_invD(2) [OF inv] small progress cd] i(2) cd by (simp add: task_answered_def)
  from update_answer(2) [OF contractsD(3) [OF c] disp i(1) cd this] obtain d' cd' where
    d': "UpdateComputableTasks w d = Inr d'" "replies_in (broker_connection d') = rest"
      "map_of (problem_id_to_calculation_data d') = (map_of (problem_id_to_calculation_data d))(of_u32 (tid_problem i) \<mapsto> cd')"
    by blast
  have step: "(own_step w st order ps)\<^sup>*\<^sup>* s (d', db)"
    unfolding s using own_step.update [OF d'(1)] by (rule r_into_rtranclp)
  moreover have "waiting w ser parse st topo order db0 ps pid v (d', db)"
    by (rule waiting_step [OF assms(1) step])
      (use open_d pid in \<open>auto simp: answers_open_def i(1) d'(2,3)\<close>)
  moreover have "unanswered (d', db) < unanswered s" by (simp add: s unanswered_def d'(2) i(1))
  ultimately show ?thesis by blast
qed

interpretation draining: convergence "own_step w st order ps" "waiting w ser parse st topo order db0 ps pid v"
    "\<lambda>s. unanswered s = 0" unanswered for w ser parse st topo order db0 ps pid v
  by unfold_locales (rule draining_advance)


text \<open>One round: send what can be sent, compute a task that is being processed, answer, take the answer.\<close>

lemma request_id_back:
  assumes "small_problems ps" and "unat pid < length ps" and "t < length (records_of (ps ! unat pid))"
  shows "of_u32 (tid_problem (request_id pid t)) = pid" "unat (tid_task (request_id pid t)) = t"
proof -
  note small = small_key [OF assms]
  show "of_u32 (tid_problem (request_id pid t)) = pid"
    using small(1) by (simp add: request_id_def word_unat_eq_iff unat_to_u32)
  show "unat (tid_task (request_id pid t)) = t"
    using small(2) by (simp add: request_id_def unat_to_u32 unat_of_nat take_bit_nat_eq_self)
qed

lemma not_ready_root:
  assumes "progress_inv ps d db" and "dispatcher_inv w ps sent d" and "\<not> is_leaf (ps ! unat pid)"
    and "CalculateProblem_ready pid d \<noteq> Inr True" and "map_of (problem_id_to_calculation_data d) pid = Some cd"
  shows "root_task (ps ! unat pid) \<notin> completed_tasks cd"
  using problem_progressD(3) [OF progress_invD [OF assms(1,5)] assms(3)] assms(4)
  by (auto simp: CalculateProblem_ready_def um_at_def)

lemma processing_task:
  assumes disp: "dispatcher_inv w ps sent d" and cd: "map_of (problem_id_to_calculation_data d) pid = Some cd"
    and none: "computable_task_to_dependencies cd = []" and root: "root_task (ps ! unat pid) \<notin> completed_tasks cd"
  obtains t where "t \<in> processing_tasks cd" "t \<notin> completed_tasks cd" "t < length (records_of (ps ! unat pid))"
    "ser_Task w (request (ps ! unat pid) pid t) \<in> set (requests_out (broker_connection d))"
proof -
  note calc = live_problem(1) [OF disp cd]
  note sched = calc_invD(6) [OF calc]
  have "root_task (ps ! unat pid) \<in> set (td_tasks (decompositor cd))"
    using decomposes_tasks [OF calc_invD(1) [OF calc]] by (simp add: root_task_def)
  from decomp.schedule_progress [OF sched this root] none obtain t where t: "t \<in> processing_tasks cd" by blast
  moreover have "t \<notin> completed_tasks cd" using decomp.scheduleD(4) [OF sched] t by blast
  moreover have "t < length (records_of (ps ! unat pid)) \<and>
      ser_Task w (request (ps ! unat pid) pid t) \<in> set (requests_out (broker_connection d))"
    using dispatcher_invD(5) [OF disp] live_problem(4) [OF disp cd t] by (force simp: sent_ok_def)
  ultimately show ?thesis using that by blast
qed

text \<open>A task that is being processed is computed and its answer taken.\<close>

lemma task_round:
  assumes wait: "waiting w ser parse st topo order db0 ps pid v (d, db)" and empty_inbox: "unanswered (d, db) = 0"
    and cd: "map_of (problem_id_to_calculation_data d) pid = Some cd"
    and t: "t \<in> processing_tasks cd" "t < length (records_of (ps ! unat pid))"
    and sent: "ser_Task w (request (ps ! unat pid) pid t) \<in> set (requests_out (broker_connection d))"
  shows "\<exists>s'. (own_step w st order ps)\<^sup>*\<^sup>* (d, db) s' \<and> waiting w ser parse st topo order db0 ps pid v s' \<and> unanswered s' = 0 \<and>
    (\<exists>cd'. map_of (problem_id_to_calculation_data (fst s')) pid = Some cd' \<and> completed_tasks cd' = insert t (completed_tasks cd))"
proof -
  let ?task = "request (ps ! unat pid) pid t" and ?i = "request_id pid t"
  obtain ids where c: "contracts w ser parse st topo order db0" and small: "small_problems ps"
    and inv: "system_inv w parse st db0 ps d db" and disp: "dispatcher_inv w ps ids d" and progress: "progress_inv ps d db"
    and v: "eval (env_of st db0) (ps ! unat pid) = Inr v"
    using waitingD [OF wait] by blast
  note wire = contractsD(3) [OF c] and st = contractsD(4) [OF c]
  note ids_eq = request_id_back [OF small live_problem(2) [OF disp cd] t(2)]
  obtain r where "task_result st db ?task = Inr r"
    using task_computable [OF inv disp st small progress cd v t(1)] by blast
  then obtain db1 where run: "CalculateTask st \<lparr>wt_identity = [], wt_task = ?task\<rparr> ([], db) =
      Inr ([answer_of \<lparr>wt_identity = [], wt_task = ?task\<rparr>], db1)"
    by (simp add: CalculateTask_eq [OF st])
  have "present (task_key ?i) db1" using work_present [OF st run] by (simp add: request_def)
  then have answered: "task_answered ps d db1 ?i" by (simp add: task_answered_def)
  have replies: "replies_in (broker_connection d) = []" using empty_inbox by (simp add: unanswered_def)
  let ?d1 = "d\<lparr>broker_connection := (broker_connection d)\<lparr>replies_in := replies_in (broker_connection d) @ [ser_TaskId w ?i]\<rparr>\<rparr>"
  have disp1: "dispatcher_inv w ps ids ?d1" using disp dispatcher_inv_connection by simp
  obtain d2 cd' where d2: "UpdateComputableTasks w ?d1 = Inr d2" "completed_tasks cd' = insert t (completed_tasks cd)"
    "map_of (problem_id_to_calculation_data d2) = (map_of (problem_id_to_calculation_data d))(pid \<mapsto> cd')"
    "replies_in (broker_connection d2) = []"
    using update_answer(2) [OF wire disp1, of ?i "[]" cd] cd t(1) unfolding ids_eq by (auto simp: replies)
  have parse: "parse_Task w (ser_Task w ?task) = Some ?task"
    using wire by (simp add: wire_ok_def codec_ok_def)
  have steps: "(own_step w st order ps)\<^sup>*\<^sup>* (d, db) (d2, db1)"
    using own_step.work [OF sent parse run, of order ps] own_step.answer [OF answered, of w st order]
      own_step.update [OF d2(1), of st order ps db1] by (meson r_into_rtranclp rtranclp_trans)
  moreover have "waiting w ser parse st topo order db0 ps pid v (d2, db1)"
    by (rule waiting_step [OF wait steps]) (simp_all add: answers_open_def d2(3,4))
  ultimately show ?thesis
    using d2(2-4) by (intro exI [of _ "(d2, db1)"]) (simp add: unanswered_def)
qed

text \<open>Sending leaves nothing that could be sent.\<close>

lemma send_round:
  assumes wait: "waiting w ser parse st topo order db0 ps pid v (d, db)" and empty_inbox: "unanswered (d, db) = 0"
    and cd: "map_of (problem_id_to_calculation_data d) pid = Some cd"
  obtains d' cd' where "own_step w st order ps (d, db) (d', db)" "waiting w ser parse st topo order db0 ps pid v (d', db)"
    "unanswered (d', db) = 0" "problem_id_to_sync_data d' = problem_id_to_sync_data d"
    "map_of (problem_id_to_calculation_data d') pid = Some cd'" "completed_tasks cd' = completed_tasks cd"
    "computable_task_to_dependencies cd' = []"
proof -
  obtain ids where c: "contracts w ser parse st topo order db0" and disp: "dispatcher_inv w ps ids d"
    using waitingD [OF wait] by blast
  note order = contractsD(2) [OF c]
  obtain d' where d': "SendComputableTasks w order d = Inr d'"
    "\<And>p c. map_of (problem_id_to_calculation_data d') p = Some c \<Longrightarrow> computable_task_to_dependencies c = []"
    using dispatcher_inv_send [OF disp order] by blast
  note same = SendComputableTasks_frame [OF d'(1), unfolded same_problems_def]
  then have "map_of (problem_id_to_calculation_data d') pid \<noteq> None"
    using cd by (metis um_contains_def um_contains_iff option.distinct(1))
  then obtain cd' where cd': "map_of (problem_id_to_calculation_data d') pid = Some cd'" by blast
  moreover have "completed_tasks cd' = completed_tasks cd"
    using SendComputableTasks_more [OF disp order d'(1)] cd cd' unfolding sends_more_def by fastforce
  moreover have step: "own_step w st order ps (d, db) (d', db)" by (rule own_step.send [OF d'(1)])
  moreover have empty': "unanswered (d', db) = 0" using empty_inbox same by (simp add: unanswered_def)
  moreover have "waiting w ser parse st topo order db0 ps pid v (d', db)"
    by (rule waiting_step [OF wait]) (use r_into_rtranclp [of "own_step w st order ps", OF step] in simp,
      use empty' cd' in \<open>simp_all add: unanswered_def answers_open_def\<close>)
  ultimately show ?thesis using that d'(2) same by blast
qed

lemma finishing_advance:
  assumes good: "waiting w ser parse st topo order db0 ps pid v s \<and> unanswered s = 0"
    and unready: "CalculateProblem_ready pid (fst s) \<noteq> Inr True"
  shows "\<exists>s'. (own_step w st order ps)\<^sup>*\<^sup>* s s' \<and> (waiting w ser parse st topo order db0 ps pid v s' \<and> unanswered s' = 0) \<and>
    (CalculateProblem_ready pid (fst s') = Inr True \<or> uncompleted ps pid s' < uncompleted ps pid s)"
proof -
  obtain d db where s: "s = (d, db)" by (cases s)
  have wait: "waiting w ser parse st topo order db0 ps pid v (d, db)" and empty_inbox: "unanswered (d, db) = 0"
    using good by (simp_all add: s)
  obtain cd where cd: "map_of (problem_id_to_calculation_data d) pid = Some cd"
    using wait by (auto simp: waiting_def)
  obtain d1 cd1 where step1: "own_step w st order ps (d, db) (d1, db)"
    and wait1: "waiting w ser parse st topo order db0 ps pid v (d1, db)" "unanswered (d1, db) = 0"
    and d1: "problem_id_to_sync_data d1 = problem_id_to_sync_data d" "map_of (problem_id_to_calculation_data d1) pid = Some cd1"
      "completed_tasks cd1 = completed_tasks cd" "computable_task_to_dependencies cd1 = []"
    using send_round [OF wait empty_inbox cd] by blast
  obtain ids where disp: "dispatcher_inv w ps ids d1" and progress: "progress_inv ps d1 db" and leaf: "\<not> is_leaf (ps ! unat pid)"
    using waitingD [OF wait1(1)] by blast
  have "CalculateProblem_ready pid d1 \<noteq> Inr True"
    using unready by (simp add: s CalculateProblem_ready_def d1(1))
  note root = not_ready_root [OF progress disp leaf this d1(2)]
  obtain t where t: "t \<in> processing_tasks cd1" "t \<notin> completed_tasks cd1" "t < length (records_of (ps ! unat pid))"
    and sent: "ser_Task w (request (ps ! unat pid) pid t) \<in> set (requests_out (broker_connection d1))"
    using processing_task [OF disp d1(2,4) root] by blast
  obtain s' cd' where s': "(own_step w st order ps)\<^sup>*\<^sup>* (d1, db) s'" "waiting w ser parse st topo order db0 ps pid v s'"
    "unanswered s' = 0" "map_of (problem_id_to_calculation_data (fst s')) pid = Some cd'"
    "completed_tasks cd' = insert t (completed_tasks cd)"
    using task_round [OF wait1 d1(2) t(1,3) sent] d1(3) by auto
  let ?n = "length (records_of (ps ! unat pid))"
  have "{0..<?n} - insert t (completed_tasks cd) \<subset> {0..<?n} - completed_tasks cd"
    using t(2,3) d1(3) by auto
  then have "uncompleted ps pid s' < uncompleted ps pid s"
    by (simp add: uncompleted_def s cd s'(4,5) psubset_card_mono del: Diff_insert)
  then show ?thesis
    using s' converse_rtranclp_into_rtranclp [OF step1 s'(1)] unfolding s by blast
qed

interpretation finishing: convergence "own_step w st order ps"
    "\<lambda>s. waiting w ser parse st topo order db0 ps pid v s \<and> unanswered s = 0"
    "\<lambda>s. CalculateProblem_ready pid (fst s) = Inr True" "uncompleted ps pid" for w ser parse st topo order db0 ps pid v
  by unfold_locales (rule finishing_advance)


section \<open>Properties\<close>

text \<open>
  C2. Every problem can be finished: at any point of any run, as long as no answer is on its way
  for a problem that is closed, an open problem that is an operation and has a value can be
  brought to its end by the system's own steps, and its caller then returns that value. No
  interleaving of other problems, repeated computations or repeated answers can prevent it.
\<close>

theorem problem_can_finish:
  assumes topo: "\<And>e. wf_Expr e \<Longrightarrow> topological_sort_ok topo (graph_of (records_of e))" and order: "iteration_ok order"
    and wire: "wire_ok w" and st: "db_served ser parse st" and codec: "field_codec_ok ser parse"
    and fresh: "dynamic_data db0 = Map.empty"
    and run: "system_run w st topo order db0 ps d db" and small: "small_problems ps"
    and pid: "map_of (problem_id_to_calculation_data d) pid \<noteq> None" and answers: "answers_open w d"
    and op: "\<not> is_leaf (ps ! unat pid)" and v: "eval (env_of st db0) (ps ! unat pid) = Inr v"
  shows "\<exists>d' db' d'' db''. (own_step w st order ps)\<^sup>*\<^sup>* (d, db) (d', db') \<and> CalculateProblem_ready pid d' = Inr True \<and>
    CalculateProblem_finish st pid (root_task (ps ! unat pid)) (d', db') = (Inr v, d'', db'')"
proof -
  have c: "contracts w ser parse st topo order db0"
    using topo order wire st codec fresh by (simp add: contracts_def)
  have "waiting w ser parse st topo order db0 ps pid v (d, db)"
    using c run small pid answers op v by (simp add: waiting_def)
  then obtain s1 where s1: "(own_step w st order ps)\<^sup>*\<^sup>* (d, db) s1"
    "waiting w ser parse st topo order db0 ps pid v s1 \<and> unanswered s1 = 0"
    using draining.converges by blast
  then obtain d' db' where s2: "(own_step w st order ps)\<^sup>*\<^sup>* s1 (d', db')"
    "waiting w ser parse st topo order db0 ps pid v (d', db')" and ready: "CalculateProblem_ready pid d' = Inr True"
    using finishing.converges [OF s1(2)] by auto
  have "system_run w st topo order db0 ps d' db'" using s2(2) by (simp add: waiting_def)
  from finish_correct [OF contractsD [OF c] this small ready] v
  obtain d'' db'' where "CalculateProblem_finish st pid (root_task (ps ! unat pid)) (d', db') = (Inr v, d'', db'')"
    by auto
  with ready s1(1) s2(1) show ?thesis by (meson rtranclp_trans)
qed

theorem problem_can_finish_witness:
  "\<exists>d' db' d'' db''. (own_step unary_wire local_stubs (\<lambda>m. m) [sample_problem])\<^sup>*\<^sup>* (sample_opened, fresh_tables) (d', db') \<and>
     CalculateProblem_ready 0 d' = Inr True \<and>
     CalculateProblem_finish local_stubs 0 1 (d', db') = (Inr (RScalar 2), d'', db'')"
proof -
  have run: "sample_system [sample_problem] sample_opened fresh_tables"
    using system_run.new_problem [OF system_run.start sample_opened_step] by simp
  have "env_of local_stubs fresh_tables ''A'' = Some (RList [3, - 1])"
    using sample_operand by (simp add: env_of_def operand_value_def)
  then have v: "eval (env_of local_stubs fresh_tables) ([sample_problem] ! unat (0 :: size_t)) = Inr (RScalar 2)"
    by (simp add: sample_problem_def lookup_var_def on_list_def Sum_l_def std_reduce_def chk_def in_int_def)
  have "map_of (problem_id_to_calculation_data sample_opened) 0 \<noteq> None" "answers_open unary_wire sample_opened"
    "\<not> is_leaf ([sample_problem] ! unat (0 :: size_t))"
    by (simp_all add: sample_opened_def answers_open_def sample_problem_def)
  from problem_can_finish [OF sample_topo_ok iteration_ok_id unary_wire_ok local_stubs_served unary_codec
      fresh_dynamic run sample_small this v]
  show ?thesis by simp
qed

end
