(* ===== verification/Digits.thy ===== *)
theory Digits
  imports Prelude
begin

text \<open>
  Numbers as text: what streams and formatters write for an integer in decimal, in hexadecimal,
  and padded with zeros to a width.
\<close>

section \<open>Decimal numbers\<close>

definition digit :: "nat \<Rightarrow> char" where
  "digit n = char_of (48 + n)"

fun decimal :: "nat \<Rightarrow> string" where
  "decimal n = (if n < 10 then [digit n] else decimal (n div 10) @ [digit (n mod 10)])"

declare decimal.simps [simp del]

definition decimal_int :: "int \<Rightarrow> string" where
  "decimal_int x = (if x < 0 then CHR ''-'' # decimal (nat (- x)) else decimal (nat x))"

subsection \<open>Decimal numbers determine the number\<close>

definition is_digit :: "char \<Rightarrow> bool" where
  "is_digit c \<longleftrightarrow> 48 \<le> (of_char c :: nat) \<and> of_char c \<le> (57 :: nat)"

definition number :: "string \<Rightarrow> nat" where
  "number s = foldl (\<lambda>a c. a * 10 + (of_char c - 48)) 0 s"

lemma digit_facts [simp]: "n < 10 \<Longrightarrow> is_digit (digit n)" "n < 10 \<Longrightarrow> of_char (digit n) - 48 = n"
  by (simp_all add: is_digit_def digit_def)

lemma decimal_digits: "list_all is_digit (decimal n)"
  by (induction n rule: decimal.induct) (subst decimal.simps, simp)

lemma number_decimal [simp]: "number (decimal n) = n"
proof (induction n rule: decimal.induct)
  case (1 n)
  show ?case
  proof (cases "n < 10")
    case True
    then show ?thesis by (subst decimal.simps) (simp add: number_def)
  next
    case False
    with 1 have "number (decimal (n div 10)) = n div 10" by simp
    with False show ?thesis by (subst decimal.simps) (simp add: number_def)
  qed
qed

lemma decimal_inject [simp]: "decimal m = decimal n \<longleftrightarrow> m = n"
  by (metis number_decimal)

lemma decimal_prefix:
  assumes "decimal m @ c # s = decimal n @ c # s'" and "\<not> is_digit c"
  shows "m = n \<and> s = s'"
proof -
  have "takeWhile is_digit (decimal k @ c # r) = decimal k" for k r
    using decimal_digits [of k] assms(2) by (simp add: takeWhile_append list_all_iff)
  with assms(1) have "decimal m = decimal n" by metis
  with assms(1) show ?thesis by simp
qed

lemma decimal_not_Nil [simp]: "decimal n \<noteq> []"
  by (subst decimal.simps) simp

lemma decimal_hd: "is_digit (hd (decimal n))"
  using decimal_digits [of n] decimal_not_Nil [of n] by (cases "decimal n") auto

lemma takeWhile_decimal: "takeWhile is_digit (decimal n) = decimal n"
  using decimal_digits [of n] by (simp add: list_all_iff takeWhile_eq_all_conv)


section \<open>Hexadecimal and padding\<close>

definition hex_digit :: "bool \<Rightarrow> nat \<Rightarrow> char" where
  "hex_digit uppercase n = (if n < 10 then digit n else char_of ((if uppercase then 55 else 87) + n))"

fun hexadecimal :: "bool \<Rightarrow> nat \<Rightarrow> string" where
  "hexadecimal u n = (if n < 16 then [hex_digit u n] else hexadecimal u (n div 16) @ [hex_digit u (n mod 16)])"

declare hexadecimal.simps [simp del]

text \<open>\<open>std::setw(n)\<close> with \<open>std::setfill('0')\<close>.\<close>

definition padded :: "nat \<Rightarrow> string \<Rightarrow> string" where
  "padded n s = replicate (n - length s) (CHR ''0'') @ s"

lemma hex_digit_inject: "m < 16 \<Longrightarrow> n < 16 \<Longrightarrow> hex_digit u m = hex_digit u n \<longleftrightarrow> m = n"
proof -
  assume "m < 16" "n < 16"
  moreover have "char_of a = (char_of b :: char) \<longleftrightarrow> a = b" if "a < 256" "b < 256" for a b :: nat
    using that by (simp add: char_of_eq_iff take_bit_nat_eq_self)
  ultimately show ?thesis by (cases u) (auto simp: hex_digit_def digit_def)
qed

lemma padded_byte: "n < 256 \<Longrightarrow> padded 2 (hexadecimal u n) = [hex_digit u (n div 16), hex_digit u (n mod 16)]"
proof (cases "n < 16")
  case True
  have "hex_digit u 0 = CHR ''0''" by (simp add: hex_digit_def digit_def char_of_def bit_0)
  with True show ?thesis by (subst hexadecimal.simps) (simp add: padded_def)
next
  case False
  assume "n < 256"
  then have "n div 16 < 16" by simp
  then have "hexadecimal u (n div 16) = [hex_digit u (n div 16)]"
    by (subst hexadecimal.simps) simp
  with False show ?thesis by (subst hexadecimal.simps) (simp add: padded_def)
qed

end
