(* ===== verification/LogFormat.thy ===== *)
theory LogFormat
  imports Messages Expression Digits
begin

text \<open>
  \<open>common/log_format/log_format.h\<close>: the text written to the log for each message. A formatter
  appends to the output it is given; here it is the text it appends, or the exception it throws.
  Numbers are written in decimal. An operation type is written by its name, and an unknown one
  as the empty text, which is what \<open>magic_enum::enum_name\<close> gives.
\<close>

section \<open>The formatters of task.proto and worker.proto\<close>

definition format_StaticOperand :: "VariableId \<Rightarrow> string" where
  "format_StaticOperand identifier = ''[StaticOperand] identifier: '' @ identifier"

definition format_DynOperand :: "TaskId \<Rightarrow> string" where
  "format_DynOperand i = ''[DynOperand] problem_id: '' @ decimal (unat (tid_problem i)) @
     '', task_id: '' @ decimal (unat (tid_task i))"

definition format_Operand :: "Operand \<Rightarrow> string" where
  "format_Operand operand = (case operand of
     StaticOperand v \<Rightarrow> ''[Operand] StaticOperand: '' @ format_StaticOperand v
   | DynOperand i \<Rightarrow> ''[Operand] DynOperand: '' @ format_DynOperand i
   | OperandNotSet \<Rightarrow> ''[Operand] Operand: Invalid'')"

definition format_TaskId :: "TaskId \<Rightarrow> string" where
  "format_TaskId i = ''[TaskId] problem_id: '' @ decimal (unat (tid_problem i)) @
     '', task_id: '' @ decimal (unat (tid_task i))"

text \<open>The loop over the elements of a list, with its flag \<open>first\<close>.\<close>

definition format_elements :: "string \<Rightarrow> ('a \<Rightarrow> string) \<Rightarrow> 'a list \<Rightarrow> string \<Rightarrow> string" where
  "format_elements opening f xs out = snd (fold (\<lambda>x (first, it).
     if first then (False, it @ opening @ f x) else (first, it @ '', '' @ f x)) xs (True, out))"

definition enum_name_of :: "u32 \<Rightarrow> string" where
  "enum_name_of n = (case ExprType_of_nat (unat n) of None \<Rightarrow> [] | Some t \<Rightarrow> ExprType_name t)"

definition format_Task :: "Task \<Rightarrow> string" where
  "format_Task task = format_elements '''' format_Operand (tk_operands task)
     (''[Task] id: '' @ format_TaskId (tk_id task) @ '', operation_type: '' @
        enum_name_of (tk_operation_type task) @ '', operands: '')"

definition format_WorkerTaskId :: "WorkerTaskId \<Rightarrow> string" where
  "format_WorkerTaskId i = ''[WorkerTaskId] identity: '' @ wid_identity i @ '', id: '' @ format_TaskId (wid_id i)"

definition format_WorkerMessage :: "WorkerMessage \<Rightarrow> string" where
  "format_WorkerMessage message = (case message of
     FinishedTask i \<Rightarrow> ''[WorkerMessage] task_id: '' @ format_WorkerTaskId i
   | CoreCount n \<Rightarrow> ''[WorkerAck] core_count: '' @ decimal (unat n)
   | WorkerMessageNotSet \<Rightarrow> ''[WorkerMessage] Invalid'')"

definition format_WorkerTask :: "WorkerTask \<Rightarrow> string" where
  "format_WorkerTask t = ''[WorkerTask] identity: '' @ wt_identity t @ '', task: '' @ format_Task (wt_task t)"

section \<open>The formatters of db.proto\<close>

definition format_ProblemId :: "u32 \<Rightarrow> string" where
  "format_ProblemId p = ''[db::ProblemID] problem_id: '' @ decimal (unat p)"

definition format_StaticRecordId :: "string \<Rightarrow> string" where
  "format_StaticRecordId identifier = ''[StaticRecordId] identifier: '' @ identifier"

definition format_DynamicRecordId :: "u32 \<Rightarrow> u32 \<Rightarrow> string" where
  "format_DynamicRecordId p t = ''[DynamicRecordId] problem_id: '' @ decimal (unat p) @
     '', task_id: '' @ decimal (unat t)"

definition format_RecordId :: "RecordId \<Rightarrow> string res" where
  "format_RecordId record_id = (case record_id of
     DynamicId p t \<Rightarrow> Inr (''[RecordId] dyn_id: '' @ format_DynamicRecordId p t)
   | StaticId x \<Rightarrow> Inr (''[RecordId] static_id: '' @ format_StaticRecordId x)
   | RecordIdNotSet \<Rightarrow> Inl (LogicError ''Invlaid message''))"

definition format_Scalar :: "int \<Rightarrow> string" where
  "format_Scalar x = ''[Scalar] scalar: '' @ decimal_int x"

definition format_db_List :: "int list \<Rightarrow> string" where
  "format_db_List l = format_elements '''' decimal_int l ''[List] list: ''"

definition format_Field :: "Field \<Rightarrow> string res" where
  "format_Field field = (case field of
     FieldScalar x \<Rightarrow> Inr (''[Field] data: '' @ format_Scalar x)
   | FieldList l \<Rightarrow> Inr (''[Field] data: '' @ format_db_List l)
   | FieldNotSet \<Rightarrow> Inl (LogicError ''Invalid message''))"

definition format_DynamicRecord :: "DynamicRecord \<Rightarrow> string res" where
  "format_DynamicRecord r = bindE (format_Field (dr_field r)) (\<lambda>field.
     Inr (''[DynamicRecord] record_id: '' @ format_DynamicRecordId (dr_problem r) (dr_task r) @
          '', field: '' @ field))"

section \<open>The formatters of results\<close>

definition format_domain_List :: "int list \<Rightarrow> string" where
  "format_domain_List l = format_elements ''('' decimal_int l ''[List] list: '' @ '')''"

definition format_ExprResult :: "ExprResult \<Rightarrow> string" where
  "format_ExprResult r = (case r of
     RList l \<Rightarrow> ''[ExprResult] expr_result: '' @ format_domain_List l
   | RScalar x \<Rightarrow> ''[ExprResult] expr_result: '' @ decimal_int x)"

definition format_dcmp_List :: "int list \<Rightarrow> string" where
  "format_dcmp_List l = format_elements ''('' decimal_int l ''[List] list: '' @ '')''"

definition format_CalculationReply :: "CalculationReply \<Rightarrow> string res" where
  "format_CalculationReply reply = (case reply of
     ReplyScalar x \<Rightarrow> Inr (''[CalculationReply] scalar: '' @ decimal_int x)
   | ReplyList l \<Rightarrow> Inr (''[CalculationReply] list: '' @ format_dcmp_List l)
   | ReplyNotSet \<Rightarrow> Inl (LogicError ''Invalid message''))"

section \<open>Properties\<close>

lemma pair_of_decimals:
  assumes "decimal m @ '', task_id: '' @ decimal t = decimal m' @ '', task_id: '' @ decimal t'"
  shows "m = m' \<and> t = t'"
proof -
  have "decimal m @ CHR '','' # ('' task_id: '' @ decimal t) = decimal m' @ CHR '','' # ('' task_id: '' @ decimal t')"
    using assms by simp
  from decimal_prefix [OF this] show ?thesis by (simp add: is_digit_def)
qed

fun join :: "string \<Rightarrow> string list \<Rightarrow> string" where
  "join sep [] = []"
| "join sep [x] = x"
| "join sep (x # xs) = x @ sep @ join sep xs"

lemma format_elements_join:
  "format_elements opening f xs out =
     (if xs = [] then out else out @ opening @ join '', '' (map f xs))"
proof -
  have tail: "fold (\<lambda>x (first, it). if first then (False, it @ opening @ f x) else (first, it @ '', '' @ f x)) xs (False, it) =
      (False, it @ concat (map (\<lambda>x. '', '' @ f x) xs))" for xs it
    by (induction xs arbitrary: it) simp_all
  have join: "join '', '' (map f (x # xs)) = f x @ concat (map (\<lambda>x. '', '' @ f x) xs)" for x xs
    by (induction xs arbitrary: x) simp_all
  show ?thesis
  proof (cases xs)
    case (Cons x ys)
    then show ?thesis unfolding Cons join by (simp add: format_elements_def tail)
  qed (simp add: format_elements_def)
qed

text \<open>
  The log identifies tasks: two task ids are written alike only if they are the same, and so
  are the database keys of their results.
\<close>

theorem format_TaskId_identifies:
  "(format_TaskId i = format_TaskId j \<longleftrightarrow> i = j) \<and>
   (format_DynOperand i = format_DynOperand j \<longleftrightarrow> i = j) \<and>
   (format_DynamicRecordId p t = format_DynamicRecordId p' t' \<longleftrightarrow> p = p' \<and> t = t')"
proof -
  have "i = j" if "decimal (unat (tid_problem i)) @ '', task_id: '' @ decimal (unat (tid_task i)) =
      decimal (unat (tid_problem j)) @ '', task_id: '' @ decimal (unat (tid_task j))" for i j :: TaskId
    using pair_of_decimals [OF that] by (cases i, cases j) (simp add: word_unat_eq_iff)
  moreover have "p = p' \<and> t = t'" if "decimal (unat p) @ '', task_id: '' @ decimal (unat t) =
      decimal (unat p') @ '', task_id: '' @ decimal (unat t')"
    using pair_of_decimals [OF that] by (simp add: word_unat_eq_iff)
  ultimately show ?thesis
    unfolding format_TaskId_def format_DynOperand_def format_DynamicRecordId_def by auto
qed

text \<open>
  A list result is written as its elements separated by commas, between parentheses, except
  that the opening one is missing when the list is empty.
\<close>

theorem format_domain_List_result:
  "format_domain_List l =
     (if l = [] then ''[List] list: )'' else ''[List] list: ('' @ join '', '' (map decimal_int l) @ '')'')"
  by (simp add: format_domain_List_def format_elements_join)

end
