(* ===== verification/Client.thy ===== *)
theory Client
  imports Dispatch LogFormat
begin

text \<open>
  The two ends of the calculation service: the handler of
  \<open>manager/src/grpc-server/grpc_server.cpp\<close>, and the command-line client of \<open>client/src\<close>.
  Files are a map from paths to contents, the environment a map from names to values, and the
  gRPC stub a parameter. The log is the list of lines written; a formatter that throws writes
  none, since \<open>spdlog\<close> catches what its formatters throw.
\<close>

section \<open>The environment\<close>

type_synonym environment = "string \<rightharpoonup> string"

text \<open>\<open>std::string s = std::getenv(name)\<close>: an unset name is a null pointer.\<close>

definition getenv_string :: "environment \<Rightarrow> string \<Rightarrow> string res" where
  "getenv_string env name = (case env name of None \<Rightarrow> Inl UndefinedBehaviour | Some v \<Rightarrow> Inr v)"

section \<open>The service handler\<close>


definition Service_CalculateProblem_finish ::
  "DbStubs \<Rightarrow> size_t \<Rightarrow> nat \<Rightarrow> Dispatcher \<times> Tables \<Rightarrow> CalculationReply res \<times> Dispatcher \<times> Tables" where
  "Service_CalculateProblem_finish st problem_id task_id s =
     (let (expr_result, s) = CalculateProblem_finish st problem_id task_id s
      in (bindE expr_result (\<lambda>r. Inr (ExprResultVisitor r)), s))"

section \<open>The client\<close>

definition ReadFile :: "(string \<rightharpoonup> string) \<Rightarrow> string \<Rightarrow> string res" where
  "ReadFile files path = (case files path of
     None \<Rightarrow> Inl (InvalidArgument (''Unable to open file: '' @ path)) | Some text \<Rightarrow> Inr text)"

type_synonym log = "string list"

definition log_format :: "string \<Rightarrow> string res \<Rightarrow> log \<Rightarrow> log" where
  "log_format prefix text log = (case text of Inl _ \<Rightarrow> log | Inr s \<Rightarrow> log @ [prefix @ s])"

definition DecompDispatchClient_CalculateProblem ::
  "(string \<Rightarrow> bool \<times> CalculationReply) \<Rightarrow> string \<Rightarrow> log \<Rightarrow> bool \<times> log" where
  "DecompDispatchClient_CalculateProblem stub str log =
     (let log = log @ [''Called calculate''];
          (status, reply) = stub str;
          log = log_format ''Got result '' (format_CalculationReply reply) log
      in (status, log))"

definition RunClient ::
  "(string \<rightharpoonup> string) \<Rightarrow> environment \<Rightarrow> (string \<Rightarrow> string \<Rightarrow> bool \<times> CalculationReply) \<Rightarrow> string \<Rightarrow> log \<Rightarrow> log res" where
  "RunClient files env connect json_path log =
     bindE (ReadFile files json_path) (\<lambda>json_str.
     bindE (getenv_string env ''GRPC_ADDRESS'') (\<lambda>address.
       let (ok, log) = DecompDispatchClient_CalculateProblem (connect address) json_str log
       in Inr (log @ [if ok then ''Finished successfully'' else ''Client failed''])))"

definition client_main ::
  "(string \<rightharpoonup> string) \<Rightarrow> environment \<Rightarrow> (string \<Rightarrow> string \<Rightarrow> bool \<times> CalculationReply) \<Rightarrow> string list \<Rightarrow> (int \<times> log) res" where
  "client_main files env connect argv =
     (if length argv \<noteq> 2 then Inr (- 1, [''Invalid number of arguments''])
      else bindE (RunClient files env connect (argv ! 1) []) (\<lambda>log. Inr (0, log)))"

text \<open>\<open>client::Config\<close>; a member that is not a string cannot be converted.\<close>

record Config =
  target :: string

definition Config_FromJson :: "(string \<Rightarrow> json res) \<Rightarrow> (string \<rightharpoonup> string) \<Rightarrow> string \<Rightarrow> Config res" where
  "Config_FromJson parse files path =
     bindE (ReadFile files path) (\<lambda>text.
     bindE (parse text) (\<lambda>data.
     bindE (json_at data ''target'') (\<lambda>j.
     bindE (json_get_string j) (\<lambda>s. Inr \<lparr>target = s\<rparr>))))"

section \<open>Properties\<close>



end
