(* ===== verification/Startup.thy ===== *)
theory Startup
  imports Client Worker Broker
begin

text \<open>
  How the processes come up: the static factories \<open>New\<close> and constructors of broker, worker and
  broker connection, the two \<open>RunServer\<close> functions and the constructor of the thread pool. What
  is modelled is which sockets and servers they create, with which options and endpoints, from
  the environment. Whether an endpoint can be used is the parameter \<open>zmq_errno\<close>, the error
  number the library sets, or 0; the wrappers throw when it reports an error.
\<close>

section \<open>Sockets\<close>

datatype socket_type = ST_pair | ST_pub | ST_sub | ST_router | ST_dealer

record socket =
  sock_type :: socket_type
  bound_to :: "string list"
  connected_to :: "string list"
  subscriptions :: "string list"
  routing_id :: string

definition new_socket :: "socket_type \<Rightarrow> socket" where
  "new_socket ty = \<lparr>sock_type = ty, bound_to = [], connected_to = [], subscriptions = [], routing_id = []\<rparr>"

definition socket_bind :: "(string \<Rightarrow> int) \<Rightarrow> string \<Rightarrow> socket \<Rightarrow> socket res" where
  "socket_bind zmq_errno addr s = (if zmq_errno addr = 0 then Inr (s\<lparr>bound_to := bound_to s @ [addr]\<rparr>) else Inl (ZmqError (zmq_errno addr)))"

definition socket_connect :: "(string \<Rightarrow> int) \<Rightarrow> string \<Rightarrow> socket \<Rightarrow> socket res" where
  "socket_connect zmq_errno addr s =
     (if zmq_errno addr = 0 then Inr (s\<lparr>connected_to := connected_to s @ [addr]\<rparr>) else Inl (ZmqError (zmq_errno addr)))"

section \<open>The factories\<close>

record BrokerSockets =
  manager_connection :: socket
  worker_pub :: socket
  worker_router :: socket

definition Broker_sockets :: "(string \<Rightarrow> int) \<Rightarrow> environment \<Rightarrow> BrokerSockets res" where
  "Broker_sockets zmq_errno env =
     bindE (getenv_string env ''ZMQ_MANAGER_ADDRESS'') (\<lambda>manager_address.
     bindE (getenv_string env ''ZMQ_PUB_ADDRESS'') (\<lambda>pub_address.
     bindE (getenv_string env ''ZMQ_ROUTER_ADDRESS'') (\<lambda>router_address.
     bindE (socket_bind zmq_errno manager_address (new_socket ST_pair)) (\<lambda>manager.
     bindE (socket_bind zmq_errno pub_address (new_socket ST_pub)) (\<lambda>pub.
     bindE (socket_bind zmq_errno router_address (new_socket ST_router)) (\<lambda>router.
       Inr \<lparr>manager_connection = manager, worker_pub = pub, worker_router = router\<rparr>))))))"

record WorkerSockets =
  subscriber :: socket
  dealer :: socket

definition Worker_sockets :: "(string \<Rightarrow> int) \<Rightarrow> environment \<Rightarrow> (WorkerSockets \<times> string) res" where
  "Worker_sockets zmq_errno env =
     bindE (getenv_string env ''ZMQ_SUB_ADDRESS'') (\<lambda>sub_address.
     bindE (getenv_string env ''ZMQ_DEALER_ADDRESS'') (\<lambda>dealer_address.
     bindE (getenv_string env ''WORKER_IDENTITY'') (\<lambda>ident.
     bindE (socket_connect zmq_errno sub_address ((new_socket ST_sub)\<lparr>subscriptions := ['''']\<rparr>)) (\<lambda>sub.
     bindE (socket_connect zmq_errno dealer_address ((new_socket ST_dealer)\<lparr>routing_id := ident\<rparr>)) (\<lambda>deal.
       Inr (\<lparr>subscriber = sub, dealer = deal\<rparr>, ident))))))"

text \<open>
  \<open>std::stoi\<close>: white space, an optional sign, then as many digits as there are; the rest of the
  text is ignored.
\<close>

definition is_space :: "char \<Rightarrow> bool" where
  "is_space c \<longleftrightarrow> c = CHR '' '' \<or> c = CHR 0x09 \<or> c = CHR 0x0A \<or> c = CHR 0x0B \<or> c = CHR 0x0C \<or> c = CHR 0x0D"

definition std_stoi :: "string \<Rightarrow> int res" where
  "std_stoi s =
     (let s = dropWhile is_space s;
          negative = (s \<noteq> [] \<and> hd s = CHR ''-'');
          signed = (s \<noteq> [] \<and> (hd s = CHR ''-'' \<or> hd s = CHR ''+''));
          digits = takeWhile is_digit (if signed then tl s else s);
          x = (if negative then - int (number digits) else int (number digits))
      in if digits = [] then Inl (InvalidArgument ''stoi'')
         else if in_int x then Inr x else Inl OutOfRange)"

text \<open>
  The thread pool connects to the database and starts its threads; the standard library throws
  when a thread cannot be started, which depends on how many there are (\<open>can_start\<close>).
\<close>

definition ThreadPool_New :: "(nat \<Rightarrow> bool) \<Rightarrow> environment \<Rightarrow> size_t \<Rightarrow> (string \<times> nat) res" where
  "ThreadPool_New can_start env thread_count =
     bindE (getenv_string env ''DB_ADDRESS'') (\<lambda>db_address.
       if \<forall>i < unat thread_count. can_start i then Inr (db_address, unat thread_count) else Inl SystemError)"

text \<open>The worker: its sockets, its number of cores, and one thread per core.\<close>

definition Worker_process ::
  "(string \<Rightarrow> int) \<Rightarrow> (nat \<Rightarrow> bool) \<Rightarrow> environment \<Rightarrow> (WorkerSockets \<times> Worker \<times> string \<times> nat) res" where
  "Worker_process zmq_errno can_start env =
     bindE (Worker_sockets zmq_errno env) (\<lambda>(sockets, ident).
     bindE (getenv_string env ''CORE_COUNT'') (\<lambda>text.
     bindE (std_stoi text) (\<lambda>n.
     bindE (ThreadPool_New can_start env (core_count (Worker_New ident n))) (\<lambda>pool.
       Inr (sockets, Worker_New ident n, pool)))))"

definition BrokerConnection_socket :: "(string \<Rightarrow> int) \<Rightarrow> environment \<Rightarrow> socket res" where
  "BrokerConnection_socket zmq_errno env =
     bindE (getenv_string env ''ZMQ_BROKER_ADDRESS'') (\<lambda>address.
       socket_connect zmq_errno address (new_socket ST_pair))"

section \<open>The servers\<close>

record Server =
  listening :: string
  health_check :: bool
  reflection :: bool

text \<open>The manager: its connection to the broker, its client of the database, its server.\<close>

definition Manager_RunServer :: "(string \<Rightarrow> int) \<Rightarrow> environment \<Rightarrow> (socket \<times> string \<times> Dispatcher \<times> Server) res" where
  "Manager_RunServer zmq_errno env =
     bindE (BrokerConnection_socket zmq_errno env) (\<lambda>broker.
     bindE (getenv_string env ''DB_ADDRESS'') (\<lambda>db_address.
     bindE (getenv_string env ''GRPC_ADDRESS'') (\<lambda>address.
       Inr (broker, db_address, Dispatcher_New,
            \<lparr>listening = address, health_check = True, reflection = True\<rparr>))))"

text \<open>The database server: the file it opens and the address it listens on.\<close>

definition Database_RunServer :: "(string \<Rightarrow> Tables res) \<Rightarrow> environment \<Rightarrow> (Tables \<times> Server) res" where
  "Database_RunServer open_database env =
     bindE (getenv_string env ''DB_PATH'') (\<lambda>path.
     bindE (open_database path) (\<lambda>db.
     bindE (getenv_string env ''DB_ADDRESS'') (\<lambda>address.
       Inr (db, \<lparr>listening = address, health_check = True, reflection = True\<rparr>))))"

section \<open>Properties\<close>

lemma dropWhile_id: "s = [] \<or> \<not> P (hd s) \<Longrightarrow> dropWhile P s = s"
  by (cases s) auto

lemma digit_no_sign: "is_digit c \<Longrightarrow> \<not> is_space c \<and> c \<noteq> CHR ''-'' \<and> c \<noteq> CHR ''+''"
  by (auto simp: is_digit_def is_space_def)

text \<open>
  \<open>CORE_COUNT\<close> is read as the number it denotes: every \<open>int\<close> written in decimal is read back,
  and larger numbers are refused.
\<close>

theorem std_stoi_decimal:
  "std_stoi (decimal_int x) = (if in_int x then Inr x else Inl OutOfRange)"
proof (cases "x < 0")
  case True
  have "\<not> is_space (CHR ''-'')" by (simp add: is_space_def)
  with True show ?thesis
    by (simp add: std_stoi_def decimal_int_def takeWhile_decimal)
next
  case False
  have "dropWhile is_space (decimal (nat x)) = decimal (nat x)"
    using decimal_hd digit_no_sign by (intro dropWhile_id) blast
  with False show ?thesis
    using digit_no_sign [OF decimal_hd, of "nat x"]
    by (simp add: std_stoi_def decimal_int_def takeWhile_decimal)
qed

text \<open>Which pairs of sockets talk to each other.\<close>

definition compatible :: "socket_type \<Rightarrow> socket_type \<Rightarrow> bool" where
  "compatible a b \<longleftrightarrow> (a, b) \<in> {(ST_pair, ST_pair), (ST_pub, ST_sub), (ST_router, ST_dealer)}"

text \<open>
  When every process starts, the three sockets of the broker face a socket of the right kind:
  the manager's for its requests, each worker's subscription to all topics for the tasks, and
  each worker's answer socket, whose routing id is the identity the worker looks for in tasks.
\<close>

theorem processes_connect:
  assumes "Broker_sockets zmq_errno envb = Inr b" and "Worker_process zmq_errno can_start envw = Inr (ws, s, db_address, threads)"
    and "Manager_RunServer zmq_errno envm = Inr (m, db, d, server)"
  shows "compatible (sock_type (manager_connection b)) (sock_type m) \<and>
    compatible (sock_type (worker_pub b)) (sock_type (subscriber ws)) \<and>
    compatible (sock_type (worker_router b)) (sock_type (dealer ws)) \<and>
    subscriptions (subscriber ws) = [''''] \<and> routing_id (dealer ws) = identity s \<and>
    envb ''ZMQ_ROUTER_ADDRESS'' = Some (hd (bound_to (worker_router b))) \<and>
    envw ''ZMQ_DEALER_ADDRESS'' = Some (hd (connected_to (dealer ws))) \<and>
    threads = unat (core_count s)"
  using assms
  by (auto simp: Broker_sockets_def Worker_process_def Worker_sockets_def Manager_RunServer_def
      BrokerConnection_socket_def ThreadPool_New_def bindE_eq_Inr getenv_string_def socket_bind_def socket_connect_def
      new_socket_def Worker_New_def compatible_def split: option.splits if_splits)


text \<open>The environments of \<open>docker-compose.yml\<close>.\<close>

definition compose_broker :: environment where
  "compose_broker = map_of [(''ZMQ_MANAGER_ADDRESS'', ''tcp://*:5559''), (''ZMQ_PUB_ADDRESS'', ''tcp://*:5560''),
     (''ZMQ_ROUTER_ADDRESS'', ''tcp://*:5561'')]"

definition compose_worker :: environment where
  "compose_worker = map_of [(''ZMQ_SUB_ADDRESS'', ''tcp://broker:5560''), (''ZMQ_DEALER_ADDRESS'', ''tcp://broker:5561''),
     (''DB_ADDRESS'', ''dns:///database:5301''), (''WORKER_IDENTITY'', ''w1''), (''CORE_COUNT'', ''2'')]"

definition compose_manager :: environment where
  "compose_manager = map_of [(''ZMQ_BROKER_ADDRESS'', ''tcp://broker:5559''), (''GRPC_ADDRESS'', ''0.0.0.0:5300''),
     (''DB_ADDRESS'', ''dns:///database:5301'')]"

lemma std_stoi_2: "std_stoi ''2'' = Inr 2"
  by (simp add: std_stoi_def is_space_def is_digit_def number_def in_int_def)

lemma compose_starts:
  "\<exists>b. Broker_sockets (\<lambda>_. 0) compose_broker = Inr b"
  "\<exists>ws db_address threads.
     Worker_process (\<lambda>_. 0) (\<lambda>i. i < 8) compose_worker = Inr (ws, Worker_New ''w1'' 2, db_address, threads)"
  "\<exists>m db d server. Manager_RunServer (\<lambda>_. 0) compose_manager = Inr (m, db, d, server)"
  by (simp_all add: Broker_sockets_def Worker_process_def Worker_sockets_def Manager_RunServer_def
      BrokerConnection_socket_def ThreadPool_New_def getenv_string_def socket_bind_def socket_connect_def
      compose_broker_def compose_worker_def compose_manager_def std_stoi_2 Worker_New_def)

theorem processes_connect_witness:
  "\<exists>(b :: BrokerSockets) (ws :: WorkerSockets) threads (m :: socket). subscriptions (subscriber ws) = [''''] \<and> routing_id (dealer ws) = ''w1'' \<and>
     compose_broker ''ZMQ_ROUTER_ADDRESS'' = Some (hd (bound_to (worker_router b))) \<and>
     compatible (sock_type (manager_connection b)) (sock_type m) \<and> threads = (2::nat)"
proof -
  obtain b where b: "Broker_sockets (\<lambda>_. 0) compose_broker = Inr b"
    using compose_starts(1) by blast
  obtain ws db_address threads where w:
    "Worker_process (\<lambda>_. 0) (\<lambda>i. i < 8) compose_worker = Inr (ws, Worker_New ''w1'' 2, db_address, threads)"
    using compose_starts(2) by blast
  obtain m db d server where m: "Manager_RunServer (\<lambda>_. 0) compose_manager = Inr (m, db, d, server)"
    using compose_starts(3) by blast
  have new: "identity (Worker_New ''w1'' 2) = ''w1''" "unat (core_count (Worker_New ''w1'' 2)) = 2"
    by (simp_all add: Worker_New_def)
  show ?thesis
    using processes_connect [OF b w m, unfolded new]
    by blast
qed

end
