(* ===== verification/ZmqMessage.thy ===== *)
theory ZmqMessage
  imports Digits
begin

text \<open>
  The message layer of the C++ binding of ZeroMQ, \<open>lib/cppzmq/zmq.hpp\<close>, through which broker,
  worker and manager talk: \<open>message_t\<close>, the flags, the buffers, and the sending, receiving and
  polling operations of a socket. The C library below it is the parameter \<open>Libzmq\<close>; a call of
  it returns its return code and the value of \<open>errno\<close> it leaves, which \<open>error_t\<close> carries. Of a
  \<open>zmq_msg_t\<close> the accessors of the library show its bytes and whether more parts follow.
\<close>

section \<open>The C library\<close>

type_synonym byte = "8 word"

record c_call =
  rc :: int
  errno :: int

record zmq_msg =
  msg_data :: "byte list"
  msg_more :: bool

record pollitem =
  poll_socket :: nat
  poll_events :: int
  poll_revents :: int

record 's Libzmq =
  zmq_msg_init :: "c_call \<times> zmq_msg"
  zmq_msg_init_size :: "size_t \<Rightarrow> c_call \<times> zmq_msg"
  zmq_msg_init_data :: "byte list \<Rightarrow> size_t \<Rightarrow> c_call \<times> zmq_msg"
  zmq_msg_close :: "zmq_msg \<Rightarrow> c_call"
  zmq_msg_move :: "zmq_msg \<Rightarrow> zmq_msg \<Rightarrow> c_call \<times> zmq_msg \<times> zmq_msg"
  zmq_msg_copy :: "zmq_msg \<Rightarrow> zmq_msg \<Rightarrow> c_call \<times> zmq_msg \<times> zmq_msg"
  zmq_msg_get :: "zmq_msg \<Rightarrow> int \<Rightarrow> c_call"
  zmq_msg_gets :: "zmq_msg \<Rightarrow> string \<Rightarrow> string option \<times> int"
  zmq_msg_send :: "u32 \<Rightarrow> zmq_msg \<Rightarrow> 's \<Rightarrow> c_call \<times> zmq_msg \<times> 's"
  zmq_msg_recv :: "u32 \<Rightarrow> zmq_msg \<Rightarrow> 's \<Rightarrow> c_call \<times> zmq_msg \<times> 's"
  zmq_send :: "u32 \<Rightarrow> byte list \<Rightarrow> 's \<Rightarrow> c_call \<times> 's"
  zmq_recv :: "u32 \<Rightarrow> byte list \<Rightarrow> 's \<Rightarrow> c_call \<times> byte list \<times> 's"
  zmq_poll :: "pollitem list \<Rightarrow> int \<Rightarrow> 's \<Rightarrow> c_call \<times> pollitem list \<times> 's"
  zmq_bind :: "string \<Rightarrow> 's \<Rightarrow> c_call \<times> 's"
  zmq_unbind :: "string \<Rightarrow> 's \<Rightarrow> c_call \<times> 's"
  zmq_connect :: "string \<Rightarrow> 's \<Rightarrow> c_call \<times> 's"
  zmq_disconnect :: "string \<Rightarrow> 's \<Rightarrow> c_call \<times> 's"

definition error_t :: "c_call \<Rightarrow> cpp_error" where
  "error_t c = ZmqError (errno c)"

definition EAGAIN :: int where
  "EAGAIN = 11"

section \<open>Memory\<close>

text \<open>
  \<open>memcpy\<close> of \<open>n\<close> bytes from a block that starts with \<open>src\<close> to position \<open>pos\<close> of a block:
  undefined when one of the blocks is too short.
\<close>

definition memcpy_at :: "byte list \<Rightarrow> nat \<Rightarrow> byte list \<Rightarrow> nat \<Rightarrow> byte list res" where
  "memcpy_at dst pos src n =
     (if pos + n \<le> length dst \<and> n \<le> length src
      then Inr (take pos dst @ take n src @ drop (pos + n) dst) else Inl UndefinedBehaviour)"

definition memcmp_eq :: "byte list \<Rightarrow> byte list \<Rightarrow> nat \<Rightarrow> bool" where
  "memcmp_eq a b n \<longleftrightarrow> take n a = take n b"

definition string_bytes :: "string \<Rightarrow> byte list" where
  "string_bytes s = map (\<lambda>c. of_nat (of_char c)) s"

definition bytes_string :: "byte list \<Rightarrow> string" where
  "bytes_string bs = map (\<lambda>b. char_of (unat b)) bs"

lemma bytes_string_bytes [simp]: "bytes_string (string_bytes s) = s"
proof -
  have "char_of (unat (of_nat (of_char c) :: byte)) = c" for c
    by (simp add: unat_of_nat)
  then show ?thesis by (induction s) (simp_all add: bytes_string_def string_bytes_def)
qed

lemma string_bytes_string [simp]: "string_bytes (bytes_string bs) = bs"
proof -
  have "of_nat (of_char (char_of (unat b) :: char)) = b" for b :: byte
    using unsigned_less [of b, where 'a = nat] by (simp add: take_bit_nat_eq_self)
  then show ?thesis by (induction bs) (simp_all add: bytes_string_def string_bytes_def)
qed

lemma length_string_bytes [simp]: "length (string_bytes s) = length s"
  by (simp add: string_bytes_def)

section \<open>message\_t\<close>

definition msg_size :: "zmq_msg \<Rightarrow> size_t" where
  "msg_size m = of_nat (length (msg_data m))"

definition message_New :: "'s Libzmq \<Rightarrow> zmq_msg res" where
  "message_New z = (let (c, m) = zmq_msg_init z in if rc c = 0 then Inr m else Inl AssertionFailed)"

definition message_size :: "'s Libzmq \<Rightarrow> size_t \<Rightarrow> zmq_msg res" where
  "message_size z len = (let (c, m) = zmq_msg_init_size z len in if rc c \<noteq> 0 then Inl (error_t c) else Inr m)"

text \<open>From a range of elements of \<open>k\<close> bytes each; a range of bytes has \<open>k = 1\<close>.\<close>

definition message_range :: "'s Libzmq \<Rightarrow> nat \<Rightarrow> byte list list \<Rightarrow> zmq_msg res" where
  "message_range z k xs =
     bindE (message_size z (of_nat (length xs) * of_nat k)) (\<lambda>m.
     bindE (memcpy_at (msg_data m) 0 (concat xs) (length xs * k)) (\<lambda>d. Inr (m\<lparr>msg_data := d\<rparr>)))"

definition message_mem :: "'s Libzmq \<Rightarrow> byte list \<Rightarrow> size_t \<Rightarrow> zmq_msg res" where
  "message_mem z data len =
     bindE (message_size z len) (\<lambda>m.
       if len \<noteq> 0 then bindE (memcpy_at (msg_data m) 0 data (unat len)) (\<lambda>d. Inr (m\<lparr>msg_data := d\<rparr>))
       else Inr m)"

definition message_data :: "'s Libzmq \<Rightarrow> byte list \<Rightarrow> size_t \<Rightarrow> zmq_msg res" where
  "message_data z data len =
     (let (c, m) = zmq_msg_init_data z data len in if rc c \<noteq> 0 then Inl (error_t c) else Inr m)"

definition message_str :: "'s Libzmq \<Rightarrow> string \<Rightarrow> zmq_msg res" where
  "message_str z str = message_mem z (string_bytes str) (of_nat (length str))"

text \<open>The move constructor yields the new message and what is left of the old one.\<close>

definition message_move_from :: "'s Libzmq \<Rightarrow> zmq_msg \<Rightarrow> (zmq_msg \<times> zmq_msg) res" where
  "message_move_from z rhs = bindE (message_New z) (\<lambda>fresh. Inr (rhs, fresh))"

definition message_swap :: "zmq_msg \<times> zmq_msg \<Rightarrow> zmq_msg \<times> zmq_msg" where
  "message_swap p = (let (a, b) = p in (b, a))"

definition message_close :: "'s Libzmq \<Rightarrow> zmq_msg \<Rightarrow> unit res" where
  "message_close z m = (if rc (zmq_msg_close z m) = 0 then Inr () else Inl AssertionFailed)"

text \<open>The overloads of \<open>rebuild\<close>.\<close>

definition rebuild_close :: "'s Libzmq \<Rightarrow> zmq_msg \<Rightarrow> unit res" where
  "rebuild_close z m = (let c = zmq_msg_close z m in if rc c \<noteq> 0 then Inl (error_t c) else Inr ())"

definition rebuild :: "'s Libzmq \<Rightarrow> zmq_msg \<Rightarrow> zmq_msg res" where
  "rebuild z m = bindE (rebuild_close z m) (\<lambda>_. message_New z)"

definition rebuild_size :: "'s Libzmq \<Rightarrow> zmq_msg \<Rightarrow> size_t \<Rightarrow> zmq_msg res" where
  "rebuild_size z m len = bindE (rebuild_close z m) (\<lambda>_. message_size z len)"

definition rebuild_mem :: "'s Libzmq \<Rightarrow> zmq_msg \<Rightarrow> byte list \<Rightarrow> size_t \<Rightarrow> zmq_msg res" where
  "rebuild_mem z m data len =
     bindE (rebuild_close z m) (\<lambda>_.
     bindE (message_size z len) (\<lambda>m.
     bindE (memcpy_at (msg_data m) 0 data (unat len)) (\<lambda>d. Inr (m\<lparr>msg_data := d\<rparr>))))"

definition rebuild_str :: "'s Libzmq \<Rightarrow> zmq_msg \<Rightarrow> string \<Rightarrow> zmq_msg res" where
  "rebuild_str z m str = rebuild_mem z m (string_bytes str) (of_nat (length str))"

definition rebuild_data :: "'s Libzmq \<Rightarrow> zmq_msg \<Rightarrow> byte list \<Rightarrow> size_t \<Rightarrow> zmq_msg res" where
  "rebuild_data z m data len = bindE (rebuild_close z m) (\<lambda>_. message_data z data len)"

definition message_move :: "'s Libzmq \<Rightarrow> zmq_msg \<Rightarrow> zmq_msg \<Rightarrow> (zmq_msg \<times> zmq_msg) res" where
  "message_move z m src = (let (c, m', src') = zmq_msg_move z m src in
     if rc c \<noteq> 0 then Inl (error_t c) else Inr (m', src'))"

definition message_copy :: "'s Libzmq \<Rightarrow> zmq_msg \<Rightarrow> zmq_msg \<Rightarrow> (zmq_msg \<times> zmq_msg) res" where
  "message_copy z m src = (let (c, m', src') = zmq_msg_copy z m src in
     if rc c \<noteq> 0 then Inl (error_t c) else Inr (m', src'))"

definition message_empty :: "zmq_msg \<Rightarrow> bool" where
  "message_empty m \<longleftrightarrow> msg_size m = 0"

definition message_eq :: "zmq_msg \<Rightarrow> zmq_msg \<Rightarrow> bool" where
  "message_eq m other =
     (let my_size = msg_size m
      in my_size = msg_size other \<and> memcmp_eq (msg_data m) (msg_data other) (unat my_size))"

definition message_get :: "'s Libzmq \<Rightarrow> zmq_msg \<Rightarrow> int \<Rightarrow> int res" where
  "message_get z m property = (let c = zmq_msg_get z m property in
     if rc c = - 1 then Inl (error_t c) else Inr (rc c))"

definition message_gets :: "'s Libzmq \<Rightarrow> zmq_msg \<Rightarrow> string \<Rightarrow> string res" where
  "message_gets z m property = (case zmq_msg_gets z m property of
     (None, e) \<Rightarrow> Inl (ZmqError e) | (Some v, _) \<Rightarrow> Inr v)"

definition to_string :: "zmq_msg \<Rightarrow> string" where
  "to_string m = bytes_string (take (unat (msg_size m)) (msg_data m))"

text \<open>
  The dump of a message: each byte, with \<open>is_ascii[0]\<close> the kind of the byte before. The stream
  manipulators \<open>hex\<close> and \<open>uppercase\<close> stay set, which the later characters do not show.
\<close>

definition is_ascii :: "byte \<Rightarrow> bool" where
  "is_ascii b \<longleftrightarrow> b \<ge> 32 \<and> b < 127"

definition dump_byte :: "byte \<Rightarrow> bool \<times> string \<Rightarrow> bool \<times> string" where
  "dump_byte b = (\<lambda>(was_ascii, os).
     (is_ascii b,
      os @ (if is_ascii b \<noteq> was_ascii then '' '' else []) @
      (if is_ascii b then bytes_string [b] else padded 2 (hexadecimal True (unat b)))))"

definition message_dump :: "zmq_msg \<Rightarrow> string" where
  "message_dump m =
     (let len = unat (msg_size m);
          os = ''zmq::message_t [size '' @ padded 3 (decimal len) @ ''] (''
      in if len \<ge> 1000 then os @ ''... too big to print)''
         else snd (fold dump_byte (take len (msg_data m)) (False, os)) @ '')'')"


section \<open>Flags\<close>

text \<open>The scoped enumerations of flags have an underlying \<open>int\<close>, here its 32 bits.\<close>

definition enum_bit_or :: "u32 \<Rightarrow> u32 \<Rightarrow> u32" where
  "enum_bit_or a b = a OR b"

definition enum_bit_and :: "u32 \<Rightarrow> u32 \<Rightarrow> u32" where
  "enum_bit_and a b = a AND b"

definition enum_bit_xor :: "u32 \<Rightarrow> u32 \<Rightarrow> u32" where
  "enum_bit_xor a b = a XOR b"

definition enum_bit_not :: "u32 \<Rightarrow> u32" where
  "enum_bit_not a = NOT a"

definition ZMQ_DONTWAIT :: u32 where
  "ZMQ_DONTWAIT = 1"

definition ZMQ_SNDMORE :: u32 where
  "ZMQ_SNDMORE = 2"

datatype send_flags = SF_none | SF_dontwait | SF_sndmore

definition send_flags_val :: "send_flags \<Rightarrow> u32" where
  "send_flags_val f = (case f of SF_none \<Rightarrow> 0 | SF_dontwait \<Rightarrow> ZMQ_DONTWAIT | SF_sndmore \<Rightarrow> ZMQ_SNDMORE)"

datatype recv_flags = RF_none | RF_dontwait

definition recv_flags_val :: "recv_flags \<Rightarrow> u32" where
  "recv_flags_val f = (case f of RF_none \<Rightarrow> 0 | RF_dontwait \<Rightarrow> ZMQ_DONTWAIT)"

section \<open>Buffers\<close>

text \<open>
  A \<open>mutable_buffer\<close> or \<open>const_buffer\<close>: the memory its pointer points at and its size. The null
  pointer points at no memory.
\<close>

record buffer =
  buf_mem :: "byte list"
  buf_size :: size_t

definition buffer_null :: buffer where
  "buffer_null = \<lparr>buf_mem = [], buf_size = 0\<rparr>"

definition buffer_New :: "byte list \<Rightarrow> size_t \<Rightarrow> buffer" where
  "buffer_New p n = \<lparr>buf_mem = p, buf_size = n\<rparr>"

definition buffer_advance :: "buffer \<Rightarrow> size_t \<Rightarrow> buffer" where
  "buffer_advance b n =
     (let shift = min n (buf_size b)
      in b\<lparr>buf_mem := drop (unat shift) (buf_mem b), buf_size := buf_size b - shift\<rparr>)"

definition buffer_plus :: "buffer \<Rightarrow> size_t \<Rightarrow> buffer" where
  "buffer_plus b n =
     buffer_New (drop (unat (min n (buf_size b))) (buf_mem b)) (buf_size b - min n (buf_size b))"

definition buffer_limit :: "buffer \<Rightarrow> size_t \<Rightarrow> buffer" where
  "buffer_limit b n = buffer_New (buf_mem b) (min (buf_size b) n)"

text \<open>Of a contiguous sequence of elements of \<open>k\<close> bytes.\<close>

definition buffer_contiguous_sequence :: "nat \<Rightarrow> byte list list \<Rightarrow> buffer" where
  "buffer_contiguous_sequence k xs =
     (let len = of_nat (length xs)
      in buffer_New (if len \<noteq> (0 :: size_t) then concat xs else []) (len * of_nat k))"

definition buffer_contiguous_sequence_n :: "nat \<Rightarrow> byte list list \<Rightarrow> size_t \<Rightarrow> buffer" where
  "buffer_contiguous_sequence_n k xs n_bytes =
     (let len = of_nat (length xs)
      in buffer_New (if len \<noteq> (0 :: size_t) then concat xs else []) (min (len * of_nat k) n_bytes))"

text \<open>Of a string literal, given with its terminating zero.\<close>

definition str_buffer :: "nat \<Rightarrow> byte list list \<Rightarrow> buffer" where
  "str_buffer k chars = buffer_New (concat chars) ((of_nat (length chars) - 1) * of_nat k)"

text \<open>The bytes a buffer stands for.\<close>

definition buf_bytes :: "buffer \<Rightarrow> byte list" where
  "buf_bytes b = take (unat (buf_size b)) (buf_mem b)"

definition buf_ok :: "buffer \<Rightarrow> bool" where
  "buf_ok b \<longleftrightarrow> unat (buf_size b) \<le> length (buf_mem b)"

section \<open>Sockets\<close>

definition checked_call :: "c_call \<times> 's \<Rightarrow> unit res \<times> 's" where
  "checked_call r = (let (c, s) = r in (if rc c \<noteq> 0 then Inl (error_t c) else Inr (), s))"

definition socket_base_bind :: "'s Libzmq \<Rightarrow> string \<Rightarrow> 's \<Rightarrow> unit res \<times> 's" where
  "socket_base_bind z addr s = checked_call (zmq_bind z addr s)"

definition socket_base_unbind :: "'s Libzmq \<Rightarrow> string \<Rightarrow> 's \<Rightarrow> unit res \<times> 's" where
  "socket_base_unbind z addr s = checked_call (zmq_unbind z addr s)"

definition socket_base_connect :: "'s Libzmq \<Rightarrow> string \<Rightarrow> 's \<Rightarrow> unit res \<times> 's" where
  "socket_base_connect z addr s = checked_call (zmq_connect z addr s)"

definition socket_base_disconnect :: "'s Libzmq \<Rightarrow> string \<Rightarrow> 's \<Rightarrow> unit res \<times> 's" where
  "socket_base_disconnect z addr s = checked_call (zmq_disconnect z addr s)"

text \<open>
  How every transfer reads its return code: the number of bytes, or that the socket would block,
  or an error.
\<close>

definition transferred :: "c_call \<Rightarrow> size_t option res" where
  "transferred c = (if rc c \<ge> 0 then Inr (Some (word_of_int (rc c)))
     else if errno c = EAGAIN then Inr None else Inl (error_t c))"

definition send_mem :: "'s Libzmq \<Rightarrow> byte list \<Rightarrow> size_t \<Rightarrow> u32 \<Rightarrow> 's \<Rightarrow> size_t res \<times> 's" where
  "send_mem z buf len flags s =
     (let (c, s) = zmq_send z flags (take (unat len) buf) s
      in (bindE (transferred c) (\<lambda>n. Inr (case n of None \<Rightarrow> 0 | Some n \<Rightarrow> n)), s))"

definition send_bool :: "'s Libzmq \<Rightarrow> zmq_msg \<Rightarrow> u32 \<Rightarrow> 's \<Rightarrow> bool res \<times> zmq_msg \<times> 's" where
  "send_bool z m flags s =
     (let (c, m, s) = zmq_msg_send z flags m s
      in (bindE (transferred c) (\<lambda>n. Inr (n \<noteq> None)), m, s))"

definition send_range :: "'s Libzmq \<Rightarrow> nat \<Rightarrow> byte list list \<Rightarrow> u32 \<Rightarrow> 's \<Rightarrow> bool res \<times> 's" where
  "send_range z k xs flags s = (case message_range z k xs of
     Inl e \<Rightarrow> (Inl e, s)
   | Inr m \<Rightarrow> (let (r, m, s) = send_bool z m flags s in (r, s)))"

definition send_buffer :: "'s Libzmq \<Rightarrow> buffer \<Rightarrow> u32 \<Rightarrow> 's \<Rightarrow> size_t option res \<times> 's" where
  "send_buffer z buf flags s = (let (c, s) = zmq_send z flags (buf_bytes buf) s in (transferred c, s))"

definition send_message :: "'s Libzmq \<Rightarrow> zmq_msg \<Rightarrow> u32 \<Rightarrow> 's \<Rightarrow> size_t option res \<times> zmq_msg \<times> 's" where
  "send_message z m flags s = (let (c, m, s) = zmq_msg_send z flags m s in (transferred c, m, s))"

record recv_buffer_size =
  rb_size :: size_t
  rb_untruncated_size :: size_t

definition truncated :: "recv_buffer_size \<Rightarrow> bool" where
  "truncated r \<longleftrightarrow> rb_size r \<noteq> rb_untruncated_size r"

definition recv_mem :: "'s Libzmq \<Rightarrow> byte list \<Rightarrow> size_t \<Rightarrow> u32 \<Rightarrow> 's \<Rightarrow> size_t res \<times> byte list \<times> 's" where
  "recv_mem z buf len flags s =
     (let (c, received, s) = zmq_recv z flags (take (unat len) buf) s
      in (bindE (transferred c) (\<lambda>n. Inr (case n of None \<Rightarrow> 0 | Some n \<Rightarrow> n)),
          received @ drop (unat len) buf, s))"

definition recv_bool :: "'s Libzmq \<Rightarrow> zmq_msg \<Rightarrow> u32 \<Rightarrow> 's \<Rightarrow> bool res \<times> zmq_msg \<times> 's" where
  "recv_bool z m flags s =
     (let (c, m, s) = zmq_msg_recv z flags m s
      in (bindE (transferred c) (\<lambda>n. Inr (n \<noteq> None)), m, s))"

definition recv_buffer ::
  "'s Libzmq \<Rightarrow> buffer \<Rightarrow> u32 \<Rightarrow> 's \<Rightarrow> recv_buffer_size option res \<times> buffer \<times> 's" where
  "recv_buffer z buf flags s =
     (let (c, received, s) = zmq_recv z flags (buf_bytes buf) s
      in (bindE (transferred c) (\<lambda>n. Inr (map_option (\<lambda>nbytes.
            \<lparr>rb_size = min nbytes (buf_size buf), rb_untruncated_size = nbytes\<rparr>) n)),
          buf\<lparr>buf_mem := received @ drop (unat (buf_size buf)) (buf_mem buf)\<rparr>, s))"

definition recv_message :: "'s Libzmq \<Rightarrow> zmq_msg \<Rightarrow> u32 \<Rightarrow> 's \<Rightarrow> size_t option res \<times> zmq_msg \<times> 's" where
  "recv_message z m flags s =
     (let (c, m, s) = zmq_msg_recv z flags m s
      in (if rc c \<ge> 0 \<and> msg_size m \<noteq> word_of_int (rc c) then Inl AssertionFailed else transferred c, m, s))"

section \<open>Polling\<close>

definition detail_poll ::
  "'s Libzmq \<Rightarrow> pollitem list \<Rightarrow> nat \<Rightarrow> int \<Rightarrow> 's \<Rightarrow> int res \<times> pollitem list \<times> 's" where
  "detail_poll z items nitems timeout s =
     (if nitems > length items then (Inl UndefinedBehaviour, items, s)
      else let (c, polled, s) = zmq_poll z (take nitems items) timeout s
           in (if rc c < 0 then Inl (error_t c) else Inr (rc c), polled @ drop nitems items, s))"

definition poll_vector ::
  "'s Libzmq \<Rightarrow> pollitem list \<Rightarrow> int \<Rightarrow> 's \<Rightarrow> int res \<times> pollitem list \<times> 's" where
  "poll_vector z items timeout s = detail_poll z items (length items) timeout s"


section \<open>What the library promises\<close>

text \<open>An initialised message is empty, and one of a given size has that many bytes.\<close>

definition messages_ok :: "'s Libzmq \<Rightarrow> bool" where
  "messages_ok z \<longleftrightarrow>
     (\<exists>c. zmq_msg_init z = (c, \<lparr>msg_data = [], msg_more = False\<rparr>) \<and> rc c = 0) \<and>
     (\<forall>n c m. zmq_msg_init_size z n = (c, m) \<longrightarrow> rc c = 0 \<longrightarrow> length (msg_data m) = unat n \<and> \<not> msg_more m)"

text \<open>Receiving into a buffer writes inside it.\<close>

definition recv_inside :: "'s Libzmq \<Rightarrow> bool" where
  "recv_inside z \<longleftrightarrow> (\<forall>flags b s c received s'.
     zmq_recv z flags b s = (c, received, s') \<longrightarrow> length received = length b \<and> rc c < 2 ^ 31)"

text \<open>A message is in memory, so its size is a \<open>size_t\<close>.\<close>

definition msg_ok :: "zmq_msg \<Rightarrow> bool" where
  "msg_ok m \<longleftrightarrow> length (msg_data m) < 2 ^ 64"

lemma unat_of_nat_size: "n < 2 ^ 64 \<Longrightarrow> unat (of_nat n :: size_t) = n"
  by (simp add: unat_of_nat take_bit_nat_eq_self)

lemma unat_msg_size [simp]: "msg_ok m \<Longrightarrow> unat (msg_size m) = length (msg_data m)"
  by (simp add: msg_ok_def msg_size_def unat_of_nat_size)

lemma message_New_ok: "messages_ok z \<Longrightarrow> message_New z = Inr \<lparr>msg_data = [], msg_more = False\<rparr>"
  by (auto simp: messages_ok_def message_New_def)

lemma message_size_ok:
  "messages_ok z \<Longrightarrow> message_size z n = Inr m \<Longrightarrow> length (msg_data m) = unat n \<and> \<not> msg_more m"
  by (auto simp: messages_ok_def message_size_def split: prod.splits if_splits)

lemma message_mem_result:
  assumes z: "messages_ok z" and "unat n \<le> length src"
  shows "message_mem z src n = bindE (message_size z n) (\<lambda>_. Inr \<lparr>msg_data = take (unat n) src, msg_more = False\<rparr>)"
proof (cases "message_size z n")
  case (Inr m)
  with message_size_ok [OF z Inr] assms(2) show ?thesis
    by (cases m; cases "n = 0") (simp_all add: message_mem_def memcpy_at_def)
qed (simp add: message_mem_def)

lemma message_eq_iff: "msg_ok m \<Longrightarrow> msg_ok m' \<Longrightarrow> message_eq m m' \<longleftrightarrow> msg_data m = msg_data m'"
  by (auto simp: message_eq_def memcmp_eq_def Let_def dest: arg_cong [where f = unat]) 
    (simp add: msg_size_def)

lemma dump_text:
  "list_all is_ascii bs \<Longrightarrow> fold dump_byte bs (True, os) = (True, os @ bytes_string bs)"
  by (induction bs arbitrary: os) (simp_all add: dump_byte_def bytes_string_def)

lemma message_dump_text:
  assumes "msg_ok m" "length (msg_data m) < 1000" "msg_data m \<noteq> []" "list_all is_ascii (msg_data m)"
  shows "message_dump m = ''zmq::message_t [size '' @ padded 3 (decimal (length (msg_data m))) @
    ''] ( '' @ to_string m @ '')''"
  using assms by (cases "msg_data m")
    (simp_all add: message_dump_def to_string_def dump_text dump_byte_def bytes_string_def)

section \<open>Properties\<close>

text \<open>
  A message built from a string, or rebuilt with one, holds exactly that string, is not
  marked as followed by more parts, and equals another message exactly when that holds the same
  bytes. The only failures are those of the library: no memory, or a message it cannot close.
\<close>

theorem message_string_roundtrip:
  assumes "messages_ok z" and len: "length s < 2 ^ 64" and "msg_ok other"
  shows "case message_size z (of_nat (length s)) of
      Inl e \<Rightarrow> message_str z s = Inl e
    | Inr _ \<Rightarrow> \<exists>m. message_str z s = Inr m \<and> to_string m = s \<and> \<not> msg_more m \<and>
        (message_eq m other \<longleftrightarrow> to_string other = s) \<and>
        (rc (zmq_msg_close z old) = 0 \<longrightarrow> rebuild_str z old s = Inr m)"
proof (cases "message_size z (of_nat (length s))")
  case (Inl e)
  then show ?thesis by (simp add: message_str_def message_mem_def)
next
  case (Inr m0)
  let ?m = "\<lparr>msg_data = string_bytes s, msg_more = False\<rparr>"
  have m: "message_str z s = Inr ?m"
    using Inr len by (simp add: message_str_def message_mem_result [OF assms(1)] unat_of_nat_size)
  have ok: "msg_ok ?m" using len by (simp add: msg_ok_def)
  have str: "to_string ?m = s" using ok by (simp add: to_string_def)
  have bytes: "msg_data other = string_bytes s \<longleftrightarrow> to_string other = s"
    using assms(3) by (auto simp: to_string_def)
  have eq: "message_eq ?m other \<longleftrightarrow> to_string other = s"
    using message_eq_iff [OF ok assms(3)] bytes by auto
  have "rebuild_str z old s = Inr ?m" if "rc (zmq_msg_close z old) = 0"
    using that Inr len message_size_ok [OF assms(1) Inr]
    by (cases m0) (simp add: rebuild_str_def rebuild_mem_def rebuild_close_def memcpy_at_def unat_of_nat_size)
  with Inr m str eq show ?thesis by simp
qed

text \<open>
  Receiving into a buffer never writes outside it, reports the number of bytes written, and
  reports truncation exactly when the message was longer than the buffer.
\<close>

theorem recv_buffer_bounds:
  assumes "recv_inside z" and "buf_ok b" and "recv_buffer z b flags s = (Inr (Some r), b', s')"
  shows "buf_size b' = buf_size b \<and> length (buf_mem b') = length (buf_mem b) \<and>
    drop (unat (buf_size b)) (buf_mem b') = drop (unat (buf_size b)) (buf_mem b) \<and>
    rb_size r \<le> buf_size b \<and> (truncated r \<longleftrightarrow> buf_size b < rb_untruncated_size r)"
proof -
  obtain c received where recv: "zmq_recv z flags (buf_bytes b) s = (c, received, s')"
    and r: "transferred c = Inr (Some (rb_untruncated_size r))"
      "rb_size r = min (rb_untruncated_size r) (buf_size b)"
    and b': "b' = b\<lparr>buf_mem := received @ drop (unat (buf_size b)) (buf_mem b)\<rparr>"
    using assms(3) by (auto simp: recv_buffer_def bindE_eq_Inr Let_def split: prod.splits)
  have len: "length received = unat (buf_size b)"
    using assms(2) assms(1) [unfolded recv_inside_def, rule_format, OF recv]
    by (simp add: buf_bytes_def buf_ok_def)
  have "truncated r \<longleftrightarrow> buf_size b < rb_untruncated_size r"
    using r(2) by (auto simp: truncated_def min_def not_le)
  then show ?thesis using b' r(2) len assms(2) by (simp add: buf_ok_def)
qed

text \<open>
  Polling a prefix of the items leaves the others as they were, so what was read of them before
  is still there.
\<close>

lemma detail_poll_frame:
  assumes "detail_poll z items n timeout s = (r, items', s')"
    and "\<And>is. length (fst (snd (zmq_poll z is timeout s))) = length is"
  shows "drop n items' = drop n items \<and> length items' = length items"
  using assms(1) assms(2) [of "take n items"]
  by (auto simp: detail_poll_def split: if_splits prod.splits)


section \<open>A library that keeps its promises\<close>

text \<open>
  A loop-back instance for concrete runs: what is sent is received, messages of more than a
  megabyte do not fit in memory.
\<close>

definition c_ok :: "int \<Rightarrow> c_call" where
  "c_ok n = \<lparr>rc = n, errno = 0\<rparr>"

definition c_fail :: "int \<Rightarrow> c_call" where
  "c_fail e = \<lparr>rc = - 1, errno = e\<rparr>"

definition empty_msg :: zmq_msg where
  "empty_msg = \<lparr>msg_data = [], msg_more = False\<rparr>"

definition loop_init_size :: "size_t \<Rightarrow> c_call \<times> zmq_msg" where
  "loop_init_size n = (if n \<le> 1000000 then (c_ok 0, \<lparr>msg_data = replicate (unat n) 0, msg_more = False\<rparr>)
     else (c_fail 12, empty_msg))"

definition loop_msg_send :: "u32 \<Rightarrow> zmq_msg \<Rightarrow> zmq_msg list \<Rightarrow> c_call \<times> zmq_msg \<times> zmq_msg list" where
  "loop_msg_send flags m s = (c_ok (int (length (msg_data m))), empty_msg,
     s @ [\<lparr>msg_data = msg_data m, msg_more = flags AND ZMQ_SNDMORE \<noteq> 0\<rparr>])"

definition loop_msg_recv :: "u32 \<Rightarrow> zmq_msg \<Rightarrow> zmq_msg list \<Rightarrow> c_call \<times> zmq_msg \<times> zmq_msg list" where
  "loop_msg_recv flags m s = (case s of [] \<Rightarrow> (c_fail EAGAIN, m, s)
     | x # s' \<Rightarrow> (c_ok (int (length (msg_data x))), x, s'))"

definition loop_recv :: "u32 \<Rightarrow> byte list \<Rightarrow> zmq_msg list \<Rightarrow> c_call \<times> byte list \<times> zmq_msg list" where
  "loop_recv flags b s = (case s of [] \<Rightarrow> (c_fail EAGAIN, b, s)
     | x # s' \<Rightarrow> (if length (msg_data x) < 2 ^ 31 then c_ok (int (length (msg_data x))) else c_fail 22,
                 take (length b) (msg_data x @ drop (length (msg_data x)) b), s'))"

definition loop_zmq :: "zmq_msg list Libzmq" where
  "loop_zmq = \<lparr>zmq_msg_init = (c_ok 0, empty_msg), zmq_msg_init_size = loop_init_size,
     zmq_msg_init_data = (\<lambda>d n. (c_ok 0, \<lparr>msg_data = take (unat n) d, msg_more = False\<rparr>)),
     zmq_msg_close = (\<lambda>_. c_ok 0), zmq_msg_move = (\<lambda>m src. (c_ok 0, src, empty_msg)),
     zmq_msg_copy = (\<lambda>m src. (c_ok 0, src, src)), zmq_msg_get = (\<lambda>_ _. c_ok 0),
     zmq_msg_gets = (\<lambda>_ _. (None, 22)), zmq_msg_send = loop_msg_send, zmq_msg_recv = loop_msg_recv,
     zmq_send = (\<lambda>flags b s. let (c, m, s) = loop_msg_send flags \<lparr>msg_data = b, msg_more = False\<rparr> s in (c, s)),
     zmq_recv = loop_recv, zmq_poll = (\<lambda>items _ s. (c_ok 0, items, s)),
     zmq_bind = (\<lambda>_ s. (c_ok 0, s)), zmq_unbind = (\<lambda>_ s. (c_ok 0, s)),
     zmq_connect = (\<lambda>_ s. (c_ok 0, s)), zmq_disconnect = (\<lambda>_ s. (c_ok 0, s))\<rparr>"

lemma loop_messages_ok: "messages_ok loop_zmq"
  by (auto simp: messages_ok_def loop_zmq_def loop_init_size_def c_ok_def c_fail_def empty_msg_def
      split: if_splits)

lemma loop_recv_inside: "recv_inside loop_zmq"
  by (auto simp: recv_inside_def loop_zmq_def loop_recv_def c_ok_def c_fail_def split: list.splits)

theorem message_string_roundtrip_witness:
  "\<exists>m. message_str loop_zmq ''work'' = Inr m \<and> to_string m = ''work'' \<and> \<not> message_eq m empty_msg"
proof -
  have "\<exists>m0. message_size loop_zmq (of_nat (length ''work'')) = Inr m0"
    by (simp add: message_size_def loop_zmq_def loop_init_size_def c_ok_def)
  then obtain m0 where m0: "message_size loop_zmq (of_nat (length ''work'')) = Inr m0" ..
  have len: "length ''work'' < 2 ^ 64" by simp
  have ok: "msg_ok empty_msg" and "to_string empty_msg \<noteq> ''work''"
    by (simp_all add: msg_ok_def empty_msg_def to_string_def bytes_string_def)
  then show ?thesis
    using message_string_roundtrip [OF loop_messages_ok len ok, unfolded m0, of empty_msg] by auto
qed

theorem recv_buffer_bounds_witness:
  "\<exists>b' r. recv_buffer loop_zmq (buffer_New [7, 7, 7] 2) 0 [\<lparr>msg_data = [1, 2, 3], msg_more = False\<rparr>] =
       (Inr (Some r), b', []) \<and> drop 2 (buf_mem b') = [7] \<and> truncated r"
proof -
  let ?b = "buffer_New [7, 7, 7] 2" and ?s = "[\<lparr>msg_data = [1, 2, 3], msg_more = False\<rparr>]"
  let ?r = "\<lparr>rb_size = 2, rb_untruncated_size = 3\<rparr>" and ?b' = "buffer_New [1, 2, 7] 2"
  have ok: "buf_ok ?b" by (simp add: buf_ok_def buffer_New_def)
  have run: "recv_buffer loop_zmq ?b 0 ?s = (Inr (Some ?r), ?b', [])"
    by (simp add: recv_buffer_def buffer_New_def loop_zmq_def loop_recv_def c_ok_def transferred_def buf_bytes_def)
  have "drop 2 (buf_mem ?b') = [7]" "truncated ?r"
    using recv_buffer_bounds [OF loop_recv_inside ok run] by (simp_all add: buffer_New_def)
  with run show ?thesis by blast
qed

end
