(* ===== verification/Multipart.thy ===== *)
theory Multipart
  imports ZmqMessage
begin

text \<open>
  Multipart messages, \<open>lib/cppzmq/zmq_addon.hpp\<close>: sending and receiving several parts as one
  message, packing several parts into one, and the class \<open>multipart_t\<close>. The C library is the
  parameter \<open>Libzmq\<close> of \<open>ZmqMessage\<close>; the byte order of the machine is the parameter
  \<open>little\<close>. Loops that read from a socket are functions into \<open>option\<close>: a peer that announces
  more parts for ever makes them run for ever.
\<close>

section \<open>Byte order\<close>

text \<open>How the machine stores integers: the most significant byte last or first.\<close>

definition u16_bytes :: "bool \<Rightarrow> 16 word \<Rightarrow> byte list" where
  "u16_bytes little v = (let bs = [ucast (drop_bit 8 v), ucast v] in if little then rev bs else bs)"

definition u32_bytes :: "bool \<Rightarrow> u32 \<Rightarrow> byte list" where
  "u32_bytes little v =
     (let bs = [ucast (drop_bit 24 v), ucast (drop_bit 16 v), ucast (drop_bit 8 v), ucast v]
      in if little then rev bs else bs)"

definition u32_of_bytes :: "bool \<Rightarrow> byte list \<Rightarrow> u32" where
  "u32_of_bytes little bs =
     foldl (\<lambda>a b. push_bit 8 a + ucast b) 0 (if little then rev (take 4 bs) else take 4 bs)"

definition is_little_endian :: "bool \<Rightarrow> bool" where
  "is_little_endian little \<longleftrightarrow> u16_bytes little 0x01 ! 0 = 0x01"

definition write_network_order :: "bool \<Rightarrow> u32 \<Rightarrow> byte list" where
  "write_network_order little v =
     (if is_little_endian little
      then [ucast (drop_bit 24 v AND 255), ucast (drop_bit 16 v AND 255), ucast (drop_bit 8 v AND 255),
            ucast (v AND 255)]
      else u32_bytes little v)"

definition read_u32_network_order :: "bool \<Rightarrow> byte list \<Rightarrow> u32" where
  "read_u32_network_order little buf =
     (if is_little_endian little
      then push_bit 24 (ucast (buf ! 0)) + push_bit 16 (ucast (buf ! 1)) + push_bit 8 (ucast (buf ! 2)) +
           ucast (buf ! 3)
      else u32_of_bytes little buf)"

section \<open>Packing parts into one message\<close>

definition encode_size :: "zmq_msg list \<Rightarrow> size_t res" where
  "encode_size parts = foldE (\<lambda>part mmsg_size.
     let part_size = msg_size part;
         count_size = (if part_size < 255 then 1 else 5)
     in if part_size > 0xFFFFFFFF then Inl (RangeError ''Invalid size, message part too large'')
        else Inr (mmsg_size + (part_size + count_size))) parts 0"

definition encode_part :: "bool \<Rightarrow> zmq_msg \<Rightarrow> byte list \<times> nat \<Rightarrow> (byte list \<times> nat) res" where
  "encode_part little part = (\<lambda>(buf, pos).
     let part_size = ucast (msg_size part) :: u32;
         count = (if part_size < 255 then [ucast part_size] else 255 # write_network_order little part_size)
     in bindE (memcpy_at buf pos count (length count)) (\<lambda>buf.
        bindE (memcpy_at buf (pos + length count) (msg_data part) (unat part_size)) (\<lambda>buf.
          Inr (buf, pos + length count + unat part_size))))"

definition encode :: "'s Libzmq \<Rightarrow> bool \<Rightarrow> zmq_msg list \<Rightarrow> zmq_msg res" where
  "encode z little parts =
     bindE (encode_size parts) (\<lambda>mmsg_size.
     bindE (message_size z mmsg_size) (\<lambda>encoded.
     bindE (foldE (encode_part little) parts (msg_data encoded, 0)) (\<lambda>(buf, pos).
       if of_nat pos = mmsg_size then Inr (encoded\<lparr>msg_data := buf\<rparr>) else Inl AssertionFailed)))"

text \<open>One turn of the decoding loop: the part that starts at \<open>source\<close>, and what follows it.\<close>

definition decode_size :: "bool \<Rightarrow> byte list \<Rightarrow> (nat \<times> byte list) res" where
  "decode_size little source = (case source of
     [] \<Rightarrow> Inl UndefinedBehaviour
   | b # source \<Rightarrow>
       if b = 255
       then (if length source < 4 then Inl OutOfRange
             else Inr (unat (read_u32_network_order little source), drop 4 source))
       else Inr (unat b, source))"

definition decode_part :: "'s Libzmq \<Rightarrow> bool \<Rightarrow> byte list \<Rightarrow> (zmq_msg \<times> byte list) res" where
  "decode_part z little source =
     bindE (decode_size little source) (\<lambda>(part_size, source).
       if length source < part_size then Inl OutOfRange
       else bindE (message_mem z source (of_nat part_size)) (\<lambda>m. Inr (m, drop part_size source)))"

lemma decode_size_shorter: "decode_size little source = Inr (n, rest) \<Longrightarrow> length rest < length source"
  by (auto simp: decode_size_def split: list.splits if_splits)

lemma decode_part_shorter: "decode_part z little source = Inr (m, rest) \<Longrightarrow> length rest < length source"
  using decode_size_shorter [of little source]
  by (fastforce simp: decode_part_def bindE_eq_Inr split: if_splits)

text \<open>The parts decoded before a failure stay in the output.\<close>

function decode_loop :: "'s Libzmq \<Rightarrow> bool \<Rightarrow> byte list \<Rightarrow> zmq_msg list \<Rightarrow> zmq_msg list \<times> unit res" where
  "decode_loop z little source out =
     (if source = [] then (out, Inr ())
      else case decode_part z little source of
             Inl e \<Rightarrow> (out, Inl e)
           | Inr (m, source') \<Rightarrow> decode_loop z little source' (out @ [m]))"
  by pat_completeness auto
termination
  by (relation "measure (\<lambda>(z, little, source, out). length source)") (auto simp: decode_part_shorter)

declare decode_loop.simps [simp del]

definition decode :: "'s Libzmq \<Rightarrow> bool \<Rightarrow> zmq_msg \<Rightarrow> zmq_msg list \<Rightarrow> zmq_msg list \<times> unit res" where
  "decode z little encoded out = decode_loop z little (msg_data encoded) out"


section \<open>Sending and receiving several parts\<close>

text \<open>
  Sending a range: the result and what is left of the messages, since sending empties them. A
  part the socket does not take after the first contradicts the atomicity the library promises.
\<close>

fun send_multipart_from ::
  "'s Libzmq \<Rightarrow> u32 \<Rightarrow> nat \<Rightarrow> zmq_msg list \<Rightarrow> 's \<Rightarrow> size_t option res \<times> zmq_msg list \<times> 's" where
  "send_multipart_from z flags msg_count [] s = (Inr (Some (of_nat msg_count)), [], s)"
| "send_multipart_from z flags msg_count (m # ms) s =
     (case send_message z m (enum_bit_or flags (send_flags_val (if ms = [] then SF_none else SF_sndmore))) s of
        (Inl e, m', s') \<Rightarrow> (Inl e, m' # ms, s')
      | (Inr None, m', s') \<Rightarrow> (if msg_count \<noteq> 0 then Inl AssertionFailed else Inr None, m' # ms, s')
      | (Inr (Some _), m', s') \<Rightarrow>
          (let (r, ms', s'') = send_multipart_from z flags (Suc msg_count) ms s' in (r, m' # ms', s'')))"

definition send_multipart ::
  "'s Libzmq \<Rightarrow> zmq_msg list \<Rightarrow> u32 \<Rightarrow> 's \<Rightarrow> size_t option res \<times> zmq_msg list \<times> 's" where
  "send_multipart z msgs flags s = send_multipart_from z flags 0 msgs s"

text \<open>
  Receiving, with (\<open>CheckN\<close>) or without a bound on the number of parts; \<open>msg\<close> is the message
  received into, which is moved to the output and so empty again in the next turn.
\<close>

partial_function (option) recv_multipart_loop ::
  "'s Libzmq \<Rightarrow> bool \<Rightarrow> nat \<Rightarrow> u32 \<Rightarrow> nat \<Rightarrow> zmq_msg \<Rightarrow> zmq_msg list \<Rightarrow> 's \<Rightarrow>
   (size_t option res \<times> zmq_msg list \<times> 's) option" where
  "recv_multipart_loop z CheckN n flags msg_count msg out s =
     (if CheckN \<and> msg_count \<ge> n
      then Some (Inl (RuntimeError ''Too many message parts in recv_multipart_n''), out, s)
      else case recv_message z msg flags s of
        (Inl e, m, s') \<Rightarrow> Some (Inl e, out, s')
      | (Inr None, m, s') \<Rightarrow> Some (if msg_count \<noteq> 0 then Inl AssertionFailed else Inr None, out, s')
      | (Inr (Some _), m, s') \<Rightarrow>
          (case message_move_from z m of
             Inl e \<Rightarrow> Some (Inl e, out, s')
           | Inr (part, fresh) \<Rightarrow>
               if msg_more m
               then recv_multipart_loop z CheckN n flags (Suc msg_count) fresh (out @ [part]) s'
               else Some (Inr (Some (of_nat (Suc msg_count))), out @ [part], s')))"

definition detail_recv_multipart_n ::
  "'s Libzmq \<Rightarrow> bool \<Rightarrow> nat \<Rightarrow> u32 \<Rightarrow> zmq_msg list \<Rightarrow> 's \<Rightarrow> (size_t option res \<times> zmq_msg list \<times> 's) option" where
  "detail_recv_multipart_n z CheckN n flags out s = (case message_New z of
     Inl e \<Rightarrow> Some (Inl e, out, s)
   | Inr msg \<Rightarrow> recv_multipart_loop z CheckN n flags 0 msg out s)"

definition recv_multipart ::
  "'s Libzmq \<Rightarrow> u32 \<Rightarrow> zmq_msg list \<Rightarrow> 's \<Rightarrow> (size_t option res \<times> zmq_msg list \<times> 's) option" where
  "recv_multipart z flags out s = detail_recv_multipart_n z False 0 flags out s"

definition recv_multipart_n ::
  "'s Libzmq \<Rightarrow> nat \<Rightarrow> u32 \<Rightarrow> zmq_msg list \<Rightarrow> 's \<Rightarrow> (size_t option res \<times> zmq_msg list \<times> 's) option" where
  "recv_multipart_n z n flags out s = detail_recv_multipart_n z True n flags out s"

section \<open>multipart\_t\<close>

text \<open>
  The class is its double-ended queue \<open>m_parts\<close>. The unchecked accessors of an empty queue, and
  of an index past its end, are undefined; \<open>at\<close> throws.
\<close>

type_synonym multipart = "zmq_msg list"

definition multi_index :: "multipart \<Rightarrow> nat \<Rightarrow> zmq_msg res" where
  "multi_index parts n = (if n < length parts then Inr (parts ! n) else Inl UndefinedBehaviour)"

definition multi_at :: "multipart \<Rightarrow> nat \<Rightarrow> zmq_msg res" where
  "multi_at parts n = (if n < length parts then Inr (parts ! n) else Inl OutOfRange)"

definition multi_push :: "zmq_msg \<Rightarrow> multipart \<Rightarrow> multipart" where
  "multi_push m parts = m # parts"

definition multi_add :: "zmq_msg \<Rightarrow> multipart \<Rightarrow> multipart" where
  "multi_add m parts = parts @ [m]"

definition multi_front :: "multipart \<Rightarrow> zmq_msg res" where
  "multi_front parts = (case parts of [] \<Rightarrow> Inl UndefinedBehaviour | m # _ \<Rightarrow> Inr m)"

definition multi_back :: "multipart \<Rightarrow> zmq_msg res" where
  "multi_back parts = (if parts = [] then Inl UndefinedBehaviour else Inr (last parts))"

definition multi_pop :: "multipart \<Rightarrow> (zmq_msg \<times> multipart) res" where
  "multi_pop parts = bindE (multi_front parts) (\<lambda>m. Inr (m, tl parts))"

definition multi_remove :: "multipart \<Rightarrow> (zmq_msg \<times> multipart) res" where
  "multi_remove parts = bindE (multi_back parts) (\<lambda>m. Inr (m, butlast parts))"

definition pushmem :: "'s Libzmq \<Rightarrow> byte list \<Rightarrow> size_t \<Rightarrow> multipart \<Rightarrow> multipart res" where
  "pushmem z src len parts = bindE (message_mem z src len) (\<lambda>m. Inr (m # parts))"

definition addmem :: "'s Libzmq \<Rightarrow> byte list \<Rightarrow> size_t \<Rightarrow> multipart \<Rightarrow> multipart res" where
  "addmem z src len parts = bindE (message_mem z src len) (\<lambda>m. Inr (parts @ [m]))"

definition pushstr :: "'s Libzmq \<Rightarrow> string \<Rightarrow> multipart \<Rightarrow> multipart res" where
  "pushstr z str parts = bindE (message_mem z (string_bytes str) (of_nat (length str))) (\<lambda>m. Inr (m # parts))"

definition addstr :: "'s Libzmq \<Rightarrow> string \<Rightarrow> multipart \<Rightarrow> multipart res" where
  "addstr z str parts = bindE (message_mem z (string_bytes str) (of_nat (length str))) (\<lambda>m. Inr (parts @ [m]))"

text \<open>A value of a fixed-size type is given by its bytes in memory.\<close>

definition pushtyp :: "'s Libzmq \<Rightarrow> byte list \<Rightarrow> multipart \<Rightarrow> multipart res" where
  "pushtyp z obj parts = bindE (message_mem z obj (of_nat (length obj))) (\<lambda>m. Inr (m # parts))"

definition addtyp :: "'s Libzmq \<Rightarrow> byte list \<Rightarrow> multipart \<Rightarrow> multipart res" where
  "addtyp z obj parts = bindE (message_mem z obj (of_nat (length obj))) (\<lambda>m. Inr (parts @ [m]))"

definition popstr :: "multipart \<Rightarrow> (string \<times> multipart) res" where
  "popstr parts = bindE (multi_front parts) (\<lambda>m. Inr (to_string m, tl parts))"

definition poptyp :: "nat \<Rightarrow> multipart \<Rightarrow> (byte list \<times> multipart) res" where
  "poptyp sizeof_T parts = bindE (multi_front parts) (\<lambda>m.
     if of_nat sizeof_T \<noteq> msg_size m
     then Inl (RuntimeError ''Invalid type, size does not match the message size'')
     else Inr (take sizeof_T (msg_data m), tl parts))"

definition peekstr :: "multipart \<Rightarrow> nat \<Rightarrow> string res" where
  "peekstr parts index = bindE (multi_index parts index) (\<lambda>m. Inr (to_string m))"

definition peektyp :: "nat \<Rightarrow> multipart \<Rightarrow> nat \<Rightarrow> byte list res" where
  "peektyp sizeof_T parts index = bindE (multi_index parts index) (\<lambda>m.
     if of_nat sizeof_T \<noteq> msg_size m
     then Inl (RuntimeError ''Invalid type, size does not match the message size'')
     else Inr (take sizeof_T (msg_data m)))"

definition multi_create :: "'s Libzmq \<Rightarrow> byte list \<Rightarrow> multipart res" where
  "multi_create z obj = addtyp z obj []"

definition multi_clone :: "'s Libzmq \<Rightarrow> multipart \<Rightarrow> multipart res" where
  "multi_clone z parts = foldE (\<lambda>m. addmem z (msg_data m) (msg_size m)) parts []"

function multi_prepend :: "multipart \<Rightarrow> multipart \<Rightarrow> multipart res" where
  "multi_prepend parts other =
     (if other = [] then Inr parts
      else bindE (multi_remove other) (\<lambda>(m, other'). multi_prepend (multi_push m parts) other'))"
  by pat_completeness auto
termination
  by (relation "measure (\<lambda>(parts, other). length other)")
    (auto simp: multi_remove_def multi_back_def bindE_eq_Inr)

function multi_append :: "multipart \<Rightarrow> multipart \<Rightarrow> multipart res" where
  "multi_append parts other =
     (if other = [] then Inr parts
      else bindE (multi_pop other) (\<lambda>(m, other'). multi_append (multi_add m parts) other'))"
  by pat_completeness auto
termination
  by (relation "measure (\<lambda>(parts, other). length other)")
    (auto simp: multi_pop_def multi_front_def bindE_eq_Inr split: list.splits)

declare multi_prepend.simps [simp del] multi_append.simps [simp del]


partial_function (option) multi_recv_loop ::
  "'s Libzmq \<Rightarrow> u32 \<Rightarrow> multipart \<Rightarrow> 's \<Rightarrow> (bool res \<times> multipart \<times> 's) option" where
  "multi_recv_loop z flags parts s =
     (case message_New z of
        Inl e \<Rightarrow> Some (Inl e, parts, s)
      | Inr message \<Rightarrow>
          (case recv_message z message flags s of
             (Inl e, m, s') \<Rightarrow> Some (Inl e, parts, s')
           | (Inr None, m, s') \<Rightarrow> Some (Inr False, parts, s')
           | (Inr (Some _), m, s') \<Rightarrow>
               if msg_more m then multi_recv_loop z flags (multi_add m parts) s'
               else Some (Inr True, multi_add m parts, s')))"

definition multi_recv ::
  "'s Libzmq \<Rightarrow> u32 \<Rightarrow> multipart \<Rightarrow> 's \<Rightarrow> (bool res \<times> multipart \<times> 's) option" where
  "multi_recv z flags parts s = multi_recv_loop z flags [] s"

text \<open>Each part is taken off the queue before it is sent, and gone whether or not it could be.\<close>

fun multi_send_loop :: "'s Libzmq \<Rightarrow> u32 \<Rightarrow> multipart \<Rightarrow> 's \<Rightarrow> bool res \<times> multipart \<times> 's" where
  "multi_send_loop z flags [] s = (Inr True, [], s)"
| "multi_send_loop z flags (m # parts) s =
     (case send_message z m ((if parts \<noteq> [] then ZMQ_SNDMORE else 0) OR flags) s of
        (Inl e, m', s') \<Rightarrow> (Inl e, parts, s')
      | (Inr None, m', s') \<Rightarrow> (Inr False, parts, s')
      | (Inr (Some _), m', s') \<Rightarrow> multi_send_loop z flags parts s')"

definition multi_send :: "'s Libzmq \<Rightarrow> u32 \<Rightarrow> multipart \<Rightarrow> 's \<Rightarrow> bool res \<times> multipart \<times> 's" where
  "multi_send z flags parts s = multi_send_loop z (flags AND NOT ZMQ_SNDMORE) parts s"

definition is_text :: "byte list \<Rightarrow> bool" where
  "is_text d \<longleftrightarrow> \<not> list_ex (\<lambda>b. b < 32 \<or> b > 127) d"

definition part_dump :: "zmq_msg \<Rightarrow> string" where
  "part_dump m =
     (let len = unat (msg_size m); d = take len (msg_data m)
      in CHR 0x0A # ''['' @ padded 3 (decimal len) @ ''] '' @
         (if len \<ge> 1000 then ''... (too big to print)''
          else concat (map (\<lambda>b. if is_text d then bytes_string [b] else padded 2 (hexadecimal False (unat b))) d)))"

definition multi_str :: "multipart \<Rightarrow> string" where
  "multi_str parts = concat (map part_dump parts)"

definition multi_eq :: "multipart \<Rightarrow> multipart \<Rightarrow> bool" where
  "multi_eq parts other \<longleftrightarrow>
     length parts = length other \<and> list_all (\<lambda>i. message_eq (parts ! i) (other ! i)) [0..<length parts]"

definition multi_encode :: "'s Libzmq \<Rightarrow> bool \<Rightarrow> multipart \<Rightarrow> zmq_msg res" where
  "multi_encode z little parts = encode z little parts"

definition decode_append :: "'s Libzmq \<Rightarrow> bool \<Rightarrow> multipart \<Rightarrow> zmq_msg \<Rightarrow> multipart \<times> unit res" where
  "decode_append z little parts encoded = decode z little encoded parts"

definition multi_decode :: "'s Libzmq \<Rightarrow> bool \<Rightarrow> zmq_msg \<Rightarrow> multipart res" where
  "multi_decode z little encoded =
     (case decode z little encoded [] of (tmp, Inl e) \<Rightarrow> Inl e | (tmp, Inr _) \<Rightarrow> Inr tmp)"

section \<open>Byte order does not matter\<close>

lemma is_little_endian_iff: "is_little_endian little \<longleftrightarrow> little"
  by (simp add: is_little_endian_def u16_bytes_def Let_def)

lemma write_network_order_eq:
  "write_network_order little v = [ucast (drop_bit 24 v), ucast (drop_bit 16 v), ucast (drop_bit 8 v), ucast v]"
proof -
  have "w AND 255 = take_bit 8 w" for w :: u32
    by (simp add: take_bit_eq_mask mask_eq_exp_minus_1)
  then have "ucast (w AND 255) = (ucast w :: byte)" for w :: u32
    by (intro bit_word_eqI) (auto simp: bit_simps)
  then show ?thesis by (simp add: write_network_order_def u32_bytes_def is_little_endian_iff)
qed

lemma read_u32_eq:
  assumes "length buf \<ge> 4"
  shows "read_u32_network_order little buf =
    push_bit 24 (ucast (buf ! 0)) + push_bit 16 (ucast (buf ! 1)) + push_bit 8 (ucast (buf ! 2)) + ucast (buf ! 3)"
proof -
  obtain a b c d rest where "buf = a # b # c # d # rest"
    using assms by (auto simp: numeral_eq_Suc Suc_le_length_iff)
  then show ?thesis
    by (simp add: read_u32_network_order_def is_little_endian_iff u32_of_bytes_def push_bit_add)
qed


lemma bytes_of_nat:
  fixes n :: nat
  assumes "n < 2 ^ 32"
  shows "2 ^ 24 * (n div 2 ^ 24 mod 256) + 2 ^ 16 * (n div 2 ^ 16 mod 256) + 2 ^ 8 * (n div 2 ^ 8 mod 256) + n mod 256 = n"
proof -
  define a where "a = n div 256"
  define b where "b = a div 256"
  define c where "c = b div 256"
  have "n = 256 * a + n mod 256" "a = 256 * b + a mod 256" "b = 256 * c + b mod 256"
    by (simp_all add: a_def b_def c_def)
  moreover have "n div 2 ^ 8 = a" "n div 2 ^ 16 = b" "n div 2 ^ 24 = c"
    by (simp_all add: a_def b_def c_def div_mult2_eq [symmetric])
  moreover have "c mod 256 = c"
    using assms by (simp add: a_def b_def c_def div_mult2_eq [symmetric] less_mult_imp_div_less)
  ultimately show ?thesis by simp
qed

lemma read_write_network_order:
  "read_u32_network_order little (write_network_order little' v @ rest) = v"
proof -
  have ub: "(ucast (ucast (drop_bit k v) :: byte) :: u32) = of_nat (unat v div 2 ^ k mod 256)" for k
    using unsigned_less [of v, where 'a = nat]
    by (intro word_unat_eq_iff [THEN iffD2])
      (simp add: unsigned_ucast_eq unsigned_take_bit_eq unsigned_drop_bit_eq drop_bit_eq_div [of k "unat v"] take_bit_nat_eq_self
         take_bit_eq_mod [of 8 "_ :: nat"] unsigned_of_nat)
  have "unat v < 2 ^ 32" using unsigned_less [of v, where 'a = nat] by simp
  then have "of_nat (2 ^ 24 * (unat v div 2 ^ 24 mod 256) + 2 ^ 16 * (unat v div 2 ^ 16 mod 256) +
      2 ^ 8 * (unat v div 2 ^ 8 mod 256) + unat v div 2 ^ 0 mod 256) = v"
    using bytes_of_nat [of "unat v"] by simp
  then show ?thesis
    using ub [of 24] ub [of 16] ub [of 8] ub [of 0]
    by (simp add: read_u32_eq write_network_order_eq push_bit_eq_mult mult.commute)
qed


section \<open>Frames\<close>

text \<open>
  The encoding of one part: its size in one byte, or in five when it does not fit, then its data.
\<close>

definition frame :: "byte list \<Rightarrow> byte list" where
  "frame d = (if length d < 255 then [of_nat (length d)]
              else 255 # write_network_order True (of_nat (length d))) @ d"

text \<open>
  What decoding relies on: every frame can be split off the front of a text, and the loop does
  nothing but that. \<open>fits\<close> says that there is memory for the part.
\<close>

locale framing =
  fixes frm :: "'d \<Rightarrow> 'b list" and unframe :: "'b list \<Rightarrow> ('m \<times> 'b list) res" and msg :: "'d \<Rightarrow> 'm"
    and fits :: "'d \<Rightarrow> bool" and loop :: "'b list \<Rightarrow> 'm list \<Rightarrow> 'm list \<times> unit res"
  assumes frm_nonempty: "frm d \<noteq> []"
    and unframe_frm: "fits d \<Longrightarrow> unframe (frm d @ rest) = Inr (msg d, rest)"
    and loop_Nil: "loop [] out = (out, Inr ())"
    and loop_step: "bs \<noteq> [] \<Longrightarrow> loop bs out =
      (case unframe bs of Inl e \<Rightarrow> (out, Inl e) | Inr (m, rest) \<Rightarrow> loop rest (out @ [m]))"
begin

lemma loop_frames:
  "list_all fits ds \<Longrightarrow> loop (concat (map frm ds) @ rest) out = loop rest (out @ map msg ds)"
proof (induction ds arbitrary: out)
  case (Cons d ds)
  then show ?case
    using frm_nonempty [of d] loop_step [of "frm d @ concat (map frm ds) @ rest" out] unframe_frm [of d]
    by simp
qed simp

lemma loop_decodes: "list_all fits ds \<Longrightarrow> loop (concat (map frm ds)) out = (out @ map msg ds, Inr ())"
  using loop_frames [of ds "[]" out] by (simp add: loop_Nil)

text \<open>A malformed tail is reported, and the parts before it stay in the output.\<close>

lemma loop_malformed:
  "list_all fits ds \<Longrightarrow> rest \<noteq> [] \<Longrightarrow> unframe rest = Inl e \<Longrightarrow>
   loop (concat (map frm ds) @ rest) out = (out @ map msg ds, Inl e)"
  using loop_frames [of ds rest out] loop_step [of rest] by simp

end

definition has_memory :: "'s Libzmq \<Rightarrow> byte list \<Rightarrow> bool" where
  "has_memory z d \<longleftrightarrow> length d < 2 ^ 32 \<and> (\<exists>m. message_size z (of_nat (length d)) = Inr m)"

definition msg_of :: "byte list \<Rightarrow> zmq_msg" where
  "msg_of d = \<lparr>msg_data = d, msg_more = False\<rparr>"

lemma unat_of_nat_u32: "n < 2 ^ 32 \<Longrightarrow> unat (of_nat n :: u32) = n"
  by (simp add: unat_of_nat take_bit_nat_eq_self)

lemma unat_of_nat_byte: "n < 256 \<Longrightarrow> unat (of_nat n :: byte) = n"
  by (simp add: unat_of_nat take_bit_nat_eq_self)

lemma decode_size_frame:
  assumes "length d < 2 ^ 32"
  shows "decode_size little (frame d @ rest) = Inr (length d, d @ rest)"
proof (cases "length d < 255")
  case True
  then have "unat (of_nat (length d) :: byte) \<noteq> unat (255 :: byte)"
    using unat_of_nat_byte [of "length d"] by simp
  then have "(of_nat (length d) :: byte) \<noteq> 255" by metis
  with True show ?thesis by (simp add: frame_def decode_size_def unat_of_nat_byte)
next
  case False
  have "length (write_network_order True (of_nat (length d))) = 4"
    by (simp add: write_network_order_eq)
  with False assms show ?thesis
    using read_write_network_order [of little True "of_nat (length d)" "d @ rest"]
    by (simp add: frame_def decode_size_def unat_of_nat_u32)
qed

lemma decode_part_frame:
  assumes z: "messages_ok z" and d: "has_memory z d"
  shows "decode_part z little (frame d @ rest) = Inr (msg_of d, rest)"
proof -
  have len: "length d < 2 ^ 32" and "\<exists>m. message_size z (of_nat (length d)) = Inr m"
    using d by (auto simp: has_memory_def)
  moreover have "unat (of_nat (length d) :: size_t) = length d"
    using len by (intro unat_of_nat_size) simp
  ultimately show ?thesis
    by (auto simp: decode_part_def decode_size_frame [OF len] message_mem_result [OF z] msg_of_def)
qed

definition decodable :: "'s Libzmq \<Rightarrow> byte list \<Rightarrow> bool" where
  "decodable z d \<longleftrightarrow> messages_ok z \<and> has_memory z d"

interpretation frames: framing frame "decode_part z little" msg_of "decodable z" "decode_loop z little" for z little
proof
  show "frame d \<noteq> []" for d by (simp add: frame_def)
  show "decodable z d \<Longrightarrow> decode_part z little (frame d @ rest) = Inr (msg_of d, rest)" for d rest
    by (simp add: decodable_def decode_part_frame)
  show "decode_loop z little [] out = (out, Inr ())" for out
    by (simp add: decode_loop.simps)
  show "bs \<noteq> [] \<Longrightarrow> decode_loop z little bs out =
      (case decode_part z little bs of Inl e \<Rightarrow> (out, Inl e) | Inr (m, rest) \<Rightarrow> decode_loop z little rest (out @ [m]))"
    for bs out by (subst decode_loop.simps) simp
qed


section \<open>What encoding produces\<close>

lemma memcpy_at_here:
  "n \<le> length junk \<Longrightarrow> n \<le> length src \<Longrightarrow>
   memcpy_at (pre @ junk) (length pre) src n = Inr (pre @ take n src @ drop n junk)"
  by (simp add: memcpy_at_def)

lemma encode_part_result:
  assumes len: "length (msg_data m) < 2 ^ 32" and room: "length (frame (msg_data m)) \<le> length junk"
  shows "encode_part little m (pre @ junk, length pre) =
    Inr ((pre @ frame (msg_data m)) @ drop (length (frame (msg_data m))) junk, length (pre @ frame (msg_data m)))"
proof -
  let ?d = "msg_data m" and ?n = "length (msg_data m)"
  define count where "count = (if ?n < 255 then [of_nat ?n] else 255 # write_network_order little (of_nat ?n))"
  have size: "ucast (msg_size m) = (of_nat ?n :: u32)"
    using len by (intro word_unat_eq_iff [THEN iffD2])
      (simp add: msg_size_def unsigned_ucast_eq unsigned_of_nat take_bit_nat_eq_self)
  have small: "(of_nat ?n :: u32) < 255 \<longleftrightarrow> ?n < 255"
    using len by (simp add: word_less_nat_alt unat_of_nat_u32)
  have byte: "?n < 255 \<Longrightarrow> ucast (of_nat ?n :: u32) = (of_nat ?n :: byte)"
    by (intro word_unat_eq_iff [THEN iffD2]) (simp add: unsigned_ucast_eq unsigned_of_nat take_bit_nat_eq_self)
  have frm: "frame ?d = count @ ?d"
    by (simp add: frame_def count_def write_network_order_eq)
  have cnt: "(if (ucast (msg_size m) :: u32) < 255 then [ucast (ucast (msg_size m) :: u32)]
      else 255 # write_network_order little (ucast (msg_size m))) = count"
    using byte by (simp add: size small count_def)
  have "length count + ?n \<le> length junk" using room by (simp add: frm)
  then have "memcpy_at (pre @ junk) (length pre) count (length count) = Inr (pre @ count @ drop (length count) junk)"
      and "memcpy_at ((pre @ count) @ drop (length count) junk) (length (pre @ count)) ?d ?n =
        Inr ((pre @ count) @ ?d @ drop ?n (drop (length count) junk))"
    using memcpy_at_here [of "length count" junk count pre]
      memcpy_at_here [of ?n "drop (length count) junk" ?d "pre @ count"] by simp_all
  then show ?thesis
    unfolding encode_part_def Let_def prod.case cnt
    using len by (simp add: size unat_of_nat_u32 frm add.commute)
qed

definition frames_of :: "zmq_msg list \<Rightarrow> byte list" where
  "frames_of parts = concat (map (\<lambda>m. frame (msg_data m)) parts)"

lemma encode_loop_result:
  assumes "list_all (\<lambda>m. length (msg_data m) < 2 ^ 32) parts" and "length (frames_of parts) \<le> length junk"
  shows "foldE (encode_part little) parts (pre @ junk, length pre) =
    Inr (pre @ frames_of parts @ drop (length (frames_of parts)) junk, length pre + length (frames_of parts))"
  using assms
proof (induction parts arbitrary: pre junk)
  case (Cons m parts)
  let ?f = "frame (msg_data m)"
  have "encode_part little m (pre @ junk, length pre) = Inr ((pre @ ?f) @ drop (length ?f) junk, length (pre @ ?f))"
    using Cons.prems by (intro encode_part_result) (simp_all add: frames_of_def)
  moreover have "foldE (encode_part little) parts ((pre @ ?f) @ drop (length ?f) junk, length (pre @ ?f)) =
      Inr ((pre @ ?f) @ frames_of parts @ drop (length (frames_of parts)) (drop (length ?f) junk),
           length (pre @ ?f) + length (frames_of parts))"
    using Cons.prems by (intro Cons.IH) (simp_all add: frames_of_def)
  ultimately show ?case by (simp add: frames_of_def add_ac)
qed (simp add: frames_of_def)

lemma frame_length: "length (frame d) = length d + (if length d < 255 then 1 else 5)"
  by (simp add: frame_def write_network_order_eq)

lemma part_size_facts:
  assumes "msg_ok m"
  shows "msg_size m > 0xFFFFFFFF \<longleftrightarrow> \<not> length (msg_data m) < 2 ^ 32"
    and "msg_size m < 255 \<longleftrightarrow> length (msg_data m) < 255"
  using assms by (auto simp: word_less_nat_alt)

lemma encode_size_result:
  assumes "list_all msg_ok parts"
  shows "encode_size parts = (if list_all (\<lambda>m. length (msg_data m) < 2 ^ 32) parts
    then Inr (of_nat (length (frames_of parts))) else Inl (RangeError ''Invalid size, message part too large''))"
proof -
  let ?step = "\<lambda>part mmsg_size.
     let part_size = msg_size part;
         count_size = (if part_size < 255 then 1 else 5)
     in if part_size > 0xFFFFFFFF then Inl (RangeError ''Invalid size, message part too large'')
        else Inr (mmsg_size + (part_size + count_size))"
  have "foldE ?step parts acc = (if list_all (\<lambda>m. length (msg_data m) < 2 ^ 32) parts
    then Inr (acc + of_nat (length (frames_of parts))) else Inl (RangeError ''Invalid size, message part too large''))" for acc
    using assms
  proof (induction parts arbitrary: acc)
    case (Cons m parts)
    then have ok: "msg_ok m" by simp
    have "of_nat (length (frame (msg_data m))) = msg_size m + (if msg_size m < 255 then 1 else 5)"
      by (simp add: frame_length part_size_facts [OF ok]) (simp add: msg_size_def add.commute)
    then have "?step m acc = (if length (msg_data m) < 2 ^ 32 then Inr (acc + of_nat (length (frame (msg_data m))))
        else Inl (RangeError ''Invalid size, message part too large''))" for acc
      by (simp add: part_size_facts(1) [OF ok])
    with Cons show ?case by (simp add: frames_of_def add.assoc)
  qed (simp add: frames_of_def)
  from this [of 0] show ?thesis by (simp add: encode_size_def)
qed

lemma encode_result:
  assumes z: "messages_ok z" and ok: "list_all msg_ok parts" and total: "length (frames_of parts) < 2 ^ 64"
  shows "encode z little parts =
    (if list_all (\<lambda>m. length (msg_data m) < 2 ^ 32) parts
     then bindE (message_size z (of_nat (length (frames_of parts)))) (\<lambda>_. Inr (msg_of (frames_of parts)))
     else Inl (RangeError ''Invalid size, message part too large''))"
proof (cases "list_all (\<lambda>m. length (msg_data m) < 2 ^ 32) parts")
  case True
  let ?n = "of_nat (length (frames_of parts)) :: size_t"
  show ?thesis
  proof (cases "message_size z ?n")
    case (Inr m)
    then have "length (msg_data m) = length (frames_of parts)" "\<not> msg_more m"
      using message_size_ok [OF z Inr] unat_of_nat_size [OF total] by auto
    with True Inr show ?thesis
      using encode_loop_result [OF True, of "msg_data m" little "[]"]
      by (cases m) (simp add: encode_def encode_size_result [OF ok] msg_of_def)
  qed (simp add: encode_def encode_size_result [OF ok] True)
qed (simp add: encode_def encode_size_result [OF ok])


section \<open>What decoding accepts\<close>

text \<open>
  The texts of the format: sequences of parts, each with its size in one byte, or in the four
  bytes after a byte 255, in network order. A small part may also have the long form.
\<close>

definition header :: "byte list \<Rightarrow> nat \<Rightarrow> bool" where
  "header hdr n \<longleftrightarrow> (\<exists>b. hdr = [b] \<and> b \<noteq> 255 \<and> unat b = n) \<or>
     (n < 2 ^ 32 \<and> hdr = 255 # u32_bytes False (of_nat n))"

inductive framed :: "byte list \<Rightarrow> byte list list \<Rightarrow> bool" where
  framed_Nil: "framed [] []"
| framed_Cons: "header hdr (length d) \<Longrightarrow> framed rest ds \<Longrightarrow> framed (hdr @ d @ rest) (d # ds)"

inductive_cases framed_NilE: "framed [] ds"

lemma header_nonempty: "header hdr n \<Longrightarrow> hdr \<noteq> []"
  by (auto simp: header_def)

lemma header_bound: "header hdr n \<Longrightarrow> n < 2 ^ 32"
  by (auto simp: header_def intro: order.strict_trans [OF unsigned_less])

lemma network_order_bytes: "u32_bytes False v = write_network_order little v"
  by (simp add: u32_bytes_def write_network_order_eq)

lemma nat_of_bytes:
  fixes a b c d :: nat
  assumes "a < 256" "b < 256" "c < 256" "d < 256" "n = 2 ^ 24 * a + 2 ^ 16 * b + 2 ^ 8 * c + d"
  shows "n div 2 ^ 24 mod 256 = a" "n div 2 ^ 16 mod 256 = b" "n div 2 ^ 8 mod 256 = c" "n mod 256 = d"
proof -
  have last: "(256 * x + y) mod 256 = y \<and> (256 * x + y) div 256 = x" if "y < 256" for x y :: nat
    using that by simp
  have "n = 256 * (256 * (256 * a + b) + c) + d" using assms(5) by simp
  then have 1: "n mod 256 = d" "n div 256 = 256 * (256 * a + b) + c"
    using last [OF assms(4)] by blast+
  have 2: "n div 256 mod 256 = c" "n div 256 div 256 = 256 * a + b"
    unfolding 1 using last [OF assms(3)] by blast+
  have 3: "n div 256 div 256 mod 256 = b" "n div 256 div 256 div 256 = a"
    unfolding 2 using last [OF assms(2)] by blast+
  have "n div 2 ^ 8 = n div 256" "n div 2 ^ 16 = n div 256 div 256" "n div 2 ^ 24 = n div 256 div 256 div 256"
    by (simp_all add: div_mult2_eq [symmetric])
  with 1(1) 2(1) 3 assms(1)
  show "n div 2 ^ 24 mod 256 = a" "n div 2 ^ 16 mod 256 = b" "n div 2 ^ 8 mod 256 = c" "n mod 256 = d"
    by (simp_all only: mod_less)
qed

lemma u32_bytes_read:
  assumes "length w = 4"
  shows "u32_bytes False (read_u32_network_order little w) = w"
proof -
  obtain a b c d where w: "w = [a, b, c, d]"
    using assms by (auto simp: numeral_eq_Suc length_Suc_conv)
  define r where "r = (push_bit 24 (ucast a) + push_bit 16 (ucast b) + push_bit 8 (ucast c) + ucast d :: u32)"
  have lt: "unat x < 256" for x :: byte using unsigned_less [of x, where 'a = nat] by simp
  have "r = of_nat (2 ^ 24 * unat a + 2 ^ 16 * unat b + 2 ^ 8 * unat c + unat d)"
    by (simp add: r_def push_bit_eq_mult mult.commute)
  moreover have bound: "2 ^ 24 * unat a + 2 ^ 16 * unat b + 2 ^ 8 * unat c + unat d < 2 ^ 32"
    using lt [of a] lt [of b] lt [of c] lt [of d] by simp
  ultimately have n: "unat r = 2 ^ 24 * unat a + 2 ^ 16 * unat b + 2 ^ 8 * unat c + unat d"
    using unat_of_nat_u32 by metis
  have k: "unat (ucast (drop_bit k r) :: byte) = unat r div 2 ^ k mod 256" for k
    using unsigned_less [of r, where 'a = nat]
    by (simp add: unsigned_ucast_eq unsigned_take_bit_eq unsigned_drop_bit_eq drop_bit_eq_div [of k "unat r"]
        take_bit_nat_eq_self take_bit_eq_mod [of 8 "_ :: nat"])
  note digits = nat_of_bytes [OF lt lt lt lt n]
  have "ucast (drop_bit 24 r) = a" "ucast (drop_bit 16 r) = b" "ucast (drop_bit 8 r) = c"
    by (rule word_unat_eq_iff [THEN iffD2], simp only: k digits)+
  moreover have "ucast r = d"
    using k [of 0] digits(4) by (simp add: word_unat_eq_iff)
  moreover have "read_u32_network_order little w = r" by (simp add: w r_def read_u32_eq)
  ultimately show ?thesis by (simp add: w u32_bytes_def)
qed

lemma decode_size_header:
  "decode_size little source = Inr (n, rest) \<longleftrightarrow> (\<exists>hdr. header hdr n \<and> source = hdr @ rest)"
proof
  assume run: "decode_size little source = Inr (n, rest)"
  then obtain b tail where src: "source = b # tail"
    by (auto simp: decode_size_def split: list.splits)
  show "\<exists>hdr. header hdr n \<and> source = hdr @ rest"
  proof (cases "b = 255")
    case True
    let ?w = "take 4 tail"
    have long: "length tail \<ge> 4" and "n = unat (read_u32_network_order little tail)" and rest: "rest = drop 4 tail"
      using run src True by (auto simp: decode_size_def split: if_splits)
    moreover have "read_u32_network_order little tail = read_u32_network_order little ?w"
      using long by (simp add: read_u32_eq)
    ultimately have n: "n = unat (read_u32_network_order little ?w)" by simp
    have w: "u32_bytes False (of_nat n) = ?w"
      unfolding n of_nat_unat ucast_id using long by (intro u32_bytes_read) simp
    have bound: "n < 2 ^ 32"
      unfolding n using unsigned_less [of "read_u32_network_order little ?w", where 'a = nat] by simp
    have "tail = u32_bytes False (of_nat n) @ rest" unfolding w rest by simp
    with bound src True show ?thesis
      by (intro exI[of _ "255 # u32_bytes False (of_nat n)"]) (simp add: header_def)
  next
    case False
    with run src show ?thesis
      by (intro exI[of _ "[b]"]) (simp add: decode_size_def header_def)
  qed
next
  assume "\<exists>hdr. header hdr n \<and> source = hdr @ rest"
  moreover have "length (u32_bytes False (of_nat n)) = 4" by (simp add: u32_bytes_def)
  ultimately show "decode_size little source = Inr (n, rest)"
    using read_write_network_order [of little True "of_nat n" rest]
    by (auto simp: header_def decode_size_def network_order_bytes [of _ True] unat_of_nat_u32)
qed

lemma decode_part_Inr:
  assumes z: "messages_ok z"
  shows "decode_part z little source = Inr (m, rest) \<longleftrightarrow>
    (\<exists>hdr d. source = hdr @ d @ rest \<and> header hdr (length d) \<and> has_memory z d \<and> m = msg_of d)"
proof
  assume run: "decode_part z little source = Inr (m, rest)"
  then obtain n tail where ds: "decode_size little source = Inr (n, tail)" and n: "n \<le> length tail"
    and mem: "message_mem z tail (of_nat n) = Inr m" and rest: "rest = drop n tail"
    by (auto simp: decode_part_def bindE_eq_Inr not_less split: if_splits)
  obtain hdr where hdr: "header hdr n" "source = hdr @ tail" using ds decode_size_header by blast
  have len: "unat (of_nat n :: size_t) = n"
    using header_bound [OF hdr(1)] by (intro unat_of_nat_size) simp
  have "\<exists>m. message_size z (of_nat n) = Inr m" "m = msg_of (take n tail)"
    using mem message_mem_result [OF z, of "of_nat n" tail] n len by (auto simp: bindE_eq_Inr msg_of_def)
  with hdr rest n show "\<exists>hdr d. source = hdr @ d @ rest \<and> header hdr (length d) \<and> has_memory z d \<and> m = msg_of d"
    using header_bound [OF hdr(1)]
    by (intro exI[of _ hdr] exI[of _ "take n tail"]) (simp add: has_memory_def)
next
  assume "\<exists>hdr d. source = hdr @ d @ rest \<and> header hdr (length d) \<and> has_memory z d \<and> m = msg_of d"
  then obtain hdr d where src: "source = hdr @ d @ rest" and hdr: "header hdr (length d)"
    and mem: "has_memory z d" and m: "m = msg_of d" by blast
  have ds: "decode_size little source = Inr (length d, d @ rest)"
    using decode_size_header hdr src by blast
  have "unat (of_nat (length d) :: size_t) = length d"
    using header_bound [OF hdr] by (intro unat_of_nat_size) simp
  with mem show "decode_part z little source = Inr (m, rest)"
    by (auto simp: decode_part_def ds message_mem_result [OF z] has_memory_def m msg_of_def)
qed

lemma decode_loop_sound:
  assumes "messages_ok z"
  shows "decode_loop z little source out = (out', Inr ()) \<Longrightarrow>
    \<exists>ds. framed source ds \<and> list_all (has_memory z) ds \<and> out' = out @ map msg_of ds"
proof (induction source arbitrary: out rule: length_induct)
  case (1 source)
  show ?case
  proof (cases "source = []")
    case True
    with "1.prems" show ?thesis
      by (intro exI[of _ "[]"]) (simp add: decode_loop.simps framed_Nil)
  next
    case False
    then obtain m rest where part: "decode_part z little source = Inr (m, rest)"
      and tail: "decode_loop z little rest (out @ [m]) = (out', Inr ())"
      using "1.prems" frames.loop_step [OF False, of z little out] by (auto split: sum.splits)
    obtain ds where ds: "framed rest ds" "list_all (has_memory z) ds" "out' = (out @ [m]) @ map msg_of ds"
      using "1.IH" [rule_format, OF decode_part_shorter [OF part] tail] by blast
    obtain hdr d where "source = hdr @ d @ rest" "header hdr (length d)" "has_memory z d" "m = msg_of d"
      using part decode_part_Inr [OF assms] by blast
    with ds framed_Cons [of hdr d rest ds] show ?thesis by (intro exI[of _ "d # ds"]) simp
  qed
qed

lemma decode_loop_complete:
  assumes "messages_ok z"
  shows "framed source ds \<Longrightarrow> list_all (has_memory z) ds \<Longrightarrow>
    decode_loop z little source out = (out @ map msg_of ds, Inr ())"
proof (induction source ds arbitrary: out rule: framed.induct)
  case framed_Nil
  then show ?case by (simp add: frames.loop_Nil)
next
  case (framed_Cons hdr d rest ds)
  have "decode_part z little (hdr @ d @ rest) = Inr (msg_of d, rest)"
    using framed_Cons.hyps(1) framed_Cons.prems decode_part_Inr [OF assms] by auto
  with framed_Cons header_nonempty [OF framed_Cons.hyps(1)] show ?case
    using frames.loop_step [of "hdr @ d @ rest" z little out] by simp
qed

section \<open>Queues of parts\<close>

lemma multi_prepend_result: "multi_prepend parts other = Inr (other @ parts)"
proof (induction other arbitrary: parts rule: rev_induct)
  case (snoc m other)
  then show ?case
    by (subst multi_prepend.simps) (simp add: multi_remove_def multi_back_def multi_push_def)
qed (simp add: multi_prepend.simps)

lemma multi_append_result: "multi_append parts other = Inr (parts @ other)"
proof (induction other arbitrary: parts)
  case (Cons m other)
  then show ?case
    by (subst multi_append.simps) (simp add: multi_pop_def multi_front_def multi_add_def)
qed (simp add: multi_append.simps)

lemma multi_eq_iff:
  assumes "list_all msg_ok parts" and "list_all msg_ok other"
  shows "multi_eq parts other \<longleftrightarrow> map msg_data parts = map msg_data other"
proof -
  have "length parts = length other \<Longrightarrow> i < length parts \<Longrightarrow>
      message_eq (parts ! i) (other ! i) \<longleftrightarrow> msg_data (parts ! i) = msg_data (other ! i)" for i
    using assms by (intro message_eq_iff) (simp_all add: list_all_length)
  then have "length parts = length other \<Longrightarrow> list_all (\<lambda>i. message_eq (parts ! i) (other ! i)) [0..<length parts] \<longleftrightarrow>
      (\<forall>i < length parts. msg_data (parts ! i) = msg_data (other ! i))"
    unfolding list_all_iff by auto
  moreover have "map msg_data parts = map msg_data other \<longleftrightarrow> length parts = length other \<and>
      (\<forall>i < length parts. msg_data (parts ! i) = msg_data (other ! i))"
    by (auto simp: list_eq_iff_nth_eq)
  ultimately show ?thesis unfolding multi_eq_def by blast
qed

lemma multi_clone_result:
  assumes z: "messages_ok z" and ok: "list_all msg_ok parts"
    and mem: "list_all (\<lambda>m. \<exists>m'. message_size z (msg_size m) = Inr m') parts"
  shows "multi_clone z parts = Inr (map (\<lambda>m. msg_of (msg_data m)) parts)"
proof -
  have "foldE (\<lambda>m. addmem z (msg_data m) (msg_size m)) parts acc = Inr (acc @ map (\<lambda>m. msg_of (msg_data m)) parts)" for acc
    using ok mem
  proof (induction parts arbitrary: acc)
    case (Cons m parts)
    then have "message_mem z (msg_data m) (msg_size m) = Inr (msg_of (msg_data m))"
      by (auto simp: message_mem_result [OF z] msg_of_def)
    with Cons show ?case by (simp add: addmem_def)
  qed simp
  then show ?thesis by (simp add: multi_clone_def)
qed


section \<open>Parts over a connection\<close>

text \<open>
  What the library promises of a reliable connection: a message it takes arrives at the end of
  the queue \<open>pending\<close> of the receiver, marked when more parts follow, and the receiver gets the
  messages in order. A message it does not take leaves the queue alone.
\<close>

definition channel_ok :: "'s Libzmq \<Rightarrow> ('s \<Rightarrow> zmq_msg list) \<Rightarrow> bool" where
  "channel_ok z pending \<longleftrightarrow>
     (\<forall>flags m s c m' s'. zmq_msg_send z flags m s = (c, m', s') \<longrightarrow>
        pending s' = (if rc c \<ge> 0 then pending s @ [\<lparr>msg_data = msg_data m, msg_more = flags AND ZMQ_SNDMORE \<noteq> 0\<rparr>]
                      else pending s)) \<and>
     (\<forall>flags m s x rest. pending s = x # rest \<longrightarrow>
        (\<exists>c s'. zmq_msg_recv z flags m s = (c, x, s') \<and> rc c = int (length (msg_data x)) \<and> pending s' = rest))"

text \<open>The parts as they travel: all but the last one announce another.\<close>

fun marked :: "zmq_msg list \<Rightarrow> zmq_msg list" where
  "marked [] = []"
| "marked (m # ms) = m\<lparr>msg_more := ms \<noteq> []\<rparr> # marked ms"

lemma marked_data [simp]: "map msg_data (marked ms) = map msg_data ms" "marked ms = [] \<longleftrightarrow> ms = []"
  "length (marked ms) = length ms"
  by (induction ms) simp_all

lemma send_message_pending:
  assumes "channel_ok z pending" and "send_message z m flags s = (Inr (Some n), m', s')"
  shows "pending s' = pending s @ [m\<lparr>msg_more := flags AND ZMQ_SNDMORE \<noteq> 0\<rparr>]"
proof -
  obtain c where run: "zmq_msg_send z flags m s = (c, m', s')" and "rc c \<ge> 0"
    using assms(2) by (auto simp: send_message_def transferred_def split: prod.splits if_splits)
  with assms(1) show ?thesis by (cases m) (auto simp: channel_ok_def)
qed

lemma recv_message_pending:
  assumes "channel_ok z pending" and "pending s = x # rest"
  shows "\<exists>n s'. recv_message z m flags s = (Inr (Some n), x, s') \<and> pending s' = rest"
proof -
  obtain c s' where "zmq_msg_recv z flags m s = (c, x, s')" "rc c = int (length (msg_data x))" "pending s' = rest"
    using assms(1) [unfolded channel_ok_def, THEN conjunct2, rule_format, OF assms(2)] by blast
  then show ?thesis by (simp add: recv_message_def transferred_def msg_size_def)
qed

lemma sndmore_flag:
  assumes "flags AND ZMQ_SNDMORE = 0"
  shows "((if b then ZMQ_SNDMORE else 0) OR flags) AND ZMQ_SNDMORE \<noteq> 0 \<longleftrightarrow> b"
    and "(flags OR (if b then ZMQ_SNDMORE else 0)) AND ZMQ_SNDMORE \<noteq> 0 \<longleftrightarrow> b"
  using assms by (auto simp: bit.conj_disj_distrib2 ZMQ_SNDMORE_def)

lemma multi_send_loop_pending:
  assumes ch: "channel_ok z pending" and "flags AND ZMQ_SNDMORE = 0"
  shows "multi_send_loop z flags parts s = (Inr True, left, s') \<Longrightarrow>
    left = [] \<and> pending s' = pending s @ marked parts"
proof (induction parts arbitrary: s)
  case (Cons m parts)
  then obtain n m' s1 where run: "send_message z m ((if parts \<noteq> [] then ZMQ_SNDMORE else 0) OR flags) s = (Inr (Some n), m', s1)"
    and tail: "multi_send_loop z flags parts s1 = (Inr True, left, s')"
    by (auto split: prod.splits sum.splits option.splits)
  have "pending s1 = pending s @ [m\<lparr>msg_more := parts \<noteq> []\<rparr>]"
    unfolding send_message_pending [OF ch run] sndmore_flag(1) [OF assms(2)] ..
  with Cons.IH [OF tail] show ?case by simp
qed simp

lemma multi_recv_loop_pending:
  assumes z: "messages_ok z" and ch: "channel_ok z pending"
  shows "parts \<noteq> [] \<Longrightarrow> pending s = marked parts @ rest \<Longrightarrow>
    \<exists>s'. multi_recv_loop z flags acc s = Some (Inr True, acc @ marked parts, s') \<and> pending s' = rest"
proof (induction parts arbitrary: acc s)
  case (Cons m parts)
  let ?m = "m\<lparr>msg_more := parts \<noteq> []\<rparr>"
  obtain n s1 where run: "recv_message z \<lparr>msg_data = [], msg_more = False\<rparr> flags s = (Inr (Some n), ?m, s1)"
    and s1: "pending s1 = marked parts @ rest"
    using recv_message_pending [OF ch, of s ?m "marked parts @ rest" "\<lparr>msg_data = [], msg_more = False\<rparr>" flags]
      Cons.prems by auto
  show ?case
  proof (cases "parts = []")
    case True
    with run s1 show ?thesis
      by (subst multi_recv_loop.simps) (simp add: message_New_ok [OF z] multi_add_def)
  next
    case False
    with Cons.IH [OF False s1, of "acc @ [?m]"] run show ?thesis
      by (subst multi_recv_loop.simps) (simp add: message_New_ok [OF z] multi_add_def)
  qed
qed simp

lemma send_multipart_pending:
  assumes ch: "channel_ok z pending" and "flags AND ZMQ_SNDMORE = 0"
  shows "send_multipart_from z flags k parts s = (Inr (Some n), left, s') \<Longrightarrow>
    n = of_nat (k + length parts) \<and> pending s' = pending s @ marked parts"
proof (induction parts arbitrary: k s left)
  case (Cons m parts)
  let ?flags = "enum_bit_or flags (send_flags_val (if parts = [] then SF_none else SF_sndmore))"
  obtain n1 m' left' s1 where run: "send_message z m ?flags s = (Inr (Some n1), m', s1)"
    and tail: "send_multipart_from z flags (Suc k) parts s1 = (Inr (Some n), left', s')"
    using Cons.prems by (auto split: prod.splits sum.splits option.splits if_splits)
  have "?flags = flags OR (if parts \<noteq> [] then ZMQ_SNDMORE else 0)"
    by (simp add: enum_bit_or_def send_flags_val_def)
  then have "pending s1 = pending s @ [m\<lparr>msg_more := parts \<noteq> []\<rparr>]"
    using send_message_pending [OF ch run] sndmore_flag(2) [OF assms(2), of "parts \<noteq> []"] by simp
  with Cons.IH [OF tail] show ?case by simp
qed simp

lemma recv_multipart_pending:
  assumes z: "messages_ok z" and ch: "channel_ok z pending"
  shows "parts \<noteq> [] \<Longrightarrow> pending s = marked parts @ rest \<Longrightarrow>
    \<exists>s'. recv_multipart_loop z False 0 flags k msg out s =
      Some (Inr (Some (of_nat (k + length parts))), out @ marked parts, s') \<and> pending s' = rest"
proof (induction parts arbitrary: k msg out s)
  case (Cons m parts)
  let ?m = "m\<lparr>msg_more := parts \<noteq> []\<rparr>"
  obtain n s1 where run: "recv_message z msg flags s = (Inr (Some n), ?m, s1)"
    and s1: "pending s1 = marked parts @ rest"
    using recv_message_pending [OF ch, of s ?m "marked parts @ rest" msg flags] Cons.prems by auto
  show ?case
  proof (cases "parts = []")
    case True
    with run s1 show ?thesis
      by (subst recv_multipart_loop.simps) (simp add: message_move_from_def message_New_ok [OF z])
  next
    case False
    with Cons.IH [OF False s1, of "Suc k" "\<lparr>msg_data = [], msg_more = False\<rparr>" "out @ [?m]"] run show ?thesis
      by (subst recv_multipart_loop.simps) (simp add: message_move_from_def message_New_ok [OF z])
  qed
qed simp


section \<open>Properties\<close>

lemma list_all_decodable: "messages_ok z \<Longrightarrow> list_all (has_memory z) ds \<Longrightarrow> list_all (decodable z) ds"
  by (induction ds) (simp_all add: decodable_def)

lemma map_msg_of_data: "map msg_data (map msg_of ds) = ds"
  by (induction ds) (simp_all add: msg_of_def)

text \<open>
  C26. Packing fails with a range error exactly when a part has \<open>2 ^ 32\<close> bytes or more, and else
  only when there is no memory for the packed message. What it packs on one machine is unpacked
  on another, whatever the byte orders of the two, into the same number of parts with the same
  data, in order, after those already in the output, as long as there is memory for each part.
\<close>

theorem encode_decode_roundtrip:
  assumes z: "messages_ok z" and ok: "list_all msg_ok parts" and total: "length (frames_of parts) < 2 ^ 64"
    and memory: "\<forall>m \<in> set parts. \<exists>copy. message_size z (of_nat (length (msg_data m))) = Inr copy"
  shows "if list_ex (\<lambda>m. 2 ^ 32 \<le> length (msg_data m)) parts
    then encode z little parts = Inl (RangeError ''Invalid size, message part too large'')
    else case message_size z (of_nat (length (frames_of parts))) of
        Inl e \<Rightarrow> encode z little parts = Inl e
      | Inr _ \<Rightarrow> \<exists>encoded got. encode z little parts = Inr encoded \<and>
          decode z little' encoded out = (out @ got, Inr ()) \<and> multi_eq got parts"
proof (cases "list_all (\<lambda>m. length (msg_data m) < 2 ^ 32) parts")
  case False
  moreover from this have "list_ex (\<lambda>m. 2 ^ 32 \<le> length (msg_data m)) parts"
    by (auto simp: list_all_iff list_ex_iff not_less)
  ultimately show ?thesis using encode_result [OF z ok total, of little] by simp
next
  case small: True
  then have no: "\<not> list_ex (\<lambda>m. 2 ^ 32 \<le> length (msg_data m)) parts"
    by (auto simp: list_all_iff list_ex_iff not_le)
  have mem: "list_all (\<lambda>m. has_memory z (msg_data m)) parts"
    using memory small by (simp add: has_memory_def list_all_iff)
  let ?ds = "map msg_data parts"
  note enc = encode_result [OF z ok total, of little, unfolded if_P [OF small]]
  have ds: "list_all (decodable z) ?ds"
    using list_all_decodable [OF z, of ?ds] mem by (simp add: list_all_iff)
  have frs: "frames_of parts = concat (map frame ?ds)" by (simp add: frames_of_def comp_def)
  have dec: "decode z little' (msg_of (frames_of parts)) out = (out @ map msg_of ?ds, Inr ())"
    using frames.loop_decodes [OF ds, of little' out] by (simp add: decode_def frs msg_of_def)
  have "list_all msg_ok (map msg_of ?ds)" using ok by (simp add: list_all_iff msg_ok_def msg_of_def)
  then have "multi_eq (map msg_of ?ds) parts"
    using multi_eq_iff [OF _ ok] map_msg_of_data [of ?ds] by blast
  with dec show ?thesis
    unfolding if_not_P [OF no] by (cases "message_size z (of_nat (length (frames_of parts)))") (auto simp: enc)
qed

text \<open>
  C27. Unpacking succeeds exactly on the texts of the format, and then yields their parts; the
  result does not depend on the byte order of the machine.
\<close>

theorem decode_exact:
  assumes "messages_ok z"
  shows "decode z little encoded out = (out', Inr ()) \<longleftrightarrow>
    (\<exists>ds. framed (msg_data encoded) ds \<and> list_all (has_memory z) ds \<and> out' = out @ map msg_of ds)"
  unfolding decode_def
  using decode_loop_sound [OF assms, of little "msg_data encoded" out out']
    decode_loop_complete [OF assms, of "msg_data encoded" _ little out] by blast

text \<open>
  C28. The parts of a multipart message that could be sent are received, by the class and by the
  free function: all of them, in order, with their data, and nothing is left in the connection.
  Both ways of receiving return, since the last part says so.
\<close>

theorem multipart_transfer:
  assumes z: "messages_ok z" and ch: "channel_ok z pending" and "parts \<noteq> []" and idle: "pending s = []"
    and sent: "multi_send z flags parts s = (Inr True, left, s1)"
  shows "left = [] \<and>
    (\<exists>got s2. multi_recv z rflags old s1 = Some (Inr True, got, s2) \<and>
       map msg_data got = map msg_data parts \<and> pending s2 = []) \<and>
    (\<exists>got s2. recv_multipart z rflags out s1 = Some (Inr (Some (of_nat (length parts))), out @ got, s2) \<and>
       map msg_data got = map msg_data parts \<and> pending s2 = [])"
proof -
  have "(flags AND NOT ZMQ_SNDMORE) AND ZMQ_SNDMORE = 0"
    by (simp add: and.assoc)
  from multi_send_loop_pending [OF ch this sent [unfolded multi_send_def]]
  have "left = []" and s1: "pending s1 = marked parts @ []" using idle by simp_all
  moreover obtain s2 where "multi_recv z rflags old s1 = Some (Inr True, marked parts, s2)" "pending s2 = []"
    using multi_recv_loop_pending [OF z ch assms(3) s1, of rflags "[]"] by (auto simp: multi_recv_def)
  moreover obtain s3 where "recv_multipart z rflags out s1 =
      Some (Inr (Some (of_nat (length parts))), out @ marked parts, s3)" "pending s3 = []"
    using recv_multipart_pending [OF z ch assms(3) s1, of rflags 0 "\<lparr>msg_data = [], msg_more = False\<rparr>" out]
    by (auto simp: recv_multipart_def detail_recv_multipart_n_def message_New_ok [OF z])
  ultimately show ?thesis using marked_data(1) by metis
qed

text \<open>
  Concatenation of multipart messages ends and keeps the order of the parts, at the front and
  at the back; a clone equals its original, and equality compares the data of the parts only.
\<close>

theorem multipart_concatenation:
  assumes "messages_ok z" and "list_all msg_ok parts"
    and "list_all (\<lambda>m. \<exists>m'. message_size z (msg_size m) = Inr m') parts"
  shows "multi_append parts other = Inr (parts @ other) \<and> multi_prepend parts other = Inr (other @ parts) \<and>
    (\<exists>copy. multi_clone z parts = Inr copy \<and> multi_eq copy parts \<and> list_all (\<lambda>m. \<not> msg_more m) copy)"
proof -
  let ?copy = "map (\<lambda>m. msg_of (msg_data m)) parts"
  have "list_all msg_ok ?copy" "map msg_data ?copy = map msg_data parts" "list_all (\<lambda>m. \<not> msg_more m) ?copy"
    using assms(2) by (simp_all add: list_all_iff msg_ok_def msg_of_def)
  then show ?thesis
    using multi_clone_result [OF assms] multi_eq_iff [OF _ assms(2), of ?copy]
    by (simp add: multi_append_result multi_prepend_result)
qed

section \<open>Concrete runs\<close>

lemma loop_has_memory: "length d \<le> 1000 \<Longrightarrow> has_memory loop_zmq d"
proof -
  assume "length d \<le> 1000"
  then have "unat (of_nat (length d) :: size_t) \<le> 1000000"
    using unat_of_nat_size [of "length d"] by simp
  then have "(of_nat (length d) :: size_t) \<le> 1000000" by (simp add: word_le_nat_alt)
  then show ?thesis
    using \<open>length d \<le> 1000\<close>
    by (simp add: has_memory_def message_size_def loop_zmq_def loop_init_size_def c_ok_def)
qed

lemma loop_channel: "channel_ok loop_zmq (\<lambda>s. s)"
  by (auto simp: channel_ok_def loop_zmq_def loop_msg_send_def loop_msg_recv_def c_ok_def)

definition sample_parts :: "zmq_msg list" where
  "sample_parts = [msg_of [119, 49], msg_of []]"

lemma sample_parts_ok: "list_all msg_ok sample_parts" "list_all (\<lambda>m. has_memory loop_zmq (msg_data m)) sample_parts"
  by (simp_all add: sample_parts_def msg_ok_def msg_of_def loop_has_memory)

lemma sample_frames: "frames_of sample_parts = [2, 119, 49, 0]"
  by (simp add: frames_of_def sample_parts_def frame_def msg_of_def)

theorem encode_decode_roundtrip_witness:
  "\<exists>encoded got. encode loop_zmq True sample_parts = Inr encoded \<and>
     decode loop_zmq False encoded [] = (got, Inr ()) \<and> multi_eq got sample_parts"
proof -
  have total: "length (frames_of sample_parts) < 2 ^ 64" by (simp add: sample_frames)
  have memory: "\<forall>m \<in> set sample_parts. \<exists>copy. message_size loop_zmq (of_nat (length (msg_data m))) = Inr copy"
    using sample_parts_ok(2) by (simp add: list_all_iff has_memory_def)
  obtain m where "message_size loop_zmq (of_nat (length (frames_of sample_parts))) = Inr m"
    using loop_has_memory [of "frames_of sample_parts"] by (auto simp: has_memory_def sample_frames)
  then show ?thesis
    using encode_decode_roundtrip [OF loop_messages_ok sample_parts_ok(1) total memory, of True False "[]"]
    by (simp add: sample_parts_def msg_of_def)
qed

theorem decode_exact_witness:
  "decode loop_zmq True (msg_of [2, 119, 49, 0]) [] = (map msg_of [[119, 49], []], Inr ())"
proof -
  have "framed ([0] @ [] @ []) [[]]"
    by (intro framed_Cons framed_Nil) (simp add: header_def)
  then have "framed ([2] @ [119, 49] @ ([0] @ [] @ [])) [[119, 49], []]"
    by (rule framed_Cons [rotated]) (simp add: header_def)
  moreover have "list_all (has_memory loop_zmq) [[119, 49], []]"
    by (simp add: loop_has_memory)
  ultimately show ?thesis
    using decode_exact [OF loop_messages_ok, of True "msg_of [2, 119, 49, 0]" "[]" "map msg_of [[119, 49], []]"]
    by (auto simp: msg_of_def)
qed

theorem multipart_transfer_witness:
  "\<exists>s1 got s2. multi_send loop_zmq 0 sample_parts [] = (Inr True, [], s1) \<and>
     multi_recv loop_zmq 0 [] s1 = Some (Inr True, got, s2) \<and> map msg_data got = [[119, 49], []]"
proof -
  obtain s1 where sent: "multi_send loop_zmq 0 sample_parts [] = (Inr True, [], s1)"
    by (simp add: multi_send_def sample_parts_def send_message_def loop_zmq_def loop_msg_send_def
        transferred_def c_ok_def)
  have "sample_parts \<noteq> []" "map msg_data sample_parts = [[119, 49], []]"
    by (simp_all add: sample_parts_def msg_of_def)
  then show ?thesis
    using sent multipart_transfer [OF loop_messages_ok loop_channel _ refl sent, of 0 "[]" "[]"] by auto
qed

theorem multipart_concatenation_witness:
  "multi_append sample_parts [empty_msg] = Inr (sample_parts @ [empty_msg])"
proof -
  have "list_all (\<lambda>m. \<exists>m'. message_size loop_zmq (msg_size m) = Inr m') sample_parts"
    using sample_parts_ok(2) by (auto simp: has_memory_def msg_size_def list_all_iff)
  then show ?thesis
    using multipart_concatenation [OF loop_messages_ok sample_parts_ok(1), of "[empty_msg]"] by blast
qed

end
