(* ===== verification/Sockets.thy ===== *)
theory Sockets
  imports ZmqMessage
begin

text \<open>
  The classes of \<open>lib/cppzmq/zmq.hpp\<close> that own something of the C library: \<open>context_t\<close> and
  \<open>socket_t\<close>, with the references to sockets. What is owned is named by a pointer, a number,
  \<open>0\<close> the null pointer. The library is the parameter \<open>Libhandles\<close>; its state \<open>'w\<close> is passed
  through every call.
\<close>

section \<open>The C library\<close>

record 'w Libhandles =
  zmq_ctx_new :: "'w \<Rightarrow> nat \<times> int \<times> 'w"
  zmq_ctx_set :: "nat \<Rightarrow> int \<Rightarrow> int \<Rightarrow> 'w \<Rightarrow> c_call \<times> 'w"
  zmq_ctx_get :: "nat \<Rightarrow> int \<Rightarrow> 'w \<Rightarrow> c_call \<times> 'w"
  zmq_ctx_term :: "nat \<Rightarrow> 'w \<Rightarrow> c_call \<times> 'w"
  zmq_ctx_shutdown :: "nat \<Rightarrow> 'w \<Rightarrow> c_call \<times> 'w"
  zmq_socket :: "nat \<Rightarrow> int \<Rightarrow> 'w \<Rightarrow> nat \<times> int \<times> 'w"
  zmq_close :: "nat \<Rightarrow> 'w \<Rightarrow> c_call \<times> 'w"
  zmq_proxy :: "nat \<Rightarrow> nat \<Rightarrow> nat \<Rightarrow> 'w \<Rightarrow> c_call \<times> 'w"
  zmq_proxy_steerable :: "nat \<Rightarrow> nat \<Rightarrow> nat \<Rightarrow> nat \<Rightarrow> 'w \<Rightarrow> c_call \<times> 'w"

definition EINTR :: int where
  "EINTR = 4"

definition ZMQ_IO_THREADS :: int where
  "ZMQ_IO_THREADS = 1"

definition ZMQ_MAX_SOCKETS :: int where
  "ZMQ_MAX_SOCKETS = 2"

text \<open>A call that must not fail.\<close>

definition asserted_call :: "c_call \<times> 'w \<Rightarrow> unit res \<times> 'w" where
  "asserted_call r = (let (c, w) = r in (if rc c = 0 then Inr () else Inl AssertionFailed, w))"

section \<open>context\_t\<close>

record context_t =
  ctx_ptr :: nat

definition context_New :: "'w Libhandles \<Rightarrow> 'w \<Rightarrow> context_t res \<times> 'w" where
  "context_New z w = (let (ptr, e, w) = zmq_ctx_new z w in
     (if ptr = 0 then Inl (ZmqError e) else Inr \<lparr>ctx_ptr = ptr\<rparr>, w))"

definition context_New_threads :: "'w Libhandles \<Rightarrow> int \<Rightarrow> int \<Rightarrow> 'w \<Rightarrow> context_t res \<times> 'w" where
  "context_New_threads z io_threads max_sockets w = (case context_New z w of
     (Inl e, w) \<Rightarrow> (Inl e, w)
   | (Inr this, w) \<Rightarrow>
      (case asserted_call (zmq_ctx_set z (ctx_ptr this) ZMQ_IO_THREADS io_threads w) of
         (Inl e, w) \<Rightarrow> (Inl e, w)
       | (Inr _, w) \<Rightarrow>
          (case asserted_call (zmq_ctx_set z (ctx_ptr this) ZMQ_MAX_SOCKETS max_sockets w) of
             (Inl e, w) \<Rightarrow> (Inl e, w)
           | (Inr _, w) \<Rightarrow> (Inr this, w))))"

definition setctxopt :: "'w Libhandles \<Rightarrow> context_t \<Rightarrow> int \<Rightarrow> int \<Rightarrow> 'w \<Rightarrow> int res \<times> 'w" where
  "setctxopt z this option optval w =
     (let (c, w) = zmq_ctx_set z (ctx_ptr this) option optval w
      in (if rc c = 0 then Inr (rc c) else Inl AssertionFailed, w))"

definition getctxopt :: "'w Libhandles \<Rightarrow> context_t \<Rightarrow> int \<Rightarrow> 'w \<Rightarrow> int \<times> 'w" where
  "getctxopt z this option w = (let (c, w) = zmq_ctx_get z (ctx_ptr this) option w in (rc c, w))"

definition context_set :: "'w Libhandles \<Rightarrow> context_t \<Rightarrow> int \<Rightarrow> int \<Rightarrow> 'w \<Rightarrow> unit res \<times> 'w" where
  "context_set z this option optval w =
     (let (c, w) = zmq_ctx_set z (ctx_ptr this) option optval w
      in (if rc c = - 1 then Inl (error_t c) else Inr (), w))"

definition context_get :: "'w Libhandles \<Rightarrow> context_t \<Rightarrow> int \<Rightarrow> 'w \<Rightarrow> int res \<times> 'w" where
  "context_get z this option w =
     (let (c, w) = zmq_ctx_get z (ctx_ptr this) option w
      in (if rc c = - 1 then Inl (error_t c) else Inr (rc c), w))"

text \<open>The loop of \<open>close\<close>: as long as a signal interrupts the call, it is made again.\<close>

partial_function (option) ctx_term_loop :: "'w Libhandles \<Rightarrow> nat \<Rightarrow> 'w \<Rightarrow> (c_call \<times> 'w) option" where
  "ctx_term_loop z ptr w =
     (let (c, w) = zmq_ctx_term z ptr w
      in if rc c = - 1 \<and> errno c = EINTR then ctx_term_loop z ptr w else Some (c, w))"

definition context_close :: "'w Libhandles \<Rightarrow> context_t \<Rightarrow> 'w \<Rightarrow> (context_t res \<times> 'w) option" where
  "context_close z this w =
     (if ctx_ptr this = 0 then Some (Inr this, w)
      else map_option (\<lambda>(c, w). (if rc c = 0 then Inr (this\<lparr>ctx_ptr := 0\<rparr>) else Inl AssertionFailed, w))
             (ctx_term_loop z (ctx_ptr this) w))"

definition context_shutdown :: "'w Libhandles \<Rightarrow> context_t \<Rightarrow> 'w \<Rightarrow> unit res \<times> 'w" where
  "context_shutdown z this w =
     (if ctx_ptr this = 0 then (Inr (), w) else asserted_call (zmq_ctx_shutdown z (ctx_ptr this) w))"

text \<open>The new object, and what is left of the old one.\<close>

definition context_move_from :: "context_t \<Rightarrow> context_t \<times> context_t" where
  "context_move_from rhs = (\<lparr>ctx_ptr = ctx_ptr rhs\<rparr>, rhs\<lparr>ctx_ptr := 0\<rparr>)"

definition context_swap :: "context_t \<Rightarrow> context_t \<Rightarrow> context_t \<times> context_t" where
  "context_swap a b = (a\<lparr>ctx_ptr := ctx_ptr b\<rparr>, b\<lparr>ctx_ptr := ctx_ptr a\<rparr>)"

definition context_assign ::
  "'w Libhandles \<Rightarrow> context_t \<Rightarrow> context_t \<Rightarrow> 'w \<Rightarrow> ((context_t \<times> context_t) res \<times> 'w) option" where
  "context_assign z this rhs w =
     map_option (\<lambda>(r, w). (bindE r (\<lambda>this. Inr (context_swap this rhs)), w)) (context_close z this w)"

section \<open>socket\_t\<close>

record socket_t =
  sock_handle :: nat
  ctxptr :: nat

definition socket_null :: socket_t where
  "socket_null = \<lparr>sock_handle = 0, ctxptr = 0\<rparr>"

definition socket_New :: "'w Libhandles \<Rightarrow> context_t \<times> int \<Rightarrow> 'w \<Rightarrow> socket_t res \<times> 'w" where
  "socket_New z a w =
     (let (context, type) = a; (h, e, w) = zmq_socket z (ctx_ptr context) type w
      in (if h = 0 then Inl (ZmqError e) else Inr \<lparr>sock_handle = h, ctxptr = ctx_ptr context\<rparr>, w))"

text \<open>The private constructor that the monitor uses; the second test finds no error code of its own.\<close>

definition socket_New_ptr :: "'w Libhandles \<Rightarrow> nat \<Rightarrow> int \<Rightarrow> 'w \<Rightarrow> socket_t res \<times> 'w" where
  "socket_New_ptr z context type w =
     (let (h, e, w) = zmq_socket z context type w
      in (if h = 0 \<or> context = 0 then Inl (ZmqError e) else Inr \<lparr>sock_handle = h, ctxptr = context\<rparr>, w))"

definition socket_move_from :: "socket_t \<Rightarrow> socket_t \<times> socket_t" where
  "socket_move_from rhs = (\<lparr>sock_handle = sock_handle rhs, ctxptr = ctxptr rhs\<rparr>, rhs\<lparr>sock_handle := 0, ctxptr := 0\<rparr>)"

definition socket_swap :: "socket_t \<Rightarrow> socket_t \<Rightarrow> socket_t \<times> socket_t" where
  "socket_swap a b = (a\<lparr>sock_handle := sock_handle b, ctxptr := ctxptr b\<rparr>, b\<lparr>sock_handle := sock_handle a, ctxptr := ctxptr a\<rparr>)"

definition socket_close :: "'w Libhandles \<Rightarrow> socket_t \<Rightarrow> 'w \<Rightarrow> socket_t res \<times> 'w" where
  "socket_close z this w =
     (if sock_handle this = 0 then (Inr this, w)
      else case asserted_call (zmq_close z (sock_handle this) w) of
             (Inl e, w) \<Rightarrow> (Inl e, w)
           | (Inr _, w) \<Rightarrow> (Inr (this\<lparr>sock_handle := 0, ctxptr := 0\<rparr>), w))"

definition socket_assign :: "'w Libhandles \<Rightarrow> socket_t \<Rightarrow> socket_t \<Rightarrow> 'w \<Rightarrow> (socket_t \<times> socket_t) res \<times> 'w" where
  "socket_assign z this rhs w =
     (let (r, w) = socket_close z this w in (bindE r (\<lambda>this. Inr (socket_swap this rhs)), w))"

text \<open>A \<open>socket_ref\<close> is the handle; the comparisons are those of pointers.\<close>

definition socket_ref_of :: "socket_t \<Rightarrow> nat" where
  "socket_ref_of this = sock_handle this"

definition socket_is_open :: "nat \<Rightarrow> bool" where
  "socket_is_open h \<longleftrightarrow> h \<noteq> 0"

definition socket_eq :: "nat \<Rightarrow> nat \<Rightarrow> bool" where
  "socket_eq a b \<longleftrightarrow> a = b"

definition socket_less :: "nat \<Rightarrow> nat \<Rightarrow> bool" where
  "socket_less a b \<longleftrightarrow> a < b"

definition socket_greater :: "nat \<Rightarrow> nat \<Rightarrow> bool" where
  "socket_greater a b \<longleftrightarrow> socket_less b a"

definition socket_less_eq :: "nat \<Rightarrow> nat \<Rightarrow> bool" where
  "socket_less_eq a b \<longleftrightarrow> \<not> socket_greater a b"

definition socket_greater_eq :: "nat \<Rightarrow> nat \<Rightarrow> bool" where
  "socket_greater_eq a b \<longleftrightarrow> \<not> socket_less a b"

definition proxy :: "'w Libhandles \<Rightarrow> nat \<Rightarrow> nat \<Rightarrow> nat \<Rightarrow> 'w \<Rightarrow> unit res \<times> 'w" where
  "proxy z frontend backend capture w = checked_call (zmq_proxy z frontend backend capture w)"

definition proxy_steerable :: "'w Libhandles \<Rightarrow> nat \<Rightarrow> nat \<Rightarrow> nat \<Rightarrow> nat \<Rightarrow> 'w \<Rightarrow> unit res \<times> 'w" where
  "proxy_steerable z frontend backend capture control w =
     checked_call (zmq_proxy_steerable z frontend backend capture control w)"


section \<open>Ownership\<close>

text \<open>
  A program with objects of one of the classes: it constructs them, moves from one into a new one
  or into another, swaps and closes them, as a destructor does. What fails throws or ends the
  program, and a failed construction makes no object.
\<close>

inductive own_run ::
  "('a \<Rightarrow> 'w \<Rightarrow> 'o res \<times> 'w) \<Rightarrow> ('o \<Rightarrow> 'w \<Rightarrow> ('o res \<times> 'w) option) \<Rightarrow> ('o \<Rightarrow> 'o \<times> 'o) \<Rightarrow> ('o \<Rightarrow> 'o \<Rightarrow> 'o \<times> 'o) \<Rightarrow>
   ('o \<Rightarrow> 'o \<Rightarrow> 'w \<Rightarrow> (('o \<times> 'o) res \<times> 'w) option) \<Rightarrow> 'w \<Rightarrow> 'o list \<Rightarrow> 'w \<Rightarrow> bool"
  for create close move_from swap assign w0 where
  start: "own_run create close move_from swap assign w0 [] w0"
| construct: "own_run create close move_from swap assign w0 objs w \<Longrightarrow> create a w = (Inr x, w') \<Longrightarrow>
    own_run create close move_from swap assign w0 (objs @ [x]) w'"
| construct_throws: "own_run create close move_from swap assign w0 objs w \<Longrightarrow> create a w = (Inl (ZmqError e), w') \<Longrightarrow>
    own_run create close move_from swap assign w0 objs w'"
| move_construct: "own_run create close move_from swap assign w0 objs w \<Longrightarrow> i < length objs \<Longrightarrow>
    move_from (objs ! i) = (x, y) \<Longrightarrow> own_run create close move_from swap assign w0 (objs[i := y] @ [x]) w"
| move_assign: "own_run create close move_from swap assign w0 objs w \<Longrightarrow> i < length objs \<Longrightarrow> j < length objs \<Longrightarrow> i \<noteq> j \<Longrightarrow>
    assign (objs ! i) (objs ! j) w = Some (Inr (x, y), w') \<Longrightarrow>
    own_run create close move_from swap assign w0 (objs[i := x, j := y]) w'"
| swap_objs: "own_run create close move_from swap assign w0 objs w \<Longrightarrow> i < length objs \<Longrightarrow> j < length objs \<Longrightarrow> i \<noteq> j \<Longrightarrow>
    swap (objs ! i) (objs ! j) = (x, y) \<Longrightarrow> own_run create close move_from swap assign w0 (objs[i := x, j := y]) w"
| close_obj: "own_run create close move_from swap assign w0 objs w \<Longrightarrow> i < length objs \<Longrightarrow>
    close (objs ! i) w = Some (Inr x, w') \<Longrightarrow> own_run create close move_from swap assign w0 (objs[i := x]) w'"

text \<open>The objects own the handles that are open: each handle is owned by exactly one object.\<close>

definition owned :: "('o \<Rightarrow> nat) \<Rightarrow> 'o list \<Rightarrow> nat set \<Rightarrow> bool" where
  "owned handle objs A \<longleftrightarrow> 0 \<notin> A \<and>
     (\<forall>h. h \<noteq> 0 \<longrightarrow> count (mset (map handle objs)) h = (if h \<in> A then 1 else 0))"

lemma count_update:
  "i < length xs \<Longrightarrow> count (mset (xs[i := x])) h + (if xs ! i = h then 1 else 0) =
     count (mset xs) h + (if x = h then 1 else 0)"
proof -
  assume i: "i < length xs"
  then have "0 < count (mset xs) (xs ! i)" by simp
  with i show ?thesis by (auto simp: mset_update)
qed

lemma owned_handle: "owned handle objs A \<Longrightarrow> i < length objs \<Longrightarrow> handle (objs ! i) = 0 \<or> handle (objs ! i) \<in> A"
proof -
  assume "owned handle objs A" and i: "i < length objs"
  moreover have "handle (objs ! i) \<in># mset (map handle objs)" using i by simp
  then have "count (mset (map handle objs)) (handle (objs ! i)) \<noteq> 0" by (simp only: count_eq_zero_iff) simp
  ultimately show ?thesis unfolding owned_def by (metis count_eq_zero_iff)
qed

lemma owned_New: "owned handle objs A \<Longrightarrow> handle x \<noteq> 0 \<Longrightarrow> handle x \<notin> A \<Longrightarrow> owned handle (objs @ [x]) (insert (handle x) A)"
  by (auto simp: owned_def)

lemma owned_swap:
  assumes "owned handle objs A" and "i < length objs" "j < length objs" "i \<noteq> j"
    and "handle x = handle (objs ! j)" "handle y = handle (objs ! i)"
  shows "owned handle (objs[i := x, j := y]) A"
proof -
  let ?hs = "map handle objs"
  have "mset (map handle (objs[i := x, j := y])) = mset (?hs[i := ?hs ! j, j := ?hs ! i])"
    using assms by (simp add: map_update)
  also have "\<dots> = mset ?hs" by (rule mset_swap) (use assms in simp_all)
  finally have same: "mset (map handle (objs[i := x, j := y])) = mset ?hs" .
  from assms(1) show ?thesis unfolding owned_def same .
qed

lemma owned_closed:
  assumes "owned handle objs A" and "i < length objs" and "handle x = 0"
  shows "owned handle (objs[i := x]) (A - {handle (objs ! i)})"
proof -
  have "count (mset (map handle (objs[i := x]))) h = (if h \<in> A - {handle (objs ! i)} then 1 else 0)" if h: "h \<noteq> 0" for h
  proof -
    have "count (mset (map handle (objs[i := x]))) h + (if handle (objs ! i) = h then 1 else 0) =
        count (mset (map handle objs)) h"
      using count_update [of i "map handle objs" "handle x" h] assms(2,3) h by (simp add: map_update)
    also have "\<dots> = (if h \<in> A then 1 else 0)" using assms(1) h unfolding owned_def by blast
    finally show ?thesis by (cases "handle (objs ! i) = h"; cases "h \<in> A") simp_all
  qed
  with assms(1) show ?thesis unfolding owned_def by simp
qed

lemma owned_moved:
  assumes "owned handle objs A" and "i < length objs" and "handle x = handle (objs ! i)" and "handle y = 0"
  shows "owned handle (objs[i := y] @ [x]) A"
proof -
  have "count (mset (map handle (objs[i := y] @ [x]))) h = count (mset (map handle objs)) h" if "h \<noteq> 0" for h
    using count_update [of i "map handle objs" "handle y" h] assms(2-4) that
    by (auto simp: map_update split: if_splits)
  with assms(1) show ?thesis unfolding owned_def by metis
qed

lemma owned_distinct:
  assumes "owned handle objs A"
  shows "A = set (filter (\<lambda>h. h \<noteq> 0) (map handle objs)) \<and> distinct (filter (\<lambda>h. h \<noteq> 0) (map handle objs))"
proof -
  let ?hs = "map handle objs"
  have single: "count (mset ?hs) h = (if h \<in> A then 1 else 0)" if "h \<noteq> 0" for h
    using assms that unfolding owned_def by blast
  have member: "h \<in> A \<longleftrightarrow> h \<in> set ?hs" if "h \<noteq> 0" for h
  proof -
    have "h \<in> set ?hs \<longleftrightarrow> count (mset ?hs) h \<noteq> 0" by (metis count_eq_zero_iff set_mset_mset)
    then show ?thesis unfolding single [OF that] by simp
  qed
  moreover have "0 \<notin> A" using assms unfolding owned_def by blast
  ultimately have "h \<in> A \<longleftrightarrow> h \<noteq> 0 \<and> h \<in> set ?hs" for h by metis
  then have "A = set (filter (\<lambda>h. h \<noteq> 0) ?hs)" by auto
  moreover have "count (mset (filter (\<lambda>h. h \<noteq> 0) ?hs)) h = (if h \<in> set (filter (\<lambda>h. h \<noteq> 0) ?hs) then 1 else 0)" for h
  proof (cases "h = 0")
    case False
    then have "count (mset (filter (\<lambda>h. h \<noteq> 0) ?hs)) h = count (mset ?hs) h"
      by (simp only: mset_filter count_filter_mset if_True not_False_eq_True simp_thms)
    then show ?thesis unfolding single [OF False] using member [OF False] False by simp
  next
    case True
    then show ?thesis by (simp only: mset_filter count_filter_mset) simp
  qed
  ultimately show ?thesis by (simp only: distinct_count_atmost_1) simp
qed

text \<open>
  What a class promises: \<open>holds w A\<close> is that the handles \<open>A\<close> are open in the library.
\<close>

locale owner =
  fixes handle :: "'o \<Rightarrow> nat" and holds :: "'w \<Rightarrow> nat set \<Rightarrow> bool"
    and create :: "'a \<Rightarrow> 'w \<Rightarrow> 'o res \<times> 'w" and close :: "'o \<Rightarrow> 'w \<Rightarrow> ('o res \<times> 'w) option"
    and move_from :: "'o \<Rightarrow> 'o \<times> 'o" and swap :: "'o \<Rightarrow> 'o \<Rightarrow> 'o \<times> 'o"
    and assign :: "'o \<Rightarrow> 'o \<Rightarrow> 'w \<Rightarrow> (('o \<times> 'o) res \<times> 'w) option"
  assumes create_ok: "holds w A \<Longrightarrow> create a w = (Inr x, w') \<Longrightarrow>
      handle x \<noteq> 0 \<and> handle x \<notin> A \<and> holds w' (insert (handle x) A)"
    and create_throws: "holds w A \<Longrightarrow> create a w = (Inl (ZmqError e), w') \<Longrightarrow> holds w' A"
    and close_ok: "holds w A \<Longrightarrow> 0 \<notin> A \<Longrightarrow> close x w = Some (Inr x', w') \<Longrightarrow>
      handle x' = 0 \<and> holds w' (A - {handle x})"
    and move_handles: "move_from x = (x', y') \<Longrightarrow> handle x' = handle x \<and> handle y' = 0"
    and swap_handles: "swap x y = (x', y') \<Longrightarrow> handle x' = handle y \<and> handle y' = handle x"
    and assign_closes: "assign x y w = Some (Inr (x', y'), w') \<Longrightarrow>
      \<exists>x1. close x w = Some (Inr x1, w') \<and> swap x1 y = (x', y')"
begin

lemma owned_run:
  assumes "own_run create close move_from swap assign w0 objs w" and "holds w0 {}"
  shows "\<exists>A. holds w A \<and> owned handle objs A"
  using assms
proof (induction rule: own_run.induct)
  case start
  then show ?case by (auto simp: owned_def)
next
  case (construct objs w a x w')
  then show ?case using create_ok owned_New by metis
next
  case (construct_throws objs w a e w')
  then show ?case using create_throws by blast
next
  case (move_construct objs w i x y)
  then show ?case using move_handles owned_moved by metis
next
  case (move_assign objs w i j x y w')
  then obtain A where A: "holds w A" "owned handle objs A" by blast
  obtain x1 where x1: "close (objs ! i) w = Some (Inr x1, w')" "swap x1 (objs ! j) = (x, y)"
    using assign_closes [OF move_assign.hyps(5)] by blast
  have zero: "handle x1 = 0" and w': "holds w' (A - {handle (objs ! i)})"
    using close_ok [OF A(1) _ x1(1)] A(2) by (simp_all add: owned_def)
  have "owned handle (objs[i := x1]) (A - {handle (objs ! i)})"
    by (rule owned_closed [OF A(2) move_assign.hyps(2) zero])
  from owned_swap [OF this, of i j x y] have "owned handle (objs[i := x, j := y]) (A - {handle (objs ! i)})"
    using move_assign.hyps(2-4) swap_handles [OF x1(2)] by simp
  with w' show ?case by blast
next
  case (swap_objs objs w i j x y)
  then show ?case using swap_handles owned_swap by metis
next
  case (close_obj objs w i x w')
  then obtain A where A: "holds w A" "owned handle objs A" by blast
  then have "handle x = 0" "holds w' (A - {handle (objs ! i)})"
    using close_ok [OF A(1) _ close_obj.hyps(3)] by (simp_all add: owned_def)
  with owned_closed [OF A(2) close_obj.hyps(2)] show ?case by blast
qed

end


section \<open>What the library promises\<close>

text \<open>
  \<open>ctxs w\<close> and \<open>socks w\<close> are what is open in state \<open>w\<close>. A constructor returns a pointer that was
  not open; a call that fails, interrupted ones among them, opens and closes nothing.
\<close>

definition contexts_ok :: "'w Libhandles \<Rightarrow> ('w \<Rightarrow> nat set) \<Rightarrow> bool" where
  "contexts_ok z ctxs \<longleftrightarrow>
     (\<forall>w p e w'. zmq_ctx_new z w = (p, e, w') \<longrightarrow>
        (if p = 0 then ctxs w' = ctxs w else p \<notin> ctxs w \<and> ctxs w' = insert p (ctxs w))) \<and>
     (\<forall>p option v w c w'. zmq_ctx_set z p option v w = (c, w') \<longrightarrow> ctxs w' = ctxs w) \<and>
     (\<forall>p w c w'. zmq_ctx_term z p w = (c, w') \<longrightarrow> ctxs w' = (if rc c = 0 then ctxs w - {p} else ctxs w))"

definition sockets_ok :: "'w Libhandles \<Rightarrow> ('w \<Rightarrow> nat set) \<Rightarrow> bool" where
  "sockets_ok z socks \<longleftrightarrow>
     (\<forall>ctx type w h e w'. zmq_socket z ctx type w = (h, e, w') \<longrightarrow>
        (if h = 0 then socks w' = socks w else h \<notin> socks w \<and> socks w' = insert h (socks w))) \<and>
     (\<forall>h w c w'. zmq_close z h w = (c, w') \<longrightarrow> socks w' = (if rc c = 0 then socks w - {h} else socks w))"

text \<open>The two public constructors of \<open>context_t\<close>.\<close>

definition context_create :: "'w Libhandles \<Rightarrow> (int \<times> int) option \<Rightarrow> 'w \<Rightarrow> context_t res \<times> 'w" where
  "context_create z a = (case a of None \<Rightarrow> context_New z | Some (t, m) \<Rightarrow> context_New_threads z t m)"

lemma asserted_call_eq:
  "asserted_call x = (r, w) \<longleftrightarrow> w = snd x \<and> r = (if rc (fst x) = 0 then Inr () else Inl AssertionFailed)"
  by (auto simp: asserted_call_def split: prod.splits)

lemma context_New_cases:
  assumes "contexts_ok z ctxs" and "context_New z w = (r, w')"
  shows "(case r of Inl e \<Rightarrow> ctxs w' = ctxs w
     | Inr x \<Rightarrow> ctx_ptr x \<noteq> 0 \<and> ctx_ptr x \<notin> ctxs w \<and> ctxs w' = insert (ctx_ptr x) (ctxs w))"
proof -
  obtain p e w1 where new: "zmq_ctx_new z w = (p, e, w1)" by (metis prod_cases3)
  then have "if p = 0 then ctxs w1 = ctxs w else p \<notin> ctxs w \<and> ctxs w1 = insert p (ctxs w)"
    using assms(1) unfolding contexts_ok_def by blast
  with assms(2) new show ?thesis by (auto simp: context_New_def split: if_splits)
qed

lemma ctx_set_keeps: "contexts_ok z ctxs \<Longrightarrow> ctxs (snd (zmq_ctx_set z p option v w)) = ctxs w"
  unfolding contexts_ok_def by (metis prod.collapse)

lemma context_create_cases:
  assumes ok: "contexts_ok z ctxs" and create: "context_create z a w = (r, w')"
  shows "(case r of Inl e \<Rightarrow> e \<noteq> AssertionFailed \<longrightarrow> ctxs w' = ctxs w
     | Inr x \<Rightarrow> ctx_ptr x \<noteq> 0 \<and> ctx_ptr x \<notin> ctxs w \<and> ctxs w' = insert (ctx_ptr x) (ctxs w))"
proof (cases a)
  case None
  with create context_New_cases [OF ok, of w r w'] show ?thesis
    by (auto simp: context_create_def split: sum.splits)
next
  case (Some b)
  obtain t m where b: "b = (t, m)" by fastforce
  obtain r1 w1 where new: "context_New z w = (r1, w1)" by fastforce
  note made = context_New_cases [OF ok new]
  show ?thesis
  proof (cases r1)
    case (Inl e)
    with made create new Some b show ?thesis by (auto simp: context_create_def context_New_threads_def)
  next
    case (Inr x)
    let ?set1 = "zmq_ctx_set z (ctx_ptr x) ZMQ_IO_THREADS t w1"
    let ?set2 = "zmq_ctx_set z (ctx_ptr x) ZMQ_MAX_SOCKETS m (snd ?set1)"
    have "r = Inl AssertionFailed \<or> (r = Inr x \<and> w' = snd ?set2)"
      using create new Some b Inr
      by (auto simp: context_create_def context_New_threads_def asserted_call_def split: prod.splits if_splits)
    then show ?thesis using made Inr ctx_set_keeps [OF ok] by auto
  qed
qed

lemma ctx_term_loop_closes:
  assumes "ctx_term_loop z p w = Some r"
  shows "contexts_ok z ctxs \<longrightarrow> rc (fst r) = 0 \<longrightarrow> ctxs (snd r) = ctxs w - {p}"
proof (rule ctx_term_loop.raw_induct [where P = "\<lambda>z p w r. contexts_ok z ctxs \<longrightarrow> rc (fst r) = 0 \<longrightarrow> ctxs (snd r) = ctxs w - {p}",
    OF _ assms])
  fix loop z p w r
  assume IH: "\<And>z p w r. loop z p w = Some r \<Longrightarrow> contexts_ok z ctxs \<longrightarrow> rc (fst r) = 0 \<longrightarrow> ctxs (snd r) = ctxs w - {p}"
    and eq: "(let (c, w) = zmq_ctx_term z p w
      in if rc c = - 1 \<and> errno c = EINTR then loop z p w else Some (c, w)) = Some r"
  obtain c w1 where call: "zmq_ctx_term z p w = (c, w1)" by fastforce
  have law: "ctxs w1 = (if rc c = 0 then ctxs w - {p} else ctxs w)" if "contexts_ok z ctxs"
    using that call unfolding contexts_ok_def by blast
  show "contexts_ok z ctxs \<longrightarrow> rc (fst r) = 0 \<longrightarrow> ctxs (snd r) = ctxs w - {p}"
  proof (cases "rc c = - 1 \<and> errno c = EINTR")
    case True
    with eq call have "loop z p w1 = Some r" by simp
    from IH [OF this] law True show ?thesis by simp
  next
    case False
    with eq call law show ?thesis by auto
  qed
qed


lemma context_close_cases:
  assumes ok: "contexts_ok z ctxs" and close: "context_close z x w = Some (Inr x', w')" and zero: "0 \<notin> ctxs w"
  shows "ctx_ptr x' = 0 \<and> ctxs w' = ctxs w - {ctx_ptr x}"
proof (cases "ctx_ptr x = 0")
  case True
  with close zero show ?thesis by (simp add: context_close_def)
next
  case False
  then obtain c where "ctx_term_loop z (ctx_ptr x) w = Some (c, w')" "rc c = 0" "x' = x\<lparr>ctx_ptr := 0\<rparr>"
    using close by (auto simp: context_close_def split: if_splits)
  with ctx_term_loop_closes [of z "ctx_ptr x" w "(c, w')" ctxs] ok show ?thesis by simp
qed

lemma context_assign_closes:
  assumes "context_assign z x y w = Some (Inr (x', y'), w')"
  shows "\<exists>x1. context_close z x w = Some (Inr x1, w') \<and> context_swap x1 y = (x', y')"
proof -
  obtain r where "context_close z x w = Some (r, w')" "bindE r (\<lambda>this. Inr (context_swap this y)) = Inr (x', y')"
    using assms by (auto simp: context_assign_def)
  then show ?thesis by (auto simp: bindE_eq_Inr)
qed

lemma socket_New_cases:
  assumes "sockets_ok z socks" and "socket_New z a w = (r, w')"
  shows "(case r of Inl e \<Rightarrow> socks w' = socks w
     | Inr x \<Rightarrow> sock_handle x \<noteq> 0 \<and> sock_handle x \<notin> socks w \<and> socks w' = insert (sock_handle x) (socks w))"
proof -
  obtain h e w1 where new: "zmq_socket z (ctx_ptr (fst a)) (snd a) w = (h, e, w1)" by (metis prod_cases3)
  then have "if h = 0 then socks w1 = socks w else h \<notin> socks w \<and> socks w1 = insert h (socks w)"
    using assms(1) unfolding sockets_ok_def by blast
  with assms(2) new show ?thesis by (cases a) (auto simp: socket_New_def split: if_splits)
qed

lemma socket_close_cases:
  assumes ok: "sockets_ok z socks" and close: "socket_close z x w = (Inr x', w')" and zero: "0 \<notin> socks w"
  shows "sock_handle x' = 0 \<and> socks w' = socks w - {sock_handle x}"
proof (cases "sock_handle x = 0")
  case True
  with close zero show ?thesis by (simp add: socket_close_def)
next
  case False
  obtain c w1 where call: "zmq_close z (sock_handle x) w = (c, w1)" by fastforce
  then have law: "socks w1 = (if rc c = 0 then socks w - {sock_handle x} else socks w)"
    using ok unfolding sockets_ok_def by blast
  have "rc c = 0" and x': "x' = x\<lparr>sock_handle := 0, ctxptr := 0\<rparr>" "w' = w1"
    using close False call by (cases "rc c = 0"; simp add: socket_close_def asserted_call_def)+
  with law show ?thesis by simp
qed

interpretation contexts: owner ctx_ptr "\<lambda>w A. contexts_ok z ctxs \<and> ctxs w = A"
  "context_create z" "context_close z" context_move_from context_swap "context_assign z" for z ctxs
proof unfold_locales
  fix w A a x w' assume "contexts_ok z ctxs \<and> ctxs w = A" "context_create z a w = (Inr x, w')"
  then show "ctx_ptr x \<noteq> 0 \<and> ctx_ptr x \<notin> A \<and> contexts_ok z ctxs \<and> ctxs w' = insert (ctx_ptr x) A"
    using context_create_cases [of z ctxs a w "Inr x" w'] by simp
next
  fix w A a e w' assume "contexts_ok z ctxs \<and> ctxs w = A" "context_create z a w = (Inl (ZmqError e), w')"
  then show "contexts_ok z ctxs \<and> ctxs w' = A"
    using context_create_cases [of z ctxs a w "Inl (ZmqError e)" w'] by simp
next
  fix w A x x' w' assume "contexts_ok z ctxs \<and> ctxs w = A" "0 \<notin> A" "context_close z x w = Some (Inr x', w')"
  then show "ctx_ptr x' = 0 \<and> contexts_ok z ctxs \<and> ctxs w' = A - {ctx_ptr x}"
    using context_close_cases [of z ctxs x w x' w'] by simp
next
  fix x y w x' y' w' assume "context_assign z x y w = Some (Inr (x', y'), w')"
  then show "\<exists>x1. context_close z x w = Some (Inr x1, w') \<and> context_swap x1 y = (x', y')"
    by (rule context_assign_closes)
qed (auto simp: context_move_from_def context_swap_def)

interpretation sockets: owner sock_handle "\<lambda>w A. sockets_ok z socks \<and> socks w = A"
  "socket_New z" "\<lambda>x w. Some (socket_close z x w)" socket_move_from socket_swap "\<lambda>x y w. Some (socket_assign z x y w)"
  for z socks
proof unfold_locales
  fix w A a x w' assume "sockets_ok z socks \<and> socks w = A" "socket_New z a w = (Inr x, w')"
  then show "sock_handle x \<noteq> 0 \<and> sock_handle x \<notin> A \<and> sockets_ok z socks \<and> socks w' = insert (sock_handle x) A"
    using socket_New_cases [of z socks a w "Inr x" w'] by simp
next
  fix w A a e w' assume "sockets_ok z socks \<and> socks w = A" "socket_New z a w = (Inl (ZmqError e), w')"
  then show "sockets_ok z socks \<and> socks w' = A"
    using socket_New_cases [of z socks a w "Inl (ZmqError e)" w'] by simp
next
  fix w A x x' w' assume "sockets_ok z socks \<and> socks w = A" "0 \<notin> A" "Some (socket_close z x w) = Some (Inr x', w')"
  then show "sock_handle x' = 0 \<and> sockets_ok z socks \<and> socks w' = A - {sock_handle x}"
    using socket_close_cases [of z socks x w x' w'] by simp
next
  fix x y w x' y' w' assume "Some (socket_assign z x y w) = Some (Inr (x', y'), w')"
  then show "\<exists>x1. Some (socket_close z x w) = Some (Inr x1, w') \<and> socket_swap x1 y = (x', y')"
    by (auto simp: socket_assign_def bindE_eq_Inr split: prod.splits)
qed (auto simp: socket_move_from_def socket_swap_def)

section \<open>Properties\<close>

text \<open>The call of a signal-interrupted loop, and the state after \<open>n\<close> calls.\<close>

definition interrupted :: "'w Libhandles \<Rightarrow> nat \<Rightarrow> 'w \<Rightarrow> bool" where
  "interrupted z p w \<longleftrightarrow> rc (fst (zmq_ctx_term z p w)) = - 1 \<and> errno (fst (zmq_ctx_term z p w)) = EINTR"

primrec after_term :: "'w Libhandles \<Rightarrow> nat \<Rightarrow> nat \<Rightarrow> 'w \<Rightarrow> 'w" where
  "after_term z p 0 w = w"
| "after_term z p (Suc n) w = after_term z p n (snd (zmq_ctx_term z p w))"

lemma ctx_term_loop_eq:
  "ctx_term_loop z p w = (if interrupted z p w then ctx_term_loop z p (snd (zmq_ctx_term z p w)) else Some (zmq_ctx_term z p w))"
  by (subst ctx_term_loop.simps) (simp add: interrupted_def split_beta Let_def)

lemma ctx_term_loop_stops:
  assumes "ctx_term_loop z p w = Some r"
  shows "\<exists>n. \<not> interrupted z p (after_term z p n w)"
proof (rule ctx_term_loop.raw_induct [where P = "\<lambda>z p w r. \<exists>n. \<not> interrupted z p (after_term z p n w)", OF _ assms])
  fix loop z p w r
  assume IH: "\<And>z p w r. loop z p w = Some r \<Longrightarrow> \<exists>n. \<not> interrupted z p (after_term z p n w)"
    and eq: "(let (c, w) = zmq_ctx_term z p w
      in if rc c = - 1 \<and> errno c = EINTR then loop z p w else Some (c, w)) = Some r"
  show "\<exists>n. \<not> interrupted z p (after_term z p n w)"
  proof (cases "interrupted z p w")
    case True
    then have "loop z p (snd (zmq_ctx_term z p w)) = Some r"
      using eq by (simp add: interrupted_def split_beta)
    from IH [OF this] show ?thesis by (metis after_term.simps(2))
  next
    case False
    then show ?thesis by (intro exI [of _ 0]) simp
  qed
qed

text \<open>Interrupted calls are made again, and close nothing.\<close>

lemma interrupted_calls:
  assumes "\<forall>i < n. interrupted z p (after_term z p i w)"
  shows "ctx_term_loop z p w = ctx_term_loop z p (after_term z p n w)"
    and "contexts_ok z ctxs \<Longrightarrow> ctxs (after_term z p n w) = ctxs w"
proof -
  have "ctx_term_loop z p w = ctx_term_loop z p (after_term z p n w) \<and>
      (contexts_ok z ctxs \<longrightarrow> ctxs (after_term z p n w) = ctxs w)"
    using assms
  proof (induction n arbitrary: w)
    case (Suc n)
    let ?w = "snd (zmq_ctx_term z p w)"
    from Suc.prems have here: "interrupted z p w" by (metis after_term.simps(1) zero_less_Suc)
    have "contexts_ok z ctxs \<longrightarrow> ctxs ?w = (if rc (fst (zmq_ctx_term z p w)) = 0 then ctxs w - {p} else ctxs w)"
      unfolding contexts_ok_def by (metis prod.collapse)
    moreover have "\<forall>i < n. interrupted z p (after_term z p i ?w)"
      using Suc.prems by (metis Suc_less_eq after_term.simps(2))
    ultimately show ?case
      using Suc.IH [of ?w] here ctx_term_loop_eq [of z p w] by (simp add: interrupted_def)
  qed simp
  then show "ctx_term_loop z p w = ctx_term_loop z p (after_term z p n w)"
    "contexts_ok z ctxs \<Longrightarrow> ctxs (after_term z p n w) = ctxs w" by blast+
qed

text \<open>
  C33. What closing a context does. A context that was closed or moved from returns at once and
  calls nothing. Otherwise \<open>zmq_ctx_term\<close> is called until a call is not interrupted, for ever if
  every call is. If that call succeeds, the object is left without a context, and this context
  and no other is closed in the library; if it fails for another reason than an interruption,
  the program aborts, with every context still open.
\<close>

theorem context_close_result:
  assumes "contexts_ok z ctxs"
  shows "(ctx_ptr this = 0 \<longrightarrow> context_close z this w = Some (Inr this, w)) \<and>
    (ctx_ptr this \<noteq> 0 \<and> (\<forall>n. interrupted z (ctx_ptr this) (after_term z (ctx_ptr this) n w)) \<longrightarrow>
       context_close z this w = None) \<and>
    (ctx_ptr this \<noteq> 0 \<and> (\<forall>i < n. interrupted z (ctx_ptr this) (after_term z (ctx_ptr this) i w)) \<and>
       zmq_ctx_term z (ctx_ptr this) (after_term z (ctx_ptr this) n w) = (c, w') \<and>
       \<not> (rc c = - 1 \<and> errno c = EINTR) \<longrightarrow>
       (if rc c = 0
        then context_close z this w = Some (Inr (this\<lparr>ctx_ptr := 0\<rparr>), w') \<and> ctxs w' = ctxs w - {ctx_ptr this}
        else context_close z this w = Some (Inl AssertionFailed, w') \<and> ctxs w' = ctxs w))"
proof (intro conjI impI)
  let ?p = "ctx_ptr this"
  show "ctx_ptr this = 0 \<Longrightarrow> context_close z this w = Some (Inr this, w)" by (simp add: context_close_def)
  assume "?p \<noteq> 0 \<and> (\<forall>n. interrupted z ?p (after_term z ?p n w))"
  then show "context_close z this w = None"
    using ctx_term_loop_stops [of z ?p w] by (cases "ctx_term_loop z ?p w") (auto simp: context_close_def)
next
  let ?p = "ctx_ptr this"
  assume h: "?p \<noteq> 0 \<and> (\<forall>i < n. interrupted z ?p (after_term z ?p i w)) \<and>
    zmq_ctx_term z ?p (after_term z ?p n w) = (c, w') \<and> \<not> (rc c = - 1 \<and> errno c = EINTR)"
  then have int: "\<forall>i < n. interrupted z ?p (after_term z ?p i w)"
    and call: "zmq_ctx_term z ?p (after_term z ?p n w) = (c, w')" by blast+
  have "\<not> interrupted z ?p (after_term z ?p n w)" using h by (simp add: interrupted_def)
  then have "ctx_term_loop z ?p w = Some (c, w')"
    using interrupted_calls(1) [OF int] ctx_term_loop_eq [of z ?p "after_term z ?p n w"] call by simp
  moreover have "ctxs w' = (if rc c = 0 then ctxs w - {?p} else ctxs w)"
    using assms call interrupted_calls(2) [OF int assms] unfolding contexts_ok_def by metis
  ultimately show "if rc c = 0
      then context_close z this w = Some (Inr (this\<lparr>ctx_ptr := 0\<rparr>), w') \<and> ctxs w' = ctxs w - {?p}
      else context_close z this w = Some (Inl AssertionFailed, w') \<and> ctxs w' = ctxs w"
    using h by (simp add: context_close_def)
qed

text \<open>
  No leak and no double free of contexts: whatever a program does with its \<open>context_t\<close>
  objects, the contexts that are open in the library are those the objects hold, and no two objects
  hold the same. So closing all objects closes everything.
\<close>

theorem contexts_owned:
  assumes "contexts_ok z ctxs" and "ctxs w0 = {}"
    and "own_run (context_create z) (context_close z) context_move_from context_swap (context_assign z) w0 objs w"
  shows "ctxs w = set (filter (\<lambda>h. h \<noteq> 0) (map ctx_ptr objs)) \<and> distinct (filter (\<lambda>h. h \<noteq> 0) (map ctx_ptr objs))"
  using contexts.owned_run [OF assms(3)] assms(1,2) owned_distinct [of ctx_ptr objs] by blast

text \<open>
  C32. No leak and no double free of sockets: the same of \<open>socket_t\<close> objects.
\<close>

theorem sockets_owned:
  assumes "sockets_ok z socks" and "socks w0 = {}"
    and "own_run (socket_New z) (\<lambda>x w. Some (socket_close z x w)) socket_move_from socket_swap
      (\<lambda>x y w. Some (socket_assign z x y w)) w0 objs w"
  shows "socks w = set (filter (\<lambda>h. h \<noteq> 0) (map sock_handle objs)) \<and> distinct (filter (\<lambda>h. h \<noteq> 0) (map sock_handle objs))"
  using sockets.owned_run [OF assms(3)] assms(1,2) owned_distinct [of sock_handle objs] by blast


section \<open>A library\<close>

text \<open>It keeps what is open, and whether a signal will interrupt the next termination.\<close>

record handle_table =
  open_ctxs :: "nat list"
  open_socks :: "nat list"
  signalled :: bool

definition fresh_handle :: "nat list \<Rightarrow> nat" where
  "fresh_handle hs = Suc (sum_list hs)"

lemma fresh_handle [simp]: "fresh_handle hs \<noteq> 0" "fresh_handle hs \<notin> set hs"
proof -
  show "fresh_handle hs \<notin> set hs" using member_le_sum_list [of _ hs] by (force simp: fresh_handle_def)
qed (simp add: fresh_handle_def)

definition table_term :: "nat \<Rightarrow> handle_table \<Rightarrow> c_call \<times> handle_table" where
  "table_term p w = (if signalled w then (c_fail EINTR, w\<lparr>signalled := False\<rparr>)
     else if p \<in> set (open_ctxs w) then (c_ok 0, w\<lparr>open_ctxs := filter (\<lambda>h. h \<noteq> p) (open_ctxs w)\<rparr>) else (c_fail 14, w))"

definition table_close :: "nat \<Rightarrow> handle_table \<Rightarrow> c_call \<times> handle_table" where
  "table_close h w = (if h \<in> set (open_socks w) then (c_ok 0, w\<lparr>open_socks := filter (\<lambda>h'. h' \<noteq> h) (open_socks w)\<rparr>)
     else (c_fail 88, w))"

definition table_socket :: "nat \<Rightarrow> int \<Rightarrow> handle_table \<Rightarrow> nat \<times> int \<times> handle_table" where
  "table_socket ctx type w = (if ctx \<in> set (open_ctxs w)
     then (fresh_handle (open_socks w), 0, w\<lparr>open_socks := fresh_handle (open_socks w) # open_socks w\<rparr>) else (0, 14, w))"

definition table_library :: "handle_table Libhandles" where
  "table_library = \<lparr>
     zmq_ctx_new = (\<lambda>w. (fresh_handle (open_ctxs w), 0, w\<lparr>open_ctxs := fresh_handle (open_ctxs w) # open_ctxs w\<rparr>)),
     zmq_ctx_set = (\<lambda>_ _ _ w. (c_ok 0, w)), zmq_ctx_get = (\<lambda>_ _ w. (c_ok 0, w)), zmq_ctx_term = table_term,
     zmq_ctx_shutdown = (\<lambda>_ w. (c_ok 0, w)), zmq_socket = table_socket, zmq_close = table_close,
     zmq_proxy = (\<lambda>_ _ _ w. (c_fail 156, w)), zmq_proxy_steerable = (\<lambda>_ _ _ _ w. (c_fail 156, w))\<rparr>"

lemma table_contexts_ok: "contexts_ok table_library (\<lambda>w. set (open_ctxs w))"
  by (auto simp: contexts_ok_def table_library_def table_term_def c_ok_def c_fail_def split: if_splits)

lemma table_sockets_ok: "sockets_ok table_library (\<lambda>w. set (open_socks w))"
  by (auto simp: sockets_ok_def table_library_def table_socket_def table_close_def c_ok_def c_fail_def split: if_splits)

definition no_handles :: handle_table where
  "no_handles = \<lparr>open_ctxs = [], open_socks = [], signalled = True\<rparr>"

text \<open>A context is made, moved into another object, and made again; the second one is closed, with an interruption.\<close>

lemma sample_contexts:
  "own_run (context_create table_library) (context_close table_library) context_move_from context_swap
     (context_assign table_library) no_handles [\<lparr>ctx_ptr = 0\<rparr>, \<lparr>ctx_ptr = 1\<rparr>, \<lparr>ctx_ptr = 0\<rparr>]
     (no_handles\<lparr>open_ctxs := [1], signalled := False\<rparr>)"
proof -
  let ?run = "own_run (context_create table_library) (context_close table_library) context_move_from context_swap
     (context_assign table_library) no_handles"
  have New: "context_create table_library None no_handles = (Inr \<lparr>ctx_ptr = 1\<rparr>, no_handles\<lparr>open_ctxs := [1]\<rparr>)"
    "context_create table_library None (no_handles\<lparr>open_ctxs := [1]\<rparr>) =
      (Inr \<lparr>ctx_ptr = 2\<rparr>, no_handles\<lparr>open_ctxs := [2, 1]\<rparr>)"
    by (simp_all add: context_create_def context_New_def table_library_def fresh_handle_def no_handles_def numeral_2_eq_2)
  have "?run [] no_handles" by (rule own_run.start)
  from own_run.move_construct [OF own_run.construct [OF this New(1)], of 0]
  have "?run [\<lparr>ctx_ptr = 0\<rparr>, \<lparr>ctx_ptr = 1\<rparr>] (no_handles\<lparr>open_ctxs := [1]\<rparr>)" by (simp add: context_move_from_def)
  from own_run.construct [OF this New(2)]
  have "?run [\<lparr>ctx_ptr = 0\<rparr>, \<lparr>ctx_ptr = 1\<rparr>, \<lparr>ctx_ptr = 2\<rparr>] (no_handles\<lparr>open_ctxs := [2, 1]\<rparr>)" by simp
  moreover have "context_close table_library \<lparr>ctx_ptr = 2\<rparr> (no_handles\<lparr>open_ctxs := [2, 1]\<rparr>) =
      Some (Inr \<lparr>ctx_ptr = 0\<rparr>, no_handles\<lparr>open_ctxs := [1], signalled := False\<rparr>)"
    by (simp add: context_close_def ctx_term_loop.simps table_library_def table_term_def no_handles_def c_ok_def c_fail_def)
  ultimately show ?thesis
    using own_run.close_obj [of _ _ _ _ _ _ "[\<lparr>ctx_ptr = 0\<rparr>, \<lparr>ctx_ptr = 1\<rparr>, \<lparr>ctx_ptr = 2\<rparr>]" _ 2] by fastforce
qed

text \<open>One interruption, then the context is closed.\<close>

theorem context_close_result_witness:
  "context_close table_library \<lparr>ctx_ptr = 2\<rparr> (no_handles\<lparr>open_ctxs := [2, 1]\<rparr>) =
     Some (Inr \<lparr>ctx_ptr = 0\<rparr>, no_handles\<lparr>open_ctxs := [1], signalled := False\<rparr>)"
  using context_close_result [OF table_contexts_ok, of "\<lparr>ctx_ptr = 2\<rparr>" "no_handles\<lparr>open_ctxs := [2, 1]\<rparr>" 1
      "c_ok 0" "no_handles\<lparr>open_ctxs := [1], signalled := False\<rparr>"]
  by (simp add: interrupted_def table_library_def table_term_def no_handles_def c_ok_def c_fail_def)

theorem contexts_owned_witness:
  "distinct (filter (\<lambda>h. h \<noteq> 0) [0, 1, 0 :: nat]) \<and> set (open_ctxs (no_handles\<lparr>open_ctxs := [1]\<rparr>)) = {1}"
  using contexts_owned [OF table_contexts_ok _ sample_contexts] by (simp add: no_handles_def)

lemma sample_sockets:
  "own_run (socket_New table_library) (\<lambda>x w. Some (socket_close table_library x w)) socket_move_from socket_swap
     (\<lambda>x y w. Some (socket_assign table_library x y w)) (no_handles\<lparr>open_ctxs := [1]\<rparr>)
     [\<lparr>sock_handle = 2, ctxptr = 1\<rparr>, socket_null] (no_handles\<lparr>open_ctxs := [1], open_socks := [2]\<rparr>)"
proof -
  let ?w0 = "no_handles\<lparr>open_ctxs := [1]\<rparr>"
  let ?run = "own_run (socket_New table_library) (\<lambda>x w. Some (socket_close table_library x w)) socket_move_from socket_swap
     (\<lambda>x y w. Some (socket_assign table_library x y w)) ?w0"
  let ?one = "\<lparr>sock_handle = 1, ctxptr = 1\<rparr>" and ?two = "\<lparr>sock_handle = 2, ctxptr = 1\<rparr>"
  have New: "socket_New table_library (\<lparr>ctx_ptr = 1\<rparr>, 5) ?w0 = (Inr ?one, ?w0\<lparr>open_socks := [1]\<rparr>)"
    "socket_New table_library (\<lparr>ctx_ptr = 1\<rparr>, 5) (?w0\<lparr>open_socks := [1]\<rparr>) = (Inr ?two, ?w0\<lparr>open_socks := [2, 1]\<rparr>)"
    by (simp_all add: socket_New_def table_library_def table_socket_def fresh_handle_def no_handles_def numeral_2_eq_2)
  have "?run [] ?w0" by (rule own_run.start)
  from own_run.construct [OF own_run.construct [OF this New(1)] New(2)]
  have made: "?run [?one, ?two] (?w0\<lparr>open_socks := [2, 1]\<rparr>)" by simp
  have "socket_assign table_library ?one ?two (?w0\<lparr>open_socks := [2, 1]\<rparr>) =
      (Inr (?two, socket_null), no_handles\<lparr>open_ctxs := [1], open_socks := [2]\<rparr>)"
    by (simp add: socket_assign_def socket_close_def asserted_call_def socket_swap_def socket_null_def table_library_def
        table_close_def no_handles_def c_ok_def)
  then show ?thesis using own_run.move_assign [OF made, of 0 1 ?two socket_null] by simp
qed

theorem sockets_owned_witness:
  "set (open_socks (no_handles\<lparr>open_socks := [2]\<rparr>)) = {2} \<and> distinct (filter (\<lambda>h. h \<noteq> 0) [2, 0 :: nat])"
  using sockets_owned [OF table_sockets_ok _ sample_sockets] by (simp add: no_handles_def socket_null_def)

end
