(* ===== verification/Monitor.thy ===== *)
theory Monitor
  imports Multipart Sockets
begin

text \<open>
  \<open>monitor_t\<close> of \<open>lib/cppzmq/zmq.hpp\<close>, which reads the events of a socket from a second socket and
  calls a virtual function for each. The function that stops and starts the monitoring is the
  parameter \<open>Libmonitor\<close>, the operations on the socket with handle \<open>h\<close> are \<open>io h\<close>. The numbers of
  the events are those of the header of the C library.
\<close>

section \<open>The C library\<close>

record 'w Libmonitor =
  zmq_socket_monitor :: "nat \<Rightarrow> string option \<Rightarrow> int \<Rightarrow> 'w \<Rightarrow> c_call \<times> 'w"

definition ETERM :: int where
  "ETERM = 156384765"

definition ZMQ_POLLIN :: int where
  "ZMQ_POLLIN = 1"

definition ZMQ_PAIR :: int where
  "ZMQ_PAIR = 0"

definition ZMQ_EVENT_MONITOR_STOPPED :: "16 word" where
  "ZMQ_EVENT_MONITOR_STOPPED = 0x0400"

record zmq_event_t =
  ev_event :: "16 word"
  ev_value :: u32

section \<open>Events and callbacks\<close>

text \<open>The virtual functions that a monitor may override; as they stand they do nothing.\<close>

datatype monitor_callback =
    on_event_connected | on_event_connect_delayed | on_event_connect_retried | on_event_listening
  | on_event_bind_failed | on_event_accepted | on_event_accept_failed | on_event_closed
  | on_event_close_failed | on_event_disconnected | on_event_handshake_failed_no_detail
  | on_event_handshake_failed_protocol | on_event_handshake_failed_auth | on_event_handshake_succeeded
  | on_event_unknown

definition default_callback :: "monitor_callback \<Rightarrow> zmq_event_t \<Rightarrow> string \<Rightarrow> 'w \<Rightarrow> 'w" where
  "default_callback f event addr w = w"

definition callback_of :: "16 word \<Rightarrow> monitor_callback" where
  "callback_of event =
     (if event = 0x0001 then on_event_connected
      else if event = 0x0002 then on_event_connect_delayed
      else if event = 0x0004 then on_event_connect_retried
      else if event = 0x0008 then on_event_listening
      else if event = 0x0010 then on_event_bind_failed
      else if event = 0x0020 then on_event_accepted
      else if event = 0x0040 then on_event_accept_failed
      else if event = 0x0080 then on_event_closed
      else if event = 0x0100 then on_event_close_failed
      else if event = 0x0200 then on_event_disconnected
      else if event = 0x0800 then on_event_handshake_failed_no_detail
      else if event = 0x2000 then on_event_handshake_failed_protocol
      else if event = 0x4000 then on_event_handshake_failed_auth
      else if event = 0x1000 then on_event_handshake_succeeded
      else on_event_unknown)"

section \<open>monitor\_t\<close>

record monitor_t =
  mon_socket :: nat
  monitor_socket :: socket_t

definition monitor_New :: monitor_t where
  "monitor_New = \<lparr>mon_socket = 0, monitor_socket = socket_null\<rparr>"

text \<open>The return codes of stopping are ignored.\<close>

definition stop_monitoring :: "'w Libmonitor \<Rightarrow> nat \<Rightarrow> 'w \<Rightarrow> 'w" where
  "stop_monitoring z h w = (if h \<noteq> 0 then snd (zmq_socket_monitor z h None 0 w) else w)"

definition monitor_close :: "'w Libmonitor \<Rightarrow> 'w Libhandles \<Rightarrow> monitor_t \<Rightarrow> 'w \<Rightarrow> monitor_t res \<times> 'w" where
  "monitor_close z hl m w =
     (let (r, w) = socket_close hl (monitor_socket m) (stop_monitoring z (mon_socket m) w)
      in (bindE r (\<lambda>s. Inr (m\<lparr>monitor_socket := s\<rparr>)), w))"

definition monitor_abort :: "'w Libmonitor \<Rightarrow> monitor_t \<Rightarrow> 'w \<Rightarrow> monitor_t \<times> 'w" where
  "monitor_abort z m w = (m\<lparr>mon_socket := 0\<rparr>, stop_monitoring z (mon_socket m) w)"

definition monitor_swap :: "monitor_t \<Rightarrow> monitor_t \<Rightarrow> monitor_t \<times> monitor_t" where
  "monitor_swap a b =
     (let (s, t) = socket_swap (monitor_socket a) (monitor_socket b)
      in (a\<lparr>mon_socket := mon_socket b, monitor_socket := s\<rparr>, b\<lparr>mon_socket := mon_socket a, monitor_socket := t\<rparr>))"

definition monitor_move_from :: "monitor_t \<Rightarrow> monitor_t \<times> monitor_t" where
  "monitor_move_from rhs = monitor_swap monitor_New rhs"

definition monitor_assign ::
  "'w Libmonitor \<Rightarrow> 'w Libhandles \<Rightarrow> monitor_t \<Rightarrow> monitor_t \<Rightarrow> 'w \<Rightarrow> (monitor_t \<times> monitor_t) res \<times> 'w" where
  "monitor_assign z hl m rhs w =
     (let (r, w) = monitor_close z hl m w
      in (bindE r (\<lambda>m. Inr (monitor_swap (m\<lparr>mon_socket := 0\<rparr>) rhs)), w))"

text \<open>
  \<open>init\<close>, which ends by calling \<open>on_monitor_started\<close>. The new monitor socket is moved into the
  member, so an old one is closed.
\<close>

definition monitor_init ::
  "'w Libmonitor \<Rightarrow> 'w Libhandles \<Rightarrow> (nat \<Rightarrow> 'w Libzmq) \<Rightarrow> socket_t \<Rightarrow> string \<Rightarrow> int \<Rightarrow> monitor_t \<Rightarrow> 'w \<Rightarrow>
   unit res \<times> monitor_t \<times> 'w" where
  "monitor_init z hl io socket addr events m w =
     (case checked_call (zmq_socket_monitor z (sock_handle socket) (Some addr) events w) of
        (Inl e, w) \<Rightarrow> (Inl e, m, w)
      | (Inr _, w) \<Rightarrow>
         (let m = m\<lparr>mon_socket := sock_handle socket\<rparr> in
          case socket_New_ptr hl (ctxptr socket) ZMQ_PAIR w of
            (Inl e, w) \<Rightarrow> (Inl e, m, w)
          | (Inr s, w) \<Rightarrow>
             (case socket_assign hl (monitor_socket m) s w of
                (Inl e, w) \<Rightarrow> (Inl e, m, w)
              | (Inr (s, _), w) \<Rightarrow>
                 (let m = m\<lparr>monitor_socket := s\<rparr>;
                      (r, w) = socket_base_connect (io (sock_handle s)) addr w
                  in (r, m, w)))))"

text \<open>
  Receiving one frame into \<open>msg\<close>: the message, or that the context is being terminated.
\<close>

definition monitor_recv :: "'w Libzmq \<Rightarrow> zmq_msg \<Rightarrow> 'w \<Rightarrow> zmq_msg option res \<times> 'w" where
  "monitor_recv z msg w =
     (let (c, msg, w) = zmq_msg_recv z 0 msg w
      in (if rc c = - 1 \<and> errno c = ETERM then Inr None
          else if rc c = - 1 then Inl AssertionFailed else Inr (Some msg), w))"

definition read_event :: "bool \<Rightarrow> byte list \<Rightarrow> zmq_event_t res" where
  "read_event little data =
     (if length data < 6 then Inl UndefinedBehaviour
      else Inr \<lparr>ev_event = (let bs = take 2 data in foldl (\<lambda>a b. push_bit 8 a + ucast b) 0 (if little then rev bs else bs)),
                ev_value = u32_of_bytes little (drop 2 data)\<rparr>)"

text \<open>\<open>check_event\<close>: what it returns, and the callback it makes.\<close>

definition handle_event :: "zmq_event_t \<Rightarrow> string \<Rightarrow> bool \<times> (monitor_callback \<times> zmq_event_t \<times> string) list" where
  "handle_event event addr =
     (if ev_event event = ZMQ_EVENT_MONITOR_STOPPED then (False, [])
      else (True, [(callback_of (ev_event event), event, addr)]))"

definition check_event ::
  "(nat \<Rightarrow> 'w Libzmq) \<Rightarrow> bool \<Rightarrow> int \<Rightarrow> monitor_t \<Rightarrow> 'w \<Rightarrow>
   bool res \<times> (monitor_callback \<times> zmq_event_t \<times> string) list \<times> 'w" where
  "check_event io little timeout m w =
     (let h = sock_handle (monitor_socket m); z = io h in
      if h = 0 then (Inl AssertionFailed, [], w)
      else case message_New z of
        Inl e \<Rightarrow> (Inl e, [], w)
      | Inr event_msg \<Rightarrow>
      let (polled, items, w) = detail_poll z [\<lparr>poll_socket = h, poll_events = ZMQ_POLLIN, poll_revents = 0\<rparr>] 1 timeout w in
      case polled of
        Inl e \<Rightarrow> (Inl e, [], w)
      | Inr _ \<Rightarrow>
      if poll_revents (items ! 0) AND ZMQ_POLLIN = 0 then (Inr False, [], w)
      else case monitor_recv z event_msg w of
        (Inl e, w) \<Rightarrow> (Inl e, [], w)
      | (Inr None, w) \<Rightarrow> (Inr False, [], w)
      | (Inr (Some event_msg), w) \<Rightarrow>
      case read_event little (msg_data event_msg) of
        Inl e \<Rightarrow> (Inl e, [], w)
      | Inr event \<Rightarrow>
      case message_New z of
        Inl e \<Rightarrow> (Inl e, [], w)
      | Inr addr_msg \<Rightarrow>
      case monitor_recv z addr_msg w of
        (Inl e, w) \<Rightarrow> (Inl e, [], w)
      | (Inr None, w) \<Rightarrow> (Inr False, [], w)
      | (Inr (Some addr_msg), w) \<Rightarrow>
      let (r, calls) = handle_event event (to_string addr_msg) in (Inr r, calls, w))"

text \<open>
  The loop of \<open>monitor\<close>, one turn: it ignores the result of \<open>check_event\<close>, so only an exception
  ends it.
\<close>

definition monitor_turn ::
  "(nat \<Rightarrow> 'w Libzmq) \<Rightarrow> bool \<Rightarrow> monitor_t \<Rightarrow> 'w \<Rightarrow> unit res \<times> (monitor_callback \<times> zmq_event_t \<times> string) list \<times> 'w" where
  "monitor_turn io little m w =
     (let (r, calls, w) = check_event io little (- 1) m w in (bindE r (\<lambda>_. Inr ()), calls, w))"

section \<open>Properties\<close>

lemma callback_of_inject:
  "callback_of a = callback_of b \<Longrightarrow> callback_of a \<noteq> on_event_unknown \<Longrightarrow> a = b"
  by (simp add: callback_of_def split: if_splits)

text \<open>The frame of an event, as the C library sends it.\<close>

definition event_frame :: "bool \<Rightarrow> zmq_event_t \<Rightarrow> byte list" where
  "event_frame little event = u16_bytes little (ev_event event) @ u32_bytes little (ev_value event)"


lemma u32_of_bytes_u32_bytes: "u32_of_bytes little (u32_bytes little v) = v"
proof -
  have "u32_of_bytes False (u32_bytes False v) = v"
    using read_write_network_order [of False False v "[]"]
    by (simp add: read_u32_network_order_def write_network_order_def is_little_endian_iff)
  moreover have "u32_of_bytes little (u32_bytes little v) = u32_of_bytes False (u32_bytes False v)"
    by (cases little) (simp_all add: u32_of_bytes_def u32_bytes_def)
  ultimately show ?thesis by simp
qed

lemma u16_of_bytes:
  "push_bit 8 (ucast (ucast (drop_bit 8 v) :: byte)) + ucast (ucast v :: byte) = (v :: 16 word)"
proof -
  have "push_bit 8 (ucast (ucast (drop_bit 8 v) :: byte)) AND ucast (ucast v :: byte) = (0 :: 16 word)"
    by (intro bit_word_eqI) (auto simp: bit_simps)
  then have "push_bit 8 (ucast (ucast (drop_bit 8 v) :: byte)) + ucast (ucast v :: byte) =
      (push_bit 8 (ucast (ucast (drop_bit 8 v) :: byte)) OR ucast (ucast v :: byte) :: 16 word)"
    by (rule disjunctive_add_eq_or)
  also have "\<dots> = v" by (intro bit_word_eqI) (auto simp: bit_simps)
  finally show ?thesis .
qed

lemma read_event_frame: "read_event little (event_frame little event) = Inr event"
proof -
  have "u32_of_bytes little (drop 2 (event_frame little event)) = ev_value event"
    using u32_of_bytes_u32_bytes by (simp add: event_frame_def u16_bytes_def Let_def)
  moreover have "length (event_frame little event) = 6"
    by (simp add: event_frame_def u16_bytes_def u32_bytes_def Let_def)
  moreover have "take 2 (event_frame little event) = u16_bytes little (ev_event event)"
    by (simp add: event_frame_def u16_bytes_def Let_def)
  moreover have "foldl (\<lambda>a b. push_bit 8 a + ucast b) 0 (if little then rev (u16_bytes little v) else u16_bytes little v) = v" for v
    using u16_of_bytes by (simp add: u16_bytes_def Let_def)
  ultimately show ?thesis by (simp add: read_event_def Let_def)
qed

lemma deliver_event:
  assumes "h = sock_handle (monitor_socket m)" and "h \<noteq> 0" and "message_New (io h) = Inr msg"
    and "zmq_poll (io h) [\<lparr>poll_socket = h, poll_events = ZMQ_POLLIN, poll_revents = 0\<rparr>] timeout w = (c0, [item], w0)"
    and "rc c0 \<ge> 0" and "poll_revents item AND ZMQ_POLLIN \<noteq> 0"
    and "zmq_msg_recv (io h) 0 msg w0 = (c1, m1, w1)" and "rc c1 \<noteq> - 1" and "msg_data m1 = event_frame little event"
    and "zmq_msg_recv (io h) 0 msg w1 = (c2, m2, w2)" and "rc c2 \<noteq> - 1"
  shows "check_event io little timeout m w =
    (if ev_event event = ZMQ_EVENT_MONITOR_STOPPED then (Inr False, [], w2)
     else (Inr True, [(callback_of (ev_event event), event, to_string m2)], w2))"
  using assms read_event_frame [of little event]
  by (simp add: check_event_def detail_poll_def monitor_recv_def handle_event_def)


text \<open>
  Whatever the library does, a turn of the monitor makes at most one callback, the one of the
  event that was read, and it makes one exactly when it returns \<open>true\<close>; the event that says
  monitoring has stopped makes none.
\<close>

theorem check_event_calls:
  assumes "check_event io little timeout m w = (r, calls, w')"
  shows "if r = Inr True
    then \<exists>event addr. calls = [(callback_of (ev_event event), event, addr)] \<and> ev_event event \<noteq> ZMQ_EVENT_MONITOR_STOPPED
    else calls = []"
  using assms
  by (auto simp: check_event_def handle_event_def Let_def split: prod.splits sum.splits option.splits if_splits)

text \<open>
  An event that was sent is reported: when the monitor socket delivers the frame of an event
  and then its address, \<open>check_event\<close> makes the callback of that event with its number, its value
  and its address, whatever the byte order of the machine.
\<close>

theorem check_event_delivers:
  assumes "h = sock_handle (monitor_socket m)" and "h \<noteq> 0" and "message_New (io h) = Inr msg"
    and "zmq_poll (io h) [\<lparr>poll_socket = h, poll_events = ZMQ_POLLIN, poll_revents = 0\<rparr>] timeout w = (c0, [item], w0)"
    and "rc c0 \<ge> 0" and "poll_revents item AND ZMQ_POLLIN \<noteq> 0"
    and "zmq_msg_recv (io h) 0 msg w0 = (c1, m1, w1)" and "rc c1 \<noteq> - 1" and "msg_data m1 = event_frame little event"
    and "zmq_msg_recv (io h) 0 msg w1 = (c2, m2, w2)" and "rc c2 \<noteq> - 1"
  shows "check_event io little timeout m w =
    (if ev_event event = ZMQ_EVENT_MONITOR_STOPPED then (Inr False, [], w2)
     else (Inr True, [(callback_of (ev_event event), event, to_string m2)], w2))"
  using assms by (rule deliver_event)

section \<open>An event\<close>

text \<open>A monitor socket on which an accepted connection has been reported.\<close>

definition readable_zmq :: "zmq_msg list Libzmq" where
  "readable_zmq = loop_zmq\<lparr>zmq_poll := \<lambda>items _ s. (c_ok 1, map (\<lambda>item. item\<lparr>poll_revents := 1\<rparr>) items, s)\<rparr>"

definition accepted :: zmq_event_t where
  "accepted = \<lparr>ev_event = 0x0020, ev_value = 7\<rparr>"

definition accepted_frames :: "zmq_msg list" where
  "accepted_frames = [\<lparr>msg_data = event_frame True accepted, msg_more = True\<rparr>,
     \<lparr>msg_data = string_bytes ''tcp'', msg_more = False\<rparr>]"

definition sample_monitor :: monitor_t where
  "sample_monitor = \<lparr>mon_socket = 1, monitor_socket = \<lparr>sock_handle = 2, ctxptr = 1\<rparr>\<rparr>"

lemma accepted_calls:
  "callback_of (ev_event accepted) = on_event_accepted" "ev_event accepted \<noteq> ZMQ_EVENT_MONITOR_STOPPED"
  by (simp_all add: callback_of_def accepted_def ZMQ_EVENT_MONITOR_STOPPED_def)

lemma sample_event_facts:
  "2 = sock_handle (monitor_socket sample_monitor)" "(2 :: nat) \<noteq> 0" "message_New readable_zmq = Inr empty_msg"
  "zmq_poll readable_zmq [\<lparr>poll_socket = 2, poll_events = ZMQ_POLLIN, poll_revents = 0\<rparr>] 0 accepted_frames =
     (c_ok 1, [\<lparr>poll_socket = 2, poll_events = ZMQ_POLLIN, poll_revents = 1\<rparr>], accepted_frames)"
  "rc (c_ok 1) \<ge> 0" "poll_revents \<lparr>poll_socket = 2, poll_events = ZMQ_POLLIN, poll_revents = 1\<rparr> AND ZMQ_POLLIN \<noteq> 0"
  "zmq_msg_recv readable_zmq 0 empty_msg accepted_frames = (c_ok 6, accepted_frames ! 0, [accepted_frames ! 1])"
  "rc (c_ok 6) \<noteq> - 1" "msg_data (accepted_frames ! 0) = event_frame True accepted"
  "zmq_msg_recv readable_zmq 0 empty_msg [accepted_frames ! 1] = (c_ok 3, accepted_frames ! 1, [])" "rc (c_ok 3) \<noteq> - 1"
proof -
  have "length (event_frame True accepted) = 6" by (simp add: event_frame_def u16_bytes_def u32_bytes_def Let_def)
  then show "zmq_msg_recv readable_zmq 0 empty_msg accepted_frames = (c_ok 6, accepted_frames ! 0, [accepted_frames ! 1])"
    by (simp add: readable_zmq_def loop_zmq_def loop_msg_recv_def accepted_frames_def)
qed (simp_all add: sample_monitor_def message_New_def readable_zmq_def loop_zmq_def loop_msg_recv_def accepted_frames_def
    c_ok_def ZMQ_POLLIN_def)

lemma sample_address: "to_string (accepted_frames ! 1) = ''tcp''"
  by (simp add: accepted_frames_def to_string_def msg_size_def)

theorem check_event_delivers_witness:
  "check_event (\<lambda>_. readable_zmq) True 0 sample_monitor accepted_frames =
     (Inr True, [(on_event_accepted, accepted, ''tcp'')], [])"
  using check_event_delivers [where io = "\<lambda>_. readable_zmq", OF sample_event_facts] accepted_calls sample_address by simp

theorem check_event_calls_witness:
  "\<exists>event addr. [(on_event_accepted, accepted, ''tcp'')] = [(callback_of (ev_event event), event, addr)] \<and>
     ev_event event \<noteq> ZMQ_EVENT_MONITOR_STOPPED"
proof -
  have "check_event (\<lambda>_. readable_zmq) True 0 sample_monitor accepted_frames =
      (Inr True, [(on_event_accepted, accepted, ''tcp'')], [])"
    using deliver_event [where io = "\<lambda>_. readable_zmq", OF sample_event_facts] accepted_calls sample_address by simp
  from check_event_calls [OF this] show ?thesis by simp
qed

end
