(* ===== verification/SocketOptions.thy ===== *)
theory SocketOptions
  imports ZmqMessage
begin

text \<open>
  The options of a socket, \<open>namespace sockopt\<close> and the members \<open>set\<close> and \<open>get\<close> of \<open>socket_base\<close>
  in \<open>lib/cppzmq/zmq.hpp\<close>: the table of options with their kinds, and how their values travel as
  blocks of memory. The broker, the workers and the manager set \<open>subscribe\<close> and \<open>routing_id\<close>. The
  C library is the parameter \<open>Libopts\<close>; the numbers of the options are defined by its header and
  are the parameter \<open>num\<close>, the byte order of the machine is the parameter \<open>little\<close>.
\<close>

section \<open>The C library\<close>

text \<open>\<open>zmq_getsockopt\<close> gets a buffer and its size and returns both overwritten.\<close>

record 'w Libopts =
  zmq_setsockopt :: "nat \<Rightarrow> int \<Rightarrow> byte list \<Rightarrow> 'w \<Rightarrow> c_call \<times> 'w"
  zmq_getsockopt :: "nat \<Rightarrow> int \<Rightarrow> byte list \<Rightarrow> size_t \<Rightarrow> 'w \<Rightarrow> c_call \<times> byte list \<times> size_t \<times> 'w"
  zmq_join :: "nat \<Rightarrow> string \<Rightarrow> 'w \<Rightarrow> c_call \<times> 'w"
  zmq_leave :: "nat \<Rightarrow> string \<Rightarrow> 'w \<Rightarrow> c_call \<times> 'w"

section \<open>The table of options\<close>

text \<open>
  An \<open>integral_option\<close> has a type and whether it also takes a \<open>bool\<close>. An \<open>array_option\<close> is
  binary (\<open>0\<close>), a string whose size counts its final zero (\<open>1\<close>), or a key of 32 bytes or in 41
  characters (\<open>2\<close>). The string is the macro that gives the number of the option.
\<close>

datatype opt_type = T_int | T_int64 | T_uint64 | T_fd | T_socket_type

definition opt_type_size :: "opt_type \<Rightarrow> nat" where
  "opt_type_size T = (case T of T_int64 \<Rightarrow> 8 | T_uint64 \<Rightarrow> 8 | _ \<Rightarrow> 4)"

datatype sockopt = Integral_option string opt_type bool | Array_option string nat

definition sockopt_macro :: "sockopt \<Rightarrow> string" where
  "sockopt_macro opt = (case opt of Integral_option m _ _ \<Rightarrow> m | Array_option m _ \<Rightarrow> m)"

definition sockopts_affinity_to_rate :: "(string \<times> sockopt) list" where
  "sockopts_affinity_to_rate = [
    (''affinity'', Integral_option ''ZMQ_AFFINITY'' T_uint64 False),
    (''backlog'', Integral_option ''ZMQ_BACKLOG'' T_int False),
    (''bindtodevice'', Array_option ''ZMQ_BINDTODEVICE'' 0),
    (''conflate'', Integral_option ''ZMQ_CONFLATE'' T_int True),
    (''connect_routing_id'', Array_option ''ZMQ_CONNECT_ROUTING_ID'' 1),
    (''connect_timeout'', Integral_option ''ZMQ_CONNECT_TIMEOUT'' T_int False),
    (''curve_publickey'', Array_option ''ZMQ_CURVE_PUBLICKEY'' 2),
    (''curve_secretkey'', Array_option ''ZMQ_CURVE_SECRETKEY'' 2),
    (''curve_server'', Integral_option ''ZMQ_CURVE_SERVER'' T_int True),
    (''curve_serverkey'', Array_option ''ZMQ_CURVE_SERVERKEY'' 2),
    (''disconnect_msg'', Array_option ''ZMQ_DISCONNECT_MSG'' 0),
    (''events'', Integral_option ''ZMQ_EVENTS'' T_int False),
    (''fd'', Integral_option ''ZMQ_FD'' T_fd False),
    (''gssapi_plaintext'', Integral_option ''ZMQ_GSSAPI_PLAINTEXT'' T_int True),
    (''gssapi_server'', Integral_option ''ZMQ_GSSAPI_SERVER'' T_int True),
    (''gssapi_service_principal'', Array_option ''ZMQ_GSSAPI_SERVICE_PRINCIPAL'' 1),
    (''gssapi_service_principal_nametype'', Integral_option ''ZMQ_GSSAPI_SERVICE_PRINCIPAL_NAMETYPE'' T_int False),
    (''gssapi_principal'', Array_option ''ZMQ_GSSAPI_PRINCIPAL'' 1),
    (''gssapi_principal_nametype'', Integral_option ''ZMQ_GSSAPI_PRINCIPAL_NAMETYPE'' T_int False),
    (''handshake_ivl'', Integral_option ''ZMQ_HANDSHAKE_IVL'' T_int False),
    (''heartbeat_ivl'', Integral_option ''ZMQ_HEARTBEAT_IVL'' T_int False),
    (''heartbeat_timeout'', Integral_option ''ZMQ_HEARTBEAT_TIMEOUT'' T_int False),
    (''heartbeat_ttl'', Integral_option ''ZMQ_HEARTBEAT_TTL'' T_int False),
    (''hello_msg'', Array_option ''ZMQ_HELLO_MSG'' 0),
    (''immediate'', Integral_option ''ZMQ_IMMEDIATE'' T_int True),
    (''invert_matching'', Integral_option ''ZMQ_INVERT_MATCHING'' T_int True),
    (''ipv6'', Integral_option ''ZMQ_IPV6'' T_int True),
    (''last_endpoint'', Array_option ''ZMQ_LAST_ENDPOINT'' 1),
    (''linger'', Integral_option ''ZMQ_LINGER'' T_int False),
    (''maxmsgsize'', Integral_option ''ZMQ_MAXMSGSIZE'' T_int64 False),
    (''mechanism'', Integral_option ''ZMQ_MECHANISM'' T_int False),
    (''metadata'', Array_option ''ZMQ_METADATA'' 1),
    (''multicast_hops'', Integral_option ''ZMQ_MULTICAST_HOPS'' T_int False),
    (''multicast_loop'', Integral_option ''ZMQ_MULTICAST_LOOP'' T_int True),
    (''multicast_maxtpdu'', Integral_option ''ZMQ_MULTICAST_MAXTPDU'' T_int False),
    (''only_first_subscribe'', Integral_option ''ZMQ_ONLY_FIRST_SUBSCRIBE'' T_int True),
    (''plain_server'', Integral_option ''ZMQ_PLAIN_SERVER'' T_int True),
    (''plain_password'', Array_option ''ZMQ_PLAIN_PASSWORD'' 1),
    (''plain_username'', Array_option ''ZMQ_PLAIN_USERNAME'' 1),
    (''priority'', Integral_option ''ZMQ_PRIORITY'' T_int False),
    (''use_fd'', Integral_option ''ZMQ_USE_FD'' T_int False),
    (''probe_router'', Integral_option ''ZMQ_PROBE_ROUTER'' T_int True),
    (''rate'', Integral_option ''ZMQ_RATE'' T_int False)]"

definition sockopts_rcvbuf_to_zap :: "(string \<times> sockopt) list" where
  "sockopts_rcvbuf_to_zap = [
    (''rcvbuf'', Integral_option ''ZMQ_RCVBUF'' T_int False),
    (''rcvhwm'', Integral_option ''ZMQ_RCVHWM'' T_int False),
    (''rcvmore'', Integral_option ''ZMQ_RCVMORE'' T_int True),
    (''rcvtimeo'', Integral_option ''ZMQ_RCVTIMEO'' T_int False),
    (''reconnect_ivl'', Integral_option ''ZMQ_RECONNECT_IVL'' T_int False),
    (''reconnect_ivl_max'', Integral_option ''ZMQ_RECONNECT_IVL_MAX'' T_int False),
    (''reconnect_stop'', Integral_option ''ZMQ_RECONNECT_STOP'' T_int False),
    (''recovery_ivl'', Integral_option ''ZMQ_RECOVERY_IVL'' T_int False),
    (''req_correlate'', Integral_option ''ZMQ_REQ_CORRELATE'' T_int True),
    (''req_relaxed'', Integral_option ''ZMQ_REQ_RELAXED'' T_int True),
    (''router_handover'', Integral_option ''ZMQ_ROUTER_HANDOVER'' T_int True),
    (''router_mandatory'', Integral_option ''ZMQ_ROUTER_MANDATORY'' T_int True),
    (''router_notify'', Integral_option ''ZMQ_ROUTER_NOTIFY'' T_int False),
    (''routing_id'', Array_option ''ZMQ_ROUTING_ID'' 0),
    (''sndbuf'', Integral_option ''ZMQ_SNDBUF'' T_int False),
    (''sndhwm'', Integral_option ''ZMQ_SNDHWM'' T_int False),
    (''sndtimeo'', Integral_option ''ZMQ_SNDTIMEO'' T_int False),
    (''socks_password'', Array_option ''ZMQ_SOCKS_PASSWORD'' 1),
    (''socks_proxy'', Array_option ''ZMQ_SOCKS_PROXY'' 1),
    (''socks_username'', Array_option ''ZMQ_SOCKS_USERNAME'' 1),
    (''stream_notify'', Integral_option ''ZMQ_STREAM_NOTIFY'' T_int True),
    (''subscribe'', Array_option ''ZMQ_SUBSCRIBE'' 1),
    (''tcp_keepalive'', Integral_option ''ZMQ_TCP_KEEPALIVE'' T_int False),
    (''tcp_keepalive_cnt'', Integral_option ''ZMQ_TCP_KEEPALIVE_CNT'' T_int False),
    (''tcp_keepalive_idle'', Integral_option ''ZMQ_TCP_KEEPALIVE_IDLE'' T_int False),
    (''tcp_keepalive_intvl'', Integral_option ''ZMQ_TCP_KEEPALIVE_INTVL'' T_int False),
    (''tcp_maxrt'', Integral_option ''ZMQ_TCP_MAXRT'' T_int False),
    (''thread_safe'', Integral_option ''ZMQ_THREAD_SAFE'' T_int True),
    (''tos'', Integral_option ''ZMQ_TOS'' T_int False),
    (''type'', Integral_option ''ZMQ_TYPE'' T_int False),
    (''socket_type'', Integral_option ''ZMQ_TYPE'' T_socket_type False),
    (''unsubscribe'', Array_option ''ZMQ_UNSUBSCRIBE'' 1),
    (''vmci_buffer_size'', Integral_option ''ZMQ_VMCI_BUFFER_SIZE'' T_uint64 False),
    (''vmci_buffer_min_size'', Integral_option ''ZMQ_VMCI_BUFFER_MIN_SIZE'' T_uint64 False),
    (''vmci_buffer_max_size'', Integral_option ''ZMQ_VMCI_BUFFER_MAX_SIZE'' T_uint64 False),
    (''vmci_connect_timeout'', Integral_option ''ZMQ_VMCI_CONNECT_TIMEOUT'' T_int False),
    (''xpub_verbose'', Integral_option ''ZMQ_XPUB_VERBOSE'' T_int True),
    (''xpub_verboser'', Integral_option ''ZMQ_XPUB_VERBOSER'' T_int True),
    (''xpub_manual'', Integral_option ''ZMQ_XPUB_MANUAL'' T_int True),
    (''xpub_manual_last_value'', Integral_option ''ZMQ_XPUB_MANUAL_LAST_VALUE'' T_int True),
    (''xpub_nodrop'', Integral_option ''ZMQ_XPUB_NODROP'' T_int True),
    (''xpub_welcome_msg'', Array_option ''ZMQ_XPUB_WELCOME_MSG'' 1),
    (''zap_enforce_domain'', Integral_option ''ZMQ_ZAP_ENFORCE_DOMAIN'' T_int True),
    (''zap_domain'', Array_option ''ZMQ_ZAP_DOMAIN'' 1)]"

definition sockopts :: "(string \<times> sockopt) list" where
  "sockopts = sockopts_affinity_to_rate @ sockopts_rcvbuf_to_zap"

section \<open>Options as memory\<close>

text \<open>How the machine stores a number in \<open>k\<close> bytes.\<close>

definition mem_bytes :: "bool \<Rightarrow> nat \<Rightarrow> nat \<Rightarrow> byte list" where
  "mem_bytes little k n =
     (let bs = map (\<lambda>i. word_of_nat (n div 256 ^ i)) [0..<k] in if little then bs else rev bs)"

definition mem_number :: "bool \<Rightarrow> byte list \<Rightarrow> nat" where
  "mem_number little bs = foldr (\<lambda>b n. unat b + 256 * n) (if little then bs else rev bs) 0"

definition set_option :: "'w Libopts \<Rightarrow> nat \<Rightarrow> int \<Rightarrow> byte list \<Rightarrow> size_t \<Rightarrow> 'w \<Rightarrow> unit res \<times> 'w" where
  "set_option z h option optval optvallen w =
     (if unat optvallen > length optval then (Inl UndefinedBehaviour, w)
      else checked_call (zmq_setsockopt z h option (take (unat optvallen) optval) w))"

definition get_option ::
  "'w Libopts \<Rightarrow> nat \<Rightarrow> int \<Rightarrow> byte list \<Rightarrow> size_t \<Rightarrow> 'w \<Rightarrow> (byte list \<times> size_t) res \<times> 'w" where
  "get_option z h option optval optvallen w =
     (let (c, optval, optvallen, w) = zmq_getsockopt z h option optval optvallen w
      in (if rc c \<noteq> 0 then Inl (error_t c) else Inr (optval, optvallen), w))"

text \<open>The deprecated members do the same with the number of the option.\<close>

definition setsockopt :: "'w Libopts \<Rightarrow> nat \<Rightarrow> int \<Rightarrow> byte list \<Rightarrow> 'w \<Rightarrow> unit res \<times> 'w" where
  "setsockopt z h option optval w = set_option z h option optval (of_nat (length optval)) w"

definition getsockopt :: "'w Libopts \<Rightarrow> nat \<Rightarrow> int \<Rightarrow> byte list \<Rightarrow> 'w \<Rightarrow> byte list res \<times> 'w" where
  "getsockopt z h option optval w =
     (let (r, w) = get_option z h option optval (of_nat (length optval)) w in (bindE r (\<lambda>(optval, _). Inr optval), w))"

text \<open>
  A value of a type of \<open>k\<close> bytes is stored as its number modulo \<open>256 ^ k\<close>. All types but
  \<open>uint64_t\<close> are signed.
\<close>

definition opt_type_min :: "opt_type \<Rightarrow> int" where
  "opt_type_min T = (if T = T_uint64 then 0 else - (256 ^ opt_type_size T div 2))"

definition opt_type_value :: "opt_type \<Rightarrow> nat \<Rightarrow> int" where
  "opt_type_value T n =
     (if int n < opt_type_min T + 256 ^ opt_type_size T then int n else int n - 256 ^ opt_type_size T)"

definition set_integral :: "'w Libopts \<Rightarrow> bool \<Rightarrow> nat \<Rightarrow> int \<Rightarrow> opt_type \<Rightarrow> int \<Rightarrow> 'w \<Rightarrow> unit res \<times> 'w" where
  "set_integral z little h option T val w =
     (let k = opt_type_size T in set_option z h option (mem_bytes little k (nat (val mod 256 ^ k))) (of_nat k) w)"

definition set_bool :: "'w Libopts \<Rightarrow> bool \<Rightarrow> nat \<Rightarrow> int \<Rightarrow> opt_type \<Rightarrow> bool \<Rightarrow> 'w \<Rightarrow> unit res \<times> 'w" where
  "set_bool z little h option T val w = set_integral z little h option T (of_bool val) w"

text \<open>From a C string, which ends before its first zero, a buffer and a string.\<close>

definition set_cstr :: "'w Libopts \<Rightarrow> nat \<Rightarrow> int \<Rightarrow> byte list \<Rightarrow> 'w \<Rightarrow> unit res \<times> 'w" where
  "set_cstr z h option buf w =
     (if 0 \<notin> set buf then (Inl UndefinedBehaviour, w)
      else set_option z h option buf (of_nat (length (takeWhile (\<lambda>b. b \<noteq> 0) buf))) w)"

definition set_buffer :: "'w Libopts \<Rightarrow> nat \<Rightarrow> int \<Rightarrow> buffer \<Rightarrow> 'w \<Rightarrow> unit res \<times> 'w" where
  "set_buffer z h option buf w = set_option z h option (buf_mem buf) (buf_size buf) w"

definition set_string :: "'w Libopts \<Rightarrow> nat \<Rightarrow> int \<Rightarrow> string \<Rightarrow> 'w \<Rightarrow> unit res \<times> 'w" where
  "set_string z h option buf w = set_option z h option (string_bytes buf) (of_nat (length buf)) w"

text \<open>The memory of the uninitialised variable is \<open>junk\<close>.\<close>

definition get_integral ::
  "'w Libopts \<Rightarrow> bool \<Rightarrow> nat \<Rightarrow> int \<Rightarrow> opt_type \<Rightarrow> byte list \<Rightarrow> 'w \<Rightarrow> int res \<times> 'w" where
  "get_integral z little h option T junk w =
     (let k = opt_type_size T;
          (r, w) = get_option z h option (take k (junk @ replicate k 0)) (of_nat k) w
      in (bindE r (\<lambda>(val, len). if len = of_nat k then Inr (opt_type_value T (mem_number little val)) else Inl AssertionFailed), w))"

definition get_array :: "'w Libopts \<Rightarrow> nat \<Rightarrow> int \<Rightarrow> byte list \<Rightarrow> 'w \<Rightarrow> (size_t \<times> byte list) res \<times> 'w" where
  "get_array z h option buf w =
     (let (r, w) = get_option z h option buf (of_nat (length buf)) w in (bindE r (\<lambda>(buf, len). Inr (len, buf)), w))"

text \<open>\<open>assert(str[size - 1] == 0); --size\<close>, where a string has a zero after its last character.\<close>

definition drop_null :: "byte list \<Rightarrow> size_t \<Rightarrow> size_t res" where
  "drop_null str len =
     (if unat (len - 1) > length str then Inl UndefinedBehaviour
      else if (str @ [0]) ! unat (len - 1) \<noteq> 0 then Inl AssertionFailed else Inr (len - 1))"

definition get_string :: "'w Libopts \<Rightarrow> nat \<Rightarrow> int \<Rightarrow> nat \<Rightarrow> size_t \<Rightarrow> 'w \<Rightarrow> byte list res \<times> 'w" where
  "get_string z h option null_term init_size w =
     (let init_size = (if null_term = 2 \<and> init_size = 1024 then 41 else init_size);
          (r, w) = get_array z h option (replicate (unat init_size) 0) w
      in (bindE r (\<lambda>(len, str).
          bindE (if null_term = 1 then if len > 0 then drop_null str len else Inr len
                 else if null_term = 2 then
                   if len \<noteq> 32 \<and> len \<noteq> 41 then Inl AssertionFailed
                   else if len = 41 then drop_null str len else Inr len
                 else Inr len) (\<lambda>len.
            Inr (take (unat len) str @ replicate (unat len - length str) 0))), w))"

definition socket_join :: "'w Libopts \<Rightarrow> nat \<Rightarrow> string \<Rightarrow> 'w \<Rightarrow> unit res \<times> 'w" where
  "socket_join z h grp w = checked_call (zmq_join z h grp w)"

definition socket_leave :: "'w Libopts \<Rightarrow> nat \<Rightarrow> string \<Rightarrow> 'w \<Rightarrow> unit res \<times> 'w" where
  "socket_leave z h grp w = checked_call (zmq_leave z h grp w)"

section \<open>What the library promises\<close>

text \<open>
  An option has the value \<open>v\<close>: reading it into a buffer that is large enough gives its bytes and
  their number, and reading it into a smaller one fails. An option that can be read holds what was
  set last.
\<close>

definition option_value :: "'w Libopts \<Rightarrow> nat \<Rightarrow> int \<Rightarrow> byte list \<Rightarrow> 'w \<Rightarrow> bool" where
  "option_value z h option v w \<longleftrightarrow> (\<forall>buf n. unat n = length buf \<longrightarrow>
     (if length v \<le> length buf
      then \<exists>c. zmq_getsockopt z h option buf n w = (c, v @ drop (length v) buf, of_nat (length v), w) \<and> rc c = 0
      else \<exists>c buf' n'. zmq_getsockopt z h option buf n w = (c, buf', n', w) \<and> rc c \<noteq> 0 \<and> errno c = 22))"

definition readable_option :: "'w Libopts \<Rightarrow> nat \<Rightarrow> int \<Rightarrow> bool" where
  "readable_option z h option \<longleftrightarrow> (\<forall>v w c w'. zmq_setsockopt z h option v w = (c, w') \<longrightarrow> rc c = 0 \<longrightarrow>
     option_value z h option v w')"

section \<open>Numbers as memory\<close>

lemma mem_number_bytes:
  assumes "n < 256 ^ k"
  shows "mem_number little (mem_bytes little k n) = n"
proof -
  have "foldr (\<lambda>b m. unat b + 256 * m) (map (\<lambda>i. word_of_nat (m div 256 ^ i) :: byte) [0..<k]) 0 = m mod 256 ^ k" for m
  proof (induction k arbitrary: m)
    case (Suc k)
    have "map (\<lambda>i. word_of_nat (m div 256 ^ i) :: byte) [0..<Suc k] =
        word_of_nat m # map (\<lambda>i. word_of_nat (m div 256 div 256 ^ i)) [0..<k]"
      by (simp add: map_upt_Suc div_mult2_eq del: upt_Suc)
    moreover have "unat (word_of_nat m :: byte) = m mod 256" by (simp add: unat_of_nat)
    ultimately show ?case using Suc.IH [of "m div 256"]
      by (simp add: mod_mult2_eq del: upt_Suc)
  qed simp
  then show ?thesis using assms by (simp add: mem_number_def mem_bytes_def Let_def)
qed

lemma length_mem_bytes [simp]: "length (mem_bytes little k n) = k"
  by (simp add: mem_bytes_def Let_def)


lemma opt_type_value_mod:
  assumes "opt_type_min T \<le> v" and "v < opt_type_min T + 256 ^ opt_type_size T"
  shows "opt_type_value T (nat (v mod 256 ^ opt_type_size T)) = v"
proof (cases "0 \<le> v")
  case True
  then have "v mod 256 ^ opt_type_size T = v"
    using assms(2) by (intro mod_pos_pos_trivial) (auto simp: opt_type_min_def split: if_splits)
  with True assms(2) show ?thesis by (simp add: opt_type_value_def)
next
  case False
  let ?m = "256 ^ opt_type_size T :: int"
  have "T \<noteq> T_uint64" using False assms(1) by (auto simp: opt_type_min_def)
  then have min: "opt_type_min T = - (?m div 2)" by (simp add: opt_type_min_def)
  have "(v + ?m) mod ?m = v + ?m" using False assms(1) min by (intro mod_pos_pos_trivial) auto
  then have m: "v mod ?m = v + ?m" by simp
  have "even ?m" by (cases T) (simp_all add: opt_type_size_def)
  then have "?m = 2 * (?m div 2)" by simp
  with m min assms(1) have "0 \<le> v + ?m" "\<not> v + ?m < opt_type_min T + ?m" using False by linarith+
  with m show ?thesis by (simp add: opt_type_value_def)
qed

section \<open>Properties\<close>

lemma opt_type_size_small: "opt_type_size T \<le> 8" "opt_type_size T < 2 ^ 64"
  by (cases T; simp add: opt_type_size_def)+

lemma get_option_fits:
  assumes "option_value z h option v w" and "unat n = length buf" and "length v \<le> length buf"
  shows "get_option z h option buf n w = (Inr (v @ drop (length v) buf, of_nat (length v)), w)"
proof -
  obtain c where "zmq_getsockopt z h option buf n w = (c, v @ drop (length v) buf, of_nat (length v), w)" "rc c = 0"
    using assms unfolding option_value_def by metis
  then show ?thesis by (simp add: get_option_def)
qed

lemma get_option_too_small:
  assumes "option_value z h option v w" and "unat n = length buf" and "length buf < length v"
  shows "fst (get_option z h option buf n w) = Inl (ZmqError 22)"
proof -
  obtain c buf' n' where "zmq_getsockopt z h option buf n w = (c, buf', n', w)" "rc c \<noteq> 0" "errno c = 22"
    using assms unfolding option_value_def by (metis linorder_not_le)
  then show ?thesis by (simp add: get_option_def error_t_def)
qed

lemma get_array_fits:
  assumes "option_value z h option v w" and "length v \<le> length buf" and "length buf < 2 ^ 64"
  shows "get_array z h option buf w = (Inr (of_nat (length v), v @ drop (length v) buf), w)"
  using get_option_fits [OF assms(1) unat_of_nat_size [OF assms(3)] assms(2)] by (simp add: get_array_def)

lemma drop_null_last:
  assumes "v \<noteq> []" and "length v < 2 ^ 64"
  shows "drop_null (v @ bs) (of_nat (length v)) = (if last v = 0 then Inr (of_nat (length (butlast v))) else Inl AssertionFailed)"
proof -
  have "of_nat (length v) - 1 = (of_nat (length v - 1) :: size_t)" using assms(1) by (simp add: of_nat_diff Suc_leI)
  moreover have "unat (of_nat (length v - 1) :: size_t) = length v - 1" by (rule unat_of_nat_size) (use assms(2) in simp)
  ultimately show ?thesis using assms(1) by (simp add: drop_null_def nth_append last_conv_nth)
qed

text \<open>
  An integral option that was set to a value of its type reads back as that value, whatever
  the byte order of the machine and the memory of the variable that is read into.
\<close>

theorem sockopt_integral_roundtrip:
  assumes "readable_option z h option" and "opt_type_min T \<le> val" and "val < opt_type_min T + 256 ^ opt_type_size T"
    and "set_integral z little h option T val w = (Inr (), w')"
  shows "get_integral z little h option T junk w' = (Inr val, w')"
proof -
  define k where "k = opt_type_size T"
  define bs where "bs = mem_bytes little k (nat (val mod 256 ^ k))"
  have k: "k < 2 ^ 64" "unat (of_nat k :: size_t) = k" using opt_type_size_small by (simp_all add: k_def unat_of_nat_size)
  have len: "length bs = k" by (simp add: bs_def)
  have "set_option z h option bs (of_nat k) w = (Inr (), w')"
    using assms(4) by (simp add: set_integral_def Let_def bs_def k_def)
  then have "\<exists>c. zmq_setsockopt z h option bs w = (c, w') \<and> rc c = 0"
    using k len by (auto simp: set_option_def checked_call_def split: prod.splits if_splits)
  then have v: "option_value z h option bs w'" using assms(1) unfolding readable_option_def by blast
  have "mem_number little bs = nat (val mod 256 ^ k)"
    unfolding bs_def by (rule mem_number_bytes) (simp add: nat_less_iff)
  then have "opt_type_value T (mem_number little bs) = val"
    using opt_type_value_mod [OF assms(2,3)] by (simp add: k_def)
  moreover have "get_option z h option (take k (junk @ replicate k 0)) (of_nat k) w' = (Inr (bs, of_nat k), w')"
    using get_option_fits [OF v, of "of_nat k" "take k (junk @ replicate k 0)"] k len by simp
  ultimately show ?thesis by (simp add: get_integral_def Let_def k_def [symmetric])
qed

text \<open>
  Reading a string option: the value without its final zero when it is a string or a key of 41
  characters, the value itself when it is binary or a key of 32 bytes; it throws when the value
  does not fit in the buffer, and the assertions fail exactly on a value of another form.
\<close>

theorem get_string_result:
  assumes "option_value z h option v w" and "init = (if null_term = 2 \<and> init_size = 1024 then 41 else init_size)"
  shows "fst (get_string z h option null_term init_size w) =
    (if unat init < length v then Inl (ZmqError 22)
     else if null_term = 1 \<and> v \<noteq> [] \<or> null_term = 2 \<and> length v = 41
       then if last v = 0 then Inr (butlast v) else Inl AssertionFailed
     else if null_term = 2 \<and> length v \<noteq> 32 then Inl AssertionFailed
     else Inr v)"
proof (cases "unat init < length v")
  case True
  define buf where "buf = replicate (unat init) (0 :: byte)"
  have "unat (of_nat (length buf) :: size_t) = length buf" by (simp add: buf_def)
  then have "fst (get_option z h option buf (of_nat (length buf)) w) = Inl (ZmqError 22)"
    by (rule get_option_too_small [OF assms(1)]) (use True in \<open>simp add: buf_def\<close>)
  then have "fst (get_array z h option buf w) = Inl (ZmqError 22)" by (simp add: get_array_def split_beta)
  with True show ?thesis by (simp add: get_string_def Let_def split_beta buf_def assms(2))
next
  case False
  then have fits: "length v \<le> length (replicate (unat init) (0 :: byte))" by simp
  have small: "length v < 2 ^ 64" using False unsigned_less [of init, where 'a = nat] by simp
  then have len: "unat (of_nat (length v) :: size_t) = length v" "unat (of_nat (length (butlast v)) :: size_t) = length (butlast v)"
    by (simp_all add: unat_of_nat_size)
  have array: "get_array z h option (replicate (unat init) 0) w =
      (Inr (of_nat (length v), v @ drop (length v) (replicate (unat init) 0)), w)"
    by (rule get_array_fits [OF assms(1) fits]) (use unsigned_less [of init, where 'a = nat] in simp)
  have eq: "(of_nat (length v) = (of_nat m :: size_t)) = (length v = m)" if "m < 2 ^ 64" for m
    using small that len(1) unat_of_nat_size [of m] by metis
  have "(of_nat (length v) > (0 :: size_t)) = (v \<noteq> [])" using eq [of 0] by (simp add: word_neq_0_conv [symmetric])
  moreover have "(of_nat (length v) = (32 :: size_t)) = (length v = 32)" "(of_nat (length v) = (41 :: size_t)) = (length v = 41)"
    using eq [of 32] eq [of 41] by simp_all
  moreover have "take (length (butlast v)) (v @ bs) = butlast v" for bs by (simp add: butlast_conv_take)
  ultimately show ?thesis
    using False len drop_null_last [OF _ small]
    by (auto simp: get_string_def Let_def array assms(2) [symmetric])
qed


section \<open>The names of the options\<close>

text \<open>Letters, digits and the underscore, with the letters in capitals.\<close>

fun to_upper :: "char \<Rightarrow> char" where
  "to_upper (Char b0 b1 b2 b3 b4 b5 b6 b7) = Char b0 b1 b2 b3 b4 (b5 \<and> \<not> b6) b6 b7"

text \<open>
  Every option is named after the macro that gives its number, so that no two have the same;
  only \<open>socket_type\<close> is a second, typed name of \<open>type\<close>.
\<close>

lemma sockopts_named:
  "list_all (\<lambda>(name, opt). name = ''socket_type'' \<and> sockopt_macro opt = ''ZMQ_TYPE'' \<or>
     sockopt_macro opt = ''ZMQ_'' @ map to_upper name) sockopts"
  by (simp add: sockopts_def sockopts_affinity_to_rate_def sockopts_rcvbuf_to_zap_def sockopt_macro_def)

lemma sockopts_distinct: "distinct (map fst sockopts)"
  by (simp add: sockopts_def sockopts_affinity_to_rate_def sockopts_rcvbuf_to_zap_def)

lemma sockopts_used:
  "map_of sockopts ''subscribe'' = Some (Array_option ''ZMQ_SUBSCRIBE'' 1)"
  "map_of sockopts ''routing_id'' = Some (Array_option ''ZMQ_ROUTING_ID'' 0)"
  by (simp_all add: sockopts_def sockopts_affinity_to_rate_def sockopts_rcvbuf_to_zap_def)

section \<open>An option\<close>

text \<open>A library with one option, which holds what was set.\<close>

definition cell_library :: "byte list Libopts" where
  "cell_library = \<lparr>zmq_setsockopt = (\<lambda>_ _ v w. (c_ok 0, v)),
     zmq_getsockopt = (\<lambda>_ _ buf n w. if length w \<le> length buf then (c_ok 0, w @ drop (length w) buf, of_nat (length w), w)
       else (c_fail 22, buf, n, w)),
     zmq_join = (\<lambda>_ _ w. (c_fail 95, w)), zmq_leave = (\<lambda>_ _ w. (c_fail 95, w))\<rparr>"

lemma cell_option: "option_value cell_library h option v v"
  by (simp add: option_value_def cell_library_def c_ok_def c_fail_def)

lemma cell_readable: "readable_option cell_library h option"
  using cell_option by (auto simp: readable_option_def cell_library_def)

theorem sockopt_integral_roundtrip_witness:
  "\<exists>w. set_integral cell_library True 1 17 T_int (- 1) [] = (Inr (), w) \<and>
     get_integral cell_library True 1 17 T_int [] w = (Inr (- 1), w)"
proof -
  obtain w where "set_integral cell_library True 1 17 T_int (- 1) [] = (Inr (), w)"
    by (simp add: set_integral_def set_option_def checked_call_def cell_library_def c_ok_def opt_type_size_def Let_def)
  moreover have "opt_type_min T_int \<le> - 1" "- 1 < opt_type_min T_int + 256 ^ opt_type_size T_int"
    by (simp_all add: opt_type_min_def opt_type_size_def)
  ultimately show ?thesis using sockopt_integral_roundtrip [OF cell_readable] by blast
qed

theorem get_string_result_witness:
  "fst (get_string cell_library 1 32 1 1024 [104, 105, 0]) = Inr [104, 105]"
  using get_string_result [OF cell_option, of 1024 1 1024 1 32 "[104, 105, 0]"] by simp

end
