(* ===== verification/Poller.thy ===== *)
theory Poller
  imports ZmqMessage
begin

text \<open>
  Polling with handlers: \<open>event_flags\<close> and \<open>poller_t\<close> of \<open>lib/cppzmq/zmq.hpp\<close>, and
  \<open>active_poller_t\<close> of \<open>lib/cppzmq/zmq_addon.hpp\<close>, which calls a function for every socket that
  is ready. They are compiled with the draft interface of ZeroMQ, whose poller is the parameter
  \<open>Libpoller\<close>. Socket handles and pointers are numbers, \<open>0\<close> the null pointer.
\<close>

section \<open>The C library\<close>

type_synonym short = "16 word"

record poller_event =
  pe_socket :: nat
  pe_fd :: int
  pe_user_data :: nat
  pe_events :: short

text \<open>\<open>zmq_poller_wait_all\<close> gets the array of events and its size and returns it overwritten.\<close>

record 'p Libpoller =
  zmq_poller_new :: "'p option \<times> int"
  zmq_poller_add :: "nat \<Rightarrow> nat \<Rightarrow> short \<Rightarrow> 'p \<Rightarrow> c_call \<times> 'p"
  zmq_poller_add_fd :: "int \<Rightarrow> nat \<Rightarrow> short \<Rightarrow> 'p \<Rightarrow> c_call \<times> 'p"
  zmq_poller_remove :: "nat \<Rightarrow> 'p \<Rightarrow> c_call \<times> 'p"
  zmq_poller_modify :: "nat \<Rightarrow> short \<Rightarrow> 'p \<Rightarrow> c_call \<times> 'p"
  zmq_poller_wait_all :: "poller_event list \<Rightarrow> int \<Rightarrow> int \<Rightarrow> 'p \<Rightarrow> c_call \<times> poller_event list \<times> 'p"
  zmq_poller_size :: "'p \<Rightarrow> int"

definition EINVAL :: int where
  "EINVAL = 22"

section \<open>event\_flags\<close>

datatype event_flags = EF_none | EF_pollin | EF_pollout | EF_pollerr | EF_pollpri

definition event_flags_val :: "event_flags \<Rightarrow> short" where
  "event_flags_val f = (case f of EF_none \<Rightarrow> 0 | EF_pollin \<Rightarrow> 1 | EF_pollout \<Rightarrow> 2 | EF_pollerr \<Rightarrow> 4 | EF_pollpri \<Rightarrow> 8)"

definition event_flags_or :: "short \<Rightarrow> short \<Rightarrow> short" where
  "event_flags_or a b = a OR b"

definition event_flags_and :: "short \<Rightarrow> short \<Rightarrow> short" where
  "event_flags_and a b = a AND b"

definition event_flags_xor :: "short \<Rightarrow> short \<Rightarrow> short" where
  "event_flags_xor a b = a XOR b"

definition event_flags_not :: "short \<Rightarrow> short" where
  "event_flags_not a = NOT a"

section \<open>poller\_t\<close>

definition poller_New :: "'p Libpoller \<Rightarrow> 'p res" where
  "poller_New z = (case zmq_poller_new z of (None, e) \<Rightarrow> Inl (ZmqError e) | (Some p, _) \<Rightarrow> Inr p)"

definition add_impl :: "'p Libpoller \<Rightarrow> nat \<Rightarrow> short \<Rightarrow> nat \<Rightarrow> 'p \<Rightarrow> unit res \<times> 'p" where
  "add_impl z socket events user_data p = checked_call (zmq_poller_add z socket user_data events p)"

definition add_impl_fd :: "'p Libpoller \<Rightarrow> int \<Rightarrow> short \<Rightarrow> nat \<Rightarrow> 'p \<Rightarrow> unit res \<times> 'p" where
  "add_impl_fd z fd events user_data p = checked_call (zmq_poller_add_fd z fd user_data events p)"

definition poller_add :: "'p Libpoller \<Rightarrow> nat \<Rightarrow> short \<Rightarrow> nat \<Rightarrow> 'p \<Rightarrow> unit res \<times> 'p" where
  "poller_add z socket events user_data p = add_impl z socket events user_data p"

definition poller_add_plain :: "'p Libpoller \<Rightarrow> nat \<Rightarrow> short \<Rightarrow> 'p \<Rightarrow> unit res \<times> 'p" where
  "poller_add_plain z socket events p = add_impl z socket events 0 p"

definition poller_add_fd :: "'p Libpoller \<Rightarrow> int \<Rightarrow> short \<Rightarrow> nat \<Rightarrow> 'p \<Rightarrow> unit res \<times> 'p" where
  "poller_add_fd z fd events user_data p = add_impl_fd z fd events user_data p"

definition poller_add_fd_plain :: "'p Libpoller \<Rightarrow> int \<Rightarrow> short \<Rightarrow> 'p \<Rightarrow> unit res \<times> 'p" where
  "poller_add_fd_plain z fd events p = add_impl_fd z fd events 0 p"

definition poller_remove :: "'p Libpoller \<Rightarrow> nat \<Rightarrow> 'p \<Rightarrow> unit res \<times> 'p" where
  "poller_remove z socket p = checked_call (zmq_poller_remove z socket p)"

definition poller_modify :: "'p Libpoller \<Rightarrow> nat \<Rightarrow> short \<Rightarrow> 'p \<Rightarrow> unit res \<times> 'p" where
  "poller_modify z socket events p = checked_call (zmq_poller_modify z socket events p)"

text \<open>The number of events, as \<open>int\<close>, is the low 32 bits of the size of the vector.\<close>

definition wait_all :: "'p Libpoller \<Rightarrow> poller_event list \<Rightarrow> int \<Rightarrow> 'p \<Rightarrow> size_t res \<times> poller_event list \<times> 'p" where
  "wait_all z poller_events timeout p =
     (let (c, poller_events, p) = zmq_poller_wait_all z poller_events (sint (of_nat (length poller_events) :: u32)) timeout p
      in (if rc c > 0 then Inr (word_of_int (rc c)) else if errno c = EAGAIN then Inr 0 else Inl (error_t c),
          poller_events, p))"

definition poller_size :: "'p Libpoller \<Rightarrow> 'p \<Rightarrow> size_t res" where
  "poller_size z p = (let rc = zmq_poller_size z p in
     if rc < 0 then Inl AssertionFailed else Inr (word_of_int (max rc 0)))"

section \<open>active\_poller\_t\<close>

text \<open>
  The handlers live on the heap behind shared pointers: \<open>handler_at\<close> is the function object at an
  address, which exists as long as the map or the vector of handlers has a pointer to it.
\<close>

record ('h, 'p) active_poller =
  need_rebuild :: bool
  base_poller :: 'p
  handlers :: "(nat, nat) umap"
  poller_events :: "poller_event list"
  poller_handlers :: "nat list"
  handler_at :: "nat \<Rightarrow> 'h"

definition alive :: "('h, 'p) active_poller \<Rightarrow> nat set" where
  "alive s = set (map snd (handlers s)) \<union> set (poller_handlers s)"

definition active_poller_New :: "'p Libpoller \<Rightarrow> 'h \<Rightarrow> ('h, 'p) active_poller res" where
  "active_poller_New z junk = bindE (poller_New z) (\<lambda>p. Inr \<lparr>need_rebuild = False, base_poller = p, handlers = [],
     poller_events = [], poller_handlers = [], handler_at = (\<lambda>_. junk)\<rparr>)"

text \<open>
  \<open>std::make_shared\<close> returns an address that is not in use, \<open>alloc\<close> of those that are. The
  object it made is dropped again when the socket is there already.
\<close>

definition active_add ::
  "'p Libpoller \<Rightarrow> (nat set \<Rightarrow> nat) \<Rightarrow> nat \<Rightarrow> short \<Rightarrow> 'h option \<Rightarrow> ('h, 'p) active_poller \<Rightarrow>
   unit res \<times> ('h, 'p) active_poller" where
  "active_add z alloc socket events handler s = (case handler of
     None \<Rightarrow> (Inl (InvalidArgument ''null handler in active_poller_t::add''), s)
   | Some h \<Rightarrow>
       (if um_contains (handlers s) socket then (Inl (ZmqError EINVAL), s)
        else let q = alloc (alive s);
                 s = s\<lparr>handlers := um_emplace socket q (handlers s), handler_at := (handler_at s)(q := h)\<rparr>;
                 (r, p) = poller_add z socket events q (base_poller s);
                 s = s\<lparr>base_poller := p\<rparr>
             in case r of
                  Inr _ \<Rightarrow> (Inr (), s\<lparr>need_rebuild := True\<rparr>)
                | Inl e \<Rightarrow> (Inl e, s\<lparr>handlers := um_erase socket (handlers s)\<rparr>)))"

definition active_remove :: "'p Libpoller \<Rightarrow> nat \<Rightarrow> ('h, 'p) active_poller \<Rightarrow> unit res \<times> ('h, 'p) active_poller" where
  "active_remove z socket s =
     (let (r, p) = poller_remove z socket (base_poller s);
          s = s\<lparr>base_poller := p\<rparr>
      in case r of
           Inl e \<Rightarrow> (Inl e, s)
         | Inr _ \<Rightarrow> (Inr (), s\<lparr>handlers := um_erase socket (handlers s), need_rebuild := True\<rparr>))"

definition active_modify ::
  "'p Libpoller \<Rightarrow> nat \<Rightarrow> short \<Rightarrow> ('h, 'p) active_poller \<Rightarrow> unit res \<times> ('h, 'p) active_poller" where
  "active_modify z socket events s =
     (let (r, p) = poller_modify z socket events (base_poller s) in (r, s\<lparr>base_poller := p\<rparr>))"

text \<open>
  What a handler does as far as the poller that calls it is concerned: a sequence of operations
  on the poller, of which an exception ends the rest, and possibly an exception of its own. A
  handler that waits on the poller again is not covered.
\<close>

datatype 'h poller_op = PO_add nat short "'h option" | PO_remove nat | PO_modify nat short | PO_throw string

definition run_op ::
  "'p Libpoller \<Rightarrow> (nat set \<Rightarrow> nat) \<Rightarrow> 'h poller_op \<Rightarrow> ('h, 'p) active_poller \<Rightarrow> unit res \<times> ('h, 'p) active_poller" where
  "run_op z alloc op = (case op of
     PO_add socket events handler \<Rightarrow> active_add z alloc socket events handler
   | PO_remove socket \<Rightarrow> active_remove z socket
   | PO_modify socket events \<Rightarrow> active_modify z socket events
   | PO_throw what \<Rightarrow> (\<lambda>s. (Inl (LogicError what), s)))"

fun run_ops ::
  "'p Libpoller \<Rightarrow> (nat set \<Rightarrow> nat) \<Rightarrow> 'h poller_op list \<Rightarrow> ('h, 'p) active_poller \<Rightarrow> unit res \<times> ('h, 'p) active_poller" where
  "run_ops z alloc [] s = (Inr (), s)"
| "run_ops z alloc (op # ops) s = (case run_op z alloc op s of
     (Inl e, s) \<Rightarrow> (Inl e, s) | (Inr _, s) \<Rightarrow> run_ops z alloc ops s)"

text \<open>
  The loop over the events, with the calls it makes. To call a function object that does not
  exist any more is undefined.
\<close>

fun call_handlers ::
  "'p Libpoller \<Rightarrow> (nat set \<Rightarrow> nat) \<Rightarrow> ('h \<Rightarrow> short \<Rightarrow> 'h poller_op list) \<Rightarrow> poller_event list \<Rightarrow>
   ('h, 'p) active_poller \<Rightarrow> unit res \<times> ('h \<times> short) list \<times> ('h, 'p) active_poller" where
  "call_handlers z alloc script [] s = (Inr (), [], s)"
| "call_handlers z alloc script (ev # evs) s =
     (if pe_user_data ev = 0 then (Inl AssertionFailed, [], s)
      else if pe_user_data ev \<notin> alive s then (Inl UndefinedBehaviour, [], s)
      else let h = handler_at s (pe_user_data ev) in
           case run_ops z alloc (script h (pe_events ev)) s of
             (Inl e, s) \<Rightarrow> (Inl e, [(h, pe_events ev)], s)
           | (Inr _, s) \<Rightarrow>
               (let (r, calls, s) = call_handlers z alloc script evs s in (r, (h, pe_events ev) # calls, s)))"

definition resize :: "nat \<Rightarrow> poller_event list \<Rightarrow> poller_event list" where
  "resize n xs = take n xs @ replicate (n - length xs) \<lparr>pe_socket = 0, pe_fd = 0, pe_user_data = 0, pe_events = 0\<rparr>"

definition rebuild_events ::
  "((nat, nat) umap \<Rightarrow> (nat, nat) umap) \<Rightarrow> ('h, 'p) active_poller \<Rightarrow> ('h, 'p) active_poller" where
  "rebuild_events order s =
     (if need_rebuild s
      then s\<lparr>poller_events := resize (length (handlers s)) (poller_events s),
             poller_handlers := map snd (order (handlers s)), need_rebuild := False\<rparr>
      else s)"

definition active_wait ::
  "'p Libpoller \<Rightarrow> (nat set \<Rightarrow> nat) \<Rightarrow> ((nat, nat) umap \<Rightarrow> (nat, nat) umap) \<Rightarrow> ('h \<Rightarrow> short \<Rightarrow> 'h poller_op list) \<Rightarrow>
   int \<Rightarrow> ('h, 'p) active_poller \<Rightarrow> size_t res \<times> ('h \<times> short) list \<times> ('h, 'p) active_poller" where
  "active_wait z alloc order script timeout s =
     (let s = rebuild_events order s;
          (cnt, evs, p) = wait_all z (poller_events s) timeout (base_poller s);
          s = s\<lparr>poller_events := evs, base_poller := p\<rparr>
      in case cnt of
           Inl e \<Rightarrow> (Inl e, [], s)
         | Inr n \<Rightarrow>
             (if unat n > length evs then (Inl UndefinedBehaviour, [], s)
              else let (r, calls, s) = call_handlers z alloc script (take (unat n) evs) s
                   in (bindE r (\<lambda>_. Inr n), calls, s)))"

definition active_empty :: "('h, 'p) active_poller \<Rightarrow> bool" where
  "active_empty s \<longleftrightarrow> handlers s = []"

definition active_size :: "('h, 'p) active_poller \<Rightarrow> size_t" where
  "active_size s = of_nat (length (handlers s))"

section \<open>What the library promises\<close>

text \<open>
  \<open>reg p\<close> is the user data registered for each socket: a call that fails changes nothing, and
  the events that are reported are of registered sockets, with their user data.
\<close>

definition poller_ok :: "'p Libpoller \<Rightarrow> ('p \<Rightarrow> nat \<rightharpoonup> nat) \<Rightarrow> bool" where
  "poller_ok z reg \<longleftrightarrow>
     (\<forall>socket q ev p c p'. zmq_poller_add z socket q ev p = (c, p') \<longrightarrow>
        reg p' = (if rc c = 0 then (reg p)(socket \<mapsto> q) else reg p)) \<and>
     (\<forall>socket p c p'. zmq_poller_remove z socket p = (c, p') \<longrightarrow>
        reg p' = (if rc c = 0 then (reg p)(socket := None) else reg p)) \<and>
     (\<forall>socket ev p c p'. zmq_poller_modify z socket ev p = (c, p') \<longrightarrow> reg p' = reg p) \<and>
     (\<forall>evs n timeout p c evs' p'. zmq_poller_wait_all z evs n timeout p = (c, evs', p') \<longrightarrow>
        reg p' = reg p \<and> length evs' = length evs \<and> rc c \<le> max 0 n \<and>
        (\<forall>ev \<in> set (take (nat (rc c)) evs'). reg p (pe_socket ev) = Some (pe_user_data ev)))"

text \<open>What the active poller relies on, of the poller below it.\<close>

locale registry =
  fixes holds :: "'p \<Rightarrow> (nat \<rightharpoonup> nat) \<Rightarrow> bool"
    and add :: "nat \<Rightarrow> short \<Rightarrow> nat \<Rightarrow> 'p \<Rightarrow> unit res \<times> 'p"
    and remove :: "nat \<Rightarrow> 'p \<Rightarrow> unit res \<times> 'p"
    and modify :: "nat \<Rightarrow> short \<Rightarrow> 'p \<Rightarrow> unit res \<times> 'p"
    and wait :: "poller_event list \<Rightarrow> int \<Rightarrow> 'p \<Rightarrow> size_t res \<times> poller_event list \<times> 'p"
  assumes add_ok: "holds p m \<Longrightarrow> add socket ev q p = (Inr u, p') \<Longrightarrow> holds p' (m(socket \<mapsto> q))"
    and add_fails: "holds p m \<Longrightarrow> add socket ev q p = (Inl e, p') \<Longrightarrow> holds p' m \<and> e \<in> range ZmqError"
    and remove_ok: "holds p m \<Longrightarrow> remove socket p = (Inr u, p') \<Longrightarrow> holds p' (m(socket := None))"
    and remove_fails: "holds p m \<Longrightarrow> remove socket p = (Inl e, p') \<Longrightarrow> holds p' m \<and> e \<in> range ZmqError"
    and modify_keeps: "holds p m \<Longrightarrow> modify socket ev p = (r, p') \<Longrightarrow> holds p' m \<and> (\<forall>e. r = Inl e \<longrightarrow> e \<in> range ZmqError)"
    and wait_reports: "holds p m \<Longrightarrow> length evs < 2 ^ 31 \<Longrightarrow> wait evs timeout p = (cnt, evs', p') \<Longrightarrow>
      holds p' m \<and> length evs' = length evs \<and> (\<forall>e. cnt = Inl e \<longrightarrow> e \<in> range ZmqError) \<and>
      (\<forall>n. cnt = Inr n \<longrightarrow> unat n \<le> length evs \<and> (\<forall>ev \<in> set (take (unat n) evs'). m (pe_socket ev) = Some (pe_user_data ev)))"
begin

text \<open>A socket that was added and removed again is as if it had never been there.\<close>

lemma add_remove:
  assumes "holds p m" and "m socket = None" and "add socket ev q p = (Inr u, p1)" and "remove socket p1 = (Inr v, p2)"
  shows "holds p2 m"
proof -
  have "m(socket \<mapsto> q, socket := None) = m" using assms(2) by auto
  with remove_ok [OF add_ok [OF assms(1,3)] assms(4)] show ?thesis by (simp only:)
qed

end

lemma checked_call_cases:
  "checked_call x = (r, p) \<longleftrightarrow> p = snd x \<and> r = (if rc (fst x) = 0 then Inr () else Inl (ZmqError (errno (fst x))))"
  by (auto simp: checked_call_def error_t_def split: prod.splits)

lemma poller_okD:
  assumes "poller_ok z reg"
  shows "reg (snd (zmq_poller_add z socket q ev p)) =
      (if rc (fst (zmq_poller_add z socket q ev p)) = 0 then (reg p)(socket \<mapsto> q) else reg p)"
    "reg (snd (zmq_poller_remove z socket p)) =
      (if rc (fst (zmq_poller_remove z socket p)) = 0 then (reg p)(socket := None) else reg p)"
    "reg (snd (zmq_poller_modify z socket ev p)) = reg p"
    "zmq_poller_wait_all z evs n timeout p = (c, evs', p') \<Longrightarrow>
      reg p' = reg p \<and> length evs' = length evs \<and> rc c \<le> max 0 n \<and>
      (\<forall>ev \<in> set (take (nat (rc c)) evs'). reg p (pe_socket ev) = Some (pe_user_data ev))"
  using assms unfolding poller_ok_def by (metis prod.collapse, metis prod.collapse, metis prod.collapse, blast)

lemma wait_all_cases:
  assumes ok: "poller_ok z reg" and len: "length evs < 2 ^ 31" and wait: "wait_all z evs timeout p = (r, evs', p')"
  shows "reg p' = reg p \<and> length evs' = length evs \<and> (\<forall>e. r = Inl e \<longrightarrow> e \<in> range ZmqError) \<and>
    (\<forall>n. r = Inr n \<longrightarrow> unat n \<le> length evs \<and> (\<forall>ev \<in> set (take (unat n) evs'). reg p (pe_socket ev) = Some (pe_user_data ev)))"
proof -
  let ?n = "sint (of_nat (length evs) :: u32)"
  have n: "?n = int (length evs)"
    using len by (simp add: signed_of_nat signed_take_bit_int_eq_self)
  obtain c where c: "zmq_poller_wait_all z evs ?n timeout p = (c, evs', p')"
    and r: "r = (if rc c > 0 then Inr (word_of_int (rc c)) else if errno c = EAGAIN then Inr 0 else Inl (error_t c))"
    using wait by (auto simp: wait_all_def Let_def split: prod.splits)
  have law: "reg p' = reg p" "length evs' = length evs" "rc c \<le> int (length evs)"
    "\<forall>ev \<in> set (take (nat (rc c)) evs'). reg p (pe_socket ev) = Some (pe_user_data ev)"
    using poller_okD(4) [OF ok c] n by auto
  have "unat (word_of_int (rc c) :: size_t) = nat (rc c)" if "rc c > 0"
    using that law(3) len by (simp add: unat_eq_nat_uint uint_word_of_int)
  with law r show ?thesis by (auto simp: error_t_def split: if_splits)
qed

interpretation base: registry "\<lambda>p m. poller_ok z reg \<and> reg p = m" "poller_add z" "poller_remove z" "poller_modify z" "wait_all z"
  for z reg
proof unfold_locales
  fix p m evs timeout r evs' p'
  assume "poller_ok z reg \<and> reg p = m" "length evs < 2 ^ 31" "wait_all z evs timeout p = (r, evs', p')"
  then show "(poller_ok z reg \<and> reg p' = m) \<and> length evs' = length evs \<and> (\<forall>e. r = Inl e \<longrightarrow> e \<in> range ZmqError) \<and>
      (\<forall>n. r = Inr n \<longrightarrow> unat n \<le> length evs \<and> (\<forall>ev \<in> set (take (unat n) evs'). m (pe_socket ev) = Some (pe_user_data ev)))"
    using wait_all_cases [of z reg evs timeout p r evs' p'] by blast
qed (auto simp: poller_add_def add_impl_def poller_remove_def poller_modify_def checked_call_cases poller_okD split: if_splits)

section \<open>The invariant of the active poller\<close>

text \<open>
  The base poller knows exactly the sockets of the map, with pointers to their handlers, and unless
  the vectors are to be rebuilt, the vector of handlers keeps all of them alive.
\<close>

definition active_inv :: "('p \<Rightarrow> nat \<rightharpoonup> nat) \<Rightarrow> ('h, 'p) active_poller \<Rightarrow> bool" where
  "active_inv reg s \<longleftrightarrow> um_ok (handlers s) \<and> 0 \<notin> alive s \<and> reg (base_poller s) = map_of (handlers s) \<and>
     (\<not> need_rebuild s \<longrightarrow> set (map snd (handlers s)) \<subseteq> set (poller_handlers s) \<and>
        length (poller_events s) = length (handlers s))"

definition alloc_ok :: "(nat set \<Rightarrow> nat) \<Rightarrow> bool" where
  "alloc_ok alloc \<longleftrightarrow> (\<forall>A. finite A \<longrightarrow> alloc A \<notin> A \<and> alloc A \<noteq> 0)"

text \<open>To its user, the poller is a map from sockets to handlers.\<close>

definition handler_of :: "('h, 'p) active_poller \<Rightarrow> nat \<rightharpoonup> 'h" where
  "handler_of s socket = map_option (handler_at s) (map_of (handlers s) socket)"

definition spec_op :: "'h poller_op \<Rightarrow> (nat \<rightharpoonup> 'h) \<Rightarrow> (nat \<rightharpoonup> 'h)" where
  "spec_op op m = (case op of
     PO_add socket events handler \<Rightarrow> m(socket := handler)
   | PO_remove socket \<Rightarrow> m(socket := None)
   | PO_modify socket events \<Rightarrow> m
   | PO_throw what \<Rightarrow> m)"

lemma alloc_alive:
  assumes "alloc_ok alloc"
  shows "alloc (alive s) \<notin> alive s" "alloc (alive s) \<noteq> 0"
proof -
  have "finite (alive s)" by (simp add: alive_def)
  with assms show "alloc (alive s) \<notin> alive s" "alloc (alive s) \<noteq> 0" unfolding alloc_ok_def by blast+
qed

lemma um_erase_emplace: "\<not> um_contains m k \<Longrightarrow> um_erase k (um_emplace k v m) = m"
  by (induction m) (auto simp: um_emplace_def um_erase_def um_contains_def split: if_splits)

lemma handler_of_other_address:
  assumes "q \<notin> alive s"
  shows "handler_of (s\<lparr>handler_at := (handler_at s)(q := h)\<rparr>) = handler_of s"
proof (rule ext)
  fix socket
  have "p \<noteq> q" if "map_of (handlers s) socket = Some p" for p
    using assms map_of_SomeD [OF that] by (force simp: alive_def)
  then show "handler_of (s\<lparr>handler_at := (handler_at s)(q := h)\<rparr>) socket = handler_of s socket"
    by (cases "map_of (handlers s) socket") (auto simp: handler_of_def)
qed

text \<open>What an operation may do to the poller, whether it succeeds or throws.\<close>

definition op_effect ::
  "('p \<Rightarrow> nat \<rightharpoonup> nat) \<Rightarrow> 'h poller_op \<Rightarrow> unit res \<Rightarrow> ('h, 'p) active_poller \<Rightarrow> ('h, 'p) active_poller \<Rightarrow> bool" where
  "op_effect reg op r s s' \<longleftrightarrow> active_inv reg s' \<and> poller_handlers s' = poller_handlers s \<and>
     (\<forall>q \<in> alive s. handler_at s' q = handler_at s q) \<and>
     (\<forall>e. r = Inl e \<longrightarrow> e \<noteq> UndefinedBehaviour \<and> e \<noteq> AssertionFailed) \<and>
     handler_of s' = (case r of Inl _ \<Rightarrow> handler_of s | Inr _ \<Rightarrow> spec_op op (handler_of s))"

lemma active_add_effect:
  assumes ok: "poller_ok z reg" and alloc: "alloc_ok alloc" and inv: "active_inv reg s"
    and step: "active_add z alloc socket events handler s = (r, s')"
  shows "op_effect reg (PO_add socket events handler) r s s'"
proof (cases "handler = None \<or> um_contains (handlers s) socket")
  case True
  then have "s' = s \<and> (\<exists>e. r = Inl e \<and> e \<noteq> UndefinedBehaviour \<and> e \<noteq> AssertionFailed)"
    using step by (cases handler) (auto simp: active_add_def)
  with inv show ?thesis by (auto simp: op_effect_def)
next
  case False
  then obtain h where h: "handler = Some h" and new: "map_of (handlers s) socket = None"
    by (auto simp: um_contains_def)
  define q where "q = alloc (alive s)"
  define s1 where "s1 = s\<lparr>handlers := handlers s @ [(socket, q)], handler_at := (handler_at s)(q := h)\<rparr>"
  obtain r1 p where add: "poller_add z socket events q (base_poller s) = (r1, p)" by fastforce
  have q: "q \<notin> alive s" "q \<noteq> 0" using alloc_alive [OF alloc] by (simp_all add: q_def)
  have reg: "poller_ok z reg \<and> reg (base_poller s) = map_of (handlers s)" using ok inv by (simp add: active_inv_def)
  show ?thesis
  proof (cases r1)
    case (Inl e)
    then have s': "s' = s\<lparr>base_poller := p, handler_at := (handler_at s)(q := h)\<rparr>" and r: "r = Inl e"
      using step False h add um_erase_emplace [of "handlers s" socket q]
      by (auto simp: active_add_def Let_def q_def split: prod.splits)
    have p: "reg p = map_of (handlers s)" "e \<in> range ZmqError"
      using base.add_fails [OF reg add [unfolded Inl]] by simp_all
    have "handler_of s' = handler_of s"
      using handler_of_other_address [OF q(1), of h] by (simp add: s' handler_of_def fun_eq_iff)
    with p inv q show ?thesis
      by (auto simp: op_effect_def r s' active_inv_def alive_def)
  next
    case (Inr u)
    then have s': "s' = s1\<lparr>base_poller := p, need_rebuild := True\<rparr>" and r: "r = Inr ()"
      using step False h add by (auto simp: active_add_def Let_def q_def s1_def um_emplace_def split: prod.splits)
    have p: "reg p = (map_of (handlers s))(socket \<mapsto> q)"
      using base.add_ok [OF reg add [unfolded Inr]] by simp
    have lookup: "map_of (handlers s1) = (map_of (handlers s))(socket \<mapsto> q)"
      using new by (auto simp: s1_def map_add_def fun_eq_iff split: option.splits)
    have "handler_of s' = (handler_of s)(socket \<mapsto> h)"
      using handler_of_other_address [OF q(1), of h] lookup
      by (simp add: s' handler_of_def fun_eq_iff) (simp add: s1_def)
    moreover have "um_ok (handlers s1)" using inv False by (simp add: s1_def active_inv_def um_ok_def um_contains_iff)
    moreover have "alive s' = insert q (alive s)" by (auto simp: s' s1_def alive_def)
    moreover have "handler_at s' = (handler_at s)(q := h)" "poller_handlers s' = poller_handlers s" by (simp_all add: s' s1_def)
    ultimately show ?thesis
      using p lookup q inv h by (auto simp: op_effect_def r spec_op_def active_inv_def) (simp_all add: s')
  qed
qed

lemma active_remove_effect:
  assumes ok: "poller_ok z reg" and inv: "active_inv reg s" and step: "active_remove z socket s = (r, s')"
  shows "op_effect reg (PO_remove socket) r s s'"
proof -
  obtain r1 p where remove: "poller_remove z socket (base_poller s) = (r1, p)" by fastforce
  have reg: "poller_ok z reg \<and> reg (base_poller s) = map_of (handlers s)" using ok inv by (simp add: active_inv_def)
  show ?thesis
  proof (cases r1)
    case (Inl e)
    then have s': "s' = s\<lparr>base_poller := p\<rparr>" "r = Inl e" using step remove by (simp_all add: active_remove_def)
    have "reg p = map_of (handlers s)" "e \<in> range ZmqError"
      using base.remove_fails [OF reg remove [unfolded Inl]] by simp_all
    with inv show ?thesis by (auto simp: op_effect_def s' active_inv_def alive_def handler_of_def fun_eq_iff)
  next
    case (Inr u)
    then have s': "s' = s\<lparr>base_poller := p, handlers := um_erase socket (handlers s), need_rebuild := True\<rparr>" "r = Inr ()"
      using step remove by (simp_all add: active_remove_def)
    have p: "reg p = (map_of (handlers s))(socket := None)"
      using base.remove_ok [OF reg remove [unfolded Inr]] by simp
    have sub: "set (um_erase socket (handlers s)) \<subseteq> set (handlers s)" by (auto simp: um_erase_def)
    have "handler_of s' = (handler_of s)(socket := None)"
      by (auto simp: s' handler_of_def fun_eq_iff um_simps)
    with inv p sub show ?thesis
      by (auto simp: op_effect_def s' spec_op_def active_inv_def alive_def um_simps)
  qed
qed

lemma active_modify_effect:
  assumes ok: "poller_ok z reg" and inv: "active_inv reg s" and step: "active_modify z socket events s = (r, s')"
  shows "op_effect reg (PO_modify socket events) r s s'"
proof -
  obtain p where modify: "poller_modify z socket events (base_poller s) = (r, p)" and s': "s' = s\<lparr>base_poller := p\<rparr>"
    using step by (auto simp: active_modify_def split: prod.splits)
  have reg: "poller_ok z reg \<and> reg (base_poller s) = map_of (handlers s)" using ok inv by (simp add: active_inv_def)
  have "reg p = map_of (handlers s)" "\<forall>e. r = Inl e \<longrightarrow> e \<in> range ZmqError"
    using base.modify_keeps [OF reg modify] by simp_all
  with inv show ?thesis
    by (auto simp: op_effect_def s' spec_op_def active_inv_def alive_def handler_of_def fun_eq_iff split: sum.splits)
qed

lemma run_op_effect:
  assumes "poller_ok z reg" and "alloc_ok alloc" and "active_inv reg s" and "run_op z alloc op s = (r, s')"
  shows "op_effect reg op r s s'"
  using assms active_add_effect active_remove_effect active_modify_effect
  by (cases op) (auto simp: run_op_def op_effect_def [of _ "PO_throw _"])


section \<open>Calling the handlers\<close>

lemma op_effect_pinned:
  "op_effect reg op r s s' \<Longrightarrow> q \<in> set (poller_handlers s) \<Longrightarrow> handler_at s' q = handler_at s q"
  by (auto simp: op_effect_def alive_def)

text \<open>
  Whatever a handler does to the poller, the handlers in the vector stay what and where they are.
\<close>

lemma run_ops_effect:
  assumes ok: "poller_ok z reg" "alloc_ok alloc" and "active_inv reg s" and "run_ops z alloc ops s = (r, s')"
  shows "active_inv reg s' \<and> poller_handlers s' = poller_handlers s \<and>
    (\<forall>q \<in> set (poller_handlers s). handler_at s' q = handler_at s q) \<and>
    (\<forall>e. r = Inl e \<longrightarrow> e \<noteq> UndefinedBehaviour \<and> e \<noteq> AssertionFailed)"
  using assms(3,4)
proof (induction ops arbitrary: s)
  case (Cons op ops)
  obtain r1 s1 where step: "run_op z alloc op s = (r1, s1)" by fastforce
  note effect = run_op_effect [OF ok Cons.prems(1) step]
  note pinned = op_effect_pinned [OF effect]
  have s1: "active_inv reg s1" "poller_handlers s1 = poller_handlers s"
    "\<forall>e. r1 = Inl e \<longrightarrow> e \<noteq> UndefinedBehaviour \<and> e \<noteq> AssertionFailed"
    using effect by (auto simp: op_effect_def)
  show ?case
  proof (cases r1)
    case (Inl e)
    with Cons.prems(2) step s1 pinned show ?thesis by auto
  next
    case (Inr u)
    with Cons.prems(2) step have "run_ops z alloc ops s1 = (r, s')" by simp
    from Cons.IH [OF s1(1) this] s1(2) pinned show ?thesis by simp
  qed
qed auto

abbreviation call_of :: "('h, 'p) active_poller \<Rightarrow> poller_event \<Rightarrow> 'h \<times> short" where
  "call_of s ev \<equiv> (handler_at s (pe_user_data ev), pe_events ev)"

text \<open>The calls are for the events in order; they end early only with a handler that throws.\<close>

lemma call_handlers_effect:
  assumes ok: "poller_ok z reg" "alloc_ok alloc" and "active_inv reg s"
    and "\<forall>ev \<in> set evs. pe_user_data ev \<in> set (poller_handlers s)"
    and "call_handlers z alloc script evs s = (r, calls, s')"
  shows "active_inv reg s' \<and> (\<forall>e. r = Inl e \<longrightarrow> e \<noteq> UndefinedBehaviour \<and> e \<noteq> AssertionFailed) \<and>
    (r = Inr () \<longrightarrow> calls = map (call_of s) evs) \<and>
    (\<forall>e. r = Inl e \<longrightarrow> (\<exists>k s0. k < length evs \<and> calls = map (call_of s) (take (Suc k) evs) \<and>
       run_ops z alloc (script (fst (call_of s (evs ! k))) (pe_events (evs ! k))) s0 = (Inl e, s')))"
  using assms(3-5)
proof (induction evs arbitrary: s calls)
  case (Cons ev evs)
  have here: "pe_user_data ev \<in> alive s" "pe_user_data ev \<noteq> 0"
    using Cons.prems(1,2) by (auto simp: alive_def active_inv_def)
  obtain r1 s1 where ops: "run_ops z alloc (script (handler_at s (pe_user_data ev)) (pe_events ev)) s = (r1, s1)" by fastforce
  note s1 = run_ops_effect [OF ok Cons.prems(1) ops]
  show ?case
  proof (cases r1)
    case (Inl e)
    with Cons.prems(3) ops here have "r = Inl e" "calls = map (call_of s) (take (Suc 0) (ev # evs))" "s' = s1" by auto
    with Inl s1 ops show ?thesis by (auto intro!: exI [of _ 0])
  next
    case (Inr u)
    obtain calls1 where rest: "call_handlers z alloc script evs s1 = (r, calls1, s')" and calls: "calls = call_of s ev # calls1"
      using Cons.prems(3) ops here Inr by (auto simp: Let_def split: prod.splits)
    have pinned: "\<forall>ev \<in> set evs. pe_user_data ev \<in> set (poller_handlers s1)" using Cons.prems(2) s1 by auto
    note IH = Cons.IH [OF conjunct1 [OF s1] pinned rest]
    have same: "map (call_of s1) (take k evs) = map (call_of s) (take k evs)" "map (call_of s1) evs = map (call_of s) evs" for k
      using Cons.prems(2) s1 by (auto dest: in_set_takeD)
    have "\<exists>k s0. k < length (ev # evs) \<and> calls = map (call_of s) (take (Suc k) (ev # evs)) \<and>
        run_ops z alloc (script (fst (call_of s ((ev # evs) ! k))) (pe_events ((ev # evs) ! k))) s0 = (Inl e, s')"
      if thrown: "r = Inl e" for e
    proof -
      obtain k s0 where k: "k < length evs" "calls1 = map (call_of s1) (take (Suc k) evs)"
        "run_ops z alloc (script (fst (call_of s1 (evs ! k))) (pe_events (evs ! k))) s0 = (Inl e, s')"
        using IH thrown by blast
      moreover have "handler_at s1 (pe_user_data (evs ! k)) = handler_at s (pe_user_data (evs ! k))"
        using Cons.prems(2) s1 k(1) by simp
      ultimately show ?thesis
        by (intro exI [of _ "Suc k"] exI [of _ s0]) (simp add: calls same(1))
    qed
    with IH calls same(2) show ?thesis by simp
  qed
qed auto

lemma resize_length [simp]: "length (resize n xs) = n"
  by (simp add: resize_def)

lemma rebuild_inv:
  assumes "iteration_ok order" and "active_inv reg s"
  shows "active_inv reg (rebuild_events order s) \<and> \<not> need_rebuild (rebuild_events order s) \<and>
    handlers (rebuild_events order s) = handlers s \<and> handler_at (rebuild_events order s) = handler_at s"
proof -
  have "set (map snd (order (handlers s))) = set (map snd (handlers s))"
    using iteration_set [OF assms(1)] by simp
  with assms(2) show ?thesis by (auto simp: rebuild_events_def active_inv_def alive_def)
qed

section \<open>Properties\<close>

text \<open>
  C31. The active poller is a map from sockets to handlers: each operation that returns does to the
  map what it says, and each that throws leaves the map as it was; the poller below agrees with
  the map throughout.
\<close>

theorem active_poller_refines:
  assumes "poller_ok z reg" and "alloc_ok alloc" and "active_inv reg s" and "run_op z alloc op s = (r, s')"
  shows "active_inv reg s' \<and>
    handler_of s' = (case r of Inl _ \<Rightarrow> handler_of s | Inr _ \<Rightarrow> spec_op op (handler_of s))"
  using run_op_effect [OF assms] by (simp add: op_effect_def)

text \<open>
  C30. Waiting calls, for every event that \<open>wait_all\<close> of the poller below reports, in that order,
  the handler that its socket had when the wait began, even when handlers that were called before
  have removed or replaced it; it never calls a handler that does not exist any more. If no
  handler throws, all reported events are handled and their number is returned; otherwise the
  handler called last threw, and its exception is what the wait ends with. If \<open>wait_all\<close> fails,
  nothing is called.
\<close>

theorem active_wait_safe:
  assumes ok: "poller_ok z reg" "alloc_ok alloc" and order: "iteration_ok order" and inv: "active_inv reg s"
    and len: "length (handlers s) < 2 ^ 31" and wait: "active_wait z alloc order script timeout s = (r, calls, s')"
    and all: "wait_all z (poller_events (rebuild_events order s)) timeout (base_poller s) = (cnt, evs, p)"
  shows "active_inv reg s' \<and> r \<noteq> Inl UndefinedBehaviour \<and> r \<noteq> Inl AssertionFailed \<and>
    (case cnt of
       Inl e \<Rightarrow> r = Inl e \<and> calls = []
     | Inr n \<Rightarrow> unat n \<le> length evs \<and>
         (\<forall>ev \<in> set (take (unat n) evs). handler_of s (pe_socket ev) \<noteq> None) \<and>
         (case r of
            Inr m \<Rightarrow> m = n \<and>
              calls = map (\<lambda>ev. (the (handler_of s (pe_socket ev)), pe_events ev)) (take (unat n) evs)
          | Inl e \<Rightarrow> (\<exists>k s0. k < unat n \<and>
              calls = map (\<lambda>ev. (the (handler_of s (pe_socket ev)), pe_events ev)) (take (Suc k) evs) \<and>
              run_ops z alloc (script (the (handler_of s (pe_socket (evs ! k)))) (pe_events (evs ! k))) s0 = (Inl e, s'))))"
proof -
  define s1 where "s1 = rebuild_events order s"
  have s1: "active_inv reg s1" "\<not> need_rebuild s1" "handlers s1 = handlers s" "handler_at s1 = handler_at s"
    using rebuild_inv [OF order inv] by (simp_all add: s1_def)
  have vec: "set (map snd (handlers s)) \<subseteq> set (poller_handlers s1)" "length (poller_events s1) < 2 ^ 31"
    and reg: "poller_ok z reg \<and> reg (base_poller s1) = map_of (handlers s)"
    using s1 ok(1) len by (simp_all add: active_inv_def)
  have all1: "wait_all z (poller_events s1) timeout (base_poller s1) = (cnt, evs, p)"
  proof -
    have "base_poller s1 = base_poller s" by (simp add: s1_def rebuild_events_def)
    with all show ?thesis by (simp add: s1_def)
  qed
  note report = base.wait_reports [OF reg vec(2) all1]
  define s2 where "s2 = s1\<lparr>poller_events := evs, base_poller := p\<rparr>"
  have s2: "active_inv reg s2" using s1 report by (auto simp: s2_def active_inv_def alive_def)
  show ?thesis
  proof (cases cnt)
    case (Inl e)
    then have "r = Inl e" "calls = []" "s' = s2"
      using wait all1 by (simp_all add: active_wait_def Let_def flip: s1_def s2_def)
    with s2 report Inl show ?thesis by auto
  next
    case (Inr n)
    let ?evs = "take (unat n) evs"
    have n: "unat n \<le> length evs" and data: "\<forall>ev \<in> set ?evs. map_of (handlers s) (pe_socket ev) = Some (pe_user_data ev)"
      using report Inr by simp_all
    obtain r2 where call: "call_handlers z alloc script ?evs s2 = (r2, calls, s')" and r: "r = bindE r2 (\<lambda>_. Inr n)"
      using wait all1 n Inr by (auto simp: active_wait_def Let_def split: prod.splits simp flip: s1_def s2_def)
    have pinned: "\<forall>ev \<in> set ?evs. pe_user_data ev \<in> set (poller_handlers s2)"
      using map_of_SomeD [OF bspec [OF data]] vec(1) by (force simp: s2_def)
    note effect = call_handlers_effect [OF ok s2 pinned call]
    have callee: "call_of s2 ev = (the (handler_of s (pe_socket ev)), pe_events ev)" if "ev \<in> set ?evs" for ev
      using bspec [OF data that] s1(4) by (simp add: handler_of_def s2_def)
    have calls_of: "map (call_of s2) (take k ?evs) = map (\<lambda>ev. (the (handler_of s (pe_socket ev)), pe_events ev)) (take k ?evs)" for k
      by (rule map_cong [OF refl]) (rule callee, erule in_set_takeD)
    have known: "\<forall>ev \<in> set ?evs. handler_of s (pe_socket ev) \<noteq> None" using data by (auto simp: handler_of_def)
    show ?thesis
    proof (cases r2)
      case r2: (Inr u)
      with effect r calls_of [of "unat n"] n known Inr show ?thesis by simp
    next
      case r2: (Inl e)
      then obtain k s0 where k: "k < length ?evs" "calls = map (call_of s2) (take (Suc k) ?evs)"
        "run_ops z alloc (script (fst (call_of s2 (?evs ! k))) (pe_events (?evs ! k))) s0 = (Inl e, s')"
        using effect by blast
      have "fst (call_of s2 (?evs ! k)) = the (handler_of s (pe_socket (?evs ! k)))"
        using callee [OF nth_mem [OF k(1)]] by simp
      then have thrown: "run_ops z alloc (script (the (handler_of s (pe_socket (evs ! k)))) (pe_events (evs ! k))) s0 = (Inl e, s')"
        using k(1,3) by simp
      have le: "k < unat n" using k(1) by simp
      have made: "calls = map (\<lambda>ev. (the (handler_of s (pe_socket ev)), pe_events ev)) (take (Suc k) evs)"
        using k(2) calls_of [of "Suc k"] le by (simp add: take_take min_absorb1 Suc_leI)
      have "r = Inl e" using r r2 by simp
      with effect r2 known n Inr le made thrown show ?thesis by auto
    qed
  qed
qed


section \<open>A poller\<close>

text \<open>
  A library in which every registered socket is always readable, and a handler \<open>7\<close> that removes
  socket \<open>4\<close>.
\<close>

definition ready_add :: "nat \<Rightarrow> nat \<Rightarrow> short \<Rightarrow> (nat, nat) umap \<Rightarrow> c_call \<times> (nat, nat) umap" where
  "ready_add socket q ev p = (if um_contains p socket then (c_fail EINVAL, p) else (c_ok 0, um_emplace socket q p))"

definition ready_remove :: "nat \<Rightarrow> (nat, nat) umap \<Rightarrow> c_call \<times> (nat, nat) umap" where
  "ready_remove socket p = (if um_contains p socket then (c_ok 0, um_erase socket p) else (c_fail EINVAL, p))"

definition ready_events :: "(nat, nat) umap \<Rightarrow> poller_event list" where
  "ready_events p = map (\<lambda>socket. \<lparr>pe_socket = socket, pe_fd = 0, pe_user_data = the (map_of p socket), pe_events = 1\<rparr>)
     (remdups (um_keys p))"

definition ready_wait ::
  "poller_event list \<Rightarrow> int \<Rightarrow> int \<Rightarrow> (nat, nat) umap \<Rightarrow> c_call \<times> poller_event list \<times> (nat, nat) umap" where
  "ready_wait evs n timeout p =
     (let k = min (nat n) (min (length evs) (length (ready_events p)))
      in (if k = 0 then c_fail EAGAIN else c_ok (int k), take k (ready_events p) @ drop k evs, p))"

definition ready_poller :: "(nat, nat) umap Libpoller" where
  "ready_poller = \<lparr>zmq_poller_new = (Some [], 0), zmq_poller_add = ready_add, zmq_poller_add_fd = (\<lambda>_ _ _ p. (c_fail EINVAL, p)),
     zmq_poller_remove = ready_remove, zmq_poller_modify = (\<lambda>_ _ p. (c_ok 0, p)), zmq_poller_wait_all = ready_wait,
     zmq_poller_size = (\<lambda>p. int (length p))\<rparr>"

definition first_free :: "nat set \<Rightarrow> nat" where
  "first_free A = Suc (Max (insert 0 A))"

definition sample_script :: "nat \<Rightarrow> short \<Rightarrow> nat poller_op list" where
  "sample_script h ev = (if h = 7 then [PO_remove 4] else [])"

definition sample_poller :: "(nat, (nat, nat) umap) active_poller" where
  "sample_poller = \<lparr>need_rebuild = True, base_poller = [(3, 1), (4, 2)], handlers = [(3, 1), (4, 2)],
     poller_events = [], poller_handlers = [], handler_at = (\<lambda>q. if q = 1 then 7 else 8)\<rparr>"

lemma ready_wait_law:
  assumes "ready_wait evs n timeout p = (c, evs', p')"
  shows "p' = p \<and> length evs' = length evs \<and> rc c \<le> max 0 n \<and>
    (\<forall>ev \<in> set (take (nat (rc c)) evs'). map_of p (pe_socket ev) = Some (pe_user_data ev))"
proof -
  define k where "k = min (nat n) (min (length evs) (length (ready_events p)))"
  have *: "c = (if k = 0 then c_fail EAGAIN else c_ok (int k))" "evs' = take k (ready_events p) @ drop k evs" "p' = p"
    using assms unfolding ready_wait_def Let_def k_def [symmetric] by auto
  have k: "k \<le> length evs" "k \<le> length (ready_events p)" "k \<noteq> 0 \<longrightarrow> int k \<le> n" by (auto simp: k_def)
  have "take (nat (rc c)) evs' = take k (ready_events p)"
    using k(2) by (simp add: *(1,2) c_ok_def c_fail_def)
  moreover have "map_of p (pe_socket ev) = Some (pe_user_data ev)" if "ev \<in> set (ready_events p)" for ev
    using that by (auto simp: ready_events_def um_keys_def dest!: weak_map_of_SomeI)
  moreover have "length evs' = length evs" using k(1,2) by (simp add: *(2))
  moreover have "rc c \<le> max 0 n" using k(3) by (auto simp: *(1) c_ok_def c_fail_def max_def)
  ultimately show ?thesis using *(3) by (auto dest: in_set_takeD)
qed

lemma ready_poller_ok: "poller_ok ready_poller map_of"
  unfolding poller_ok_def
  by (auto dest: ready_wait_law simp: ready_poller_def ready_add_def ready_remove_def c_ok_def c_fail_def um_simps um_contains_def split: if_splits)

lemma first_free_ok: "alloc_ok first_free"
proof -
  have "first_free A \<notin> A" if "finite A" for A
    using that Max_ge [of "insert 0 A"] unfolding first_free_def by (metis Suc_n_not_le_n finite_insert insertCI)
  then show ?thesis by (simp add: alloc_ok_def first_free_def)
qed


lemma sample_poller_inv: "active_inv map_of sample_poller"
  by (simp add: active_inv_def sample_poller_def um_ok_def alive_def)

theorem active_poller_refines_witness:
  "handler_of (snd (run_op ready_poller first_free (PO_add 5 1 (Some 9)) sample_poller)) =
   (handler_of sample_poller)(5 \<mapsto> 9)"
proof -
  obtain r s' where step: "run_op ready_poller first_free (PO_add 5 1 (Some 9)) sample_poller = (r, s')" by fastforce
  have "r = Inr ()"
    using step by (auto simp: run_op_def active_add_def sample_poller_def poller_add_def add_impl_def checked_call_def
        ready_poller_def ready_add_def um_contains_def c_ok_def Let_def)
  with active_poller_refines [OF ready_poller_ok first_free_ok sample_poller_inv step] step show ?thesis
    by (simp add: spec_op_def)
qed

lemma sample_wait_all:
  "wait_all ready_poller [e1, e2] 0 [(3, 1), (4, 2)] = (Inr 2, ready_events [(3, 1), (4, 2)], [(3, 1), (4, 2)])"
  by (simp add: wait_all_def ready_poller_def ready_wait_def ready_events_def c_ok_def)

lemma sample_removed: "poller_remove ready_poller 4 [(3, 1), (4, 2)] = (Inr (), [(3, 1)])"
  by (simp add: poller_remove_def checked_call_def ready_poller_def ready_remove_def um_contains_def um_erase_def c_ok_def)

lemma sample_wait:
  "fst (snd (active_wait ready_poller first_free (\<lambda>m. m) sample_script 0 sample_poller)) = [(7, 1), (8, 1)]"
proof -
  have "resize 2 [] = [e, e]" if "e = \<lparr>pe_socket = 0, pe_fd = 0, pe_user_data = 0, pe_events = 0\<rparr>" for e
    using that by (simp add: resize_def numeral_2_eq_2)
  then have rebuilt: "resize (length [(3 :: nat, 1 :: nat), (4, 2)]) [] =
      [\<lparr>pe_socket = 0, pe_fd = 0, pe_user_data = 0, pe_events = 0\<rparr>, \<lparr>pe_socket = 0, pe_fd = 0, pe_user_data = 0, pe_events = 0\<rparr>]"
    by (simp add: numeral_2_eq_2)
  show ?thesis
    by (simp add: active_wait_def rebuild_events_def sample_poller_def rebuilt [simplified] sample_wait_all [simplified]
        sample_removed [simplified] ready_events_def alive_def sample_script_def run_op_def active_remove_def)
qed

theorem active_wait_safe_witness:
  "\<exists>r s'. active_wait ready_poller first_free (\<lambda>m. m) sample_script 0 sample_poller = (r, [(7, 1), (8, 1)], s') \<and>
     active_inv map_of s' \<and> r = Inr 2"
proof -
  obtain r s' where wait: "active_wait ready_poller first_free (\<lambda>m. m) sample_script 0 sample_poller = (r, [(7, 1), (8, 1)], s')"
    using sample_wait by (metis prod.collapse)
  have len: "length (handlers sample_poller) < 2 ^ 31" by (simp add: sample_poller_def)
  obtain e1 e2 where "poller_events (rebuild_events (\<lambda>m. m) sample_poller) = [e1, e2]"
    by (simp add: rebuild_events_def sample_poller_def resize_def numeral_2_eq_2)
  then have all: "wait_all ready_poller (poller_events (rebuild_events (\<lambda>m. m) sample_poller)) 0 (base_poller sample_poller) =
      (Inr 2, ready_events [(3, 1), (4, 2)], [(3, 1), (4, 2)])"
    using sample_wait_all by (simp add: sample_poller_def)
  note safe = active_wait_safe [OF ready_poller_ok first_free_ok iteration_ok_id sample_poller_inv len wait all]
  have "r = Inr 2"
  proof (cases r)
    case (Inl e)
    with safe obtain k s0 where k: "k < 2"
      "[(7, 1), (8, 1)] = map (\<lambda>ev. (the (handler_of sample_poller (pe_socket ev)), pe_events ev))
         (take (Suc k) (ready_events [(3, 1), (4, 2)]))"
      "run_ops ready_poller first_free (sample_script (the (handler_of sample_poller
         (pe_socket (ready_events [(3, 1), (4, 2)] ! k)))) (pe_events (ready_events [(3, 1), (4, 2)] ! k))) s0 = (Inl e, s')"
      by auto
    have "k = 1" using arg_cong [OF k(2), of length] k(1) by (simp add: ready_events_def)
    with k(3) show ?thesis
      by (simp add: ready_events_def sample_script_def handler_of_def sample_poller_def)
  qed (use safe in simp)
  with safe wait show ?thesis by blast
qed

end
