(* ===== verification/MagicEnum.thy ===== *)
theory MagicEnum
  imports Digits
begin

text \<open>
  \<open>lib/magic_enum/magic_enum.hpp\<close>: the names of enumerators at run time, which the program
  writes to its logs and prints. What the library computes while it compiles is a function of the
  enumeration: the text the compiler writes for a template with the value \<open>V\<close>, read by \<open>n<V>()\<close>,
  decides which values of a range have names, and from these come the tables of values and names
  and all look-ups in them. Modelled is the code that GCC compiles, without
  \<open>MAGIC_ENUM_ENABLE_HASH\<close>; values are integers in the range of the underlying type.
\<close>

section \<open>Integer types\<close>

text \<open>An underlying type, by its signedness and number of bits, and conversion to it.\<close>

datatype int_type = UBool | USigned nat | UUnsigned nat

fun to_U :: "int_type \<Rightarrow> int \<Rightarrow> int" where
  "to_U UBool x = of_bool (x \<noteq> 0)"
| "to_U (USigned w) x = signed_take_bit (w - 1) x"
| "to_U (UUnsigned w) x = take_bit w x"

fun U_min :: "int_type \<Rightarrow> int" where
  "U_min UBool = 0"
| "U_min (USigned w) = - (2 ^ (w - 1))"
| "U_min (UUnsigned w) = 0"

fun U_max :: "int_type \<Rightarrow> int" where
  "U_max UBool = 1"
| "U_max (USigned w) = 2 ^ (w - 1) - 1"
| "U_max (UUnsigned w) = 2 ^ w - 1"

fun U_digits :: "int_type \<Rightarrow> nat" where
  "U_digits UBool = 1"
| "U_digits (USigned w) = w - 1"
| "U_digits (UUnsigned w) = w"

definition in_U :: "int_type \<Rightarrow> int \<Rightarrow> bool" where
  "in_U u x \<longleftrightarrow> U_min u \<le> x \<and> x \<le> U_max u"

fun is_signed :: "int_type \<Rightarrow> bool" where
  "is_signed UBool = False"
| "is_signed (USigned w) = True"
| "is_signed (UUnsigned w) = False"

fun make_unsigned :: "int_type \<Rightarrow> int_type" where
  "make_unsigned UBool = UBool"
| "make_unsigned (USigned w) = UUnsigned w"
| "make_unsigned (UUnsigned w) = UUnsigned w"

text \<open>Comparison of integers of different types.\<close>

definition cmp_less :: "int_type \<Rightarrow> int_type \<Rightarrow> int \<Rightarrow> int \<Rightarrow> bool" where
  "cmp_less L R lhs rhs =
     (if is_signed L = is_signed R then lhs < rhs
      else if L = UBool then to_U R lhs < rhs
      else if R = UBool then lhs < to_U L rhs
      else if is_signed R then rhs > 0 \<and> lhs < to_U (make_unsigned R) rhs
      else lhs < 0 \<or> to_U (make_unsigned L) lhs < rhs)"

lemma signed_take_bit_id: "- (2 ^ n) \<le> x \<Longrightarrow> x < 2 ^ n \<Longrightarrow> signed_take_bit n x = (x :: int)"
  by (simp add: signed_take_bit_int_eq_self)

lemma take_bit_id: "0 \<le> x \<Longrightarrow> x < 2 ^ n \<Longrightarrow> take_bit n x = (x :: int)"
  by (simp add: take_bit_int_eq_self)

lemma to_U_id: "in_U u x \<Longrightarrow> to_U u x = x"
proof (cases u)
  case UBool
  then show "in_U u x \<Longrightarrow> to_U u x = x" by (auto simp: in_U_def)
qed (auto simp: in_U_def signed_take_bit_id take_bit_id)

text \<open>The loop of \<open>log2\<close>: shift to the right until at most one is left.\<close>

function log2_loop :: "int \<Rightarrow> int \<Rightarrow> int" where
  "log2_loop x ret = (if x > 1 then log2_loop (drop_bit 1 x) (ret + 1) else ret)"
  by auto
termination by (relation "measure (\<lambda>(x, ret). nat x)") (auto simp: drop_bit_eq_div)

declare log2_loop.simps [simp del]

definition log2_of :: "int \<Rightarrow> int" where
  "log2_of x = log2_loop x 0"

lemma log2_loop_power: "log2_loop (2 ^ k) ret = ret + int k"
proof (induction k arbitrary: ret)
  case (Suc k)
  have "(0 :: int) < 2 ^ k" by simp
  then have "(1 :: int) < 2 * 2 ^ k" by linarith
  with Suc [of "ret + 1"] show ?case by (subst log2_loop.simps) (simp add: drop_bit_eq_div)
qed (subst log2_loop.simps, simp)

lemma log2_power [simp]: "log2_of (2 ^ k) = int k"
  by (simp add: log2_of_def log2_loop_power)

lemma log2_loop_floor: "0 < x \<Longrightarrow> \<exists>k. log2_loop x ret = ret + int k \<and> 2 ^ k \<le> x \<and> x < 2 ^ Suc k"
proof (induction x ret rule: log2_loop.induct)
  case (1 x ret)
  show ?case
  proof (cases "x > 1")
    case True
    then have "0 < x div 2" by presburger
    with True 1 obtain k where k: "log2_loop (x div 2) (ret + 1) = ret + 1 + int k" "2 ^ k \<le> x div 2" "x div 2 < 2 ^ Suc k"
      by (auto simp: drop_bit_eq_div)
    then have "2 ^ Suc k \<le> x" "x < 2 ^ Suc (Suc k)" by auto
    with True k(1) show ?thesis
      by (intro exI [of _ "Suc k"]) (subst log2_loop.simps, simp add: drop_bit_eq_div)
  next
    case False
    with 1 have "x = 1" by simp
    then show ?thesis by (intro exI [of _ 0]) (subst log2_loop.simps, simp)
  qed
qed

lemma log2_floor:
  assumes "0 < x"
  obtains k where "log2_of x = int k" "2 ^ k \<le> x" "x < 2 ^ Suc k"
  using log2_loop_floor [OF assms, of 0] that by (auto simp: log2_of_def)

section \<open>Text\<close>

text \<open>Search for a character, and comparison with a predicate on characters; \<open>None\<close> is \<open>std::equal_to\<close>.\<close>

definition sv_find :: "string \<Rightarrow> char \<Rightarrow> nat option" where
  "sv_find str c = (if c \<in> set str then Some (index_of str c) else None)"

definition to_lower :: "char \<Rightarrow> char" where
  "to_lower c = (if (65 :: nat) \<le> of_char c \<and> of_char c \<le> (90 :: nat) then char_of (of_char c + (32 :: nat)) else c)"

definition case_insensitive :: "char \<Rightarrow> char \<Rightarrow> bool" where
  "case_insensitive lhs rhs \<longleftrightarrow> to_lower lhs = to_lower rhs"

fun cmp_chars :: "(char \<Rightarrow> char \<Rightarrow> bool) \<Rightarrow> string \<Rightarrow> string \<Rightarrow> bool" where
  "cmp_chars p (l # lhs) (r # rhs) = (if \<not> p l r then False else cmp_chars p lhs rhs)"
| "cmp_chars p lhs rhs = True"

definition cmp_equal :: "string \<Rightarrow> string \<Rightarrow> (char \<Rightarrow> char \<Rightarrow> bool) option \<Rightarrow> bool" where
  "cmp_equal lhs rhs p = (case p of
     Some f \<Rightarrow> if length lhs \<noteq> length rhs then False else cmp_chars f lhs rhs
   | None \<Rightarrow> lhs = rhs)"

lemma cmp_equal_Some: "cmp_equal lhs rhs (Some f) \<longleftrightarrow> list_all2 f lhs rhs"
  by (simp add: cmp_equal_def, induction f lhs rhs rule: cmp_chars.induct) (auto dest: list_all2_lengthD)

lemma cmp_equal_None [simp]: "cmp_equal lhs rhs None \<longleftrightarrow> lhs = rhs"
  by (simp add: cmp_equal_def)


section \<open>Names from the compiler's text\<close>

text \<open>
  Customisation of a name, and an enumeration: its underlying type, the range that is searched,
  \<open>is_flags\<close> where the range declares it, the customised names, and \<open>__PRETTY_FUNCTION__\<close> of
  \<open>n<V>()\<close> for every value \<open>V\<close>, which the compiler provides.
\<close>

datatype customize = default_tag | invalid_tag | custom_tag string

record EnumDef =
  underlying :: int_type
  range_min :: int
  range_max :: int
  flags_declared :: "bool option"
  custom_name :: "int \<Rightarrow> customize"
  pretty :: "int \<Rightarrow> string"

definition MAGIC_ENUM_RANGE_MIN :: int where "MAGIC_ENUM_RANGE_MIN = - 128"
definition MAGIC_ENUM_RANGE_MAX :: int where "MAGIC_ENUM_RANGE_MAX = 127"

text \<open>
  The loop that looks for the last colon, from one past the view down to its second character;
  it returns the position after the colon, or zero.
\<close>

fun last_colon :: "string \<Rightarrow> nat \<Rightarrow> nat \<Rightarrow> nat" where
  "last_colon txt off 0 = 0"
| "last_colon txt off (Suc i) = (if txt ! (off + Suc i) = CHR '':'' then Suc i + 1 else last_colon txt off i)"

definition n_of :: "string \<Rightarrow> string" where
  "n_of txt =
     (let (off, sz) = (if last txt = CHR '']'' then (54, length txt - 55) else (37, length txt - 40));
          sz = (if txt ! off = CHR ''('' then 0 else sz);
          p = last_colon txt off sz;
          (off, sz) = (if p > 0 then (off + p, sz - p) else (off, sz))
      in take sz (drop off txt))"

definition enum_name_v :: "EnumDef \<Rightarrow> int \<Rightarrow> string" where
  "enum_name_v e V = (case custom_name e V of
     custom_tag name \<Rightarrow> name
   | invalid_tag \<Rightarrow> []
   | default_tag \<Rightarrow> n_of (pretty e V))"

definition is_valid :: "EnumDef \<Rightarrow> int \<Rightarrow> bool" where
  "is_valid e V = (let v = to_U (underlying e) V in case custom_name e v of
     custom_tag name \<Rightarrow> length name \<noteq> 0
   | default_tag \<Rightarrow> length (n_of (pretty e v)) \<noteq> 0
   | invalid_tag \<Rightarrow> False)"

text \<open>
  What GCC writes: \<open>constexpr auto magic_enum::detail::n() [with auto V = \<close>, then the qualified
  name of an enumerator, or for a value without one the type in parentheses and a number.
\<close>

definition pretty_prefix :: string where
  "pretty_prefix = ''constexpr auto magic_enum::detail::n() [with auto V = ''"

definition is_ident :: "string \<Rightarrow> bool" where
  "is_ident s \<longleftrightarrow> s \<noteq> [] \<and> CHR '':'' \<notin> set s \<and> hd s \<noteq> CHR ''(''"

definition enumerator_text :: "string \<Rightarrow> string \<Rightarrow> bool" where
  "enumerator_text txt s \<longleftrightarrow> is_ident s \<and> (\<exists>scope. txt = pretty_prefix @ scope @ s @ '']'' \<and>
     (scope = [] \<or> last scope = CHR '':'' \<and> hd scope \<noteq> CHR '':'' \<and> hd scope \<noteq> CHR ''(''))"

definition reflects :: "EnumDef \<Rightarrow> (int \<Rightarrow> string option) \<Rightarrow> bool" where
  "reflects e ids \<longleftrightarrow> (\<forall>v. custom_name e v = default_tag \<and> (case ids v of
     Some s \<Rightarrow> enumerator_text (pretty e v) s
   | None \<Rightarrow> \<exists>rest. pretty e v = pretty_prefix @ ''('' @ rest @ '']''))"

lemma pretty_prefix_length: "length pretty_prefix = 54"
  by (simp add: pretty_prefix_def)

lemma last_colon_none: "(\<And>j. 0 < j \<Longrightarrow> j \<le> i \<Longrightarrow> txt ! (off + j) \<noteq> CHR '':'') \<Longrightarrow> last_colon txt off i = 0"
  by (induction i) (auto simp del: add_Suc_right)

lemma last_colon_at:
  "txt ! (off + k) = CHR '':'' \<Longrightarrow> 0 < k \<Longrightarrow> k \<le> i \<Longrightarrow>
   (\<And>j. k < j \<Longrightarrow> j \<le> i \<Longrightarrow> txt ! (off + j) \<noteq> CHR '':'') \<Longrightarrow> last_colon txt off i = Suc k"
proof (induction i)
  case (Suc i)
  show ?case
  proof (cases "k = Suc i")
    case False
    with Suc.prems have "txt ! (off + Suc i) \<noteq> CHR '':''" "k \<le> i" by (auto simp del: add_Suc_right)
    with Suc show ?thesis by (simp del: add_Suc_right)
  qed (use Suc.prems in simp)
qed simp

text \<open>The name that is found is the enumerator's identifier.\<close>

lemma n_of_enumerator:
  assumes "enumerator_text txt s"
  shows "n_of txt = s"
proof -
  obtain scope where s: "s \<noteq> []" "CHR '':'' \<notin> set s" "hd s \<noteq> CHR ''(''" and whole: "txt = pretty_prefix @ scope @ s @ '']''"
    and scope: "scope = [] \<or> last scope = CHR '':'' \<and> hd scope \<noteq> CHR '':'' \<and> hd scope \<noteq> CHR ''(''"
    using assms by (auto simp: enumerator_text_def is_ident_def)
  have char_at: "txt ! (54 + j) = (scope @ s @ '']'') ! j" for j
    unfolding whole nth_append pretty_prefix_length by simp
  have "hd (scope @ s) \<noteq> CHR ''(''" using s scope by (cases scope) auto
  then have first: "txt ! 54 \<noteq> CHR ''(''"
    using char_at [of 0] s(1) by (cases scope; cases s) auto
  have beyond: "txt ! (54 + j) \<noteq> CHR '':''" if "length scope \<le> j" "j \<le> length scope + length s" for j
  proof (cases "j = length scope + length s")
    case False
    with that have "(scope @ s @ '']'') ! j = s ! (j - length scope)" "j - length scope < length s"
      by (auto simp: nth_append)
    with s(2) char_at show ?thesis by (metis nth_mem)
  qed (simp add: char_at nth_append)
  have len: "length txt - 55 = length scope + length s" "last txt = CHR '']''"
    by (simp_all add: whole pretty_prefix_length)
  show ?thesis
  proof (cases "scope = []")
    case True
    then have "last_colon txt 54 (length s) = 0"
      using beyond by (intro last_colon_none) simp
    with True first len show ?thesis by (simp add: n_of_def whole pretty_prefix_length)
  next
    case False
    let ?k = "length scope - 1"
    have k: "txt ! (54 + ?k) = CHR '':''" "0 < ?k"
    proof -
      show "txt ! (54 + ?k) = CHR '':''"
        using False scope by (simp add: char_at nth_append last_conv_nth)
      show "0 < ?k" using False scope by (cases scope) auto
    qed
    have "last_colon txt 54 (length scope + length s) = Suc ?k"
      by (rule last_colon_at [OF k]) (use beyond in auto)
    then have "last_colon txt 54 (length scope + length s) = length scope" using False by simp
    with False first len show ?thesis
      by (simp add: n_of_def) (simp add: whole pretty_prefix_length)
  qed
qed

lemma n_of_number: "n_of (pretty_prefix @ ''('' @ rest @ '']'') = []"
  by (simp add: n_of_def nth_append pretty_prefix_length)

lemma reflects_name:
  assumes "reflects e ids"
  shows "enum_name_v e v = (case ids v of None \<Rightarrow> [] | Some s \<Rightarrow> s)"
    "is_valid e v \<longleftrightarrow> ids (to_U (underlying e) v) \<noteq> None"
    "ids v = Some s \<Longrightarrow> s \<noteq> []"
proof -
  have e: "custom_name e v = default_tag" "case ids v of Some s \<Rightarrow> enumerator_text (pretty e v) s
      | None \<Rightarrow> \<exists>rest. pretty e v = pretty_prefix @ ''('' @ rest @ '']''" for v
    using assms unfolding reflects_def by blast+
  have n: "n_of (pretty e v) = (case ids v of None \<Rightarrow> [] | Some s \<Rightarrow> s)" for v
    using e(2) [of v] n_of_number n_of_enumerator by (auto split: option.splits)
  show nonempty: "s \<noteq> []" if "ids v = Some s" for v s
    using e(2) [of v] that by (simp add: enumerator_text_def is_ident_def)
  show "enum_name_v e v = (case ids v of None \<Rightarrow> [] | Some s \<Rightarrow> s)"
    by (simp add: enum_name_v_def e(1) n)
  show "is_valid e v \<longleftrightarrow> ids (to_U (underlying e) v) \<noteq> None"
    using nonempty [of "to_U (underlying e) v"] by (auto simp: is_valid_def e(1) n Let_def split: option.splits)
qed


section \<open>The tables of values and names\<close>

datatype enum_subtype = common_enum | flags_enum

definition ualue :: "EnumDef \<Rightarrow> int \<Rightarrow> enum_subtype \<Rightarrow> nat \<Rightarrow> int" where
  "ualue e off S i =
     (if underlying e = UBool then to_U UBool (int i)
      else case S of
        flags_enum \<Rightarrow> to_U (underlying e) (push_bit (nat (to_U (underlying e) (int i + off))) 1)
      | common_enum \<Rightarrow> to_U (underlying e) (int i + off))"

definition value_at :: "EnumDef \<Rightarrow> int \<Rightarrow> enum_subtype \<Rightarrow> nat \<Rightarrow> int" where
  "value_at e off S i = ualue e off S i"

definition reflected_min :: "EnumDef \<Rightarrow> enum_subtype \<Rightarrow> int" where
  "reflected_min e S = (case S of
     flags_enum \<Rightarrow> 0
   | common_enum \<Rightarrow> (let lhs = range_min e; rhs = U_min (underlying e) in
       if cmp_less (underlying e) (USigned 32) rhs lhs then lhs else rhs))"

definition reflected_max :: "EnumDef \<Rightarrow> enum_subtype \<Rightarrow> int" where
  "reflected_max e S = (case S of
     flags_enum \<Rightarrow> int (U_digits (underlying e)) - 1
   | common_enum \<Rightarrow> (let lhs = range_max e; rhs = U_max (underlying e) in
       if cmp_less (USigned 32) (underlying e) lhs rhs then lhs else rhs))"

definition range_size :: "EnumDef \<Rightarrow> enum_subtype \<Rightarrow> nat" where
  "range_size e S = nat (reflected_max e S - reflected_min e S + 1)"

text \<open>Which values of the range have a name, and how many.\<close>

definition valid_count :: "EnumDef \<Rightarrow> enum_subtype \<Rightarrow> nat \<Rightarrow> int \<Rightarrow> bool list \<times> nat" where
  "valid_count e S sz mn = fold (\<lambda>i (valid, cnt).
     if is_valid e (ualue e mn S i) then (valid[i := True], cnt + 1) else (valid, cnt))
     [0..<sz] (replicate sz False, 0)"

text \<open>The loop that collects the values until as many are found as were counted.\<close>

fun fill_values :: "(nat \<Rightarrow> int) \<Rightarrow> bool list \<Rightarrow> nat \<Rightarrow> nat \<Rightarrow> int list" where
  "fill_values f [] i missing = []"
| "fill_values f (valid # rest) i missing =
     (if missing = 0 then []
      else if valid then f i # fill_values f rest (i + 1) (missing - 1)
      else fill_values f rest (i + 1) missing)"

definition values_v :: "EnumDef \<Rightarrow> enum_subtype \<Rightarrow> int list" where
  "values_v e S = (let mn = reflected_min e S; vc = valid_count e S (range_size e S) mn in
     if snd vc > 0 then fill_values (value_at e mn S) (fst vc) 0 (snd vc) else [])"

definition subtype_of :: "EnumDef \<Rightarrow> enum_subtype" where
  "subtype_of e =
     (if underlying e = UBool then common_enum
      else case flags_declared e of
        Some is_flags \<Rightarrow> if is_flags then flags_enum else common_enum
      | None \<Rightarrow> common_enum)"

definition count_v :: "EnumDef \<Rightarrow> enum_subtype \<Rightarrow> nat" where
  "count_v e S = length (values_v e S)"

definition min_v :: "EnumDef \<Rightarrow> enum_subtype \<Rightarrow> int" where
  "min_v e S = (if count_v e S > 0 then hd (values_v e S) else 0)"

definition max_v :: "EnumDef \<Rightarrow> enum_subtype \<Rightarrow> int" where
  "max_v e S = (if count_v e S > 0 then last (values_v e S) else 0)"

definition names_v :: "EnumDef \<Rightarrow> enum_subtype \<Rightarrow> string list" where
  "names_v e S = map (enum_name_v e) (values_v e S)"

definition entries_v :: "EnumDef \<Rightarrow> enum_subtype \<Rightarrow> (int \<times> string) list" where
  "entries_v e S = map (\<lambda>v. (v, enum_name_v e v)) (values_v e S)"

definition is_sparse :: "EnumDef \<Rightarrow> enum_subtype \<Rightarrow> bool" where
  "is_sparse e S =
     (if count_v e S = 0 then False
      else if underlying e = UBool then False
      else let mx = (if S = flags_enum then log2_of (max_v e S) else max_v e S);
               mn = (if S = flags_enum then log2_of (min_v e S) else min_v e S)
           in mx - mn + 1 \<noteq> int (count_v e S))"

definition values_ors :: "EnumDef \<Rightarrow> int" where
  "values_ors e = fold (\<lambda>v ors. ors OR v) (values_v e flags_enum) 0"

text \<open>
  What the library demands of an enumeration before it compiles: a range that is not empty and
  fits 16 bits, and an offset of zero for \<open>bool\<close>.
\<close>

fun int_type_ok :: "int_type \<Rightarrow> bool" where
  "int_type_ok UBool = True"
| "int_type_ok (USigned w) = (8 \<le> w \<and> w \<le> 64)"
| "int_type_ok (UUnsigned w) = (8 \<le> w \<and> w \<le> 64)"

definition enum_ok :: "EnumDef \<Rightarrow> enum_subtype \<Rightarrow> bool" where
  "enum_ok e S \<longleftrightarrow> int_type_ok (underlying e) \<and> in_int (range_min e) \<and> in_int (range_max e) \<and>
     reflected_min e S \<le> reflected_max e S \<and> reflected_max e S - reflected_min e S + 1 < 65535 \<and>
     (underlying e = UBool \<longrightarrow> S = common_enum \<and> reflected_min e S = 0 \<and> min_v e S = 0)"

lemma enum_okD:
  assumes "enum_ok e S"
  shows "int_type_ok (underlying e)" "in_int (range_min e)" "in_int (range_max e)"
    "reflected_min e S \<le> reflected_max e S"
    "underlying e = UBool \<Longrightarrow> S = common_enum" "underlying e = UBool \<Longrightarrow> reflected_min e S = 0"
    "underlying e = UBool \<Longrightarrow> min_v e S = 0"
  using assms unfolding enum_ok_def by blast+

subsection \<open>The range\<close>

lemma in_U_small: "int_type_ok u \<Longrightarrow> in_U u 0 \<and> in_U u 1"
proof (cases u)
  case (USigned w)
  assume "int_type_ok u"
  then have "(2 :: int) ^ 1 \<le> 2 ^ (w - 1)" using USigned by (intro power_increasing) auto
  then show ?thesis by (simp add: USigned in_U_def)
next
  case (UUnsigned w)
  assume "int_type_ok u"
  then have "(2 :: int) ^ 1 \<le> 2 ^ w" using UUnsigned by (intro power_increasing) auto
  then show ?thesis by (simp add: UUnsigned in_U_def)
qed (simp add: in_U_def)

lemma cmp_less_iff:
  assumes "int_type_ok L" "int_type_ok R" and l: "in_U L l" and r: "in_U R r"
  shows "cmp_less L R l r \<longleftrightarrow> l < r"
proof -
  have pos: "to_U (make_unsigned u) x = x" if "in_U u x" "0 \<le> x" "int_type_ok u" for u x
  proof (cases u)
    case (USigned w)
    then have "x < 2 ^ (w - 1)" "(2 :: int) ^ (w - 1) \<le> 2 ^ w" using that by (auto simp: in_U_def intro: power_increasing)
    then have "x < 2 ^ w" by linarith
    then show ?thesis using that(2) USigned by (simp add: take_bit_id)
  qed (use that in \<open>auto simp: in_U_def take_bit_id\<close>)
  have widen: "to_U u b = b" if "b = 0 \<or> b = 1" "int_type_ok u" for u b
    using that in_U_small [of u] by (auto simp: to_U_id)
  have bool: "x = 0 \<or> x = 1" if "in_U UBool x" for x
    using that by (auto simp: in_U_def)
  have nonneg: "0 \<le> x" if "in_U u x" "\<not> is_signed u" for u x
    using that by (cases u) (auto simp: in_U_def)
  have "L = UBool \<Longrightarrow> to_U R l = l" "R = UBool \<Longrightarrow> to_U L r = r"
    using widen [OF bool assms(2)] widen [OF bool assms(1)] l r by auto
  moreover have "0 < r \<Longrightarrow> to_U (make_unsigned R) r = r" "\<not> l < 0 \<Longrightarrow> to_U (make_unsigned L) l = l"
    using pos [OF r _ assms(2)] pos [OF l _ assms(1)] by auto
  moreover have "\<not> is_signed L \<Longrightarrow> 0 \<le> l" "\<not> is_signed R \<Longrightarrow> 0 \<le> r"
    using nonneg l r by blast+
  ultimately show ?thesis
    by (cases "l < 0"; cases "0 < r"; cases "is_signed L"; cases "is_signed R") (auto simp: cmp_less_def)
qed


lemma in_U_int: "in_U (USigned 32) x \<longleftrightarrow> in_int x"
  by (auto simp: in_U_def in_int_def)

lemma in_U_bounds: "int_type_ok u \<Longrightarrow> in_U u (U_min u) \<and> in_U u (U_max u)"
  by (cases u) (auto simp: in_U_def intro: order_trans [of _ 0])

lemma reflected_common:
  assumes "enum_ok e common_enum"
  shows "reflected_min e common_enum = max (range_min e) (U_min (underlying e))"
    "reflected_max e common_enum = min (range_max e) (U_max (underlying e))"
  using cmp_less_iff [OF enum_okD(1) [OF assms], of "USigned 32" "U_min (underlying e)" "range_min e"]
    cmp_less_iff [OF _ enum_okD(1) [OF assms], of "USigned 32" "range_max e" "U_max (underlying e)"]
    in_U_bounds [OF enum_okD(1) [OF assms]] enum_okD(2,3) [OF assms]
  by (simp_all add: reflected_min_def reflected_max_def in_U_int Let_def)

text \<open>The \<open>i\<close>-th candidate of the range.\<close>

definition candidate :: "EnumDef \<Rightarrow> enum_subtype \<Rightarrow> nat \<Rightarrow> int" where
  "candidate e S i = (case S of flags_enum \<Rightarrow> 2 ^ i | common_enum \<Rightarrow> reflected_min e common_enum + int i)"

lemma ualue_common:
  assumes ok: "enum_ok e common_enum" and x: "in_U (underlying e) (int i + off)" and bool: "underlying e = UBool \<Longrightarrow> off = 0"
  shows "ualue e off common_enum i = int i + off"
  using to_U_id [OF x] bool by (auto simp: ualue_def)

lemma ualue_flags:
  assumes ok: "enum_ok e flags_enum" and i: "int i + off = int k" "k < U_digits (underlying e)"
  shows "ualue e off flags_enum i = 2 ^ k"
proof -
  let ?u = "underlying e"
  have u: "?u \<noteq> UBool" "int_type_ok ?u" using enum_okD(1,5) [OF ok] by auto
  have k: "int k < 2 ^ k" using less_exp [of k] by (metis of_nat_less_iff of_nat_numeral of_nat_power)
  have "in_U ?u (2 ^ k) \<and> in_U ?u (int k)"
  proof (cases ?u)
    case (USigned w)
    then have "(2 :: int) ^ Suc k \<le> 2 ^ (w - 1)" using i(2) by (intro power_increasing) auto
    then have "2 * 2 ^ k \<le> (2 :: int) ^ (w - 1)" by (simp only: power_Suc)
    moreover have "(1 :: int) \<le> 2 ^ k" by simp
    ultimately have "2 ^ k \<le> (2 :: int) ^ (w - 1) - 1 \<and> - (2 ^ (w - 1)) \<le> (2 :: int) ^ k \<and>
        - (2 ^ (w - 1)) \<le> int k \<and> int k \<le> 2 ^ (w - 1) - 1"
      using k by linarith
    with USigned show ?thesis by (simp add: in_U_def)
  next
    case (UUnsigned w)
    then have "(2 :: int) ^ Suc k \<le> 2 ^ w" using i(2) by (intro power_increasing) auto
    then have "2 * 2 ^ k \<le> (2 :: int) ^ w" by (simp only: power_Suc)
    moreover have "(1 :: int) \<le> 2 ^ k" by simp
    ultimately have "2 ^ k \<le> (2 :: int) ^ w - 1 \<and> int k \<le> 2 ^ w - 1" using k by linarith
    with UUnsigned show ?thesis by (simp add: in_U_def)
  qed (use u in simp)
  then show ?thesis using to_U_id i(1) u(1) by (simp add: ualue_def push_bit_eq_mult)
qed

lemma ualue_candidate:
  assumes ok: "enum_ok e S" and i: "i < range_size e S"
  shows "ualue e (reflected_min e S) S i = candidate e S i"
proof (cases S)
  case common_enum
  have "in_U (underlying e) (int i + reflected_min e common_enum)"
    using i reflected_common [OF ok [unfolded common_enum]] by (auto simp: range_size_def in_U_def common_enum)
  with ok common_enum show ?thesis
    using ualue_common [of e i "reflected_min e common_enum"] enum_okD(6) [OF ok] by (simp add: candidate_def)
next
  case flags_enum
  have "reflected_min e flags_enum = 0" "reflected_max e flags_enum = int (U_digits (underlying e)) - 1"
    by (simp_all add: reflected_min_def reflected_max_def)
  with i ok flags_enum show ?thesis
    using ualue_flags [of e i 0 i] by (simp add: candidate_def range_size_def)
qed

lemma candidate_less: "i < j \<Longrightarrow> candidate e S i < candidate e S j"
  by (cases S) (simp_all add: candidate_def power_strict_increasing)

lemma candidate_inject [simp]: "candidate e S i = candidate e S j \<longleftrightarrow> i = j"
  using candidate_less [of i j e S] candidate_less [of j i e S] by (cases i j rule: linorder_cases) auto

subsection \<open>The table of values\<close>

lemma valid_count_eq:
  "valid_count e S sz mn = (map (\<lambda>i. is_valid e (ualue e mn S i)) [0..<sz],
     length (filter (\<lambda>i. is_valid e (ualue e mn S i)) [0..<sz]))"
proof -
  let ?v = "\<lambda>i. is_valid e (ualue e mn S i)"
  have "fold (\<lambda>i (valid, cnt). if ?v i then (valid[i := True], cnt + 1) else (valid, cnt)) [0..<k] (replicate sz False, 0) =
      (map ?v [0..<k] @ replicate (sz - k) False, length (filter ?v [0..<k]))" if "k \<le> sz" for k
    using that
  proof (induction k)
    case (Suc k)
    then have "replicate (sz - k) False = False # replicate (sz - Suc k) False"
      by (metis Suc_diff_le diff_Suc_Suc replicate_Suc)
    with Suc show ?case by (simp add: list_update_append)
  qed simp
  from this [of sz] show ?thesis by (simp add: valid_count_def)
qed

lemma fill_values_eq:
  "missing = length (filter (\<lambda>b. b) valid) \<Longrightarrow>
   fill_values f valid i missing = map f (filter (\<lambda>j. valid ! (j - i)) [i..<i + length valid])"
proof (induction valid arbitrary: i missing)
  case (Cons valid rest)
  have up: "[i..<i + length (valid # rest)] = i # [Suc i..<Suc i + length rest]"
    by (simp add: upt_rec)
  have shift: "filter (\<lambda>j. (valid # rest) ! (j - i)) [Suc i..<Suc i + length rest] =
      filter (\<lambda>j. rest ! (j - Suc i)) [Suc i..<Suc i + length rest]"
    by (rule filter_cong) (auto simp: nth_Cons')
  define tail where "tail = map f (filter (\<lambda>j. rest ! (j - Suc i)) [Suc i..<Suc i + length rest])"
  have rhs: "map f (filter (\<lambda>j. (valid # rest) ! (j - i)) [i..<i + length (valid # rest)]) = (if valid then f i # tail else tail)"
    unfolding up filter.simps shift tail_def by simp
  have IH: "fill_values f rest (Suc i) (length (filter (\<lambda>b. b) rest)) = tail"
    unfolding tail_def by (rule Cons.IH) (rule refl)
  have zero: "fill_values f rest (Suc i) 0 = []" by (cases rest) simp_all
  show ?case
    unfolding rhs using IH zero Cons.prems by (cases "missing = 0") auto
qed simp

definition valid_indices :: "EnumDef \<Rightarrow> enum_subtype \<Rightarrow> nat list" where
  "valid_indices e S = filter (\<lambda>i. is_valid e (candidate e S i)) [0..<range_size e S]"

lemma values_v_eq:
  assumes "enum_ok e S"
  shows "values_v e S = map (candidate e S) (valid_indices e S)"
proof -
  let ?mn = "reflected_min e S" and ?n = "range_size e S"
  let ?v = "\<lambda>i. is_valid e (ualue e ?mn S i)"
  have idx: "filter ?v [0..<?n] = valid_indices e S"
    unfolding valid_indices_def using ualue_candidate [OF assms] by (intro filter_cong) auto
  have "fill_values (value_at e ?mn S) (map ?v [0..<?n]) 0 (length (valid_indices e S)) =
      map (value_at e ?mn S) (filter (\<lambda>j. map ?v [0..<?n] ! (j - 0)) [0..<0 + length (map ?v [0..<?n])])"
    by (rule fill_values_eq) (simp add: filter_map comp_def flip: idx)
  also have "\<dots> = map (value_at e ?mn S) (valid_indices e S)"
    unfolding idx [symmetric] by (intro arg_cong [of _ _ "map _"] filter_cong) auto
  also have "\<dots> = map (candidate e S) (valid_indices e S)"
    using ualue_candidate [OF assms] by (auto simp: valid_indices_def value_at_def)
  finally show ?thesis by (simp add: values_v_def valid_count_eq Let_def idx)
qed


lemma valid_indices_sorted: "sorted_wrt (<) (valid_indices e S)"
  by (simp add: valid_indices_def sorted_wrt_filter sorted_wrt_upt)

lemma valid_indices_less: "i \<in> set (valid_indices e S) \<Longrightarrow> i < range_size e S"
  by (simp add: valid_indices_def)

lemma values_sorted:
  assumes "enum_ok e S"
  shows "sorted_wrt (<) (values_v e S)" "distinct (values_v e S)"
proof -
  show "sorted_wrt (<) (values_v e S)"
    unfolding values_v_eq [OF assms] sorted_wrt_map
    by (rule sorted_wrt_mono_rel [OF _ valid_indices_sorted]) (simp add: candidate_less)
  then show "distinct (values_v e S)" by (simp add: strict_sorted_iff)
qed

lemma set_values_v:
  assumes "enum_ok e S"
  shows "set (values_v e S) = candidate e S ` {i. i < range_size e S \<and> is_valid e (candidate e S i)}"
  unfolding values_v_eq [OF assms] by (auto simp: valid_indices_def)

lemma to_U_in_U: "int_type_ok u \<Longrightarrow> in_U u (to_U u x)"
proof (cases u)
  case (USigned w)
  then show ?thesis
    using signed_take_bit_int_less_exp [of "w - 1" x] signed_take_bit_int_greater_eq_minus_exp [of "w - 1" x]
    by (simp add: in_U_def)
next
  case (UUnsigned w)
  then show ?thesis using take_bit_int_less_exp [of w x] by (simp add: in_U_def)
qed (simp add: in_U_def)

lemma candidate_in_U:
  assumes "enum_ok e S" and "i < range_size e S"
  shows "in_U (underlying e) (candidate e S i)"
proof -
  have "in_U (underlying e) (ualue e (reflected_min e S) S i)"
    using to_U_in_U [OF enum_okD(1) [OF assms(1)]] in_U_small [of UBool] by (auto simp: ualue_def split: enum_subtype.splits)
  with ualue_candidate [OF assms] show ?thesis by simp
qed

lemma strict_gap: "sorted_wrt (<) (ks :: nat list) \<Longrightarrow> i + d < length ks \<Longrightarrow> ks ! i + d \<le> ks ! (i + d)"
proof (induction d)
  case (Suc d)
  then have "ks ! i + d \<le> ks ! (i + d)" "ks ! (i + d) < ks ! Suc (i + d)"
    by (auto intro: sorted_wrt_nth_less)
  then show ?case by simp
qed simp

lemma strict_contiguous:
  assumes ks: "sorted_wrt (<) (ks :: nat list)" and "ks \<noteq> []" and full: "last ks + 1 = hd ks + length ks" and i: "i < length ks"
  shows "ks ! i = hd ks + i"
proof -
  have "ks ! 0 + i \<le> ks ! i" using strict_gap [OF ks, of 0 i] i by simp
  moreover have "ks ! i + (length ks - 1 - i) \<le> ks ! (length ks - 1)"
    using strict_gap [OF ks, of i "length ks - 1 - i"] i by simp
  ultimately show ?thesis using assms(2) full i by (simp add: hd_conv_nth last_conv_nth)
qed

text \<open>An enumeration that is not sparse has the values of a whole interval.\<close>

lemma not_sparse_contiguous:
  assumes ok: "enum_ok e S" and dense: "\<not> is_sparse e S" and i: "i < count_v e S"
  shows "valid_indices e S ! i = hd (valid_indices e S) + i"
proof -
  let ?ks = "valid_indices e S"
  have n: "count_v e S = length ?ks" by (simp add: count_v_def values_v_eq [OF ok])
  have ne: "?ks \<noteq> []" using i n by auto
  have ends: "min_v e S = candidate e S (hd ?ks)" "max_v e S = candidate e S (last ?ks)"
    using ne by (simp_all add: min_v_def max_v_def count_v_def values_v_eq [OF ok] hd_map last_map)
  have "last ?ks + 1 = hd ?ks + length ?ks"
  proof (cases "underlying e = UBool")
    case True
    then have S: "S = common_enum" and rmin: "reflected_min e S = 0" and mn: "min_v e S = 0"
      using enum_okD(5-7) [OF ok] by blast+
    have "reflected_max e S \<le> 1" using reflected_common(2) [OF ok [unfolded S]] True S by simp
    then have less: "k < 2" if "k \<in> set ?ks" for k
      using valid_indices_less [OF that] rmin by (simp add: range_size_def)
    have hd0: "hd ?ks = 0" using ends(1) mn rmin S by (simp add: candidate_def)
    have "last ?ks < 2" using less last_in_set [OF ne] .
    moreover have "?ks ! 0 + (length ?ks - 1) \<le> ?ks ! (length ?ks - 1)"
      using strict_gap [OF valid_indices_sorted, of 0 "length ?ks - 1" e S] ne by (cases ?ks) auto
    moreover have "length ?ks = 1 \<Longrightarrow> last ?ks = hd ?ks" by (cases ?ks) auto
    moreover have "0 < length ?ks" using ne by simp
    moreover have "hd ?ks = ?ks ! 0" "last ?ks = ?ks ! (length ?ks - 1)"
      using ne by (simp_all add: last_conv_nth hd_conv_nth)
    ultimately show ?thesis using hd0 by linarith
  next
    case False
    with dense i ends have "(if S = flags_enum then log2_of (candidate e S (last ?ks)) else candidate e S (last ?ks)) -
        (if S = flags_enum then log2_of (candidate e S (hd ?ks)) else candidate e S (hd ?ks)) + 1 = int (length ?ks)"
      by (simp add: is_sparse_def n Let_def split: if_splits)
    then show ?thesis by (cases S) (simp_all add: candidate_def)
  qed
  then show ?thesis using strict_contiguous [OF valid_indices_sorted ne] i n by simp
qed

section \<open>Look-up by index\<close>

definition enum_value :: "EnumDef \<Rightarrow> enum_subtype \<Rightarrow> nat \<Rightarrow> int res" where
  "enum_value e S index =
     (if is_sparse e S
      then if index < count_v e S then Inr (values_v e S ! index) else Inl AssertionFailed
      else let mn = (if S = flags_enum then log2_of (min_v e S) else min_v e S)
           in if index < count_v e S then Inr (value_at e mn S index) else Inl AssertionFailed)"

lemma enum_value_eq:
  assumes ok: "enum_ok e S"
  shows "enum_value e S i = (if i < count_v e S then Inr (values_v e S ! i) else Inl AssertionFailed)"
proof (cases "is_sparse e S \<or> \<not> i < count_v e S")
  case False
  then have dense: "\<not> is_sparse e S" and i: "i < count_v e S" by simp_all
  let ?ks = "valid_indices e S"
  have n: "count_v e S = length ?ks" by (simp add: count_v_def values_v_eq [OF ok])
  have k: "?ks ! i = hd ?ks + i" by (rule not_sparse_contiguous [OF ok dense i])
  have val: "values_v e S ! i = candidate e S (hd ?ks + i)"
    using i n k by (simp add: values_v_eq [OF ok])
  have mn: "min_v e S = candidate e S (hd ?ks)"
    using i n by (cases ?ks) (simp_all add: min_v_def count_v_def values_v_eq [OF ok])
  have less: "hd ?ks + i < range_size e S"
    using valid_indices_less [of "?ks ! i" e S] nth_mem [of i ?ks] i n k by simp
  have "value_at e (if S = flags_enum then log2_of (min_v e S) else min_v e S) S i = candidate e S (hd ?ks + i)"
  proof (cases S)
    case flags_enum
    have "hd ?ks + i < U_digits (underlying e)"
      using less by (simp add: flags_enum range_size_def reflected_min_def reflected_max_def)
    then show ?thesis
      using ualue_flags [OF ok [unfolded flags_enum], of i "int (hd ?ks)" "hd ?ks + i"] mn
      by (simp add: flags_enum candidate_def value_at_def)
  next
    case common_enum
    then have eq: "int i + min_v e S = candidate e S (hd ?ks + i)"
      using mn by (simp add: candidate_def)
    then show ?thesis
      using ualue_common [OF ok [unfolded common_enum], of i "min_v e S"] candidate_in_U [OF ok less] enum_okD(7) [OF ok]
      by (simp add: common_enum value_at_def)
  qed
  with dense i val show ?thesis by (simp add: enum_value_def Let_def)
qed (auto simp: enum_value_def Let_def)


section \<open>Look-up by value and by name\<close>

definition enum_index :: "EnumDef \<Rightarrow> enum_subtype \<Rightarrow> int \<Rightarrow> nat option" where
  "enum_index e S v =
     (if count_v e S = 0 then None
      else if is_sparse e S \<or> S = flags_enum
      then List.find (\<lambda>i. enum_value e S i = Inr v) [0..<count_v e S]
      else if v \<ge> min_v e S \<and> v \<le> max_v e S then Some (nat (v - min_v e S)) else None)"

definition enum_name :: "EnumDef \<Rightarrow> enum_subtype \<Rightarrow> int \<Rightarrow> string" where
  "enum_name e S v = (case enum_index e S v of Some i \<Rightarrow> names_v e S ! i | None \<Rightarrow> [])"

definition enum_cast_int :: "EnumDef \<Rightarrow> enum_subtype \<Rightarrow> int \<Rightarrow> int option" where
  "enum_cast_int e S x =
     (if count_v e S = 0 then None
      else if is_sparse e S \<or> S = flags_enum
      then (case List.find (\<lambda>i. enum_value e S i = Inr x) [0..<count_v e S] of Some i \<Rightarrow> Some x | None \<Rightarrow> None)
      else if x \<ge> min_v e S \<and> x \<le> max_v e S then Some x else None)"

definition enum_cast_str :: "EnumDef \<Rightarrow> enum_subtype \<Rightarrow> string \<Rightarrow> (char \<Rightarrow> char \<Rightarrow> bool) option \<Rightarrow> int option res" where
  "enum_cast_str e S s p =
     (if count_v e S = 0 then Inr None
      else case List.find (\<lambda>i. cmp_equal s (names_v e S ! i) p) [0..<count_v e S] of
             Some i \<Rightarrow> bindE (enum_value e S i) (\<lambda>v. Inr (Some v))
           | None \<Rightarrow> Inr None)"

definition enum_contains :: "EnumDef \<Rightarrow> enum_subtype \<Rightarrow> int \<Rightarrow> bool" where
  "enum_contains e S v \<longleftrightarrow> enum_cast_int e S v \<noteq> None"

definition enum_contains_str :: "EnumDef \<Rightarrow> enum_subtype \<Rightarrow> string \<Rightarrow> (char \<Rightarrow> char \<Rightarrow> bool) option \<Rightarrow> bool res" where
  "enum_contains_str e S s p = bindE (enum_cast_str e S s p) (\<lambda>v. Inr (v \<noteq> None))"

lemma find_index: "List.find (\<lambda>i. xs ! i = v) [0..<length xs] = (if v \<in> set xs then Some (index_of xs v) else None)"
proof (cases "v \<in> set xs")
  case True
  have "xs ! j \<noteq> v" if "j < index_of xs v" for j
  proof -
    have "xs ! j = takeWhile (\<lambda>y. y \<noteq> v) xs ! j" using that by (simp add: index_of_def takeWhile_nth)
    moreover have "takeWhile (\<lambda>y. y \<noteq> v) xs ! j \<in> set (takeWhile (\<lambda>y. y \<noteq> v) xs)"
      using that by (intro nth_mem) (simp add: index_of_def)
    ultimately show ?thesis by (metis set_takeWhileD)
  qed
  moreover have "[0..<length xs] ! j = j" if "j \<le> index_of xs v" for j
    using that index_of_less [OF True] by simp
  ultimately have "List.find (\<lambda>i. xs ! i = v) [0..<length xs] = Some (index_of xs v)"
    unfolding find_Some_iff using index_of_less [OF True] nth_index_of [OF True]
    by (intro exI [of _ "index_of xs v"]) simp
  with True show ?thesis by simp
qed (auto simp: find_None_iff in_set_conv_nth)

lemma enum_value_search:
  assumes "enum_ok e S"
  shows "List.find (\<lambda>i. enum_value e S i = Inr v) [0..<count_v e S] =
    (if v \<in> set (values_v e S) then Some (index_of (values_v e S) v) else None)"
proof -
  have "List.find (\<lambda>i. enum_value e S i = Inr v) [0..<count_v e S] =
      List.find (\<lambda>i. values_v e S ! i = v) [0..<length (values_v e S)]"
    by (rule find_cong) (auto simp: enum_value_eq [OF assms] count_v_def)
  then show ?thesis by (simp add: find_index)
qed

text \<open>Where the values are an interval, the bounds decide.\<close>

lemma dense_values:
  assumes ok: "enum_ok e common_enum" and dense: "\<not> is_sparse e common_enum" and pos: "count_v e common_enum \<noteq> 0"
  shows "min_v e common_enum \<le> v \<and> v \<le> max_v e common_enum \<longleftrightarrow> v \<in> set (values_v e common_enum)"
    "v \<in> set (values_v e common_enum) \<Longrightarrow> index_of (values_v e common_enum) v = nat (v - min_v e common_enum)"
proof -
  let ?vs = "values_v e common_enum" and ?ks = "valid_indices e common_enum"
  have ne: "?vs \<noteq> []" using pos by (auto simp: count_v_def)
  then have mn: "min_v e common_enum = candidate e common_enum (hd ?ks)"
    using ne by (simp add: min_v_def count_v_def values_v_eq [OF ok] hd_map)
  have nth: "?vs ! i = min_v e common_enum + int i" if "i < length ?vs" for i
    using not_sparse_contiguous [OF ok dense, of i] that
    by (simp add: count_v_def values_v_eq [OF ok] mn candidate_def)
  have mx: "max_v e common_enum = min_v e common_enum + int (length ?vs - 1)"
    using nth [of "length ?vs - 1"] ne by (simp add: max_v_def count_v_def last_conv_nth)
  show iff: "min_v e common_enum \<le> v \<and> v \<le> max_v e common_enum \<longleftrightarrow> v \<in> set ?vs"
  proof
    assume v: "min_v e common_enum \<le> v \<and> v \<le> max_v e common_enum"
    let ?i = "nat (v - min_v e common_enum)"
    have "?i < length ?vs" using v mx ne by (cases ?vs) auto
    with nth [of ?i] v nth_mem [of ?i ?vs] show "v \<in> set ?vs" by simp
  next
    assume "v \<in> set ?vs"
    then obtain i where "i < length ?vs" "v = min_v e common_enum + int i" using nth by (auto simp: in_set_conv_nth)
    then show "min_v e common_enum \<le> v \<and> v \<le> max_v e common_enum" using mx by auto
  qed
  assume "v \<in> set ?vs"
  then obtain i where i: "i < length ?vs" "v = ?vs ! i" by (auto simp: in_set_conv_nth)
  then show "index_of ?vs v = nat (v - min_v e common_enum)"
    using index_of_nth [OF values_sorted(2) [OF ok] i(1)] nth by simp
qed

lemma enum_index_eq:
  assumes ok: "enum_ok e S"
  shows "enum_index e S v = (if v \<in> set (values_v e S) then Some (index_of (values_v e S) v) else None)"
proof (cases "count_v e S = 0 \<or> is_sparse e S \<or> S = flags_enum")
  case True
  then show ?thesis using enum_value_search [OF ok, of v] by (auto simp: enum_index_def count_v_def)
next
  case False
  then have S: "S = common_enum" by (cases S) auto
  from False ok have "v \<ge> min_v e S \<and> v \<le> max_v e S \<longleftrightarrow> v \<in> set (values_v e S)"
    "v \<in> set (values_v e S) \<Longrightarrow> index_of (values_v e S) v = nat (v - min_v e S)"
    using dense_values unfolding S by blast+
  with False show ?thesis by (auto simp: enum_index_def)
qed

lemma enum_cast_int_eq:
  assumes ok: "enum_ok e S"
  shows "enum_cast_int e S v = (if v \<in> set (values_v e S) then Some v else None)"
proof (cases "count_v e S = 0 \<or> is_sparse e S \<or> S = flags_enum")
  case True
  then show ?thesis using enum_value_search [OF ok, of v] by (auto simp: enum_cast_int_def count_v_def)
next
  case False
  then have S: "S = common_enum" by (cases S) auto
  from False ok have "v \<ge> min_v e S \<and> v \<le> max_v e S \<longleftrightarrow> v \<in> set (values_v e S)"
    using dense_values(1) unfolding S by blast
  with False show ?thesis by (auto simp: enum_cast_int_def)
qed

lemma enum_name_eq:
  assumes "enum_ok e S"
  shows "enum_name e S v = (if v \<in> set (values_v e S) then enum_name_v e v else [])"
  using nth_index_of [of v "values_v e S"] index_of_less [of v "values_v e S"]
  by (simp add: enum_name_def enum_index_eq [OF assms] names_v_def)


text \<open>A name is looked for in the order of the values; the first that agrees is taken.\<close>

lemma find_upt: "List.find P [0..<n] = Some i \<Longrightarrow> i < n \<and> P i"
  by (auto simp: find_Some_iff)

lemma find_eq: "v \<in> set xs \<Longrightarrow> List.find (\<lambda>u. v = u) xs = Some v"
  by (induction xs) auto

lemma enum_cast_str_eq:
  assumes ok: "enum_ok e S"
  shows "enum_cast_str e S s p =
    (case List.find (\<lambda>v. cmp_equal s (enum_name_v e v) p) (values_v e S) of None \<Rightarrow> Inr None | Some v \<Rightarrow> Inr (Some v))"
proof -
  let ?vs = "values_v e S"
  have idx: "List.find (\<lambda>i. cmp_equal s (names_v e S ! i) p) [0..<count_v e S] =
      List.find (\<lambda>i. cmp_equal s (enum_name_v e (?vs ! i)) p) [0..<length ?vs]"
    by (rule find_cong) (auto simp: names_v_def count_v_def)
  have "List.find (\<lambda>v. cmp_equal s (enum_name_v e v) p) ?vs = map_option ((!) ?vs)
      (List.find (\<lambda>i. cmp_equal s (enum_name_v e (?vs ! i)) p) [0..<length ?vs])"
  proof -
    have "List.find P (map f xs) = map_option f (List.find (\<lambda>x. P (f x)) xs)" for P :: "int \<Rightarrow> bool" and f :: "nat \<Rightarrow> int" and xs
      by (induction xs) auto
    from this [of "\<lambda>v. cmp_equal s (enum_name_v e v) p" "(!) ?vs" "[0..<length ?vs]"] show ?thesis by (simp add: map_nth)
  qed
  moreover have "enum_value e S i = Inr (?vs ! i)"
    if "List.find (\<lambda>i. cmp_equal s (enum_name_v e (?vs ! i)) p) [0..<length ?vs] = Some i" for i
    using find_upt [OF that] by (simp add: enum_value_eq [OF ok] count_v_def)
  ultimately show ?thesis
    unfolding enum_cast_str_def idx by (auto simp: count_v_def split: option.splits)
qed

section \<open>An enumeration as GCC shows it\<close>

definition gcc_pretty :: "string \<Rightarrow> string \<Rightarrow> (int \<Rightarrow> string option) \<Rightarrow> int \<Rightarrow> string" where
  "gcc_pretty scope type ids v = pretty_prefix @ (case ids v of
     Some s \<Rightarrow> scope @ type @ ''::'' @ s | None \<Rightarrow> ''('' @ scope @ type @ '')'' @ decimal_int v) @ '']''"

definition gcc_enum :: "int_type \<Rightarrow> string \<Rightarrow> string \<Rightarrow> (int \<Rightarrow> string option) \<Rightarrow> EnumDef" where
  "gcc_enum u scope type ids = \<lparr>underlying = u, range_min = MAGIC_ENUM_RANGE_MIN, range_max = MAGIC_ENUM_RANGE_MAX,
     flags_declared = None, custom_name = (\<lambda>v. default_tag), pretty = gcc_pretty scope type ids\<rparr>"

lemma gcc_enum_reflects:
  assumes "\<And>v s. ids v = Some s \<Longrightarrow> is_ident s" and "is_ident type"
    and "scope = [] \<or> hd scope \<noteq> CHR '':'' \<and> hd scope \<noteq> CHR ''(''"
  shows "reflects (gcc_enum u scope type ids) ids"
proof -
  have "enumerator_text (gcc_pretty scope type ids v) s" if "ids v = Some s" for v s
  proof -
    have "hd (scope @ type @ ''::'') \<noteq> CHR '':'' \<and> hd (scope @ type @ ''::'') \<noteq> CHR ''(''"
      using assms(2,3) by (cases scope; cases type) (auto simp: is_ident_def)
    then show ?thesis
      using assms(1) [OF that] that
      by (auto simp: enumerator_text_def gcc_pretty_def intro!: exI [of _ "scope @ type @ ''::''"])
  qed
  moreover have "\<exists>rest. gcc_pretty scope type ids v = pretty_prefix @ ''('' @ rest @ '']''" if "ids v = None" for v
    using that by (auto simp: gcc_pretty_def)
  ultimately show ?thesis by (auto simp: reflects_def gcc_enum_def split: option.splits)
qed

section \<open>Type names and operators\<close>

text \<open>The name of the type, from the text of \<open>n<E>()\<close>.\<close>

definition type_n_of :: "string \<Rightarrow> string" where
  "type_n_of txt =
     (let (off, sz) = (if last txt = CHR '']'' then (49, length txt - 50) else (37, length txt - 40));
          p = last_colon txt off sz;
          (off, sz) = (if p > 0 then (off + p, sz - p) else (off, sz))
      in take sz (drop off txt))"

definition type_name :: "customize \<Rightarrow> string \<Rightarrow> string" where
  "type_name custom txt = (case custom of
     custom_tag name \<Rightarrow> name
   | invalid_tag \<Rightarrow> []
   | default_tag \<Rightarrow> type_n_of txt)"

text \<open>The bitwise operators on enumerators, on the underlying type.\<close>

definition enum_not :: "EnumDef \<Rightarrow> int \<Rightarrow> int" where
  "enum_not e rhs = to_U (underlying e) (NOT rhs)"

definition enum_or :: "EnumDef \<Rightarrow> int \<Rightarrow> int \<Rightarrow> int" where
  "enum_or e lhs rhs = to_U (underlying e) (lhs OR rhs)"

definition enum_and :: "EnumDef \<Rightarrow> int \<Rightarrow> int \<Rightarrow> int" where
  "enum_and e lhs rhs = to_U (underlying e) (lhs AND rhs)"

definition enum_xor :: "EnumDef \<Rightarrow> int \<Rightarrow> int \<Rightarrow> int" where
  "enum_xor e lhs rhs = to_U (underlying e) (lhs XOR rhs)"

text \<open>On an unsigned type other than \<open>bool\<close> complementing twice gives the value back; De Morgan.\<close>

lemma enum_not_not:
  assumes "underlying e = UUnsigned w" "in_U (underlying e) x" "in_U (underlying e) y"
  shows "enum_not e (enum_not e x) = x" "enum_not e (enum_or e x y) = enum_and e (enum_not e x) (enum_not e y)"
proof -
  have id: "take_bit w x = x" "take_bit w y = y" using assms to_U_id by (metis to_U.simps(3))+
  show "enum_not e (enum_not e x) = x"
    using id(1) by (simp add: enum_not_def assms(1) take_bit_not_take_bit)
  show "enum_not e (enum_or e x y) = enum_and e (enum_not e x) (enum_not e y)"
    by (rule bit_eqI) (auto simp: enum_not_def enum_or_def enum_and_def assms(1) bit_take_bit_iff bit_not_iff bit_or_iff bit_and_iff)
qed

text \<open>The name of a type as GCC shows it.\<close>

lemma type_name_gcc:
  assumes "is_ident type" "scope = [] \<or> last scope = CHR '':''" "length scope \<noteq> 1"
  shows "type_name default_tag (''constexpr auto magic_enum::detail::n() [with E = '' @ scope @ type @ '']'') = type"
proof -
  define pre where "pre = ''constexpr auto magic_enum::detail::n() [with E = ''"
  have pre: "length pre = 49" by (simp add: pre_def)
  define shown where "shown = pre @ scope @ type @ '']''"
  have char_at: "shown ! (49 + j) = (scope @ type @ '']'') ! j" for j
    unfolding shown_def nth_append pre by simp
  have beyond: "shown ! (49 + j) \<noteq> CHR '':''" if "length scope \<le> j" "j \<le> length scope + length type" for j
  proof (cases "j = length scope + length type")
    case False
    with that have "(scope @ type @ '']'') ! j = type ! (j - length scope)" "j - length scope < length type"
      by (auto simp: nth_append)
    with assms(1) char_at show ?thesis unfolding is_ident_def by (metis nth_mem)
  qed (simp add: char_at nth_append)
  have len: "length shown - 50 = length scope + length type" "last shown = CHR '']''" by (simp_all add: shown_def pre)
  have "last_colon shown 49 (length scope + length type) = length scope"
  proof (cases "scope = []")
    case True
    then show ?thesis using beyond by (simp add: last_colon_none)
  next
    case False
    let ?k = "length scope - 1"
    have "shown ! (49 + ?k) = CHR '':''" "0 < ?k"
      using False assms(2,3) by (simp_all add: char_at nth_append last_conv_nth) (cases scope; simp)
    then have "last_colon shown 49 (length scope + length type) = Suc ?k"
      by (rule last_colon_at) (use beyond in auto)
    then show ?thesis using False by simp
  qed
  then have "type_n_of shown = type"
    using len by (cases "scope = []") (simp_all add: type_n_of_def Let_def shown_def pre)
  then show ?thesis by (simp add: type_name_def shown_def pre_def)
qed

section \<open>Properties\<close>

text \<open>Every value of the table has its enumerator's identifier for a name.\<close>

lemma values_have_names:
  assumes ok: "enum_ok e S" and ids: "reflects e ids" and u: "u \<in> set (values_v e S)"
  shows "\<exists>s. ids u = Some s \<and> s \<noteq> [] \<and> enum_name_v e u = s"
proof -
  obtain i where i: "i < range_size e S" "u = candidate e S i" "is_valid e u"
    using u unfolding set_values_v [OF ok] by auto
  then have "ids u \<noteq> None"
    using reflects_name(2) [OF ids] to_U_id [OF candidate_in_U [OF ok i(1)]] by simp
  then show ?thesis using reflects_name(1,3) [OF ids] by fastforce
qed

text \<open>The table is exactly the named values of the range, in ascending order.\<close>

lemma values_named:
  assumes ok: "enum_ok e common_enum" and ids: "reflects e ids"
  shows "v \<in> set (values_v e common_enum) \<longleftrightarrow>
    max (range_min e) (U_min (underlying e)) \<le> v \<and> v \<le> min (range_max e) (U_max (underlying e)) \<and> ids v \<noteq> None"
proof -
  note bounds = reflected_common [OF ok]
  let ?mn = "reflected_min e common_enum"
  have valid: "is_valid e (candidate e common_enum i) \<longleftrightarrow> ids (candidate e common_enum i) \<noteq> None"
    if "i < range_size e common_enum" for i
    using reflects_name(2) [OF ids] to_U_id [OF candidate_in_U [OF ok that]] by simp
  have "v \<in> set (values_v e common_enum) \<longleftrightarrow> (\<exists>i < range_size e common_enum. v = ?mn + int i \<and> ids v \<noteq> None)"
    unfolding set_values_v [OF ok] using valid by (auto simp: candidate_def)
  also have "\<dots> \<longleftrightarrow> ?mn \<le> v \<and> v \<le> reflected_max e common_enum \<and> ids v \<noteq> None"
    by (auto simp: range_size_def intro!: exI [of _ "nat (v - ?mn)"])
  finally show ?thesis by (simp add: bounds)
qed

text \<open>An enumeration with a gap.\<close>

definition lamp_ids :: "int \<Rightarrow> string option" where
  "lamp_ids v = (if v = 1 then Some ''red'' else if v = 3 then Some ''blue'' else None)"

definition lamp :: EnumDef where
  "lamp = gcc_enum (USigned 32) ''road::'' ''Lamp'' lamp_ids"

lemma lamp_reflects: "reflects lamp lamp_ids"
  unfolding lamp_def by (rule gcc_enum_reflects) (auto simp: lamp_ids_def is_ident_def split: if_splits)

lemma gcc_enum_sel [simp]:
  "underlying (gcc_enum u scope type ids) = u" "range_min (gcc_enum u scope type ids) = - 128"
  "range_max (gcc_enum u scope type ids) = 127" "flags_declared (gcc_enum u scope type ids) = None"
  by (simp_all add: gcc_enum_def MAGIC_ENUM_RANGE_MIN_def MAGIC_ENUM_RANGE_MAX_def)

lemma gcc_enum_ok: "32 \<le> w \<Longrightarrow> w \<le> 64 \<Longrightarrow> enum_ok (gcc_enum (USigned w) scope type ids) common_enum"
proof -
  assume w: "32 \<le> w" "w \<le> 64"
  let ?e = "gcc_enum (USigned w) scope type ids"
  have big: "(2 :: int) ^ 31 \<le> 2 ^ (w - 1)" using w by (intro power_increasing) auto
  have i: "in_U (USigned 32) (- 128)" "in_U (USigned 32) 127" "int_type_ok (USigned w)" "int_type_ok (USigned 32)"
    using w by (simp_all add: in_U_def)
  have "reflected_min ?e common_enum = - 128 \<and> reflected_max ?e common_enum = 127"
    using cmp_less_iff [OF i(3,4) conjunct1 [OF in_U_bounds [OF i(3)]] i(1)]
      cmp_less_iff [OF i(4,3) i(2) conjunct2 [OF in_U_bounds [OF i(3)]]] big
    by (simp add: reflected_min_def reflected_max_def)
  then show ?thesis using w by (simp add: enum_ok_def in_int_def)
qed

lemma lamp_ok: "enum_ok lamp common_enum"
  by (simp add: lamp_def gcc_enum_ok)

lemma gcc_values:
  assumes ok: "enum_ok (gcc_enum (USigned 32) scope type ids) common_enum" and ids: "reflects (gcc_enum (USigned 32) scope type ids) ids"
    and xs: "sorted_wrt (<) xs" "\<And>v. v \<in> set xs \<longleftrightarrow> - 128 \<le> v \<and> v \<le> 127 \<and> ids v \<noteq> None"
  shows "values_v (gcc_enum (USigned 32) scope type ids) common_enum = xs"
proof (rule strict_sorted_equal)
  show "set (values_v (gcc_enum (USigned 32) scope type ids) common_enum) = set xs"
    using values_named [OF ok ids] xs(2) by auto
qed (use xs(1) values_sorted(1) [OF ok] in auto)

lemma lamp_values: "values_v lamp common_enum = [1, 3]"
  unfolding lamp_def
  by (rule gcc_values [OF lamp_ok [unfolded lamp_def] lamp_reflects [unfolded lamp_def]]) (auto simp: lamp_ids_def)

text \<open>
  \<open>enum_name\<close> returns the identifier of the enumerator with the given value when the value
  lies in the range that is searched and in the underlying type, and the empty text for every
  other value; the table it uses holds exactly these values in ascending order. Enumerators beyond
  the range have no name at run time.
\<close>

theorem enum_name_exact:
  assumes ok: "enum_ok e common_enum" and ids: "reflects e ids"
  shows "enum_name e common_enum v =
      (if max (range_min e) (U_min (underlying e)) \<le> v \<and> v \<le> min (range_max e) (U_max (underlying e))
       then (case ids v of None \<Rightarrow> [] | Some s \<Rightarrow> s) else []) \<and>
    sorted_wrt (<) (values_v e common_enum)"
  using values_named [OF ok ids, of v] reflects_name(1) [OF ids, of v] values_sorted(1) [OF ok]
  by (auto simp: enum_name_eq [OF ok])

theorem enum_name_exact_witness:
  "enum_name lamp common_enum 3 = ''blue'' \<and> enum_name lamp common_enum 2 = []"
  using enum_name_exact [OF lamp_ok lamp_reflects, of 3] enum_name_exact [OF lamp_ok lamp_reflects, of 2]
  by (simp add: lamp_ids_def lamp_def)

text \<open>
  The short cuts agree with a search: whether the table is sparse or not, common or flags, an
  index is the position of the value in the table, the value at an index is the entry there, a
  number is cast exactly when it is in the table, and out of range an index fails its assertion.
\<close>

theorem enum_lookup_exact:
  assumes "enum_ok e S"
  shows "enum_index e S v = (if v \<in> set (values_v e S) then Some (index_of (values_v e S) v) else None) \<and>
    enum_cast_int e S v = (if v \<in> set (values_v e S) then Some v else None) \<and>
    enum_value e S i = (if i < count_v e S then Inr (values_v e S ! i) else Inl AssertionFailed)"
  using enum_index_eq [OF assms] enum_cast_int_eq [OF assms] enum_value_eq [OF assms] by blast

theorem enum_lookup_exact_witness:
  "enum_index lamp common_enum 3 = Some 1 \<and> enum_cast_int lamp common_enum 2 = None \<and>
   enum_value lamp common_enum 0 = Inr 1 \<and> enum_value lamp common_enum 2 = Inl AssertionFailed"
  using enum_lookup_exact [OF lamp_ok, of 3 0] enum_lookup_exact [OF lamp_ok, of 2 2]
  by (simp add: lamp_values index_of_def count_v_def)

lemma enum_cast_name:
  assumes ok: "enum_ok e S" and ids: "reflects e ids"
    and distinct: "\<And>v v' s. ids v = Some s \<Longrightarrow> ids v' = Some s \<Longrightarrow> v = v'"
    and v: "v \<in> set (values_v e S)"
  shows "enum_cast_str e S (enum_name e S v) None = Inr (Some v)"
proof -
  have "enum_name e S v = enum_name_v e u \<longleftrightarrow> v = u" if "u \<in> set (values_v e S)" for u
    using values_have_names [OF ok ids that] values_have_names [OF ok ids v] distinct v
    by (auto simp: enum_name_eq [OF ok])
  then have "List.find (\<lambda>u. cmp_equal (enum_name e S v) (enum_name_v e u) None) (values_v e S) =
      List.find (\<lambda>u. v = u) (values_v e S)"
    by (intro find_cong) auto
  also have "\<dots> = Some v" by (rule find_eq [OF v])
  finally show ?thesis by (simp add: enum_cast_str_eq [OF ok])
qed

text \<open>
  Casting the name of a value gives the value back, when enumerators have different names;
  the empty name of a value that is not in the table is no name.
\<close>

theorem enum_cast_roundtrip:
  assumes ok: "enum_ok e S" and ids: "reflects e ids"
    and distinct: "\<And>v v' s. ids v = Some s \<Longrightarrow> ids v' = Some s \<Longrightarrow> v = v'"
  shows "enum_cast_str e S (enum_name e S v) None = Inr (if v \<in> set (values_v e S) then Some v else None)"
proof (cases "v \<in> set (values_v e S)")
  case True
  then show ?thesis using enum_cast_name [OF ok ids distinct] by simp
next
  case False
  then have "List.find (\<lambda>u. cmp_equal (enum_name e S v) (enum_name_v e u) None) (values_v e S) = None"
    using values_have_names [OF ok ids] by (fastforce simp: find_None_iff enum_name_eq [OF ok])
  with False show ?thesis by (simp add: enum_cast_str_eq [OF ok])
qed

theorem enum_cast_roundtrip_witness:
  "enum_cast_str lamp common_enum ''blue'' None = Inr (Some 3)"
proof -
  have "enum_cast_str lamp common_enum (enum_name lamp common_enum 3) None =
      Inr (if (3 :: int) \<in> set (values_v lamp common_enum) then Some 3 else None)"
    by (rule enum_cast_roundtrip [OF lamp_ok lamp_reflects]) (auto simp: lamp_ids_def split: if_splits)
  then show ?thesis
    using reflects_name(1) [OF lamp_reflects, of 3] by (simp add: enum_name_eq [OF lamp_ok] lamp_values lamp_ids_def)
qed

end
