(* ===== verification/MagicFlags.thy ===== *)
theory MagicFlags
  imports MagicEnum
begin

text \<open>
  \<open>lib/magic_enum/magic_enum_flags.hpp\<close>: values that are sets of flags, one bit each. Their names
  are the names of the flags with a separator between them.
\<close>

section \<open>The functions\<close>

text \<open>The loop of \<open>enum_flags_name\<close>; \<open>None\<close> is its early return of the empty text.\<close>

fun flags_name_loop :: "EnumDef \<Rightarrow> int \<Rightarrow> char \<Rightarrow> nat list \<Rightarrow> int \<Rightarrow> string \<Rightarrow> (int \<times> string) option res" where
  "flags_name_loop e x sep [] check_value name = Inr (Some (check_value, name))"
| "flags_name_loop e x sep (i # is) check_value name =
     bindE (enum_value e flags_enum i) (\<lambda>v.
       if x AND v \<noteq> 0
       then (let n = names_v e flags_enum ! i in
         if n \<noteq> [] then flags_name_loop e x sep is (check_value OR v) ((if name \<noteq> [] then name @ [sep] else name) @ n)
         else Inr None)
       else flags_name_loop e x sep is check_value name)"

definition enum_flags_name :: "EnumDef \<Rightarrow> int \<Rightarrow> char \<Rightarrow> string res" where
  "enum_flags_name e x sep =
     bindE (flags_name_loop e x sep [0..<count_v e flags_enum] 0 []) (\<lambda>r. case r of
         None \<Rightarrow> Inr []
       | Some (check_value, name) \<Rightarrow> Inr (if check_value \<noteq> 0 \<and> check_value = x then name else []))"

definition enum_flags_cast_int :: "EnumDef \<Rightarrow> int \<Rightarrow> int option res" where
  "enum_flags_cast_int e x =
     (if count_v e flags_enum = 0 then Inr None
      else if is_sparse e flags_enum
      then bindE (foldE (\<lambda>i check_value. bindE (enum_value e flags_enum i) (\<lambda>v.
               Inr (if x AND v \<noteq> 0 then check_value OR v else check_value))) [0..<count_v e flags_enum] 0) (\<lambda>check_value.
             Inr (if check_value \<noteq> 0 \<and> check_value = x then Some x else None))
      else let mn = min_v e flags_enum; mx = values_ors e
           in Inr (if x \<ge> mn \<and> x \<le> mx then Some x else None))"

text \<open>The loop over the parts between the bars.\<close>

function flags_parse :: "EnumDef \<Rightarrow> (char \<Rightarrow> char \<Rightarrow> bool) option \<Rightarrow> string \<Rightarrow> int \<Rightarrow> int option res" where
  "flags_parse e p value result =
     (if value = [] then Inr (if result \<noteq> 0 then Some result else None)
      else let d = sv_find value CHR ''|'';
               s = (case d of None \<Rightarrow> value | Some i \<Rightarrow> take i value)
           in case List.find (\<lambda>i. cmp_equal s (names_v e flags_enum ! i) p) [0..<count_v e flags_enum] of
                None \<Rightarrow> Inr None
              | Some i \<Rightarrow> bindE (enum_value e flags_enum i) (\<lambda>f.
                  if f = 0 then Inr None
                  else flags_parse e p (drop (case d of None \<Rightarrow> length value | Some i \<Rightarrow> i + 1) value) (result OR f)))"
  by auto
termination
  by (relation "measure (\<lambda>(e, p, value, result). length value)") (auto split: option.splits)

declare flags_parse.simps [simp del]

definition enum_flags_cast_str :: "EnumDef \<Rightarrow> string \<Rightarrow> (char \<Rightarrow> char \<Rightarrow> bool) option \<Rightarrow> int option res" where
  "enum_flags_cast_str e value p = (if count_v e flags_enum = 0 then Inr None else flags_parse e p value 0)"

definition enum_flags_contains :: "EnumDef \<Rightarrow> int \<Rightarrow> bool res" where
  "enum_flags_contains e x = bindE (enum_flags_cast_int e x) (\<lambda>r. Inr (r \<noteq> None))"

definition enum_flags_contains_str :: "EnumDef \<Rightarrow> string \<Rightarrow> (char \<Rightarrow> char \<Rightarrow> bool) option \<Rightarrow> bool res" where
  "enum_flags_contains_str e value p = bindE (enum_flags_cast_str e value p) (\<lambda>r. Inr (r \<noteq> None))"

definition enum_flags_test :: "int \<Rightarrow> int \<Rightarrow> bool" where
  "enum_flags_test flags flag \<longleftrightarrow> flag \<noteq> 0 \<and> flags AND flag = flag"

definition enum_flags_test_any :: "int \<Rightarrow> int \<Rightarrow> bool" where
  "enum_flags_test_any lhs rhs \<longleftrightarrow> lhs AND rhs \<noteq> 0"

section \<open>Flags as bits\<close>

text \<open>The positions of the flags, and the sets of flags: the numbers with no other bit.\<close>

definition flag_bits :: "EnumDef \<Rightarrow> nat set" where
  "flag_bits e = set (valid_indices e flags_enum)"

definition covered :: "EnumDef \<Rightarrow> int \<Rightarrow> bool" where
  "covered e x \<longleftrightarrow> (\<forall>k. bit x k \<longrightarrow> k \<in> flag_bits e)"

definition ors_of :: "int list \<Rightarrow> int" where
  "ors_of vs = fold (\<lambda>v ors. ors OR v) vs 0"

definition flags_in :: "EnumDef \<Rightarrow> int \<Rightarrow> int list" where
  "flags_in e x = filter (\<lambda>v. x AND v \<noteq> 0) (values_v e flags_enum)"

lemma bit_power: "bit ((2 :: int) ^ k) j \<longleftrightarrow> j = k"
  by (auto simp: bit_exp_iff)

lemma and_power: "x AND 2 ^ k \<noteq> 0 \<longleftrightarrow> bit (x :: int) k"
proof -
  have "x AND 2 ^ k = of_bool (bit x k) * 2 ^ k"
    by (rule bit_eqI) (auto simp: bit_and_iff bit_power bit_0_eq)
  then show ?thesis by simp
qed

lemma fold_ors: "bit (fold (\<lambda>v ors. ors OR v) (map ((^) 2) ks) (a :: int)) j \<longleftrightarrow> bit a j \<or> j \<in> set ks"
  by (induction ks arbitrary: a) (auto simp: bit_or_iff bit_power)

lemma bit_ors_of: "bit (ors_of (map ((^) 2) ks)) j \<longleftrightarrow> j \<in> set ks"
  by (simp add: ors_of_def fold_ors)

lemma fold_ors_acc: "fold (\<lambda>v ors. ors OR v) vs (a :: int) = a OR ors_of vs"
proof (induction vs arbitrary: a)
  case (Cons v vs)
  have "fold (\<lambda>v ors. ors OR v) vs v = v OR ors_of vs" by (rule Cons)
  with Cons [of "a OR v"] show ?case by (simp add: ors_of_def or.assoc)
qed (simp add: ors_of_def)

lemma flags_values: "enum_ok e flags_enum \<Longrightarrow> values_v e flags_enum = map ((^) 2) (valid_indices e flags_enum)"
  by (simp add: values_v_eq candidate_def)

lemma flags_in_eq:
  "enum_ok e flags_enum \<Longrightarrow> flags_in e x = map ((^) 2) (filter (bit x) (valid_indices e flags_enum))"
  by (simp add: flags_in_def flags_values filter_map comp_def and_power)

lemma ors_covered:
  assumes "enum_ok e flags_enum"
  shows "ors_of (flags_in e x) = x \<longleftrightarrow> covered e x"
  unfolding bit_eq_iff by (auto simp: flags_in_eq [OF assms] bit_ors_of covered_def flag_bits_def)

lemma flags_nonzero: "enum_ok e flags_enum \<Longrightarrow> v \<in> set (values_v e flags_enum) \<Longrightarrow> v \<noteq> 0"
  by (auto simp: flags_values)

lemma values_ors_eq: "values_ors e = ors_of (values_v e flags_enum)"
  by (simp add: values_ors_def ors_of_def)

section \<open>Names of sets of flags\<close>

fun join_names :: "char \<Rightarrow> string list \<Rightarrow> string" where
  "join_names sep [] = []"
| "join_names sep [n] = n"
| "join_names sep (n # n' # ns) = n @ [sep] @ join_names sep (n' # ns)"

lemma join_append: "ns \<noteq> [] \<Longrightarrow> join_names sep (ns @ [n]) = join_names sep ns @ [sep] @ n"
  by (induction sep ns rule: join_names.induct) auto

lemma join_not_Nil: "(\<And>n. n \<in> set ns \<Longrightarrow> n \<noteq> []) \<Longrightarrow> join_names sep ns = [] \<longleftrightarrow> ns = []"
  by (induction sep ns rule: join_names.induct) auto

text \<open>Every flag has a name.\<close>

definition all_named :: "EnumDef \<Rightarrow> bool" where
  "all_named e \<longleftrightarrow> (\<forall>v \<in> set (values_v e flags_enum). enum_name_v e v \<noteq> [])"

lemma flags_name_loop_eq:
  assumes ok: "enum_ok e flags_enum" and named: "all_named e" and k: "k \<le> count_v e flags_enum"
    and done_ns: "\<And>n. n \<in> set ns \<Longrightarrow> n \<noteq> []"
  shows "flags_name_loop e x sep [k..<count_v e flags_enum] check_value (join_names sep ns) =
    Inr (Some (check_value OR ors_of (filter (\<lambda>v. x AND v \<noteq> 0) (drop k (values_v e flags_enum))),
      join_names sep (ns @ map (enum_name_v e) (filter (\<lambda>v. x AND v \<noteq> 0) (drop k (values_v e flags_enum))))))"
  using k done_ns
proof (induction "count_v e flags_enum - k" arbitrary: k check_value ns)
  case 0
  then show ?case by (simp add: count_v_def ors_of_def)
next
  case (Suc m)
  let ?vs = "values_v e flags_enum"
  let ?v = "?vs ! k"
  have k: "k < count_v e flags_enum" using Suc.hyps(2) by simp
  then have up: "[k..<count_v e flags_enum] = k # [Suc k..<count_v e flags_enum]" by (simp add: upt_rec)
  have drop: "drop k ?vs = ?v # drop (Suc k) ?vs" using k by (simp add: count_v_def Cons_nth_drop_Suc)
  have val: "enum_value e flags_enum k = Inr ?v" using k by (simp add: enum_value_eq [OF ok])
  have name: "names_v e flags_enum ! k = enum_name_v e ?v" "enum_name_v e ?v \<noteq> []"
    using k named by (simp_all add: names_v_def count_v_def all_named_def)
  note IH = Suc.hyps(1) [of "Suc k"]
  show ?case
  proof (cases "x AND ?v = 0")
    case True
    then show ?thesis
      using IH [of ns check_value] Suc.hyps(2) k Suc.prems(2) by (simp add: up drop val)
  next
    case False
    let ?ns = "ns @ [enum_name_v e ?v]"
    have ns: "(if join_names sep ns \<noteq> [] then join_names sep ns @ [sep] else join_names sep ns) @ enum_name_v e ?v = join_names sep ?ns"
      using join_not_Nil [OF Suc.prems(2)] by (auto simp: join_append)
    have "flags_name_loop e x sep [Suc k..<count_v e flags_enum] (check_value OR ?v) (join_names sep ?ns) =
        Inr (Some ((check_value OR ?v) OR ors_of (filter (\<lambda>v. x AND v \<noteq> 0) (drop (Suc k) ?vs)),
          join_names sep (?ns @ map (enum_name_v e) (filter (\<lambda>v. x AND v \<noteq> 0) (drop (Suc k) ?vs)))))"
    proof (rule IH)
      show "m = count_v e flags_enum - Suc k" using Suc.hyps(2) by simp
      show "Suc k \<le> count_v e flags_enum" using k by simp
      show "n \<noteq> []" if "n \<in> set ?ns" for n using that Suc.prems(2) name(2) by auto
    qed
    moreover have "ors_of (?v # filter (\<lambda>v. x AND v \<noteq> 0) (drop (Suc k) ?vs)) = ?v OR ors_of (filter (\<lambda>v. x AND v \<noteq> 0) (drop (Suc k) ?vs))"
      using fold_ors_acc [of _ ?v] by (simp add: ors_of_def)
    ultimately show ?thesis
      using False ns name by (simp add: up drop val Let_def or.assoc)
  qed
qed

lemma enum_flags_name_eq:
  assumes ok: "enum_ok e flags_enum" and named: "all_named e"
  shows "enum_flags_name e x sep =
    Inr (if x \<noteq> 0 \<and> covered e x then join_names sep (map (enum_name_v e) (flags_in e x)) else [])"
  using flags_name_loop_eq [OF ok named, of 0 "[]" x sep 0] ors_covered [OF ok, of x]
  by (auto simp: enum_flags_name_def flags_in_def)


section \<open>Properties\<close>

subsection \<open>Names read back\<close>

lemma reflects_all_named: "enum_ok e flags_enum \<Longrightarrow> reflects e ids \<Longrightarrow> all_named e"
  using values_have_names [of e flags_enum ids] by (auto simp: all_named_def)

lemma sv_find_append: "c \<notin> set n \<Longrightarrow> sv_find (n @ c # rest) c = Some (length n)"
  by (induction n) (auto simp: sv_find_def index_of_def)

lemma sv_find_none: "c \<notin> set n \<Longrightarrow> sv_find n c = None"
  by (simp add: sv_find_def)

text \<open>What the round trip needs of the names: different flags have different ones, without a bar.\<close>

definition names_parse :: "EnumDef \<Rightarrow> bool" where
  "names_parse e \<longleftrightarrow> all_named e \<and> inj_on (enum_name_v e) (set (values_v e flags_enum)) \<and>
     (\<forall>v \<in> set (values_v e flags_enum). CHR ''|'' \<notin> set (enum_name_v e v))"

lemma find_flag:
  assumes "enum_ok e flags_enum" "names_parse e" and v: "v \<in> set (values_v e flags_enum)"
  obtains i where "List.find (\<lambda>i. cmp_equal (enum_name_v e v) (names_v e flags_enum ! i) None) [0..<count_v e flags_enum] = Some i"
    "enum_value e flags_enum i = Inr v"
proof -
  let ?vs = "values_v e flags_enum"
  have "List.find (\<lambda>i. cmp_equal (enum_name_v e v) (names_v e flags_enum ! i) None) [0..<count_v e flags_enum] =
      List.find (\<lambda>i. ?vs ! i = v) [0..<length ?vs]"
    using assms(2) v by (intro find_cong) (auto simp: count_v_def names_v_def names_parse_def inj_on_eq_iff)
  then have "List.find (\<lambda>i. cmp_equal (enum_name_v e v) (names_v e flags_enum ! i) None) [0..<count_v e flags_enum] =
      Some (index_of ?vs v)" using v by (simp add: find_index)
  moreover have "enum_value e flags_enum (index_of ?vs v) = Inr v"
    using v index_of_less [OF v] nth_index_of [OF v] by (simp add: enum_value_eq [OF assms(1)] count_v_def)
  ultimately show thesis by (rule that)
qed

lemma flags_parse_join:
  assumes ok: "enum_ok e flags_enum" and names: "names_parse e"
  shows "vs \<noteq> [] \<Longrightarrow> set vs \<subseteq> set (values_v e flags_enum) \<Longrightarrow>
    flags_parse e None (join_names CHR ''|'' (map (enum_name_v e) vs)) r = flags_parse e None [] (r OR ors_of vs)"
proof (induction vs arbitrary: r)
  case (Cons v vs)
  have v: "v \<in> set (values_v e flags_enum)" using Cons.prems by simp
  then have n: "enum_name_v e v \<noteq> []" "CHR ''|'' \<notin> set (enum_name_v e v)"
    using names by (auto simp: names_parse_def all_named_def)
  obtain i where i: "List.find (\<lambda>i. cmp_equal (enum_name_v e v) (names_v e flags_enum ! i) None) [0..<count_v e flags_enum] = Some i"
    "enum_value e flags_enum i = Inr v"
    by (rule find_flag [OF ok names v])
  have v0: "v \<noteq> 0" by (rule flags_nonzero [OF ok v])
  show ?case
  proof (cases vs)
    case Nil
    then show ?thesis
      using n i v0 by (subst flags_parse.simps) (simp add: sv_find_none ors_of_def)
  next
    case (Cons v' vs')
    define rest where "rest = join_names CHR ''|'' (map (enum_name_v e) vs)"
    have whole: "join_names CHR ''|'' (map (enum_name_v e) (v # vs)) = enum_name_v e v @ CHR ''|'' # rest"
      by (simp add: Cons rest_def)
    have "flags_parse e None (enum_name_v e v @ CHR ''|'' # rest) r = flags_parse e None rest (r OR v)"
      using n i v0 by (subst flags_parse.simps) (simp add: sv_find_append Let_def)
    also have "\<dots> = flags_parse e None [] ((r OR v) OR ors_of vs)"
      unfolding rest_def using Cons.prems Cons by (intro Cons.IH) auto
    also have "(r OR v) OR ors_of vs = r OR ors_of (v # vs)"
      using fold_ors_acc [of vs v] by (simp add: ors_of_def or.assoc)
    finally show ?thesis using whole by simp
  qed
qed simp

lemma names_parse_reflects:
  assumes ok: "enum_ok e flags_enum" and ids: "reflects e ids"
    and distinct: "\<And>v v' s. ids v = Some s \<Longrightarrow> ids v' = Some s \<Longrightarrow> v = v'"
    and bar: "\<And>v s. ids v = Some s \<Longrightarrow> CHR ''|'' \<notin> set s"
  shows "names_parse e"
  unfolding names_parse_def inj_on_def
  using reflects_all_named [OF ok ids] values_have_names [OF ok ids] distinct bar by metis

lemma flags_name_cast:
  assumes ok: "enum_ok e flags_enum" and names: "names_parse e" and x: "x \<noteq> 0" "covered e x"
  shows "enum_flags_cast_str e (join_names CHR ''|'' (map (enum_name_v e) (flags_in e x))) None = Inr (Some x)"
proof -
  have "ors_of (flags_in e x) = x" using ors_covered [OF ok] x by simp
  moreover from this have "flags_in e x \<noteq> []" using x(1) by (auto simp: ors_of_def)
  moreover have "set (flags_in e x) \<subseteq> set (values_v e flags_enum)" by (auto simp: flags_in_def)
  ultimately show ?thesis
    using flags_parse_join [OF ok names, where vs = "flags_in e x" and r = 0] x(1)
    by (auto simp: flags_parse.simps [of _ _ "[]"] count_v_def enum_flags_cast_str_def)
qed

text \<open>
  A value that is a non-empty set of flags has as its name the names of these flags in
  ascending order with bars between them, and casting this name gives the value back; every other
  value, zero and values with a bit that is no flag, has the empty name, which is cast to nothing.
\<close>

theorem flags_roundtrip:
  assumes ok: "enum_ok e flags_enum" and ids: "reflects e ids"
    and distinct: "\<And>v v' s. ids v = Some s \<Longrightarrow> ids v' = Some s \<Longrightarrow> v = v'"
    and bar: "\<And>v s. ids v = Some s \<Longrightarrow> CHR ''|'' \<notin> set s"
  shows "enum_flags_name e x CHR ''|'' =
      Inr (if x \<noteq> 0 \<and> covered e x then join_names CHR ''|'' (map (enum_name_v e) (flags_in e x)) else []) \<and>
    bindE (enum_flags_name e x CHR ''|'') (\<lambda>s. enum_flags_cast_str e s None) =
      Inr (if x \<noteq> 0 \<and> covered e x then Some x else None)"
proof -
  note names = names_parse_reflects [OF ok ids distinct bar]
  have name: "enum_flags_name e x CHR ''|'' =
      Inr (if x \<noteq> 0 \<and> covered e x then join_names CHR ''|'' (map (enum_name_v e) (flags_in e x)) else [])"
    using enum_flags_name_eq [OF ok] names by (simp add: names_parse_def)
  have "enum_flags_cast_str e [] None = Inr None" by (simp add: enum_flags_cast_str_def flags_parse.simps)
  then show ?thesis using flags_name_cast [OF ok names] by (simp add: name)
qed

subsection \<open>An enumeration of flags\<close>

definition colours :: "nat \<Rightarrow> int \<Rightarrow> string option" where
  "colours k v =
     (if v = 2 ^ k then Some ''red'' else if v = 2 ^ (k + 1) then Some ''green''
      else if v = 2 ^ (k + 2) then Some ''blue'' else None)"

definition colour_flags :: "nat \<Rightarrow> EnumDef" where
  "colour_flags k = gcc_enum (UUnsigned 8) '''' ''colour'' (colours k)"

lemma colour_reflects: "reflects (colour_flags k) (colours k)"
  unfolding colour_flags_def by (rule gcc_enum_reflects) (auto simp: colours_def is_ident_def split: if_splits)

lemma colour_ok: "enum_ok (colour_flags k) flags_enum"
  by (simp add: enum_ok_def colour_flags_def gcc_enum_def in_int_def MAGIC_ENUM_RANGE_MIN_def MAGIC_ENUM_RANGE_MAX_def
      reflected_min_def reflected_max_def)

lemma colour_size: "range_size (colour_flags k) flags_enum = 8"
  by (simp add: range_size_def reflected_min_def reflected_max_def colour_flags_def gcc_enum_def)

lemma colour_valid: "i < 8 \<Longrightarrow> is_valid (colour_flags k) (candidate (colour_flags k) flags_enum i) \<longleftrightarrow> i = k \<or> i = k + 1 \<or> i = k + 2"
  using to_U_id [OF candidate_in_U [OF colour_ok, of i k]] power_inject_exp [of "2 :: int" i "k + 1"]
    power_inject_exp [of "2 :: int" i "k + 2"]
  by (auto simp: colour_size reflects_name(2) [OF colour_reflects] candidate_def colours_def power_add split: if_splits)

lemma colour_indices: "valid_indices (colour_flags k) flags_enum = filter (\<lambda>i. i = k \<or> i = k + 1 \<or> i = k + 2) [0..<8]"
  unfolding valid_indices_def colour_size using colour_valid by (intro filter_cong) auto

lemma colour_values: "values_v (colour_flags 0) flags_enum = [1, 2, 4]" "values_v (colour_flags 2) flags_enum = [4, 8, 16]"
  by (simp_all add: flags_values [OF colour_ok] colour_indices upt_rec)

theorem flags_roundtrip_witness:
  "enum_flags_name (colour_flags 0) 5 CHR ''|'' = Inr ''red|blue'' \<and>
   enum_flags_cast_str (colour_flags 0) ''red|blue'' None = Inr (Some 5)"
proof -
  have whole: "enum_flags_name (colour_flags 0) 5 CHR ''|'' =
      Inr (if (5 :: int) \<noteq> 0 \<and> covered (colour_flags 0) 5 then join_names CHR ''|'' (map (enum_name_v (colour_flags 0)) (flags_in (colour_flags 0) 5)) else []) \<and>
    bindE (enum_flags_name (colour_flags 0) 5 CHR ''|'') (\<lambda>s. enum_flags_cast_str (colour_flags 0) s None) =
      Inr (if (5 :: int) \<noteq> 0 \<and> covered (colour_flags 0) 5 then Some 5 else None)"
    by (rule flags_roundtrip [OF colour_ok colour_reflects]) (auto simp: colours_def split: if_splits)
  have name: "enum_name_v (colour_flags 0) v = (case colours 0 v of None \<Rightarrow> [] | Some s \<Rightarrow> s)" for v
    by (rule reflects_name(1) [OF colour_reflects])
  have fl: "flags_in (colour_flags 0) 5 = [1, 4]" by (simp add: flags_in_def colour_values)
  have "ors_of [1, 4] = (5 :: int)" by (simp add: ors_of_def)
  then have "covered (colour_flags 0) 5" using ors_covered [OF colour_ok, of 0 5] fl by simp
  with whole fl show ?thesis by (auto simp: name colours_def)
qed


subsection \<open>Casts of numbers\<close>

lemma covered_take_bit: "covered e x \<Longrightarrow> take_bit (range_size e flags_enum) x = x"
  by (rule bit_eqI) (auto simp: covered_def flag_bits_def bit_take_bit_iff dest: valid_indices_less)

lemma covered_bounds: "covered e x \<Longrightarrow> 0 \<le> x \<and> x < 2 ^ range_size e flags_enum"
  using covered_take_bit [of e x] by (metis take_bit_int_less_exp take_bit_nonnegative)

text \<open>The sparse branch collects the flags that occur.\<close>

lemma fold_flags:
  "(\<And>i. i \<in> set is \<Longrightarrow> i < count_v e flags_enum) \<Longrightarrow> enum_ok e flags_enum \<Longrightarrow>
   foldE (\<lambda>i check_value. bindE (enum_value e flags_enum i) (\<lambda>v.
     Inr (if x AND v \<noteq> 0 then check_value OR v else check_value))) is a =
   Inr (fold (\<lambda>v ors. ors OR v) (filter (\<lambda>v. x AND v \<noteq> 0) (map ((!) (values_v e flags_enum)) is)) a)"
  by (induction "is" arbitrary: a) (auto simp: enum_value_eq)

lemma sparse_check:
  assumes ok: "enum_ok e flags_enum"
  shows "foldE (\<lambda>i check_value. bindE (enum_value e flags_enum i) (\<lambda>v.
     Inr (if x AND v \<noteq> 0 then check_value OR v else check_value))) [0..<count_v e flags_enum] 0 =
   Inr (ors_of (flags_in e x))"
  using fold_flags [OF _ ok, of "[0..<count_v e flags_enum]" x 0]
  by (simp add: ors_of_def flags_in_def count_v_def map_nth)

text \<open>The flags of an enumeration that is not sparse are consecutive bits.\<close>

lemma dense_flags:
  assumes ok: "enum_ok e flags_enum" and dense: "\<not> is_sparse e flags_enum" and pos: "count_v e flags_enum \<noteq> 0"
  obtains h where "flag_bits e = {h..<h + count_v e flags_enum}" "min_v e flags_enum = 2 ^ h"
    "values_ors e = push_bit h (mask (count_v e flags_enum))"
proof -
  let ?ks = "valid_indices e flags_enum" and ?n = "count_v e flags_enum"
  have n: "?n = length ?ks" by (simp add: count_v_def flags_values [OF ok])
  have ks: "?ks = map (\<lambda>i. hd ?ks + i) [0..<?n]"
    using not_sparse_contiguous [OF ok dense] by (intro nth_equalityI) (simp_all add: n)
  have bits: "flag_bits e = {hd ?ks..<hd ?ks + ?n}"
    unfolding flag_bits_def by (subst ks) (auto simp: image_iff intro!: bexI [of _ "_ - hd ?ks"])
  have "?ks \<noteq> []" using pos n by auto
  then have mn: "min_v e flags_enum = 2 ^ hd ?ks"
    using pos by (simp add: min_v_def flags_values [OF ok] hd_map)
  have "values_ors e = push_bit (hd ?ks) (mask ?n)"
    unfolding values_ors_eq flags_values [OF ok]
    by (rule bit_eqI) (use bits in \<open>auto simp: bit_ors_of flag_bits_def bit_push_bit_iff bit_mask_iff\<close>)
  with bits mn show thesis by (rule that)
qed

text \<open>
  When the flags have gaps between them, or start at one, casting a number yields it exactly
  when it is a non-empty set of flags, that is when \<open>enum_flags_name\<close> gives it a name.
\<close>

theorem flags_cast_exact:
  assumes ok: "enum_ok e flags_enum" and "is_sparse e flags_enum \<or> min_v e flags_enum = 1"
    and "count_v e flags_enum \<noteq> 0"
  shows "enum_flags_cast_int e x = Inr (if x \<noteq> 0 \<and> covered e x then Some x else None)"
proof (cases "is_sparse e flags_enum")
  case True
  then show ?thesis
    using sparse_check [OF ok, of x] ors_covered [OF ok, of x] assms(3) by (auto simp: enum_flags_cast_int_def)
next
  case False
  let ?n = "count_v e flags_enum"
  obtain h where h: "flag_bits e = {h..<h + ?n}" "min_v e flags_enum = 2 ^ h" "values_ors e = push_bit h (mask ?n)"
    by (rule dense_flags [OF ok False assms(3)])
  have h0: "h = 0" using h(2) False assms(2) power_inject_exp [of "2 :: int" h 0] by simp
  have "covered e x \<longleftrightarrow> take_bit ?n x = x"
    unfolding bit_eq_iff by (auto simp: covered_def h(1) h0 bit_take_bit_iff)
  also have "\<dots> \<longleftrightarrow> 0 \<le> x \<and> x < 2 ^ ?n" by (rule take_bit_int_eq_self_iff)
  finally show ?thesis
    using False assms(3) h(2,3) h0 by (auto simp: enum_flags_cast_int_def mask_eq_exp_minus_1 Let_def)
qed

text \<open>
  When two or more flags are consecutive bits and the lowest is not one, the short cut that
  compares with the bounds is wrong: the lowest flag plus one lies between them and is cast, though
  it has a bit that is no flag and \<open>enum_flags_name\<close> gives it no name.
\<close>

theorem flags_cast_uncovered:
  assumes ok: "enum_ok e flags_enum" and dense: "\<not> is_sparse e flags_enum" and pos: "2 \<le> count_v e flags_enum"
    and low: "min_v e flags_enum \<noteq> 1" and ids: "reflects e ids"
  shows "enum_flags_cast_int e (min_v e flags_enum + 1) = Inr (Some (min_v e flags_enum + 1)) \<and>
    enum_flags_name e (min_v e flags_enum + 1) sep = Inr []"
proof -
  let ?n = "count_v e flags_enum" and ?x = "min_v e flags_enum + 1"
  obtain h where h: "flag_bits e = {h..<h + ?n}" "min_v e flags_enum = 2 ^ h" "values_ors e = push_bit h (mask ?n)"
    using dense_flags [OF ok dense] pos by auto
  have h0: "0 < h" using h(2) low by (cases h) auto
  then have "bit ?x 0" by (simp add: h(2) bit_0)
  then have "\<not> covered e ?x" using h(1) h0 by (auto simp: covered_def)
  then have name: "enum_flags_name e ?x sep = Inr []"
    using enum_flags_name_eq [OF ok reflects_all_named [OF ok ids]] by simp
  have "(2 :: int) ^ 2 \<le> 2 ^ ?n" using pos by (intro power_increasing) auto
  then have "3 \<le> (2 :: int) ^ ?n - 1" by simp
  then have "3 * 2 ^ h \<le> ((2 :: int) ^ ?n - 1) * 2 ^ h" by (intro mult_right_mono) auto
  moreover have "(1 :: int) \<le> 2 ^ h" by simp
  ultimately have "?x \<le> values_ors e" unfolding h by (simp only: push_bit_eq_mult mask_eq_exp_minus_1)
  then show ?thesis using name dense pos by (auto simp: enum_flags_cast_int_def Let_def)
qed

lemma colour_dense: "count_v (colour_flags 0) flags_enum = 3" "count_v (colour_flags 2) flags_enum = 3"
  "min_v (colour_flags 0) flags_enum = 1" "min_v (colour_flags 2) flags_enum = 4"
  by (simp_all add: count_v_def min_v_def colour_values)

lemma colour_not_sparse: "\<not> is_sparse (colour_flags 2) flags_enum"
  using log2_power [of 2] log2_power [of 4]
  by (simp add: is_sparse_def max_v_def min_v_def count_v_def colour_values)

theorem flags_cast_exact_witness:
  "enum_flags_cast_int (colour_flags 0) 8 = Inr None"
proof -
  have "\<not> covered (colour_flags 0) 8"
    using ors_covered [OF colour_ok, of 0 8] by (simp add: flags_in_def colour_values ors_of_def)
  then show ?thesis
    using flags_cast_exact [OF colour_ok, of 0 8] by (simp add: colour_dense)
qed

theorem flags_cast_uncovered_witness:
  "enum_flags_cast_int (colour_flags 2) 5 = Inr (Some 5) \<and> enum_flags_name (colour_flags 2) 5 CHR ''|'' = Inr []"
  using flags_cast_uncovered [where sep = "CHR ''|''", OF colour_ok colour_not_sparse _ _ colour_reflects] by (simp add: colour_dense)

end
