(* ===== verification/MagicText.thy ===== *)
theory MagicText
  imports MagicFlags LogFormat
begin

text \<open>
  \<open>lib/magic_enum/magic_enum_iostream.hpp\<close>, \<open>magic_enum_utility.hpp\<close>, \<open>magic_enum_switch.hpp\<close>
  and \<open>magic_enum_fuse.hpp\<close>: enumerators written to streams and read from them, the next and the
  previous one, a \<open>switch\<close> over all of them, several of them packed into one number. The last
  section joins the library to the program: what its logs and its printer show of an \<open>ExprType\<close>.
\<close>

section \<open>Streams\<close>

text \<open>
  An output stream is the text written so far. What the standard library writes for an integer of
  eight bits is a character, for any other its decimal digits. An input stream is the text that
  is left and whether it has failed; \<open>read_word\<close> is the standard extraction of a word.
\<close>

fun number_text :: "int_type \<Rightarrow> int \<Rightarrow> string" where
  "number_text UBool x = decimal_int x"
| "number_text (USigned w) x = (if w = 8 then [char_of (nat (x mod 256))] else decimal_int x)"
| "number_text (UUnsigned w) x = (if w = 8 then [char_of (nat (x mod 256))] else decimal_int x)"

definition shift_left_enum :: "EnumDef \<Rightarrow> string \<Rightarrow> int \<Rightarrow> string res" where
  "shift_left_enum e os x =
     bindE (if subtype_of e = flags_enum then enum_flags_name e x CHR ''|'' else Inr (enum_name e common_enum x))
       (\<lambda>name. if name \<noteq> [] then Inr (fold (\<lambda>c os. os @ [c]) name os) else Inr (os @ number_text (underlying e) x))"

definition shift_left_optional :: "EnumDef \<Rightarrow> string \<Rightarrow> int option \<Rightarrow> string res" where
  "shift_left_optional e os x = (case x of Some v \<Rightarrow> shift_left_enum e os v | None \<Rightarrow> Inr os)"

text \<open>
  \<open>magic_enum_format.hpp\<close>: the formatters of the standard library and of \<open>fmt\<close>. The base class
  that lays out a text is the parameter \<open>fmt\<close>; a number is written by \<open>std::to_string\<close>.
\<close>

definition format_enum :: "(string \<Rightarrow> string res) \<Rightarrow> EnumDef \<Rightarrow> int \<Rightarrow> string res" where
  "format_enum fmt e x =
     bindE (if subtype_of e = flags_enum then enum_flags_name e x CHR ''|'' else Inr (enum_name e common_enum x))
       (\<lambda>name. fmt (if name \<noteq> [] then name else decimal_int x))"

type_synonym istream = "string \<times> bool"

definition is_blank :: "char \<Rightarrow> bool" where
  "is_blank c \<longleftrightarrow> c = CHR '' '' \<or> 9 \<le> (of_char c :: nat) \<and> of_char c \<le> (13 :: nat)"

definition read_word :: "istream \<Rightarrow> string \<times> istream" where
  "read_word is = (let (txt, failed) = is in
     if failed then ([], is)
     else let t = dropWhile is_blank txt; w = takeWhile (\<lambda>c. \<not> is_blank c) t
          in (w, dropWhile (\<lambda>c. \<not> is_blank c) t, w = []))"

definition shift_right_enum :: "EnumDef \<Rightarrow> istream \<Rightarrow> int \<Rightarrow> (istream \<times> int) res" where
  "shift_right_enum e is x = (let (s, is') = read_word is in
     bindE (if subtype_of e = flags_enum then enum_flags_cast_str e s None else enum_cast_str e common_enum s None)
       (\<lambda>v. case v of Some v \<Rightarrow> Inr (is', v) | None \<Rightarrow> Inr ((fst is', True), x)))"

lemma count_small:
  assumes ok: "enum_ok e S"
  shows "count_v e S < 65536"
proof -
  have "count_v e S \<le> range_size e S"
    using length_filter_le [of _ "[0..<range_size e S]"] by (simp add: count_v_def values_v_eq [OF ok] valid_indices_def)
  also have "\<dots> < 65536" using ok unfolding enum_ok_def range_size_def by auto
  finally show ?thesis .
qed

section \<open>Neighbours\<close>

text \<open>
  Indices are computed in \<open>std::ptrdiff_t\<close>, where overflow is undefined; \<open>%\<close> rounds towards zero.
\<close>

definition chk_ptrdiff :: "int \<Rightarrow> int res" where
  "chk_ptrdiff x = (if - (2 ^ 63) \<le> x \<and> x < 2 ^ 63 then Inr x else Inl UndefinedBehaviour)"

definition for_each :: "EnumDef \<Rightarrow> enum_subtype \<Rightarrow> (int \<Rightarrow> 'r res) \<Rightarrow> 'r list res" where
  "for_each e S f = mapE f (values_v e S)"

definition enum_next_value :: "EnumDef \<Rightarrow> enum_subtype \<Rightarrow> int \<Rightarrow> int \<Rightarrow> int option res" where
  "enum_next_value e S x n = (case enum_index e S x of
     Some i \<Rightarrow> bindE (chk_ptrdiff (int i + n)) (\<lambda>index.
       if index \<ge> 0 \<and> index < int (count_v e S) then bindE (enum_value e S (nat index)) (\<lambda>v. Inr (Some v)) else Inr None)
   | None \<Rightarrow> Inr None)"

definition enum_next_value_circular :: "EnumDef \<Rightarrow> enum_subtype \<Rightarrow> int \<Rightarrow> int \<Rightarrow> int res" where
  "enum_next_value_circular e S x n = (let cnt = int (count_v e S) in case enum_index e S x of
     Some i \<Rightarrow> bindE (chk_ptrdiff (int i + n)) (\<lambda>m.
       let index = ((m smod cnt) + cnt) smod cnt in
       if index \<ge> 0 \<and> index < cnt then enum_value e S (nat index) else Inl AssertionFailed)
   | None \<Rightarrow> Inl AssertionFailed)"

definition enum_prev_value :: "EnumDef \<Rightarrow> enum_subtype \<Rightarrow> int \<Rightarrow> int \<Rightarrow> int option res" where
  "enum_prev_value e S x n = (case enum_index e S x of
     Some i \<Rightarrow> bindE (chk_ptrdiff (int i - n)) (\<lambda>index.
       if index \<ge> 0 \<and> index < int (count_v e S) then bindE (enum_value e S (nat index)) (\<lambda>v. Inr (Some v)) else Inr None)
   | None \<Rightarrow> Inr None)"

definition enum_prev_value_circular :: "EnumDef \<Rightarrow> enum_subtype \<Rightarrow> int \<Rightarrow> int \<Rightarrow> int res" where
  "enum_prev_value_circular e S x n = (let cnt = int (count_v e S) in case enum_index e S x of
     Some i \<Rightarrow> bindE (chk_ptrdiff (int i - n)) (\<lambda>m.
       let index = ((m smod cnt) + cnt) smod cnt in
       if index \<ge> 0 \<and> index < cnt then enum_value e S (nat index) else Inl AssertionFailed)
   | None \<Rightarrow> Inl AssertionFailed)"

lemma smod_mod: "0 < c \<Longrightarrow> ((m smod c) + c) smod c = m mod (c :: int)"
proof -
  assume c: "0 < c"
  have "m smod c = m mod c \<or> m smod c = m mod c - c \<and> 0 < m mod c"
  proof (cases "0 \<le> m")
    case True
    with c show ?thesis
      by (cases "m = 0") (simp_all add: signed_modulo_int_def signed_divide_int_def minus_div_mult_eq_mod)
  next
    case False
    have "m smod c = - ((- m) mod c)"
      using False c by (simp add: signed_modulo_int_def signed_divide_int_def minus_div_mult_eq_mod algebra_simps sgn_if)
    then show ?thesis using c by (auto simp: zmod_zminus1_eq_if intro!: order_le_neq_trans)
  qed
  moreover have "k smod c = k mod c" if "0 \<le> k" for k
    using that c by (cases "k = 0") (simp_all add: signed_modulo_int_def signed_divide_int_def minus_div_mult_eq_mod)
  ultimately show ?thesis using c by (auto simp: mod_add_right_eq)
qed

text \<open>
  Going \<open>n\<close> values forward and going \<open>n\<close> values back are the same walk in opposite directions.
  Past either end there is no value, and the circular variants go round the table: for a value of
  the table the result is the entry at the sum modulo the number of values, whatever the sign of
  \<open>n\<close>. A value outside the table has no neighbours and fails the assertion of the circular ones.
\<close>

theorem enum_neighbours:
  assumes ok: "enum_ok e S" and n: "\<bar>n\<bar> < 2 ^ 62"
  shows "enum_next_value e S x n =
      (if x \<in> set (values_v e S) \<and> 0 \<le> int (index_of (values_v e S) x) + n \<and> int (index_of (values_v e S) x) + n < int (count_v e S)
       then Inr (Some (values_v e S ! nat (int (index_of (values_v e S) x) + n))) else Inr None) \<and>
    enum_next_value_circular e S x n =
      (if x \<in> set (values_v e S)
       then Inr (values_v e S ! nat ((int (index_of (values_v e S) x) + n) mod int (count_v e S))) else Inl AssertionFailed) \<and>
    enum_prev_value e S x n = enum_next_value e S x (- n) \<and>
    enum_prev_value_circular e S x n = enum_next_value_circular e S x (- n)"
proof -
  let ?i = "index_of (values_v e S) x" and ?c = "count_v e S"
  have small: "?c < 65536" by (rule count_small [OF ok])
  have index: "enum_index e S x = (if x \<in> set (values_v e S) then Some ?i else None)"
    by (rule enum_index_eq [OF ok])
  have pos: "0 < ?c \<and> ?i < ?c" if "x \<in> set (values_v e S)"
    using index_of_less [OF that] by (auto simp: count_v_def)
  have chk: "chk_ptrdiff (int ?i + n) = Inr (int ?i + n)" if "x \<in> set (values_v e S)"
    using n small pos [OF that] by (auto simp: chk_ptrdiff_def)
  have "enum_next_value_circular e S x n = Inr (values_v e S ! nat ((int ?i + n) mod int ?c))" if x: "x \<in> set (values_v e S)"
    using pos [OF x] chk [OF x] index x smod_mod [of "int ?c" "int ?i + n"]
      pos_mod_sign [of "int ?c" "int ?i + n"] pos_mod_bound [of "int ?c" "int ?i + n"]
    by (simp add: enum_next_value_circular_def enum_value_eq [OF ok] Let_def nat_less_iff)
  moreover have "enum_next_value e S x n =
      (if 0 \<le> int ?i + n \<and> int ?i + n < int ?c then Inr (Some (values_v e S ! nat (int ?i + n))) else Inr None)"
    if x: "x \<in> set (values_v e S)"
    using chk [OF x] index x by (auto simp: enum_next_value_def enum_value_eq [OF ok] nat_less_iff)
  moreover have "enum_prev_value e S x n = enum_next_value e S x (- n)"
    "enum_prev_value_circular e S x n = enum_next_value_circular e S x (- n)"
    by (simp_all only: enum_prev_value_def enum_next_value_def enum_prev_value_circular_def enum_next_value_circular_def
        add_uminus_conv_diff)
  moreover have "x \<notin> set (values_v e S) \<Longrightarrow> enum_next_value e S x n = Inr None \<and> enum_next_value_circular e S x n = Inl AssertionFailed"
    using index by (simp add: enum_next_value_def enum_next_value_circular_def)
  ultimately show ?thesis by auto
qed

theorem enum_neighbours_witness:
  "enum_next_value lamp common_enum 3 1 = Inr None \<and> enum_next_value_circular lamp common_enum 3 1 = Inr 1 \<and>
   enum_prev_value_circular lamp common_enum 1 1 = Inr 3"
  using enum_neighbours [OF lamp_ok, of 1 3] enum_neighbours [OF lamp_ok, of 1 1] enum_neighbours [OF lamp_ok, of "- 1" 1]
  by (simp add: lamp_values index_of_def count_v_def)

section \<open>A switch over all enumerators\<close>

text \<open>
  The chain of comparisons; \<open>f v\<close> is the result of the callable for the enumerator \<open>v\<close>, \<open>None\<close>
  where it cannot be called with it.
\<close>

function constexpr_switch_impl ::
  "EnumDef \<Rightarrow> enum_subtype \<Rightarrow> nat \<Rightarrow> nat \<Rightarrow> (int \<Rightarrow> 'r option) \<Rightarrow> int \<Rightarrow> 'r \<Rightarrow> 'r res" where
  "constexpr_switch_impl e S i stop f x def =
     (if i < stop
      then bindE (enum_value e S i) (\<lambda>v.
        if x = v then (case f v of Some r \<Rightarrow> Inr r | None \<Rightarrow> Inr def)
        else constexpr_switch_impl e S (i + 1) stop f x def)
      else Inr def)"
  by auto
termination by (relation "measure (\<lambda>(e, S, i, stop, f, x, def). stop - i)") auto

declare constexpr_switch_impl.simps [simp del]

definition enum_switch :: "EnumDef \<Rightarrow> enum_subtype \<Rightarrow> (int \<Rightarrow> 'r option) \<Rightarrow> int \<Rightarrow> 'r \<Rightarrow> 'r res" where
  "enum_switch e S f x def =
     (if count_v e S = 0 then Inr def else constexpr_switch_impl e S 0 (count_v e S) f x def)"

lemma constexpr_switch_impl_eq:
  assumes ok: "enum_ok e S"
  shows "constexpr_switch_impl e S i (count_v e S) f x def =
    Inr (if x \<in> set (drop i (values_v e S)) then case_option def (\<lambda>r. r) (f x) else def)"
proof (induction "count_v e S - i" arbitrary: i)
  case 0
  then show ?case by (subst constexpr_switch_impl.simps) (simp add: count_v_def)
next
  case (Suc m)
  then have i: "i < length (values_v e S)" by (simp add: count_v_def)
  have IH: "constexpr_switch_impl e S (Suc i) (count_v e S) f x def =
      Inr (if x \<in> set (drop (Suc i) (values_v e S)) then case_option def (\<lambda>r. r) (f x) else def)"
    by (rule Suc.hyps(1)) (use Suc.hyps(2) in simp)
  show ?case
    using i IH
    by (subst constexpr_switch_impl.simps)
      (auto simp: enum_value_eq [OF ok] count_v_def Cons_nth_drop_Suc [symmetric] split: option.splits)
qed

text \<open>
  A switch calls the function with the value when the value is an enumerator of the table the
  function accepts, and yields the default result in every other case.
\<close>

theorem enum_switch_exact:
  assumes "enum_ok e S"
  shows "enum_switch e S f x def = Inr (if x \<in> set (values_v e S) then case_option def (\<lambda>r. r) (f x) else def)"
  using constexpr_switch_impl_eq [OF assms, of 0 f x def] by (auto simp: enum_switch_def count_v_def)

theorem enum_switch_exact_witness:
  "enum_switch lamp common_enum (\<lambda>v. if v = 3 then Some ''stop'' else None) 3 ''off'' = Inr ''stop''"
  using enum_switch_exact [OF lamp_ok, of "\<lambda>v. if v = 3 then Some ''stop'' else None" 3 "''off''"]
  by (simp add: lamp_values)

section \<open>Several enumerators in one number\<close>

definition fuse_one_enum :: "EnumDef \<Rightarrow> enum_subtype \<Rightarrow> 64 word option \<Rightarrow> int \<Rightarrow> 64 word option" where
  "fuse_one_enum e S hash x = (case hash of
     Some h \<Rightarrow> (case enum_index e (subtype_of e) x of
       Some index \<Rightarrow> Some (push_bit (nat (log2_of (int (count_v e S + 1)))) h OR of_nat index)
     | None \<Rightarrow> None)
   | None \<Rightarrow> None)"

fun fuse_enum :: "enum_subtype \<Rightarrow> (EnumDef \<times> int) list \<Rightarrow> 64 word option" where
  "fuse_enum S [] = Some 0"
| "fuse_enum S ((e, x) # tail) = fuse_one_enum e S (fuse_enum S tail) x"

definition enum_fuse :: "enum_subtype \<Rightarrow> (EnumDef \<times> int) list \<Rightarrow> 64 word res" where
  "enum_fuse S xs = (case fuse_enum S xs of Some fuse \<Rightarrow> Inr fuse | None \<Rightarrow> Inl AssertionFailed)"

text \<open>The number of bits a value of the enumeration is given.\<close>

definition fuse_bits :: "EnumDef \<Rightarrow> enum_subtype \<Rightarrow> nat" where
  "fuse_bits e S = nat (log2_of (int (count_v e S + 1)))"

lemma fuse_bits: "2 ^ fuse_bits e S \<le> count_v e S + 1 \<and> count_v e S + 1 < 2 ^ Suc (fuse_bits e S)"
proof -
  obtain k where k: "log2_of (int (count_v e S + 1)) = int k" "2 ^ k \<le> int (count_v e S + 1)" "int (count_v e S + 1) < 2 ^ Suc k"
    by (rule log2_floor [of "int (count_v e S + 1)"]) simp
  then show ?thesis
    by (metis fuse_bits_def nat_int of_nat_le_iff of_nat_less_iff of_nat_numeral of_nat_power)
qed

lemma enum_fuse_pair:
  assumes ok: "enum_ok e1 S" "enum_ok e2 S" and S: "subtype_of e1 = S" "subtype_of e2 = S"
    and i: "i1 < count_v e1 S" "i2 < count_v e2 S"
  shows "enum_fuse S [(e1, values_v e1 S ! i1), (e2, values_v e2 S ! i2)] =
    Inr (word_of_nat (push_bit (fuse_bits e1 S) i2 OR i1))"
proof -
  have "enum_index e S (values_v e S ! i) = Some i" if "enum_ok e S" "i < count_v e S" for e i
    using that index_of_nth [OF values_sorted(2)] by (simp add: enum_index_eq count_v_def)
  with assms show ?thesis
    by (simp add: enum_fuse_def fuse_one_enum_def fuse_bits_def of_nat_or_eq of_nat_push_bit flip: push_bit_of_nat)
qed

lemma pack_inject:
  assumes eq: "(word_of_nat (push_bit k i2 OR i1) :: 64 word) = word_of_nat (push_bit k j2 OR j1)"
    and i: "i1 < 2 ^ k" "i2 < 2 ^ 16" "j1 < 2 ^ k" "j2 < 2 ^ 16" and k: "k < 17"
  shows "i1 = j1 \<and> i2 = j2"
proof -
  have low: "(2 :: nat) ^ k \<le> 2 ^ 16" using k by (intro power_increasing) auto
  have small: "take_bit 64 (push_bit k a OR b) = push_bit k a OR b" if "b < 2 ^ k" "a < 2 ^ 16" for a b :: nat
  proof -
    have "a * 2 ^ k < 2 ^ 16 * 2 ^ 16"
      by (rule order_less_le_trans [OF mult_strict_right_mono [OF that(2)] mult_left_mono [OF low]]) simp_all
    then have "push_bit k a < 2 ^ 64" by (simp add: push_bit_eq_mult)
    moreover have "b < 2 ^ 64" using that(1) low by simp
    ultimately show ?thesis by (simp add: take_bit_nat_eq_self)
  qed
  have "push_bit k i2 OR i1 = push_bit k j2 OR j1"
    using eq small i by (simp add: word_of_nat_eq_iff)
  then have "take_bit k (push_bit k i2 OR i1) = take_bit k (push_bit k j2 OR j1)"
    "drop_bit k (push_bit k i2 OR i1) = drop_bit k (push_bit k j2 OR j1)" by simp_all
  then show ?thesis
    using i by (simp add: take_bit_push_bit take_bit_nat_eq_self drop_bit_push_bit) (simp add: drop_bit_eq_div)
qed

text \<open>
  Two enumerators are packed into different numbers whenever the table of the first has no more
  values than its bits can count.
\<close>

theorem fuse_injective:
  assumes ok: "enum_ok e1 S" "enum_ok e2 S" and S: "subtype_of e1 = S" "subtype_of e2 = S"
    and fits: "count_v e1 S \<le> 2 ^ fuse_bits e1 S"
    and x: "x1 \<in> set (values_v e1 S)" "y1 \<in> set (values_v e1 S)" "x2 \<in> set (values_v e2 S)" "y2 \<in> set (values_v e2 S)"
  shows "enum_fuse S [(e1, x1), (e2, x2)] = enum_fuse S [(e1, y1), (e2, y2)] \<longleftrightarrow> x1 = y1 \<and> x2 = y2"
proof -
  obtain i1 i2 j1 j2 where nth: "x1 = values_v e1 S ! i1" "x2 = values_v e2 S ! i2" "y1 = values_v e1 S ! j1" "y2 = values_v e2 S ! j2"
    and less: "i1 < count_v e1 S" "i2 < count_v e2 S" "j1 < count_v e1 S" "j2 < count_v e2 S"
    using x by (auto simp: in_set_conv_nth count_v_def)
  have "(2 :: nat) ^ fuse_bits e1 S < 2 ^ 17"
    using fuse_bits [of e1 S] count_small [OF ok(1)] by simp
  then have k: "fuse_bits e1 S < 17" by (rule power_less_imp_less_exp [rotated]) simp
  have "i1 = j1 \<and> i2 = j2"
    if "(word_of_nat (push_bit (fuse_bits e1 S) i2 OR i1) :: 64 word) = word_of_nat (push_bit (fuse_bits e1 S) j2 OR j1)"
    by (rule pack_inject [OF that _ _ _ _ k]) (use less fits count_small [OF ok(2)] in auto)
  then show ?thesis
    using enum_fuse_pair [OF ok S less(1,2)] enum_fuse_pair [OF ok S less(3,4)] nth by auto
qed

text \<open>
  When the table has more values than that, which is so unless their number or the next one is
  a power of two, two different pairs are packed into the same number.
\<close>

theorem fuse_collides:
  assumes ok: "enum_ok e1 S" "enum_ok e2 S" and S: "subtype_of e1 = S" "subtype_of e2 = S"
    and many: "2 ^ fuse_bits e1 S < count_v e1 S" and two: "2 \<le> count_v e2 S"
  shows "\<exists>x1 y1 x2 y2 r. x1 \<in> set (values_v e1 S) \<and> y1 \<in> set (values_v e1 S) \<and> x1 \<noteq> y1 \<and>
    x2 \<in> set (values_v e2 S) \<and> y2 \<in> set (values_v e2 S) \<and> x2 \<noteq> y2 \<and>
    enum_fuse S [(e1, x1), (e2, x2)] = Inr r \<and> enum_fuse S [(e1, y1), (e2, y2)] = Inr r"
proof -
  let ?k = "fuse_bits e1 S"
  let ?u = "values_v e1 S" and ?v = "values_v e2 S"
  have less: "0 < count_v e1 S" "2 ^ ?k < count_v e1 S" "0 < count_v e2 S" "1 < count_v e2 S" using many two by auto
  have "?u ! (2 ^ ?k) \<noteq> ?u ! 0" "?v ! 0 \<noteq> ?v ! 1"
    using values_sorted(2) [OF ok(1)] values_sorted(2) [OF ok(2)] less
    by (auto simp: count_v_def nth_eq_iff_index_eq)
  moreover have "?u ! (2 ^ ?k) \<in> set ?u" "?u ! 0 \<in> set ?u" "?v ! 0 \<in> set ?v" "?v ! 1 \<in> set ?v"
    using less by (auto simp: count_v_def)
  moreover have "push_bit ?k 0 OR 2 ^ ?k = push_bit ?k 1 OR (0 :: nat)" by (simp add: push_bit_eq_mult)
  ultimately show ?thesis
    using enum_fuse_pair [OF ok S less(2,3)] enum_fuse_pair [OF ok S less(1,4)] by (metis One_nat_def)
qed

text \<open>An enumeration of five and a pair of enumerators that collide.\<close>

definition gear_ids :: "int \<Rightarrow> string option" where
  "gear_ids v = (if 1 \<le> v \<and> v \<le> 5 then Some (replicate (nat v) CHR ''g'') else None)"

definition gear :: EnumDef where
  "gear = gcc_enum (USigned 32) '''' ''Gear'' gear_ids"

lemma gear_reflects: "reflects gear gear_ids"
  unfolding gear_def by (rule gcc_enum_reflects) (auto simp: gear_ids_def is_ident_def hd_replicate split: if_splits)

lemma gear_ok: "enum_ok gear common_enum"
  by (simp add: gear_def gcc_enum_ok)

lemma gear_values: "values_v gear common_enum = [1, 2, 3, 4, 5]"
  unfolding gear_def
  by (rule gcc_values [OF gear_ok [unfolded gear_def] gear_reflects [unfolded gear_def]]) (auto simp: gear_ids_def)

lemma gear_subtype: "subtype_of gear = common_enum" "subtype_of lamp = common_enum"
  by (simp_all add: subtype_of_def gear_def lamp_def)

lemma gear_bits: "fuse_bits gear common_enum = 2" "fuse_bits lamp common_enum = 1"
  by (simp_all add: fuse_bits_def count_v_def gear_values lamp_values log2_of_def log2_loop.simps drop_bit_eq_div)

theorem fuse_injective_witness:
  "enum_fuse common_enum [(lamp, 1), (gear, 3)] \<noteq> enum_fuse common_enum [(lamp, 3), (gear, 5)]"
  using fuse_injective [OF lamp_ok gear_ok gear_subtype(2,1), of 1 3 3 5]
  by (simp add: gear_bits gear_values lamp_values count_v_def)

theorem fuse_collides_witness:
  "\<exists>x1 y1 x2 y2 r. x1 \<noteq> y1 \<and> x2 \<noteq> y2 \<and>
    enum_fuse common_enum [(gear, x1), (gear, x2)] = Inr r \<and> enum_fuse common_enum [(gear, y1), (gear, y2)] = Inr r"
proof -
  have many: "2 ^ fuse_bits gear common_enum < count_v gear common_enum" "2 \<le> count_v gear common_enum"
    by (simp_all add: gear_bits gear_values count_v_def)
  show ?thesis using fuse_collides [OF gear_ok gear_ok gear_subtype(1,1) many] by blast
qed

section \<open>Streams read back\<close>

lemma read_word_append:
  assumes "w \<noteq> []" "\<And>c. c \<in> set w \<Longrightarrow> \<not> is_blank c" "rest = [] \<or> is_blank (hd rest)"
  shows "read_word (w @ rest, False) = (w, rest, False)"
proof -
  have "dropWhile is_blank (w @ rest) = w @ rest" using assms(1,2) by (cases w) auto
  moreover have "takeWhile (\<lambda>c. \<not> is_blank c) (w @ rest) = w" "dropWhile (\<lambda>c. \<not> is_blank c) (w @ rest) = rest"
    using assms(2,3) by (cases rest; simp add: takeWhile_append dropWhile_append)+
  ultimately show ?thesis using assms(1) by (simp add: read_word_def Let_def)
qed

lemma put_chars: "fold (\<lambda>c os. os @ [c]) name os = os @ name"
  by (induction name arbitrary: os) auto

text \<open>Formatting and streaming agree but on unnamed values of eight bits.\<close>

lemma format_enum_stream:
  assumes "underlying e \<notin> {USigned 8, UUnsigned 8}"
  shows "format_enum Inr e x = shift_left_enum e [] x"
  using assms by (cases "underlying e") (auto simp: format_enum_def shift_left_enum_def put_chars intro!: arg_cong2 [where f = bindE])

lemma set_join: "set (join_names sep ns) \<subseteq> insert sep (\<Union> (set ` set ns))"
  by (induction sep ns rule: join_names.induct) auto

text \<open>A number written to a stream is one word without a bar.\<close>

lemma number_text_word:
  assumes "x = 0 \<or> u \<notin> {USigned 8, UUnsigned 8}"
  shows "number_text u x \<noteq> []" "\<And>c. c \<in> set (number_text u x) \<Longrightarrow> \<not> is_blank c \<and> c \<noteq> CHR ''|''"
proof -
  have digit: "\<not> is_blank c \<and> c \<noteq> CHR ''|''" if "is_digit c" for c
    using that by (auto simp: is_digit_def is_blank_def)
  have "decimal_int x \<noteq> [] \<and> (\<forall>c \<in> set (decimal_int x). \<not> is_blank c \<and> c \<noteq> CHR ''|'')"
    using decimal_digits digit by (auto simp: decimal_int_def list_all_iff is_blank_def)
  moreover have "\<not> is_blank CHR 0x00 \<and> CHR 0x00 \<noteq> CHR ''|''"
    by (simp add: is_blank_def)
  moreover have "number_text u x = decimal_int x \<or> number_text u x = [CHR 0x00]"
    using assms by (cases u) (auto simp: char_of_def bit_0)
  ultimately have "number_text u x \<noteq> [] \<and> (\<forall>c \<in> set (number_text u x). \<not> is_blank c \<and> c \<noteq> CHR ''|'')"
    by (elim disjE) simp_all
  then show "number_text u x \<noteq> []" "\<And>c. c \<in> set (number_text u x) \<Longrightarrow> \<not> is_blank c \<and> c \<noteq> CHR ''|''"
    by blast+
qed

lemma flags_cast_no_name:
  assumes ok: "enum_ok e flags_enum" and ids: "reflects e ids" and s: "\<And>v. ids v \<noteq> Some s" "s \<noteq> []" "CHR ''|'' \<notin> set s"
  shows "enum_flags_cast_str e s None = Inr None"
proof -
  have "List.find (\<lambda>i. cmp_equal s (names_v e flags_enum ! i) None) [0..<count_v e flags_enum] = None"
    using values_have_names [OF ok ids] s(1)
    by (auto simp: find_None_iff cmp_equal_def names_v_def count_v_def dest!: nth_mem)
  then show ?thesis
    using s(2,3) by (simp add: enum_flags_cast_str_def flags_parse.simps sv_find_none)
qed

text \<open>
  C36. Writing an enumerator, or a non-empty set of flags, to a stream and reading it back yields
  the value and leaves the rest of the text, when names are different and hold no space and no
  bar. It does not work for the empty set of flags and, unless the underlying type is a character,
  for values with other bits: they are written as a number, and reading that fails and leaves the variable as it was, unless the number
  looks like a name.
\<close>

theorem stream_roundtrip:
  assumes ok: "enum_ok e (subtype_of e)" and ids: "reflects e ids"
    and distinct: "\<And>v v' s. ids v = Some s \<Longrightarrow> ids v' = Some s \<Longrightarrow> v = v'"
    and plain: "\<And>v s c. ids v = Some s \<Longrightarrow> c \<in> set s \<Longrightarrow> \<not> is_blank c \<and> c \<noteq> CHR ''|''"
    and rest: "rest = [] \<or> is_blank (hd rest)"
  shows "((if subtype_of e = flags_enum then x \<noteq> 0 \<and> covered e x else x \<in> set (values_v e common_enum)) \<longrightarrow>
      bindE (shift_left_enum e [] x) (\<lambda>txt. shift_right_enum e (txt @ rest, False) y) = Inr ((rest, False), x)) \<and>
    (subtype_of e = flags_enum \<and> \<not> (x \<noteq> 0 \<and> covered e x) \<and>
       (x = 0 \<or> underlying e \<notin> {USigned 8, UUnsigned 8}) \<and> (\<forall>v. ids v \<noteq> Some (number_text (underlying e) x)) \<longrightarrow>
      shift_left_enum e [] x = Inr (number_text (underlying e) x) \<and>
      shift_right_enum e (number_text (underlying e) x @ rest, False) y = Inr ((rest, True), y))"
proof (intro conjI impI)
  assume x: "if subtype_of e = flags_enum then x \<noteq> 0 \<and> covered e x else x \<in> set (values_v e common_enum)"
  show "bindE (shift_left_enum e [] x) (\<lambda>txt. shift_right_enum e (txt @ rest, False) y) = Inr ((rest, False), x)"
  proof (cases "subtype_of e")
    case flags_enum
    then have ok': "enum_ok e flags_enum" and x': "x \<noteq> 0" "covered e x" using ok x by simp_all
    have bar: "CHR ''|'' \<notin> set s" if "ids v = Some s" for v s using plain [OF that] by auto
    note names = names_parse_reflects [OF ok' ids distinct bar]
    define name where "name = join_names CHR ''|'' (map (enum_name_v e) (flags_in e x))"
    have written: "enum_flags_name e x CHR ''|'' = Inr name"
      using enum_flags_name_eq [OF ok', of x] names x' by (simp add: names_parse_def name_def)
    have cast: "enum_flags_cast_str e name None = Inr (Some x)"
      unfolding name_def by (rule flags_name_cast [OF ok' names x'])
    have "\<not> is_blank c" if "c \<in> set name" for c
    proof -
      have "c = CHR ''|'' \<or> (\<exists>v \<in> set (flags_in e x). c \<in> set (enum_name_v e v))"
        using that set_join unfolding name_def by fastforce
      moreover have "\<not> is_blank CHR ''|''" by (simp add: is_blank_def)
      moreover have "\<not> is_blank c" if "v \<in> set (flags_in e x)" "c \<in> set (enum_name_v e v)" for v
        using that values_have_names [OF ok' ids, of v] plain by (auto simp: flags_in_def)
      ultimately show ?thesis by blast
    qed
    moreover have "name \<noteq> []"
    proof
      assume "name = []"
      with cast show False by (simp add: enum_flags_cast_str_def flags_parse.simps split: if_splits)
    qed
    ultimately show ?thesis
      using read_word_append [OF _ _ rest, of name] flags_enum written cast
      by (simp add: shift_left_enum_def shift_right_enum_def put_chars)
  next
    case common_enum
    then have ok': "enum_ok e common_enum" and x': "x \<in> set (values_v e common_enum)" using ok x by simp_all
    obtain s where s: "ids x = Some s" "s \<noteq> []" "enum_name e common_enum x = s"
      using values_have_names [OF ok' ids x'] x' by (auto simp: enum_name_eq [OF ok'])
    have "enum_cast_str e common_enum s None = Inr (Some x)"
      using enum_cast_name [OF ok' ids distinct x'] s by simp
    moreover have "\<not> is_blank c" if "c \<in> set s" for c using plain [OF s(1) that] by simp
    ultimately show ?thesis
      using read_word_append [OF s(2) _ rest] s common_enum
      by (simp add: shift_left_enum_def shift_right_enum_def put_chars)
  qed
next
  assume h: "subtype_of e = flags_enum \<and> \<not> (x \<noteq> 0 \<and> covered e x) \<and>
    (x = 0 \<or> underlying e \<notin> {USigned 8, UUnsigned 8}) \<and> (\<forall>v. ids v \<noteq> Some (number_text (underlying e) x))"
  then have ok': "enum_ok e flags_enum" and no: "\<not> (x \<noteq> 0 \<and> covered e x)"
    and small: "x = 0 \<or> underlying e \<notin> {USigned 8, UUnsigned 8}"
    and other: "\<And>v. ids v \<noteq> Some (number_text (underlying e) x)"
    using ok by auto
  have bar: "CHR ''|'' \<notin> set s" if "ids v = Some s" for v s using plain [OF that] by auto
  have "enum_flags_name e x CHR ''|'' = Inr []"
    using enum_flags_name_eq [OF ok', of x] names_parse_reflects [OF ok' ids distinct bar] no
    by (auto simp: names_parse_def)
  then show "shift_left_enum e [] x = Inr (number_text (underlying e) x)"
    using h by (simp add: shift_left_enum_def)
  note word = number_text_word [OF small]
  have "CHR ''|'' \<notin> set (number_text (underlying e) x)" using word(2) by blast
  from flags_cast_no_name [OF ok' ids other word(1) this]
  show "shift_right_enum e (number_text (underlying e) x @ rest, False) y = Inr ((rest, True), y)"
    using read_word_append [OF word(1) _ rest] word(2) h by (simp add: shift_right_enum_def)
qed

definition declared_flags :: EnumDef where
  "declared_flags = (colour_flags 0)\<lparr>flags_declared := Some True\<rparr>"

lemma declared_flags_facts:
  "subtype_of declared_flags = flags_enum" "enum_ok declared_flags flags_enum"
  "reflects declared_flags (colours 0)" "underlying declared_flags = UUnsigned 8"
proof -
  have same: "pretty declared_flags = pretty (colour_flags 0)" "custom_name declared_flags = custom_name (colour_flags 0)"
    by (simp_all add: declared_flags_def)
  show "reflects declared_flags (colours 0)"
    unfolding reflects_def same by (rule colour_reflects [of 0, unfolded reflects_def])
qed (simp_all add: subtype_of_def declared_flags_def colour_flags_def gcc_enum_def enum_ok_def in_int_def
    MAGIC_ENUM_RANGE_MIN_def MAGIC_ENUM_RANGE_MAX_def reflected_min_def reflected_max_def)

theorem stream_roundtrip_witness:
  "bindE (shift_left_enum lamp [] 3) (\<lambda>txt. shift_right_enum lamp (txt @ '' 7'', False) 1) = Inr (('' 7'', False), 3) \<and>
   bindE (shift_left_enum declared_flags [] 0) (\<lambda>txt. shift_right_enum declared_flags (txt, False) 4) = Inr (([], True), 4)"
proof -
  have "enum_ok lamp (subtype_of lamp)" by (simp add: gear_subtype lamp_ok)
  note common = stream_roundtrip [OF this lamp_reflects, of "'' 7''" 3 1]
  have "bindE (shift_left_enum lamp [] 3) (\<lambda>txt. shift_right_enum lamp (txt @ '' 7'', False) 1) = Inr (('' 7'', False), 3)"
    by (rule mp [OF conjunct1 [OF common]])
      (auto simp: lamp_ids_def is_blank_def gear_subtype lamp_values split: if_splits)
  moreover have "enum_ok declared_flags (subtype_of declared_flags)" by (simp add: declared_flags_facts)
  note flags = stream_roundtrip [OF this declared_flags_facts(3), of "[]" 0 4]
  have "shift_left_enum declared_flags [] 0 = Inr (number_text (underlying declared_flags) 0) \<and>
      shift_right_enum declared_flags (number_text (underlying declared_flags) 0 @ [], False) 4 = Inr (([], True), 4)"
    by (rule mp [OF conjunct2 [OF flags]])
      (auto simp: colours_def is_blank_def declared_flags_facts split: if_splits)
  ultimately show ?thesis by simp
qed

section \<open>The operation types of the program\<close>

text \<open>\<open>domain::ExprType\<close> as the library sees it.\<close>

definition ExprType_ids :: "int \<Rightarrow> string option" where
  "ExprType_ids v = (if 0 \<le> v \<and> v < 21 then map_option ExprType_name (ExprType_of_nat (nat v)) else None)"

definition ExprType_enum :: EnumDef where
  "ExprType_enum = gcc_enum (USigned 32) ''domain::'' ''ExprType'' ExprType_ids"

lemma ExprType_name_ident: "is_ident (ExprType_name t)"
  by (cases t) (simp_all add: is_ident_def)

lemma ExprType_ids_reflects: "reflects ExprType_enum ExprType_ids"
  unfolding ExprType_enum_def
proof (rule gcc_enum_reflects)
  show "is_ident s" if "ExprType_ids v = Some s" for v s
    using that ExprType_name_ident by (auto simp: ExprType_ids_def split: if_splits)
qed (simp_all add: is_ident_def)

lemma ExprType_enum_ok: "enum_ok ExprType_enum common_enum"
  by (simp add: ExprType_enum_def gcc_enum_ok)

lemma ExprType_listed:
  "v \<in> set (values_v ExprType_enum common_enum) \<longleftrightarrow> - 128 \<le> v \<and> v \<le> 127 \<and> ExprType_ids v \<noteq> None"
  using values_named [OF ExprType_enum_ok ExprType_ids_reflects, of v] by (simp add: ExprType_enum_def)

lemma ExprType_enum_name: "enum_name ExprType_enum common_enum v = (case ExprType_ids v of None \<Rightarrow> [] | Some s \<Rightarrow> s)"
proof -
  have "ExprType_ids v = None" if "\<not> (- 128 \<le> v \<and> v \<le> 127)"
    using that by (auto simp: ExprType_ids_def)
  then show ?thesis
    by (auto simp: enum_name_eq [OF ExprType_enum_ok] ExprType_listed reflects_name(1) [OF ExprType_ids_reflects])
qed

lemma ExprType_ids_of: "ExprType_ids (int (ExprType_to_nat t)) = Some (ExprType_name t)"
  using ExprType_to_nat_less [of t] by (simp add: ExprType_ids_def)

text \<open>
  C34. The library gives the program the names it relies on: for the operation type of a message,
  any 32-bit number, \<open>enum_name\<close> is the text the log formatters write, empty for an unknown
  operation, and the stream operator appends to the output what the printing visitor prints.
\<close>

theorem program_names:
  "enum_name ExprType_enum common_enum (sint n) = enum_name_of n \<and>
   bindE (shift_left_enum ExprType_enum output (int (ExprType_to_nat (GetType x)))) (\<lambda>os. Inr (os @ [CHR 0x0A])) =
     PrintVisitor_Visit x output"
proof
  show "enum_name ExprType_enum common_enum (sint n) = enum_name_of n"
  proof (cases "unat n < 21")
    case True
    moreover have u: "uint n = int (unat n)" by simp
    ultimately have less: "uint n < 21" by linarith
    then have "- (2 ^ (LENGTH(32) - Suc 0)) \<le> uint n" "uint n < 2 ^ (LENGTH(32) - Suc 0)"
      by (auto intro: order_trans [OF _ uint_ge_0])
    then have "sint n = uint n" unfolding sint_uint by (rule signed_take_bit_int_eq_self)
    then have "sint n = int (unat n)" using u by (rule trans)
    with less show ?thesis
      by (auto simp: ExprType_enum_name ExprType_ids_def enum_name_of_def split: option.splits)
  next
    case False
    then have none: "ExprType_of_nat (unat n) = None" by (simp add: ExprType_of_nat_def ExprType_values_def)
    have "uint n = sint n" if "0 \<le> sint n" "sint n < 21"
      unfolding uint_sint by (rule take_bit_int_eq_self) (use that in simp_all)
    moreover have "\<not> uint n < 21"
    proof -
      have "uint n = int (unat n)" by (rule uint_nat)
      with False show ?thesis by linarith
    qed
    ultimately have "\<not> (0 \<le> sint n \<and> sint n < 21)" by metis
    with none show ?thesis by (auto simp: ExprType_enum_name ExprType_ids_def enum_name_of_def)
  qed
next
  have "ExprType_name t \<noteq> []" for t using ExprType_name_ident [of t] by (simp add: is_ident_def)
  then show "bindE (shift_left_enum ExprType_enum output (int (ExprType_to_nat (GetType x)))) (\<lambda>os. Inr (os @ [CHR 0x0A])) =
      PrintVisitor_Visit x output"
    by (simp add: shift_left_enum_def PrintVisitor_Visit_def ExprType_enum_name ExprType_ids_of put_chars subtype_of_def)
      (simp add: ExprType_enum_def)
qed

end
