(* ===== verification/MagicHash.thy ===== *)
theory MagicHash
  imports MagicText
begin

unbundle bit_operations_syntax

text \<open>
  The look-ups of \<open>lib/magic_enum/magic_enum.hpp\<close> under \<open>MAGIC_ENUM_ENABLE_HASH\<close>: a \<open>switch\<close> over the
  hashes of the table, 256 cases at a time, whose unused cases are filled with labels that differ
  from all others. What the compiler rejects (a failed \<open>static_assert\<close>, equal labels, undefined
  behaviour in a constant) is \<open>None\<close>.
\<close>

section \<open>The hashes of names\<close>

definition crc_table :: "32 word list" where
  "crc_table = [
    0x00000000, 0x77073096, 0xee0e612c, 0x990951ba, 0x076dc419, 0x706af48f, 0xe963a535, 0x9e6495a3,
    0x0edb8832, 0x79dcb8a4, 0xe0d5e91e, 0x97d2d988, 0x09b64c2b, 0x7eb17cbd, 0xe7b82d07, 0x90bf1d91,
    0x1db71064, 0x6ab020f2, 0xf3b97148, 0x84be41de, 0x1adad47d, 0x6ddde4eb, 0xf4d4b551, 0x83d385c7,
    0x136c9856, 0x646ba8c0, 0xfd62f97a, 0x8a65c9ec, 0x14015c4f, 0x63066cd9, 0xfa0f3d63, 0x8d080df5,
    0x3b6e20c8, 0x4c69105e, 0xd56041e4, 0xa2677172, 0x3c03e4d1, 0x4b04d447, 0xd20d85fd, 0xa50ab56b,
    0x35b5a8fa, 0x42b2986c, 0xdbbbc9d6, 0xacbcf940, 0x32d86ce3, 0x45df5c75, 0xdcd60dcf, 0xabd13d59,
    0x26d930ac, 0x51de003a, 0xc8d75180, 0xbfd06116, 0x21b4f4b5, 0x56b3c423, 0xcfba9599, 0xb8bda50f,
    0x2802b89e, 0x5f058808, 0xc60cd9b2, 0xb10be924, 0x2f6f7c87, 0x58684c11, 0xc1611dab, 0xb6662d3d,
    0x76dc4190, 0x01db7106, 0x98d220bc, 0xefd5102a, 0x71b18589, 0x06b6b51f, 0x9fbfe4a5, 0xe8b8d433,
    0x7807c9a2, 0x0f00f934, 0x9609a88e, 0xe10e9818, 0x7f6a0dbb, 0x086d3d2d, 0x91646c97, 0xe6635c01,
    0x6b6b51f4, 0x1c6c6162, 0x856530d8, 0xf262004e, 0x6c0695ed, 0x1b01a57b, 0x8208f4c1, 0xf50fc457,
    0x65b0d9c6, 0x12b7e950, 0x8bbeb8ea, 0xfcb9887c, 0x62dd1ddf, 0x15da2d49, 0x8cd37cf3, 0xfbd44c65,
    0x4db26158, 0x3ab551ce, 0xa3bc0074, 0xd4bb30e2, 0x4adfa541, 0x3dd895d7, 0xa4d1c46d, 0xd3d6f4fb,
    0x4369e96a, 0x346ed9fc, 0xad678846, 0xda60b8d0, 0x44042d73, 0x33031de5, 0xaa0a4c5f, 0xdd0d7cc9,
    0x5005713c, 0x270241aa, 0xbe0b1010, 0xc90c2086, 0x5768b525, 0x206f85b3, 0xb966d409, 0xce61e49f,
    0x5edef90e, 0x29d9c998, 0xb0d09822, 0xc7d7a8b4, 0x59b33d17, 0x2eb40d81, 0xb7bd5c3b, 0xc0ba6cad,
    0xedb88320, 0x9abfb3b6, 0x03b6e20c, 0x74b1d29a, 0xead54739, 0x9dd277af, 0x04db2615, 0x73dc1683,
    0xe3630b12, 0x94643b84, 0x0d6d6a3e, 0x7a6a5aa8, 0xe40ecf0b, 0x9309ff9d, 0x0a00ae27, 0x7d079eb1,
    0xf00f9344, 0x8708a3d2, 0x1e01f268, 0x6906c2fe, 0xf762575d, 0x806567cb, 0x196c3671, 0x6e6b06e7,
    0xfed41b76, 0x89d32be0, 0x10da7a5a, 0x67dd4acc, 0xf9b9df6f, 0x8ebeeff9, 0x17b7be43, 0x60b08ed5,
    0xd6d6a3e8, 0xa1d1937e, 0x38d8c2c4, 0x4fdff252, 0xd1bb67f1, 0xa6bc5767, 0x3fb506dd, 0x48b2364b,
    0xd80d2bda, 0xaf0a1b4c, 0x36034af6, 0x41047a60, 0xdf60efc3, 0xa867df55, 0x316e8eef, 0x4669be79,
    0xcb61b38c, 0xbc66831a, 0x256fd2a0, 0x5268e236, 0xcc0c7795, 0xbb0b4703, 0x220216b9, 0x5505262f,
    0xc5ba3bbe, 0xb2bd0b28, 0x2bb45a92, 0x5cb36a04, 0xc2d7ffa7, 0xb5d0cf31, 0x2cd99e8b, 0x5bdeae1d,
    0x9b64c2b0, 0xec63f226, 0x756aa39c, 0x026d930a, 0x9c0906a9, 0xeb0e363f, 0x72076785, 0x05005713,
    0x95bf4a82, 0xe2b87a14, 0x7bb12bae, 0x0cb61b38, 0x92d28e9b, 0xe5d5be0d, 0x7cdcefb7, 0x0bdbdf21,
    0x86d3d2d4, 0xf1d4e242, 0x68ddb3f8, 0x1fda836e, 0x81be16cd, 0xf6b9265b, 0x6fb077e1, 0x18b74777,
    0x88085ae6, 0xff0f6a70, 0x66063bca, 0x11010b5c, 0x8f659eff, 0xf862ae69, 0x616bffd3, 0x166ccf45,
    0xa00ae278, 0xd70dd2ee, 0x4e048354, 0x3903b3c2, 0xa7672661, 0xd06016f7, 0x4969474d, 0x3e6e77db,
    0xaed16a4a, 0xd9d65adc, 0x40df0b66, 0x37d83bf0, 0xa9bcae53, 0xdebb9ec5, 0x47b2cf7f, 0x30b5ffe9,
    0xbdbdf21c, 0xcabac28a, 0x53b39330, 0x24b4a3a6, 0xbad03605, 0xcdd70693, 0x54de5729, 0x23d967bf,
    0xb3667a2e, 0xc4614ab8, 0x5d681b02, 0x2a6f2b94, 0xb40bbe37, 0xc30c8ea1, 0x5a05df1b, 0x2d02ef8d]"

text \<open>A character as it is converted to an unsigned type, by way of the signed \<open>char\<close>.\<close>

definition char_int :: "char \<Rightarrow> int" where
  "char_int c = signed_take_bit 7 (of_char c)"

definition crc_update :: "32 word \<Rightarrow> char \<Rightarrow> 32 word" where
  "crc_update crc c = drop_bit 8 crc XOR crc_table ! unat ((crc XOR of_int (char_int c)) AND 0xff)"

definition crc_hash :: "string \<Rightarrow> 32 word" where
  "crc_hash s = foldl crc_update 0xffffffff s XOR 0xffffffff"

definition secondary_hash :: "string \<Rightarrow> 32 word" where
  "secondary_hash s = ucast (foldl (\<lambda>acc c. ((acc XOR of_int (char_int c)) * 16777619) AND 0xffffffff)
     (2166136261 :: 64 word) s)"

text \<open>
  The reference: a shift register that takes one bit a step, with the polynomial reversed. The
  table holds the register after eight steps, for every byte.
\<close>

definition crc_bit :: "32 word \<Rightarrow> 32 word" where
  "crc_bit r = (if bit r 0 then drop_bit 1 r XOR 0xedb88320 else drop_bit 1 r)"

definition crc_reference :: "string \<Rightarrow> 32 word" where
  "crc_reference s = foldl (\<lambda>crc c. (crc_bit ^^ 8) (crc XOR of_int (char_int c AND 0xff))) 0xffffffff s XOR 0xffffffff"

definition crc_step :: "int \<Rightarrow> int" where
  "crc_step r = (if odd r then r div 2 XOR 0xedb88320 else r div 2)"

lemma crc_bit_step:
  assumes "0 \<le> r" "r < 2 ^ 32"
  shows "crc_bit (word_of_int r) = word_of_int (crc_step r) \<and> 0 \<le> crc_step r \<and> crc_step r < 2 ^ 32"
proof -
  have "drop_bit 1 (word_of_int r :: 32 word) = word_of_int (r div 2)"
  proof (rule bit_word_eqI)
    have "\<not> bit r 32"
      using assms by (metis bit_take_bit_iff less_irrefl take_bit_int_eq_self)
    then show "bit (drop_bit 1 (word_of_int r :: 32 word)) n = bit (word_of_int (r div 2) :: 32 word) n" if "n < LENGTH(32)" for n
      using that by (cases "n = 31") (auto simp: bit_drop_bit_eq bit_word_of_int_iff bit_Suc [symmetric])
  qed
  moreover have "0 \<le> r div 2 XOR 0xedb88320 \<and> r div 2 XOR 0xedb88320 < (2 :: int) ^ 32"
  proof -
    have "take_bit 32 (r div 2 XOR 0xedb88320) = r div 2 XOR 0xedb88320"
      using assms by (simp add: take_bit_xor take_bit_int_eq_self)
    then show ?thesis by (metis take_bit_int_less_exp take_bit_nonnegative)
  qed
  moreover have "r div 2 < 2 ^ 32" using assms by linarith
  moreover have "bit (word_of_int r :: 32 word) 0 \<longleftrightarrow> odd r"
    using bit_word_of_int_iff [where 'a = 32, of r 0] by (simp add: bit_0 [of r] del: bit_0)
  ultimately show ?thesis using assms by (simp add: crc_bit_def crc_step_def of_int_xor_eq)
qed


lemma crc_step_numeral:
  "crc_step 0 = 0" "crc_step 1 = 0xedb88320" "crc_step (numeral (Num.Bit0 k)) = numeral k"
  "crc_step (numeral (Num.Bit1 k)) = numeral k XOR 0xedb88320"
  by (simp_all add: crc_step_def)


definition crc8 :: "int \<Rightarrow> int" where
  "crc8 r = crc_step (crc_step (crc_step (crc_step (crc_step (crc_step (crc_step (crc_step r)))))))"

lemma crc_table_crc8: "crc_table = map (\<lambda>i. word_of_int (crc8 i)) [0..255]"
  by (simp add: crc_step_numeral crc_table_def upto.simps crc8_def)

lemma crc8_eq:
  assumes "0 \<le> r" "r < 256"
  shows "(crc_bit ^^ 8) (word_of_int r) = word_of_int (crc8 r)"
proof -
  have "(crc_bit ^^ n) (word_of_int r) = word_of_int ((crc_step ^^ n) r) \<and> 0 \<le> (crc_step ^^ n) r \<and> (crc_step ^^ n) r < 2 ^ 32" for n
    by (induction n) (use assms crc_bit_step in auto)
  from this [of 8] show ?thesis by (simp add: crc8_def eval_nat_numeral)
qed

lemma crc_table_nth: "i < 256 \<Longrightarrow> crc_table ! i = (crc_bit ^^ 8) (of_nat i)"
  using crc8_eq [of "int i"] by (simp add: crc_table_crc8)

text \<open>The register is linear, and shifts out what has no low bits.\<close>

lemma crc_bit_xor: "crc_bit (a XOR b) = crc_bit a XOR crc_bit b"
  by (simp add: crc_bit_def bit_xor_iff xor.left_commute xor.commute xor.assoc)

lemma crc_bits_xor: "(crc_bit ^^ n) (a XOR b) = (crc_bit ^^ n) a XOR (crc_bit ^^ n) b"
  by (induction n) (simp_all add: crc_bit_xor)

lemma crc_bits_shift: "(\<And>k. k < n \<Longrightarrow> \<not> bit a k) \<Longrightarrow> (crc_bit ^^ n) a = drop_bit n a"
proof (induction n)
  case (Suc n)
  then have "(crc_bit ^^ n) a = drop_bit n a" by simp
  then have "(crc_bit ^^ Suc n) a = crc_bit (drop_bit n a)" by simp
  also have "\<dots> = drop_bit 1 (drop_bit n a)" using Suc.prems [of n] by (simp add: crc_bit_def bit_drop_bit_eq)
  finally show ?case by simp
qed simp

lemma crc_byte: "(crc_bit ^^ 8) x = drop_bit 8 x XOR crc_table ! unat (x AND 0xff)"
proof -
  have mask: "(0xff :: 32 word) = mask 8" by (simp add: mask_eq_exp_minus_1)
  have split: "x = (x AND NOT (mask 8)) XOR (x AND mask 8)"
    by (intro bit_word_eqI) (auto simp: bit_xor_iff bit_and_iff bit_not_iff)
  have "unat (x AND mask 8) < 256"
    using and_mask_less_size [of 8 x] by (simp add: word_size word_less_nat_alt)
  then have "crc_table ! unat (x AND mask 8) = (crc_bit ^^ 8) (x AND mask 8)" by (simp add: crc_table_nth)
  moreover have "(crc_bit ^^ 8) (x AND NOT (mask 8)) = drop_bit 8 (x AND NOT (mask 8))"
    by (rule crc_bits_shift) (simp add: bit_and_iff bit_not_iff bit_mask_iff)
  moreover have "drop_bit 8 (x AND NOT (mask 8)) = drop_bit 8 x"
    by (intro bit_word_eqI) (auto simp: bit_drop_bit_eq bit_and_iff bit_not_iff bit_mask_iff dest: bit_imp_le_length)
  ultimately show ?thesis using crc_bits_xor [of 8 "x AND NOT (mask 8)" "x AND mask 8"] split mask by metis
qed

text \<open>
  The table-driven hash is the checksum of the shift register, fed with the bytes of the text.
\<close>

theorem crc_hash_reference: "crc_hash s = crc_reference s"
proof -
  have "crc_update = (\<lambda>crc c. (crc_bit ^^ 8) (crc XOR of_int (char_int c AND 0xff)))"
  proof (intro ext)
    fix crc c
    let ?b = "of_int (char_int c AND 0xff) :: 32 word"
    have mask: "(0xff :: 32 word) = mask 8" "(0xff :: int) = mask 8" by (simp_all add: mask_eq_exp_minus_1)
    have b: "?b = of_int (char_int c) AND mask 8" by (simp add: mask of_int_and_eq of_int_mask_eq)
    have "drop_bit 8 (crc XOR ?b) = drop_bit 8 crc"
      unfolding b by (intro bit_word_eqI) (simp add: bit_drop_bit_eq bit_xor_iff bit_and_iff bit_mask_iff)
    moreover have "(crc XOR ?b) AND mask 8 = (crc XOR of_int (char_int c)) AND mask 8"
      unfolding b by (intro bit_word_eqI) (auto simp: bit_xor_iff bit_and_iff bit_mask_iff)
    ultimately show "crc_update crc c = (crc_bit ^^ 8) (crc XOR ?b)" by (simp only: crc_update_def crc_byte mask(1))
  qed
  then show ?thesis by (simp only: crc_hash_def crc_reference_def)
qed

section \<open>The labels of the cases\<close>

text \<open>
  \<open>has_duplicate\<close> is true when there is no duplicate: each hash is sifted into its place among the
  sorted ones before it, and one equal to its neighbour ends the search.
\<close>

fun sift :: "int list \<Rightarrow> nat \<Rightarrow> int list option" where
  "sift hashes 0 = Some hashes"
| "sift hashes (Suc i) =
     (if hashes ! Suc i < hashes ! i then sift (hashes[Suc i := hashes ! i, i := hashes ! Suc i]) i
      else if hashes ! Suc i = hashes ! i then None else Some hashes)"

fun duplicate_loop :: "('a \<Rightarrow> int) \<Rightarrow> 'a list \<Rightarrow> nat \<Rightarrow> int list \<Rightarrow> bool" where
  "duplicate_loop hash [] n hashes = True"
| "duplicate_loop hash (x # xs) n hashes = (case sift (hashes[n := hash x]) n of
     None \<Rightarrow> False | Some hashes \<Rightarrow> duplicate_loop hash xs (n + 1) hashes)"

definition has_duplicate :: "('a \<Rightarrow> int) \<Rightarrow> 'a list \<Rightarrow> bool" where
  "has_duplicate hash xs = duplicate_loop hash xs 0 (replicate (length xs) 0)"

text \<open>One more: in the width of the hash, or undefined for the types that do not wrap.\<close>

definition increment :: "int_type \<Rightarrow> int \<Rightarrow> int option" where
  "increment T x = (case T of
     USigned w \<Rightarrow> if x = U_max T \<and> 32 \<le> w then None else Some (to_U T (x + 1))
   | _ \<Rightarrow> Some (to_U T (x + 1)))"

text \<open>
  The unused cases are labelled upwards from the last used one, then upwards from the smallest
  label, past the labels \<open>it\<close> points to.
\<close>

function fill_up :: "int_type \<Rightarrow> nat \<Rightarrow> int \<Rightarrow> int list \<Rightarrow> nat \<times> int list" where
  "fill_up T fill last_value result =
     (if fill < length result \<and> last_value \<noteq> U_max T
      then fill_up T (fill + 1) (last_value + 1) (result[fill := last_value + 1])
      else (fill, result))"
  by auto
termination by (relation "measure (\<lambda>(T, fill, last_value, result). length result - fill)") auto

declare fill_up.simps [simp del]

function skip_labels :: "int_type \<Rightarrow> int list \<Rightarrow> nat \<Rightarrow> int \<Rightarrow> (nat \<times> int) option" where
  "skip_labels T result it last_value =
     (if it < length result
      then if last_value = result ! it
           then (case increment T last_value of None \<Rightarrow> None | Some v \<Rightarrow> skip_labels T result (it + 1) v)
           else Some (it, last_value)
      else None)"
  by auto
termination by (relation "measure (\<lambda>(T, result, it, last_value). length result - it)") auto

declare skip_labels.simps [simp del]

function fill_low :: "int_type \<Rightarrow> nat \<Rightarrow> nat \<Rightarrow> int \<Rightarrow> int list \<Rightarrow> int list option" where
  "fill_low T fill it last_value result =
     (if fill < length result
      then (case skip_labels T result it last_value of
        None \<Rightarrow> None
      | Some (it, last_value) \<Rightarrow> (case increment T last_value of
          None \<Rightarrow> None
        | Some v \<Rightarrow> fill_low T (fill + 1) it v (result[fill := last_value])))
      else Some result)"
  by auto
termination by (relation "measure (\<lambda>(T, fill, it, last_value, result). length result - fill)") auto

declare fill_low.simps [simp del]

definition calculate_cases :: "int_type \<Rightarrow> ('a \<Rightarrow> int) \<Rightarrow> 'a list \<Rightarrow> nat \<Rightarrow> int list option" where
  "calculate_cases T hash vs Page = (let values_to = min 256 (length vs - Page) in
     if values_to = 0 then None
     else let result = map hash (take values_to (drop Page vs)) @ replicate (256 - values_to) 0;
              (fill, result) = fill_up T values_to (result ! (values_to - 1)) result
          in fill_low T fill 0 (U_min T) result)"

section \<open>The switch\<close>

text \<open>
  \<open>T\<close> is the type of the hashes, \<open>hash\<close> and \<open>hash2\<close> the two hashes; \<open>lambda i\<close> is what the callable
  yields for the entry at \<open>i\<close>, \<open>None\<close> where it cannot be called. An unused case falls through to
  \<open>default\<close>, where the next page is tried, with the default predicate.
\<close>

function constexpr_switch ::
  "int_type \<Rightarrow> ('a \<Rightarrow> int) \<Rightarrow> ('a \<Rightarrow> int) \<Rightarrow> 'a list \<Rightarrow> nat \<Rightarrow> (nat \<Rightarrow> 'r option) \<Rightarrow> 'a \<Rightarrow> 'r \<Rightarrow>
   ('a \<Rightarrow> 'a \<Rightarrow> bool) \<Rightarrow> 'r option" where
  "constexpr_switch T hash hash2 vs Page lambda searched def pred =
     (let hash_t = (if has_duplicate hash vs then hash else hash2) in
      if \<not> has_duplicate hash_t vs then None
      else case calculate_cases T hash_t vs Page of
        None \<Rightarrow> None
      | Some cases \<Rightarrow>
          if \<not> distinct cases then None
          else (case (if length vs > 256 + Page then constexpr_switch T hash hash2 vs (Page + 256) lambda searched def (=)
                      else Some def) of
            None \<Rightarrow> None
          | Some other \<Rightarrow> Some (case List.find (\<lambda>v. cases ! v = hash_t searched) [0..<256] of
              None \<Rightarrow> other
            | Some v \<Rightarrow>
                if v + Page < length vs
                then if \<not> pred (vs ! (v + Page)) searched then def
                     else (case lambda (v + Page) of Some r \<Rightarrow> r | None \<Rightarrow> def)
                else other)))"
  by auto
termination
  by (relation "measure (\<lambda>(T, hash, hash2, vs, Page, lambda, searched, def, pred). length vs - Page)") auto

declare constexpr_switch.simps [simp del]

section \<open>Sifting finds duplicates\<close>

lemma sift_eq:
  "sorted_wrt (<) (as @ bs) \<Longrightarrow> (\<And>b. b \<in> set bs \<Longrightarrow> h < b) \<Longrightarrow>
   if h \<in> set as then sift (as @ h # bs @ rest) (length as) = None
   else \<exists>hs. sift (as @ h # bs @ rest) (length as) = Some (hs @ rest) \<and> sorted_wrt (<) hs \<and>
     set hs = insert h (set as \<union> set bs) \<and> length hs = Suc (length as + length bs)"
proof (induction as arbitrary: bs rule: rev_induct)
  case Nil
  then show ?case by (auto intro!: exI [of _ "h # bs"])
next
  case (snoc a as)
  have nth: "((as @ [a]) @ h # bs @ rest) ! Suc (length as) = h" "((as @ [a]) @ h # bs @ rest) ! length as = a"
    by (simp_all add: nth_append)
  have as: "\<And>x. x \<in> set as \<Longrightarrow> x < a" "\<And>x. x \<in> set bs \<Longrightarrow> a < x"
    using snoc.prems(1) by (auto simp: sorted_wrt_append)
  consider "h < a" | "h = a" | "a < h" by linarith
  then show ?case
  proof cases
    case 1
    have swap: "((as @ [a]) @ h # bs @ rest)[Suc (length as) := a, length as := h] = as @ h # (a # bs) @ rest"
      by (simp add: list_update_append)
    have "if h \<in> set as then sift (as @ h # (a # bs) @ rest) (length as) = None
      else \<exists>hs. sift (as @ h # (a # bs) @ rest) (length as) = Some (hs @ rest) \<and> sorted_wrt (<) hs \<and>
        set hs = insert h (set as \<union> set (a # bs)) \<and> length hs = Suc (length as + length (a # bs))"
      using snoc.prems 1 by (intro snoc.IH) auto
    then show ?thesis using 1 nth swap by auto
  next
    case 2
    then show ?thesis using nth by simp
  next
    case 3
    then have "h \<notin> set (as @ [a])" using as by fastforce
    moreover have "sorted_wrt (<) ((as @ [a]) @ h # bs)"
      using snoc.prems 3 as by (fastforce simp: sorted_wrt_append)
    ultimately show ?thesis using nth 3 by (auto intro!: exI [of _ "as @ a # h # bs"])
  qed
qed

lemma duplicate_loop_eq:
  "sorted_wrt (<) hs \<Longrightarrow> length rest = length xs \<Longrightarrow>
   duplicate_loop hash xs (length hs) (hs @ rest) \<longleftrightarrow> distinct (map hash xs) \<and> set hs \<inter> hash ` set xs = {}"
proof (induction xs arbitrary: hs rest)
  case (Cons x xs)
  then obtain r rest' where rest: "rest = r # rest'" "length rest' = length xs" by (cases rest) auto
  have upd: "(hs @ rest)[length hs := hash x] = hs @ hash x # [] @ rest'" by (simp add: rest)
  show ?case
  proof (cases "hash x \<in> set hs")
    case True
    then have "sift (hs @ hash x # [] @ rest') (length hs) = None"
      using sift_eq [of hs "[]" "hash x" rest'] Cons.prems by simp
    with True upd show ?thesis by auto
  next
    case False
    then obtain hs' where hs': "sift (hs @ hash x # [] @ rest') (length hs) = Some (hs' @ rest')" "sorted_wrt (<) hs'"
        "set hs' = insert (hash x) (set hs)" "length hs' = Suc (length hs)"
      using sift_eq [of hs "[]" "hash x" rest'] Cons.prems by auto
    have "duplicate_loop hash xs (length hs') (hs' @ rest') \<longleftrightarrow> distinct (map hash xs) \<and> set hs' \<inter> hash ` set xs = {}"
      by (rule Cons.IH [OF hs'(2) rest(2)])
    with False upd hs' show ?thesis by auto
  qed
qed simp

lemma has_duplicate_iff: "has_duplicate hash xs \<longleftrightarrow> distinct (map hash xs)"
  using duplicate_loop_eq [of "[]" "replicate (length xs) 0" xs hash] by (simp add: has_duplicate_def)

section \<open>The labels are different\<close>

lemma fill_up_eq:
  "fill \<le> length result \<Longrightarrow> last_value \<le> U_max T \<Longrightarrow>
   \<exists>k. fill_up T fill last_value result =
       (fill + k, take fill result @ map (\<lambda>j. last_value + 1 + int j) [0..<k] @ drop (fill + k) result) \<and>
     fill + k \<le> length result \<and> last_value + int k \<le> U_max T \<and>
     (fill + k = length result \<or> last_value + int k = U_max T)"
proof (induction T fill last_value result rule: fill_up.induct)
  case (1 T fill last_value result)
  show ?case
  proof (cases "fill < length result \<and> last_value \<noteq> U_max T")
    case True
    let ?r = "result[fill := last_value + 1]"
    obtain k where k: "fill_up T (fill + 1) (last_value + 1) ?r =
          (fill + 1 + k, take (fill + 1) ?r @ map (\<lambda>j. last_value + 1 + 1 + int j) [0..<k] @ drop (fill + 1 + k) ?r)"
        "fill + 1 + k \<le> length ?r" "last_value + 1 + int k \<le> U_max T"
        "fill + 1 + k = length ?r \<or> last_value + 1 + int k = U_max T"
      using 1 True by auto
    have "take (fill + 1) ?r = take fill result @ [last_value + 1]"
      using True by (simp add: take_Suc_conv_app_nth)
    moreover have "[last_value + 1] @ map (\<lambda>j. last_value + 1 + 1 + int j) [0..<k] = map (\<lambda>j. last_value + 1 + int j) [0..<Suc k]"
      by (simp add: upt_conv_Cons map_Suc_upt [symmetric] del: upt_Suc map_Suc_upt)
    ultimately show ?thesis
      using k True by (intro exI [of _ "Suc k"]) (simp add: fill_up.simps [of T fill]; linarith)
  qed (use 1 in \<open>auto simp: fill_up.simps [of T fill] intro!: exI [of _ 0]\<close>)
qed

lemma fill_low_keeps:
  "fill_low T fill it last_value result = Some r \<Longrightarrow> fill \<le> length result \<Longrightarrow>
   length r = length result \<and> take fill r = take fill result"
proof (induction T fill it last_value result rule: fill_low.induct)
  case (1 T fill it last_value result)
  show ?case
  proof (cases "fill < length result")
    case True
    then obtain it' last' v where step: "skip_labels T result it last_value = Some (it', last')" "increment T last' = Some v"
        "fill_low T (fill + 1) it' v (result[fill := last']) = Some r"
      using 1(2) by (auto simp: fill_low.simps [of T fill] split: option.splits)
    have "length r = length (result[fill := last']) \<and> take (fill + 1) r = take (fill + 1) (result[fill := last'])"
      using 1(1) [OF True step(1) refl step(2,3)] True by simp
    then show ?thesis by (metis (no_types, lifting) length_list_update le_add1 min.absorb1 take_take take_update_cancel le_refl)
  next
    case False
    then have "fill_low T fill it last_value result = Some result" by (simp add: fill_low.simps [of T fill])
    then show ?thesis using 1(2) by simp
  qed
qed

text \<open>
  The walk through the labels from below: \<open>it\<close> is the first label not yet passed, and the labels
  below \<open>last_value\<close> are those passed and the \<open>q\<close> new ones.
\<close>

definition walking :: "int_type \<Rightarrow> int list \<Rightarrow> nat \<Rightarrow> nat \<Rightarrow> int \<Rightarrow> bool" where
  "walking T labels q it last_value \<longleftrightarrow> sorted_wrt (<) labels \<and> labels \<noteq> [] \<and> last labels = U_max T \<and>
     it < length labels \<and> last_value \<le> labels ! it \<and> (\<forall>j<it. labels ! j < last_value) \<and>
     last_value - U_min T = int (it + q)"

definition label_type :: "int_type \<Rightarrow> bool" where
  "label_type T \<longleftrightarrow> int_type_ok T \<and> T \<noteq> UBool"

lemma label_type_wide: "label_type T \<Longrightarrow> 255 \<le> U_max T - U_min T"
proof (cases T)
  case (USigned w)
  assume "label_type T"
  then have "(2 :: int) ^ 7 \<le> 2 ^ (w - 1)" using USigned by (intro power_increasing) (auto simp: label_type_def)
  then show ?thesis using USigned by simp
next
  case (UUnsigned w)
  assume "label_type T"
  then have "(2 :: int) ^ 8 \<le> 2 ^ w" using UUnsigned by (intro power_increasing) (auto simp: label_type_def)
  then show ?thesis using UUnsigned by simp
qed (simp add: label_type_def)

lemma increment_eq: "U_min T \<le> x \<Longrightarrow> x < U_max T \<Longrightarrow> increment T x = Some (x + 1)"
  using to_U_id [of T "x + 1"] by (auto simp: increment_def in_U_def split: int_type.split)

lemma labels_le_max:
  assumes "sorted_wrt (<) labels" "last labels = (m :: int)" "i < length labels"
  shows "labels ! i \<le> m" "labels ! i = m \<longleftrightarrow> i = length labels - 1"
proof -
  have m: "m = labels ! (length labels - 1)" using assms by (cases labels rule: rev_cases) (auto simp: nth_append)
  consider "i = length labels - 1" | "i < length labels - 1" using assms(3) by linarith
  then have "i = length labels - 1 \<or> labels ! i < m"
    using sorted_wrt_nth_less [OF assms(1), of i "length labels - 1"] m assms(3) by cases auto
  then show "labels ! i \<le> m" "labels ! i = m \<longleftrightarrow> i = length labels - 1" using m by auto
qed

lemma skip_labels_eq:
  assumes T: "label_type T" and room: "length labels + q < 256"
  shows "walking T labels q it last_value \<Longrightarrow>
   \<exists>it' last'. skip_labels T (labels @ rest) it last_value = Some (it', last') \<and> walking T labels q it' last' \<and>
     last' < labels ! it' \<and> last_value \<le> last'"
proof (induction "length labels - it" arbitrary: it last_value rule: less_induct)
  case less
  note w = less.prems [unfolded walking_def]
  show ?case
  proof (cases "last_value = labels ! it")
    case False
    then have "skip_labels T (labels @ rest) it last_value = Some (it, last_value)"
      using w by (simp add: skip_labels.simps [of T _ it] nth_append)
    with False less.prems w show ?thesis by auto
  next
    case True
    have le: "labels ! it \<le> U_max T" "labels ! it = U_max T \<longleftrightarrow> it = length labels - 1"
      using labels_le_max [of labels "U_max T" it] w by blast+
    have "it \<noteq> length labels - 1"
      using w le True label_type_wide [OF T] room by linarith
    then have next_it: "Suc it < length labels" and small: "last_value < U_max T" using w le True by auto
    have "labels ! it < labels ! Suc it" using sorted_wrt_nth_less [of "(<)" labels it "Suc it"] w next_it by auto
    moreover have "labels ! j < last_value + 1" if "j < Suc it" for j
      using w True that by (auto simp: less_Suc_eq intro: less_imp_le)
    ultimately have walk: "walking T labels q (Suc it) (last_value + 1)"
      using w True next_it unfolding walking_def by auto
    have "length labels - Suc it < length labels - it" using next_it by linarith
    then obtain it' last' where "skip_labels T (labels @ rest) (Suc it) (last_value + 1) = Some (it', last')"
        "walking T labels q it' last'" "last' < labels ! it'" "last_value + 1 \<le> last'"
      using less.hyps [OF _ walk] by blast
    moreover have "increment T last_value = Some (last_value + 1)"
      using increment_eq [OF _ small] w by linarith
    ultimately show ?thesis
      using True w by (auto simp: skip_labels.simps [of T _ it] nth_append)
  qed
qed

lemma fill_low_distinct:
  assumes T: "label_type T"
  shows "walking T labels (length new) it last_value \<Longrightarrow> distinct new \<Longrightarrow> (\<And>x. x \<in> set new \<Longrightarrow> x < last_value) \<Longrightarrow>
   set new \<inter> set labels = {} \<Longrightarrow> length (labels @ new @ rest) = 256 \<Longrightarrow>
   \<exists>r. fill_low T (length (labels @ new)) it last_value (labels @ new @ rest) = Some r \<and> distinct r"
proof (induction rest arbitrary: new it last_value)
  case Nil
  then show ?case by (auto simp: fill_low.simps [of T _ it] walking_def strict_sorted_iff)
next
  case (Cons y rest)
  have room: "length labels + length new < 256" using Cons.prems(5) by simp
  obtain it' last' where step: "skip_labels T (labels @ new @ y # rest) it last_value = Some (it', last')"
      "walking T labels (length new) it' last'" "last' < labels ! it'" "last_value \<le> last'"
    using skip_labels_eq [OF T room Cons.prems(1)] by blast
  note w = step(2) [unfolded walking_def]
  have small: "last' < U_max T" using labels_le_max(1) [of labels "U_max T" it'] w step(3) by simp
  have fresh: "last' \<notin> set labels"
  proof
    assume "last' \<in> set labels"
    then obtain j where j: "j < length labels" "labels ! j = last'" by (auto simp: in_set_conv_nth)
    then have "it' < j" using w step(3) by (metis less_irrefl linorder_neqE_nat)
    then show False using sorted_wrt_nth_less [of "(<)" labels it' j] w step(3) j by auto
  qed
  have inc: "increment T last' = Some (last' + 1)" using increment_eq [OF _ small] w by linarith
  have upd: "(labels @ new @ y # rest)[length (labels @ new) := last'] = labels @ (new @ [last']) @ rest"
    by (simp add: list_update_append)
  have "\<exists>r. fill_low T (length (labels @ new @ [last'])) it' (last' + 1) (labels @ (new @ [last']) @ rest) = Some r \<and> distinct r"
  proof (rule Cons.IH)
    have "\<forall>j<it'. labels ! j < last' + 1" using w by (meson add_strict_increasing less_trans zless_add1_eq)
    then show "walking T labels (length (new @ [last'])) it' (last' + 1)"
      using w step(3) unfolding walking_def by auto
    show "distinct (new @ [last'])" "set (new @ [last']) \<inter> set labels = {}"
      using Cons.prems(2-4) step(4) fresh by (auto dest: Cons.prems(3))
    show "x < last' + 1" if "x \<in> set (new @ [last'])" for x
      using that Cons.prems(3) step(4) by force
  qed (use Cons.prems(5) in simp)
  then show ?case
    using step(1) inc upd by (simp add: fill_low.simps [of T _ it])
qed

lemma fill_up_keeps:
  "fill_up T k v xs = (fill, r) \<Longrightarrow> k \<le> length xs \<Longrightarrow>
   k \<le> fill \<and> fill \<le> length xs \<and> length r = length xs \<and> take k r = take k xs"
proof (induction T k v xs rule: fill_up.induct)
  case (1 T k v xs)
  show ?case
  proof (cases "k < length xs \<and> v \<noteq> U_max T")
    case True
    have eq: "fill_up T k v xs = fill_up T (k + 1) (v + 1) (xs[k := v + 1])"
      using True by (subst fill_up.simps) simp
    have "k + 1 \<le> fill \<and> fill \<le> length xs \<and> length r = length xs \<and> take (k + 1) r = take (k + 1) (xs[k := v + 1])"
      using 1 True eq by simp
    moreover have "take k (take (k + 1) zs) = take k zs" for zs :: "int list" by (simp add: min_def)
    ultimately show ?thesis by (metis Suc_eq_plus1 Suc_leD order_refl take_update_cancel)
  next
    case False
    then have "fill_up T k v xs = (k, xs)" by (subst fill_up.simps) (rule if_not_P)
    then show ?thesis using 1 by simp
  qed
qed

lemma calculate_cases_keeps:
  assumes "calculate_cases T hash vs Page = Some r"
  shows "length r = 256 \<and> (\<forall>j < min 256 (length vs - Page). r ! j = hash (vs ! (Page + j)))"
proof -
  define N where "N = min 256 (length vs - Page)"
  let ?r = "map hash (take N (drop Page vs)) @ replicate (256 - N) 0"
  have n: "N \<noteq> 0"
  proof
    assume "N = 0"
    then show False using assms by (simp only: calculate_cases_def N_def [symmetric] Let_def if_True option.distinct refl)
  qed
  have len: "length (map hash (take N (drop Page vs))) = N" "length ?r = 256" by (simp_all add: N_def)
  obtain fill r' where f: "fill_up T N (?r ! (N - 1)) ?r = (fill, r')" by fastforce
  have low: "fill_low T fill 0 (U_min T) r' = Some r"
    using assms n unfolding calculate_cases_def N_def [symmetric] Let_def f by (simp split: if_splits)
  have up: "N \<le> fill \<and> fill \<le> 256 \<and> length r' = 256 \<and> take N r' = take N ?r"
    using fill_up_keeps [OF f] len by simp
  have r: "length r = 256 \<and> take fill r = take fill r'" using fill_low_keeps [OF low] up by simp
  have "r ! j = hash (vs ! (Page + j))" if j: "j < N" for j
  proof -
    have jn: "j < length vs - Page" using j by (simp add: N_def)
    have "r ! j = take fill r ! j" using j up by simp
    also have "\<dots> = take N r' ! j" using r j up by (metis less_le_trans nth_take)
    also have "\<dots> = ?r ! j" using up j by (metis nth_take)
    also have "\<dots> = hash (vs ! (Page + j))" using j jn len(1) by (simp add: nth_append)
    finally show ?thesis .
  qed
  with r show ?thesis unfolding N_def by blast
qed

lemma calculate_cases_distinct:
  assumes T: "label_type T" and sorted: "sorted_wrt (<) (map hash vs)" and inT: "\<And>x. x \<in> set vs \<Longrightarrow> in_U T (hash x)"
    and Page: "Page < length vs"
  shows "\<exists>r. calculate_cases T hash vs Page = Some r \<and> distinct r"
proof -
  define N where "N = min 256 (length vs - Page)"
  define ws where "ws = map hash (take N (drop Page vs))"
  let ?r = "ws @ replicate (256 - N) 0"
  have n: "N \<noteq> 0" "length ws = N" "ws \<noteq> []" using Page by (auto simp: ws_def N_def)
  have ws: "sorted_wrt (<) ws"
    using sorted by (simp add: ws_def sorted_wrt_drop sorted_wrt_take flip: take_map drop_map)
  have ws_U: "in_U T x" if "x \<in> set ws" for x
    using that inT by (auto simp: ws_def dest!: in_set_takeD in_set_dropD)
  have l: "?r ! (N - 1) = last ws"
    using n(3) unfolding n(2) [symmetric] by (simp add: nth_append last_conv_nth)
  have lU: "in_U T (last ws)" using ws_U n by simp
  obtain k where k: "fill_up T N (last ws) ?r = (N + k, ws @ map (\<lambda>j. last ws + 1 + int j) [0..<k] @ drop (N + k) ?r)"
      "N + k \<le> 256" "last ws + int k \<le> U_max T" "N + k = 256 \<or> last ws + int k = U_max T"
  proof -
    have "length ?r = 256" "take N ?r = ws" "N \<le> 256" "last ws \<le> U_max T"
      using n lU by (simp_all add: N_def in_U_def)
    then show ?thesis using fill_up_eq [of N ?r "last ws" T] that by metis
  qed
  define labels where "labels = ws @ map (\<lambda>j. last ws + 1 + int j) [0..<k]"
  define rest where "rest = drop (N + k) ?r"
  have len: "length labels = N + k" "length (labels @ rest) = 256" using n k(2) by (simp_all add: labels_def rest_def)
  have ne: "labels \<noteq> []" using n by (simp add: labels_def)
  have below: "x \<le> last ws" if "x \<in> set ws" for x
    using that labels_le_max(1) [OF ws refl] by (auto simp: in_set_conv_nth)
  have sl: "sorted_wrt (<) labels"
    unfolding labels_def sorted_wrt_append using ws below by (auto simp: sorted_wrt_iff_nth_less dest!: below)
  have eq: "calculate_cases T hash vs Page = fill_low T (length labels) 0 (U_min T) (labels @ rest)"
    using n k(1) l len unfolding calculate_cases_def N_def [symmetric] Let_def ws_def [symmetric] by (simp add: labels_def rest_def)
  show ?thesis
  proof (cases "N + k = 256")
    case True
    then have "rest = []" using len by simp
    moreover have "distinct labels" using sl by (simp add: strict_sorted_iff)
    ultimately show ?thesis using eq len True by (simp add: fill_low.simps [of T _ 0])
  next
    case False
    then have "last labels = U_max T"
      using k(4) by (cases k) (auto simp: labels_def)
    moreover have "U_min T \<le> labels ! 0"
      using ws_U [of "hd ws"] n by (cases ws) (auto simp: labels_def in_U_def)
    ultimately have "walking T labels (length ([] :: int list)) 0 (U_min T)"
      using sl ne by (simp add: walking_def)
    then show ?thesis using fill_low_distinct [OF T, of labels "[]" 0 "U_min T" rest] eq len by simp
  qed
qed

section \<open>The switch is a search\<close>

lemma find_label:
  "distinct cases \<Longrightarrow> j < length cases \<Longrightarrow> cases ! j = y \<Longrightarrow> List.find (\<lambda>v. cases ! v = y) [0..<length cases] = Some j"
  using find_index [of "cases" y] index_of_nth [of "cases" j] by auto

lemma constexpr_switch_search:
  "constexpr_switch T hash hash2 vs Page lambda searched def (=) = Some r \<Longrightarrow>
   r = (if searched \<in> set (drop Page vs) then case_option def (\<lambda>r. r) (lambda (index_of vs searched)) else def)"
proof (induction "length vs - Page" arbitrary: Page r rule: less_induct)
  case less
  define hash_t where "hash_t = (if has_duplicate hash vs then hash else hash2)"
  obtain cases other where c: "has_duplicate hash_t vs" "calculate_cases T hash_t vs Page = Some cases" "distinct cases"
      "(if length vs > 256 + Page then constexpr_switch T hash hash2 vs (Page + 256) lambda searched def (=)
        else Some def) = Some other"
      "r = (case List.find (\<lambda>v. cases ! v = hash_t searched) [0..<256] of None \<Rightarrow> other
        | Some v \<Rightarrow> if v + Page < length vs then if vs ! (v + Page) \<noteq> searched then def
            else (case lambda (v + Page) of Some r \<Rightarrow> r | None \<Rightarrow> def) else other)"
    using less.prems by (subst (asm) constexpr_switch.simps) (simp add: Let_def flip: hash_t_def split: if_splits option.splits)
  have Page: "Page < length vs"
  proof (rule ccontr)
    assume "\<not> Page < length vs"
    then show False using c(2) by (simp add: calculate_cases_def)
  qed
  have inj: "distinct (map hash_t vs)" and dist: "distinct vs"
    using c(1) by (simp_all add: has_duplicate_iff distinct_map)
  have len: "length cases = 256" and labels: "\<And>j. j < min 256 (length vs - Page) \<Longrightarrow> cases ! j = hash_t (vs ! (Page + j))"
    using calculate_cases_keeps [OF c(2)] by blast+
  have other: "other = (if searched \<in> set (drop (Page + 256) vs) then case_option def (\<lambda>r. r) (lambda (index_of vs searched)) else def)"
  proof (cases "length vs > 256 + Page")
    case True
    then show ?thesis using less.hyps [of "Page + 256" other] c(4) by simp
  qed (use c(4) in simp)
  show ?case
  proof (cases "\<exists>j < min 256 (length vs - Page). vs ! (Page + j) = searched")
    case True
    then obtain j where j: "j < min 256 (length vs - Page)" "vs ! (Page + j) = searched" by blast
    have "List.find (\<lambda>v. cases ! v = hash_t searched) [0..<256] = Some j"
      using find_label [OF c(3), of j "hash_t searched"] labels [OF j(1)] j len by simp
    moreover have "index_of vs searched = Page + j" using index_of_nth [OF dist, of "Page + j"] j less_diff_conv [of j "length vs" Page] by (simp add: add.commute)
    moreover have "searched \<in> set (drop Page vs)"
      using j by (auto simp: in_set_conv_nth intro!: exI [of _ j])
    moreover have "j + Page < length vs" using j by (simp add: less_diff_conv)
    ultimately show ?thesis using c(5) j by (simp add: add.commute split: option.splits)
  next
    case False
    have rest: "searched \<in> set (drop Page vs) \<longleftrightarrow> searched \<in> set (drop (Page + 256) vs)"
    proof
      assume "searched \<in> set (drop Page vs)"
      then obtain j where j: "j < length vs - Page" "vs ! (Page + j) = searched" by (auto simp: in_set_conv_nth)
      with False have "256 \<le> j" by (metis min_less_iff_conj not_less)
      with j show "searched \<in> set (drop (Page + 256) vs)"
        by (auto simp: in_set_conv_nth intro!: exI [of _ "j - 256"])
    qed (metis add.commute drop_drop in_set_dropD)
    show ?thesis
    proof (cases "List.find (\<lambda>v. cases ! v = hash_t searched) [0..<256]")
      case None
      then show ?thesis using c(5) other rest by simp
    next
      case (Some v)
      then have v: "v < 256" "cases ! v = hash_t searched" using find_upt by blast+
      show ?thesis
      proof (cases "v + Page < length vs")
        case True
        then have vn: "v < min 256 (length vs - Page)" using v by simp
        have ne: "vs ! (v + Page) \<noteq> searched" using False vn by (auto simp: add.commute)
        have "searched \<notin> set vs"
        proof
          assume "searched \<in> set vs"
          then have "vs ! (v + Page) = searched"
            using inj labels [OF vn] v True by (metis add.commute distinct_map inj_on_eq_iff nth_mem)
          with ne show False by simp
        qed
        then have "searched \<notin> set (drop Page vs)" by (auto dest: in_set_dropD)
        then show ?thesis using c(5) Some True ne by simp
      next
        case False
        then show ?thesis using c(5) Some other rest by simp
      qed
    qed
  qed
qed

lemma constexpr_switch_compiles:
  assumes T: "label_type T" and sorted: "sorted_wrt (<) (map hash vs)" and inT: "\<And>x. x \<in> set vs \<Longrightarrow> in_U T (hash x)"
  shows "Page < length vs \<Longrightarrow> \<exists>r. constexpr_switch T hash hash2 vs Page lambda searched def pred = Some r"
proof (induction "length vs - Page" arbitrary: Page pred rule: less_induct)
  case less
  have d: "has_duplicate hash vs" using sorted by (simp add: has_duplicate_iff strict_sorted_iff)
  obtain cases where c: "calculate_cases T hash vs Page = Some cases" "distinct cases"
    using calculate_cases_distinct [OF T sorted inT less.prems] by blast
  have "\<exists>other. (if length vs > 256 + Page then constexpr_switch T hash hash2 vs (Page + 256) lambda searched def (=) else Some def) = Some other"
    using less.hyps [of "Page + 256"] by auto
  then obtain other where "(if length vs > 256 + Page then constexpr_switch T hash hash2 vs (Page + 256) lambda searched def (=) else Some def) = Some other" ..
  then show ?case using d c by (subst constexpr_switch.simps) simp
qed

section \<open>The look-ups\<close>

text \<open>The integer type of the hash of an enumerator, which is its value.\<close>

definition hash_type :: "EnumDef \<Rightarrow> int_type" where
  "hash_type e = (if underlying e = UBool then UUnsigned 64 else underlying e)"

definition enum_hash :: "int \<Rightarrow> int" where
  "enum_hash v = v"

definition enum_index_hash :: "EnumDef \<Rightarrow> enum_subtype \<Rightarrow> int \<Rightarrow> nat option option" where
  "enum_index_hash e S v =
     (if count_v e S = 0 then Some None
      else if is_sparse e S \<or> S = flags_enum
      then constexpr_switch (hash_type e) enum_hash enum_hash (values_v e S) 0 (\<lambda>i. Some (Some i)) v None (=)
      else if v \<ge> min_v e S \<and> v \<le> max_v e S then Some (Some (nat (v - min_v e S))) else Some None)"

definition enum_cast_int_hash :: "EnumDef \<Rightarrow> enum_subtype \<Rightarrow> int \<Rightarrow> int option option" where
  "enum_cast_int_hash e S x =
     (if count_v e S = 0 then Some None
      else if is_sparse e S \<or> S = flags_enum
      then constexpr_switch (hash_type e) enum_hash enum_hash (values_v e S) 0 (\<lambda>i. Some (Some (values_v e S ! i))) x None (=)
      else if x \<ge> min_v e S \<and> x \<le> max_v e S then Some (Some x) else Some None)"

definition enum_cast_str_hash :: "EnumDef \<Rightarrow> enum_subtype \<Rightarrow> string \<Rightarrow> int option option" where
  "enum_cast_str_hash e S s =
     (if count_v e S = 0 then Some None
      else constexpr_switch (UUnsigned 32) (\<lambda>s. uint (crc_hash s)) (\<lambda>s. uint (secondary_hash s)) (names_v e S) 0
        (\<lambda>i. Some (Some (values_v e S ! i))) s None (\<lambda>lhs rhs. cmp_equal lhs rhs None))"

definition enum_switch_hash :: "EnumDef \<Rightarrow> enum_subtype \<Rightarrow> (int \<Rightarrow> 'r option) \<Rightarrow> int \<Rightarrow> 'r \<Rightarrow> 'r option" where
  "enum_switch_hash e S f x def =
     constexpr_switch (hash_type e) enum_hash enum_hash (values_v e S) 0 (\<lambda>i. f (values_v e S ! i)) x def (=)"

lemma values_switch:
  assumes ok: "enum_ok e S" and ne: "count_v e S \<noteq> 0"
  shows "constexpr_switch (hash_type e) enum_hash enum_hash (values_v e S) 0 lambda x def (=) =
    Some (if x \<in> set (values_v e S) then case_option def (\<lambda>r. r) (lambda (index_of (values_v e S) x)) else def)"
proof -
  have label: "label_type (hash_type e)"
    using enum_okD(1) [OF ok] by (simp add: label_type_def hash_type_def)
  have sorted: "sorted_wrt (<) (map enum_hash (values_v e S))"
    using values_sorted(1) [OF ok] by (simp add: enum_hash_def sorted_wrt_map)
  have inT: "in_U (hash_type e) (enum_hash v)" if "v \<in> set (values_v e S)" for v
  proof -
    have "in_U (underlying e) v" using that candidate_in_U [OF ok] by (auto simp: set_values_v [OF ok])
    then show ?thesis by (auto simp: hash_type_def enum_hash_def in_U_def)
  qed
  have "\<exists>r. constexpr_switch (hash_type e) enum_hash enum_hash (values_v e S) 0 lambda x def (=) = Some r"
    by (rule constexpr_switch_compiles [OF label sorted inT]) (use ne in \<open>simp_all add: count_v_def\<close>)
  then obtain r where r: "constexpr_switch (hash_type e) enum_hash enum_hash (values_v e S) 0 lambda x def (=) = Some r" ..
  then show ?thesis using constexpr_switch_search [OF r] by simp
qed

text \<open>
  C35. All look-ups are the search of the table of values. For every enumeration, sparse or not, common
  or flags, the short cuts of the look-ups without hashes agree with it; the look-ups by hash
  compile and agree as well: an index, a cast of a number, and a switch over an enumeration that
  has enumerators. Without any, that switch reads before the start of its labels and does not compile.
\<close>

theorem hash_lookup_exact:
  assumes ok: "enum_ok e S"
  shows "enum_index e S v = (if v \<in> set (values_v e S) then Some (index_of (values_v e S) v) else None) \<and>
    enum_cast_int e S v = (if v \<in> set (values_v e S) then Some v else None) \<and>
    enum_index_hash e S v = Some (enum_index e S v) \<and>
    enum_cast_int_hash e S v = Some (enum_cast_int e S v) \<and>
    (case enum_switch_hash e S f v def of
       None \<Rightarrow> count_v e S = 0
     | Some r \<Rightarrow> count_v e S \<noteq> 0 \<and> enum_switch e S f v def = Inr r)"
proof -
  have "enum_index_hash e S v = Some (enum_index e S v)"
    using values_switch [OF ok, of "\<lambda>i. Some (Some i)" v None] enum_value_search [OF ok, of v]
    by (simp add: enum_index_hash_def enum_index_def)
  moreover have "enum_cast_int_hash e S v = Some (enum_cast_int e S v)"
    using values_switch [OF ok, of "\<lambda>i. Some (Some (values_v e S ! i))" v None] enum_value_search [OF ok, of v]
    by (simp add: enum_cast_int_hash_def enum_cast_int_def nth_index_of)
  moreover have "enum_switch_hash e S f v def = None" if "count_v e S = 0"
    using that by (simp add: enum_switch_hash_def count_v_def constexpr_switch.simps [of _ _ _ "[]"] calculate_cases_def has_duplicate_iff)
  moreover have "enum_switch_hash e S f v def = Some (if v \<in> set (values_v e S) then case_option def (\<lambda>r. r) (f v) else def)"
    if "count_v e S \<noteq> 0"
    using values_switch [OF ok that, of "\<lambda>i. f (values_v e S ! i)" v def] by (simp add: enum_switch_hash_def nth_index_of)
  ultimately show ?thesis
    using enum_switch_exact [OF ok, of f v def] enum_index_eq [OF ok, of v] enum_cast_int_eq [OF ok, of v]
    by (cases "count_v e S = 0") simp_all
qed

theorem hash_lookup_exact_witness:
  "enum_index_hash lamp common_enum 3 = Some (Some 1) \<and> enum_cast_int_hash lamp common_enum 2 = Some None"
  using hash_lookup_exact [OF lamp_ok, of 3 "\<lambda>_. Some True" False] hash_lookup_exact [OF lamp_ok, of 2 "\<lambda>_. Some True" False]
  by (simp add: lamp_values index_of_def)

text \<open>A name cast by its checksum, where this compiles, is what the search finds.\<close>

theorem hash_cast_name:
  assumes ok: "enum_ok e S" and compiles: "enum_cast_str_hash e S s = Some r"
  shows "enum_cast_str e S s None = Inr r"
proof (cases "count_v e S = 0")
  case False
  have pred: "(\<lambda>lhs rhs. cmp_equal lhs rhs None) = (=)" by (intro ext) simp
  have r: "r = (if s \<in> set (names_v e S) then Some (values_v e S ! index_of (names_v e S) s) else None)"
    using constexpr_switch_search [OF compiles [unfolded enum_cast_str_hash_def pred, simplified False if_False]] by simp
  have n: "length (names_v e S) = count_v e S" by (simp add: names_v_def count_v_def)
  have "List.find (\<lambda>i. cmp_equal s (names_v e S ! i) None) [0..<count_v e S] =
      (if s \<in> set (names_v e S) then Some (index_of (names_v e S) s) else None)"
    using find_index [of "names_v e S" s] by (simp add: n eq_commute [of s])
  moreover have "enum_value e S (index_of (names_v e S) s) = Inr (values_v e S ! index_of (names_v e S) s)" if "s \<in> set (names_v e S)"
    using index_of_less [OF that] n by (simp add: enum_value_eq [OF ok])
  ultimately show ?thesis using False r by (simp add: enum_cast_str_def)
qed (use compiles in \<open>simp add: enum_cast_str_hash_def enum_cast_str_def\<close>)

end
