(* ===== verification/EnumIndexing.thy ===== *)
theory EnumIndexing
  imports MagicEnum
begin

text \<open>
  \<open>lib/magic_enum/magic_enum_containers.hpp\<close>, first part: comparison and search on ranges, the
  order in which a container keeps the enumerators and the position of each (\<open>indexing\<close>), and
  arrays with enumerators for indices.
\<close>

section \<open>Algorithms on ranges\<close>

fun ranges_equal :: "('a \<Rightarrow> 'b \<Rightarrow> bool) \<Rightarrow> 'a list \<Rightarrow> 'b list \<Rightarrow> bool" where
  "ranges_equal eq (x # xs) (y # ys) = (if \<not> eq x y then False else ranges_equal eq xs ys)"
| "ranges_equal eq (x # xs) [] = False"
| "ranges_equal eq [] ys = (ys = [])"

fun lexicographical_compare :: "('a \<Rightarrow> 'a \<Rightarrow> bool) \<Rightarrow> 'a list \<Rightarrow> 'a list \<Rightarrow> bool" where
  "lexicographical_compare cmp (x # xs) (y # ys) =
     (if cmp x y then True else if cmp y x then False else lexicographical_compare cmp xs ys)"
| "lexicographical_compare cmp xs ys = (xs = [] \<and> ys \<noteq> [])"

function popcount_loop :: "int \<Rightarrow> nat \<Rightarrow> nat" where
  "popcount_loop x c = (if x > 0 then popcount_loop (drop_bit 1 x) (c + nat (x AND 1)) else c)"
  by auto
termination by (relation "measure (\<lambda>(x, c). nat x)") (auto simp: drop_bit_eq_div)

declare popcount_loop.simps [simp del]

definition popcount :: "int \<Rightarrow> nat" where
  "popcount x = popcount_loop x 0"

text \<open>
  The binary search, on positions; \<open>it\<close> is declared before the loop and carried through it.
\<close>

function lower_bound_loop :: "('a \<Rightarrow> 'b \<Rightarrow> bool) \<Rightarrow> 'a list \<Rightarrow> 'b \<Rightarrow> nat \<Rightarrow> nat \<Rightarrow> nat \<Rightarrow> nat res" where
  "lower_bound_loop cmp xs x first it cnt =
     (if cnt > 0
      then let step = cnt div 2; it = it + step
           in if \<not> it < length xs then Inl UndefinedBehaviour
              else if cmp (xs ! it) x then lower_bound_loop cmp xs x (it + 1) (it + 1) (cnt - (step + 1))
              else lower_bound_loop cmp xs x first it step
      else Inr first)"
  by auto
termination by (relation "measure (\<lambda>(cmp, xs, x, first, it, cnt). cnt)") auto

declare lower_bound_loop.simps [simp del]

definition lower_bound_of :: "('a \<Rightarrow> 'b \<Rightarrow> bool) \<Rightarrow> 'a list \<Rightarrow> 'b \<Rightarrow> nat res" where
  "lower_bound_of cmp xs x = lower_bound_loop cmp xs x 0 0 (length xs)"

text \<open>The second search runs over the elements from \<open>first\<close> on in reverse; \<open>base\<close> counts back.\<close>

definition equal_range_of :: "('a \<Rightarrow> 'a \<Rightarrow> bool) \<Rightarrow> 'a list \<Rightarrow> 'a \<Rightarrow> (nat \<times> nat) res" where
  "equal_range_of cmp xs x =
     bindE (lower_bound_of cmp xs x) (\<lambda>first.
       bindE (lower_bound_of (\<lambda>lhs rhs. cmp rhs lhs) (rev (drop first xs)) x) (\<lambda>back.
         Inr (first, length xs - back)))"

lemma ranges_equal_iff: "ranges_equal eq xs ys \<longleftrightarrow> list_all2 eq xs ys"
  by (induction eq xs ys rule: ranges_equal.induct) auto

lemma ranges_equal_eq [simp]: "ranges_equal (=) xs ys \<longleftrightarrow> xs = ys"
  by (simp add: ranges_equal_iff list.rel_eq)

lemma popcount_loop_eq: "0 \<le> x \<Longrightarrow> popcount_loop x c = c + card {k. bit x k}"
proof (induction x c rule: popcount_loop.induct)
  case (1 x c)
  show ?case
  proof (cases "x > 0")
    case True
    have halves: "{k. bit x k} = (if odd x then {0} else {}) \<union> Suc ` {k. bit (x div 2) k}"
    proof (rule set_eqI)
      show "k \<in> {k. bit x k} \<longleftrightarrow> k \<in> (if odd x then {0} else {}) \<union> Suc ` {k. bit (x div 2) k}" for k
        by (cases k) (auto simp: bit_0 bit_Suc)
    qed
    have fin: "finite {k. bit (x div 2) k}"
    proof (rule finite_subset)
      show "{k. bit (x div 2) k} \<subseteq> {..<nat x}"
      proof
        fix k assume k: "k \<in> {k. bit (x div 2) k}"
        have "x div 2 < 2 ^ nat x"
        proof -
          have "x < 2 ^ nat x" using less_exp [of "nat x"] True
            by (metis int_nat_eq less_imp_le of_nat_less_iff of_nat_numeral of_nat_power)
          then show ?thesis using True by linarith
        qed
        then have "take_bit (nat x) (x div 2) = x div 2" using True by (simp add: take_bit_int_eq_self)
        then show "k \<in> {..<nat x}" using k by (metis bit_take_bit_iff lessThan_iff mem_Collect_eq)
      qed
    qed simp
    have "card {k. bit x k} = nat (x AND 1) + card {k. bit (x div 2) k}"
      unfolding halves using fin by (subst card_Un_disjoint) (auto simp: card_image and_one_eq odd_iff_mod_2_eq_one)
    with 1 True show ?thesis by (subst popcount_loop.simps) (simp add: drop_bit_eq_div)
  next
    case False
    with 1 have "x = 0" by simp
    moreover have "{k. bit (0 :: int) k} = {}" by simp
    ultimately show ?thesis by (subst popcount_loop.simps) (simp only: card.empty, simp)
  qed
qed

lemma popcount_eq: "0 \<le> x \<Longrightarrow> popcount x = card {k. bit x k}"
  by (simp add: popcount_def popcount_loop_eq)

text \<open>What the search guarantees: it never passes an element that is not smaller.\<close>

lemma lower_bound_loop_sound:
  assumes "sorted_wrt (\<lambda>a b. cmp b x \<longrightarrow> cmp a x) xs" and "it + cnt \<le> length xs" and "first \<le> it"
    and "\<And>j. j < first \<Longrightarrow> cmp (xs ! j) x"
  shows "\<exists>r. lower_bound_loop cmp xs x first it cnt = Inr r \<and> first \<le> r \<and> r \<le> length xs \<and> (\<forall>j<r. cmp (xs ! j) x)"
  using assms
proof (induction cmp xs x first it cnt rule: lower_bound_loop.induct)
  case (1 cmp xs x first it cnt)
  show ?case
  proof (cases "cnt > 0")
    case True
    let ?it = "it + cnt div 2"
    have less: "?it < length xs" using 1(4) True by linarith
    show ?thesis
    proof (cases "cmp (xs ! ?it) x")
      case True
      have "cmp (xs ! j) x" if "j < ?it + 1" for j
      proof (cases "j = ?it")
        case False
        with that have "j < ?it" by simp
        with 1(3) less True show ?thesis unfolding sorted_wrt_iff_nth_less by blast
      qed (use True in simp)
      then have "\<exists>r. lower_bound_loop cmp xs x (?it + 1) (?it + 1) (cnt - (cnt div 2 + 1)) = Inr r \<and> ?it + 1 \<le> r \<and> r \<le> length xs \<and> (\<forall>j<r. cmp (xs ! j) x)"
        by (intro 1(1) [OF \<open>cnt > 0\<close> refl refl _ True]) (use 1 less \<open>cnt > 0\<close> in auto)
      then show ?thesis
        using True less \<open>cnt > 0\<close> 1(5) by (subst lower_bound_loop.simps) (auto simp: Let_def)
    next
      case False
      have "\<exists>r. lower_bound_loop cmp xs x first ?it (cnt div 2) = Inr r \<and> first \<le> r \<and> r \<le> length xs \<and> (\<forall>j<r. cmp (xs ! j) x)"
        by (intro 1(2) [OF \<open>cnt > 0\<close> refl refl _ False]) (use 1 less \<open>cnt > 0\<close> in auto)
      then show ?thesis
        using False less \<open>cnt > 0\<close> by (subst lower_bound_loop.simps) (auto simp: Let_def)
    qed
  next
    case False
    then show ?thesis using 1 by (subst lower_bound_loop.simps) auto
  qed
qed

section \<open>Positions of enumerators\<close>

text \<open>
  \<open>get_indices\<close>: the enumerators sorted by a comparison, by exchanging the indices of an array,
  and for each enumerator its position in the sorted array.
\<close>

definition exchange :: "(int \<Rightarrow> int \<Rightarrow> bool) \<Rightarrow> int list \<Rightarrow> nat \<Rightarrow> nat \<Rightarrow> nat list \<Rightarrow> nat list" where
  "exchange cmp vs i j rev_res =
     (if cmp (vs ! (rev_res ! j)) (vs ! (rev_res ! i)) then rev_res[i := rev_res ! j, j := rev_res ! i] else rev_res)"

definition sort_indices :: "(int \<Rightarrow> int \<Rightarrow> bool) \<Rightarrow> int list \<Rightarrow> nat list" where
  "sort_indices cmp vs = fold (\<lambda>i. fold (exchange cmp vs i) [Suc i..<length vs]) [0..<length vs] [0..<length vs]"

definition get_indices :: "(int \<Rightarrow> int \<Rightarrow> bool) \<Rightarrow> int list \<Rightarrow> int list \<times> nat list" where
  "get_indices cmp vs = (let rev_res = sort_indices cmp vs in
     (map (\<lambda>i. vs ! (rev_res ! i)) [0..<length vs],
      fold (\<lambda>i res. res[rev_res ! i := i]) [0..<length vs] (replicate (length vs) 0)))"

definition sorted_values :: "(int \<Rightarrow> int \<Rightarrow> bool) \<Rightarrow> EnumDef \<Rightarrow> enum_subtype \<Rightarrow> int list" where
  "sorted_values cmp e S = fst (get_indices cmp (values_v e S))"

definition sorted_at :: "(int \<Rightarrow> int \<Rightarrow> bool) \<Rightarrow> EnumDef \<Rightarrow> enum_subtype \<Rightarrow> int \<Rightarrow> nat option" where
  "sorted_at cmp e S v = (case enum_index e S v of
     Some i \<Rightarrow> Some (snd (get_indices cmp (values_v e S)) ! i) | None \<Rightarrow> None)"

text \<open>Enumerators in the order of their names.\<close>

definition name_sort_impl :: "(string \<Rightarrow> string \<Rightarrow> bool) \<Rightarrow> EnumDef \<Rightarrow> enum_subtype \<Rightarrow> int \<Rightarrow> int \<Rightarrow> bool" where
  "name_sort_impl cmp e S e1 e2 = cmp (enum_name e S e1) (enum_name e S e2)"

lemma exchange_mset: "i < length r \<Longrightarrow> j < length r \<Longrightarrow> mset (exchange cmp vs i j r) = mset r"
  using mset_swap [of j r i] by (simp add: exchange_def)

lemma exchange_length [simp]: "length (exchange cmp vs i j r) = length r"
  by (simp add: exchange_def)

lemma exchange_nth:
  "i < length r \<Longrightarrow> j < length r \<Longrightarrow> i \<noteq> j \<Longrightarrow> exchange cmp vs i j r ! k =
    (if cmp (vs ! (r ! j)) (vs ! (r ! i)) then (if k = i then r ! j else if k = j then r ! i else r ! k) else r ! k)"
  by (simp add: exchange_def nth_list_update)

text \<open>One pass puts a smallest of the rest at its position.\<close>

lemma exchange_pass:
  fixes key :: "int \<Rightarrow> 'k :: linorder" and vs :: "int list"
  assumes cmp: "\<And>a b. cmp a b \<longleftrightarrow> key a < key b" and i: "i < length r" and m: "Suc i \<le> m" "m \<le> length r"
  defines "r' \<equiv> fold (exchange cmp vs i) [Suc i..<m] r"
  shows "mset r' = mset r \<and> (\<forall>a<i. r' ! a = r ! a) \<and>
    (\<forall>b. i < b \<longrightarrow> b < m \<longrightarrow> key (vs ! (r' ! i)) \<le> key (vs ! (r' ! b))) \<and>
    (\<forall>b. i \<le> b \<longrightarrow> b < length r \<longrightarrow> (\<exists>c. i \<le> c \<and> c < length r \<and> r' ! b = r ! c)) \<and> length r' = length r"
  using m unfolding r'_def
proof (induction m rule: dec_induct)
  case (step m)
  define q where "q = fold (exchange cmp vs i) [Suc i..<m] r"
  have IH: "mset q = mset r" "\<And>a. a < i \<Longrightarrow> q ! a = r ! a" "length q = length r"
    "\<And>b. i < b \<Longrightarrow> b < m \<Longrightarrow> key (vs ! (q ! i)) \<le> key (vs ! (q ! b))"
    "\<And>b. i \<le> b \<Longrightarrow> b < length r \<Longrightarrow> \<exists>c. i \<le> c \<and> c < length r \<and> q ! b = r ! c"
    using step unfolding q_def by auto
  have m: "i < m" "m < length r" using step by auto
  have up: "fold (exchange cmp vs i) [Suc i..<Suc m] r = exchange cmp vs i m q"
    using m(1) by (simp add: q_def)
  note nth = exchange_nth [of i q m cmp vs, unfolded IH(3), OF i m(2) less_imp_neq [OF m(1)]]
  have "mset (exchange cmp vs i m q) = mset r"
    using exchange_mset [of i q m cmp vs] IH(1,3) i m(2) by simp
  moreover have "exchange cmp vs i m q ! a = r ! a" if "a < i" for a
    using that m(1) IH(2) by (simp add: nth)
  moreover have "key (vs ! (exchange cmp vs i m q ! i)) \<le> key (vs ! (exchange cmp vs i m q ! b))" if "i < b" "b < Suc m" for b
    using IH(4) [of b] that m by (cases "b = m") (auto simp: nth cmp)
  moreover have "\<exists>c. i \<le> c \<and> c < length r \<and> exchange cmp vs i m q ! b = r ! c" if "i \<le> b" "b < length r" for b
    using IH(5) [of b] IH(5) [of i] IH(5) [of m] that i m by (auto simp: nth)
  ultimately show ?case unfolding up using IH(3) by simp
qed auto

lemma sort_indices_sorted:
  fixes key :: "int \<Rightarrow> 'k :: linorder"
  assumes cmp: "\<And>a b. cmp a b \<longleftrightarrow> key a < key b"
  shows "mset (sort_indices cmp vs) = mset [0..<length vs] \<and>
    sorted_wrt (\<lambda>a b. key (vs ! a) \<le> key (vs ! b)) (sort_indices cmp vs)"
proof -
  let ?n = "length vs"
  define pass where "pass = (\<lambda>i. fold (exchange cmp vs i) [Suc i..<?n])"
  have "mset (fold pass [0..<m] [0..<?n]) = mset [0..<?n] \<and>
      (\<forall>a b. a < m \<longrightarrow> a < b \<longrightarrow> b < ?n \<longrightarrow>
        key (vs ! (fold pass [0..<m] [0..<?n] ! a)) \<le> key (vs ! (fold pass [0..<m] [0..<?n] ! b)))" if "m \<le> ?n" for m
    using that
  proof (induction m)
    case (Suc m)
    define r where "r = fold pass [0..<m] [0..<?n]"
    have IH: "mset r = mset [0..<?n]" "\<And>a b. a < m \<Longrightarrow> a < b \<Longrightarrow> b < ?n \<Longrightarrow> key (vs ! (r ! a)) \<le> key (vs ! (r ! b))"
      using Suc unfolding r_def by auto
    have len: "length r = ?n" using IH(1) mset_eq_length by fastforce
    have up: "fold pass [0..<Suc m] [0..<?n] = pass m r" by (simp add: r_def)
    have P: "mset (pass m r) = mset r" "\<And>a. a < m \<Longrightarrow> pass m r ! a = r ! a"
      "\<And>b. m < b \<Longrightarrow> b < ?n \<Longrightarrow> key (vs ! (pass m r ! m)) \<le> key (vs ! (pass m r ! b))"
      "\<And>b. m \<le> b \<Longrightarrow> b < ?n \<Longrightarrow> \<exists>c. m \<le> c \<and> c < ?n \<and> pass m r ! b = r ! c"
      using exchange_pass [of cmp key m r ?n vs, OF cmp] Suc.prems unfolding pass_def len by auto
    have "key (vs ! (pass m r ! a)) \<le> key (vs ! (pass m r ! b))" if "a < Suc m" "a < b" "b < ?n" for a b
    proof (cases "a = m")
      case True
      with P(3) that show ?thesis by simp
    next
      case False
      then have a: "a < m" using that by simp
      show ?thesis
      proof (cases "b < m")
        case True
        with a IH(2) [of a b] P(2) that show ?thesis by simp
      next
        case False
        then have mb: "m \<le> b" by simp
        obtain c where "m \<le> c" "c < ?n" "pass m r ! b = r ! c" using P(4) [OF mb \<open>b < ?n\<close>] by blast
        with IH(2) [of a c] P(2) a show ?thesis by simp
      qed
    qed
    then show ?case unfolding up using P(1) IH(1) by simp
  qed simp
  from this [of ?n] have R: "mset (sort_indices cmp vs) = mset [0..<?n]"
    "\<And>a b. a < b \<Longrightarrow> b < ?n \<Longrightarrow> key (vs ! (sort_indices cmp vs ! a)) \<le> key (vs ! (sort_indices cmp vs ! b))"
    unfolding sort_indices_def pass_def by auto
  have "length (sort_indices cmp vs) = ?n" using R(1) mset_eq_length by fastforce
  with R show ?thesis by (simp add: sorted_wrt_iff_nth_less)
qed

text \<open>Whatever the comparison, the sorted array has the same enumerators.\<close>

lemma fold_mset_invariant:
  "(\<And>x r. x \<in> set xs \<Longrightarrow> mset r = M \<Longrightarrow> mset (f x r) = M) \<Longrightarrow> mset r = M \<Longrightarrow> mset (fold f xs r) = M"
  by (induction xs arbitrary: r) auto

lemma sort_indices_perm: "mset (sort_indices cmp vs) = mset [0..<length vs]"
  unfolding sort_indices_def
proof (intro fold_mset_invariant)
  fix i j r
  assume "i \<in> set [0..<length vs]" "j \<in> set [Suc i..<length vs]" and r: "mset r = mset [0..<length vs]"
  moreover from r have "length r = length vs" using mset_eq_length by fastforce
  ultimately show "mset (exchange cmp vs i j r) = mset [0..<length vs]" by (simp add: exchange_mset)
qed simp_all

lemma sort_indices_props:
  "length (sort_indices cmp vs) = length vs" "distinct (sort_indices cmp vs)" "set (sort_indices cmp vs) = {..<length vs}"
proof -
  note perm = sort_indices_perm [of cmp vs]
  show "length (sort_indices cmp vs) = length vs" using mset_eq_length [OF perm] by simp
  show "distinct (sort_indices cmp vs)" using mset_eq_imp_distinct_iff [OF perm] by simp
  show "set (sort_indices cmp vs) = {..<length vs}" by (simp only: mset_eq_setD [OF perm] set_upt atLeast0LessThan)
qed

lemma inverse_of:
  assumes r: "distinct r" "set r \<subseteq> {..<n}" and "m \<le> length r"
  shows "(\<forall>i<m. fold (\<lambda>i res. res[r ! i := i]) [0..<m] (replicate n 0) ! (r ! i) = i) \<and>
    length (fold (\<lambda>i res. res[r ! i := i]) [0..<m] (replicate n 0)) = n"
  using assms(3)
proof (induction m)
  case (Suc m)
  define q where "q = fold (\<lambda>i res. res[r ! i := i]) [0..<m] (replicate n 0)"
  have IH: "\<And>i. i < m \<Longrightarrow> q ! (r ! i) = i" "length q = n" using Suc unfolding q_def by auto
  have m: "r ! m < n" using subsetD [OF r(2) nth_mem [of m r]] Suc.prems by simp
  have "q[r ! m := m] ! (r ! i) = i" if "i < Suc m" for i
  proof (cases "i = m")
    case False
    with that have i: "i < m" by simp
    then have "r ! m \<noteq> r ! i" using r(1) Suc.prems by (simp add: nth_eq_iff_index_eq)
    with IH(1) [OF i] show ?thesis by simp
  qed (use m IH(2) in simp)
  then show ?case using IH(2) by (simp add: q_def)
qed simp

lemma get_indices_position:
  assumes "i < length vs"
  shows "fst (get_indices cmp vs) ! i = vs ! (sort_indices cmp vs ! i)"
    "snd (get_indices cmp vs) ! (sort_indices cmp vs ! i) = i"
    "length (fst (get_indices cmp vs)) = length vs"
  using assms inverse_of [of "sort_indices cmp vs" "length vs" "length vs"] sort_indices_props [of cmp vs]
  by (simp_all add: get_indices_def Let_def)

lemma index_of_Some: "enum_ok e S \<Longrightarrow> enum_index e S v = Some i \<longleftrightarrow> i < length (values_v e S) \<and> values_v e S ! i = v"
  using nth_index_of [of v "values_v e S"] index_of_less [of v "values_v e S"] index_of_nth [OF values_sorted(2)]
  by (auto simp: enum_index_eq)

lemma sorted_at_Some:
  assumes ok: "enum_ok e S"
  shows "sorted_at cmp e S v = Some i \<longleftrightarrow> i < length (sorted_values cmp e S) \<and> sorted_values cmp e S ! i = v"
proof -
  let ?vs = "values_v e S" and ?r = "sort_indices cmp (values_v e S)"
  note r = sort_indices_props [of cmp ?vs]
  have len: "length (sorted_values cmp e S) = length ?vs" by (simp add: sorted_values_def get_indices_def Let_def)
  have nth: "sorted_values cmp e S ! i = ?vs ! (?r ! i)" "snd (get_indices cmp ?vs) ! (?r ! i) = i" "?r ! i < length ?vs"
    if "i < length ?vs" for i
    using get_indices_position(1,2) [OF that] r nth_mem [of i ?r] that by (auto simp: sorted_values_def)
  show ?thesis
  proof
    assume "sorted_at cmp e S v = Some i"
    then obtain k where k: "k < length ?vs" "?vs ! k = v" "i = snd (get_indices cmp ?vs) ! k"
      by (auto simp: sorted_at_def index_of_Some [OF ok] split: option.splits)
    then obtain j where "j < length ?vs" "?r ! j = k" using r by (metis in_set_conv_nth lessThan_iff)
    with k nth [of j] len show "i < length (sorted_values cmp e S) \<and> sorted_values cmp e S ! i = v" by auto
  next
    assume "i < length (sorted_values cmp e S) \<and> sorted_values cmp e S ! i = v"
    with len have "i < length ?vs" "?vs ! (?r ! i) = v" using nth by auto
    with nth(2,3) [of i] show "sorted_at cmp e S v = Some i"
      using index_of_Some [OF ok, of v "?r ! i"] by (simp add: sorted_at_def)
  qed
qed

text \<open>
  What a container asks of an indexing: the positions are those of an array that holds each
  enumerator once. Both indexings keep this contract.
\<close>

locale indexing =
  fixes legal :: bool and position :: "int \<Rightarrow> nat option" and vals :: "int list"
  assumes position_iff: "legal \<Longrightarrow> position v = Some i \<longleftrightarrow> i < length vals \<and> vals ! i = v"
begin

lemma vals_distinct: "legal \<Longrightarrow> distinct vals"
  unfolding distinct_conv_nth using position_iff by (metis option.inject)

lemma position_None: "legal \<Longrightarrow> position v = None \<longleftrightarrow> v \<notin> set vals"
  using position_iff [of v] by (metis in_set_conv_nth not_None_eq)

lemma position_nth: "legal \<Longrightarrow> i < length vals \<Longrightarrow> position (vals ! i) = Some i"
  using position_iff by blast

end

interpretation default_index: indexing "enum_ok e S" "enum_index e S" "values_v e S" for e S
  by unfold_locales (rule index_of_Some)

interpretation sorted_index: indexing "enum_ok e S" "sorted_at cmp e S" "sorted_values cmp e S" for cmp e S
  by unfold_locales (rule sorted_at_Some)

section \<open>Arrays\<close>

definition array_at :: "(int \<Rightarrow> nat option) \<Rightarrow> 'v list \<Rightarrow> int \<Rightarrow> 'v res" where
  "array_at ix a pos = (case ix pos of
     Some i \<Rightarrow> if i < length a then Inr (a ! i) else Inl UndefinedBehaviour | None \<Rightarrow> Inl OutOfRange)"

definition array_index :: "(int \<Rightarrow> nat option) \<Rightarrow> 'v list \<Rightarrow> int \<Rightarrow> 'v res" where
  "array_index ix a pos = (case ix pos of
     Some i \<Rightarrow> if i < length a then Inr (a ! i) else Inl UndefinedBehaviour | None \<Rightarrow> Inl AssertionFailed)"

text \<open>Assignment through the reference that \<open>at\<close> and \<open>operator[]\<close> return.\<close>

definition array_at_assign :: "(int \<Rightarrow> nat option) \<Rightarrow> 'v list \<Rightarrow> int \<Rightarrow> 'v \<Rightarrow> 'v list res" where
  "array_at_assign ix a pos v = (case ix pos of
     Some i \<Rightarrow> if i < length a then Inr (a[i := v]) else Inl UndefinedBehaviour | None \<Rightarrow> Inl OutOfRange)"

definition array_index_assign :: "(int \<Rightarrow> nat option) \<Rightarrow> 'v list \<Rightarrow> int \<Rightarrow> 'v \<Rightarrow> 'v list res" where
  "array_index_assign ix a pos v = (case ix pos of
     Some i \<Rightarrow> if i < length a then Inr (a[i := v]) else Inl UndefinedBehaviour | None \<Rightarrow> Inl AssertionFailed)"

definition array_front :: "'v list \<Rightarrow> 'v res" where
  "array_front a = (if a = [] then Inl UndefinedBehaviour else Inr (hd a))"

definition array_back :: "'v list \<Rightarrow> 'v res" where
  "array_back a = (if a = [] then Inl UndefinedBehaviour else Inr (last a))"

definition array_fill :: "'v \<Rightarrow> 'v list \<Rightarrow> 'v list" where
  "array_fill v a = map (\<lambda>_. v) a"

definition array_swap :: "'v list \<Rightarrow> 'v list \<Rightarrow> 'v list \<times> 'v list" where
  "array_swap a other = fold (\<lambda>i (a, other). (a[i := other ! i], other[i := a ! i])) [0..<length a] (a, other)"

definition array_eq :: "'v list \<Rightarrow> 'v list \<Rightarrow> bool" where
  "array_eq a1 a2 = ranges_equal (=) a1 a2"

definition array_less :: "('v \<Rightarrow> 'v \<Rightarrow> bool) \<Rightarrow> 'v list \<Rightarrow> 'v list \<Rightarrow> bool" where
  "array_less cmp a1 a2 = lexicographical_compare cmp a1 a2"

definition array_le :: "('v \<Rightarrow> 'v \<Rightarrow> bool) \<Rightarrow> 'v list \<Rightarrow> 'v list \<Rightarrow> bool" where
  "array_le cmp a1 a2 = (\<not> lexicographical_compare cmp a2 a1)"

definition array_greater :: "('v \<Rightarrow> 'v \<Rightarrow> bool) \<Rightarrow> 'v list \<Rightarrow> 'v list \<Rightarrow> bool" where
  "array_greater cmp a1 a2 = lexicographical_compare cmp a2 a1"

definition array_ge :: "('v \<Rightarrow> 'v \<Rightarrow> bool) \<Rightarrow> 'v list \<Rightarrow> 'v list \<Rightarrow> bool" where
  "array_ge cmp a1 a2 = (\<not> lexicographical_compare cmp a1 a2)"

lemma array_swap_eq:
  assumes "length a = length b"
  shows "array_swap a b = (b, a)"
proof -
  have "fold (\<lambda>i (a, other). (a[i := other ! i], other[i := a ! i])) [0..<m] (a, b) =
      (take m b @ drop m a, take m a @ drop m b)" if "m \<le> length a" for m
    using that
  proof (induction m)
    case (Suc m)
    then have m: "m < length a" "m < length b" using assms by simp_all
    have "(take m x @ drop m y)[m := x ! m] = take (Suc m) x @ drop (Suc m) y"
      if "m < length x" "m < length y" for x y :: "'a list"
      using that by (simp add: list_update_append upd_conv_take_nth_drop take_Suc_conv_app_nth)
    moreover have "(take m x @ drop m y) ! m = y ! m" if "m < length x" "m < length y" for x y :: "'a list"
      using that by (simp add: nth_append)
    ultimately show ?case using Suc m by simp
  qed simp
  from this [of "length a"] assms show ?thesis by (simp add: array_swap_def)
qed

context indexing
begin

lemma store_load:
  assumes legal "length a = length vals"
  shows "array_at_assign position a v x = (if v \<in> set vals then Inr (a[the (position v) := x]) else Inl OutOfRange) \<and>
    (\<forall>a'. array_at_assign position a v x = Inr a' \<longrightarrow> length a' = length vals \<and>
      (\<forall>w. array_at position a' w = (if w = v then Inr x else array_at position a w)))"
proof (cases "position v")
  case None
  then show ?thesis using position_None [OF assms(1), of v] by (simp add: array_at_assign_def)
next
  case (Some i)
  then have i: "i < length vals" "vals ! i = v" using position_iff [OF assms(1)] by auto
  have "array_at position (a[i := x]) w = (if w = v then Inr x else array_at position a w)" for w
  proof (cases "position w")
    case (Some j)
    then have "j < length vals" "vals ! j = w" using position_iff [OF assms(1)] by auto
    then show ?thesis
      using i assms(2) Some \<open>position v = Some i\<close> by (auto simp: array_at_def nth_list_update)
  qed (use Some in \<open>auto simp: array_at_def\<close>)
  then show ?thesis using Some i assms(2) nth_mem [OF i(1)] by (auto simp: array_at_assign_def)
qed

end

lemma sorted_values_map: "sorted_values cmp e S = map ((!) (values_v e S)) (sort_indices cmp (values_v e S))"
  by (rule nth_equalityI)
    (simp_all add: sorted_values_def get_indices_position sort_indices_props get_indices_def Let_def)

lemma sorted_values_perm: "mset (sorted_values cmp e S) = mset (values_v e S)"
proof -
  have "mset (sorted_values cmp e S) = image_mset ((!) (values_v e S)) (mset [0..<length (values_v e S)])"
    by (simp only: sorted_values_map mset_map sort_indices_perm)
  also have "\<dots> = mset (values_v e S)" by (metis map_nth mset_map)
  finally show ?thesis .
qed

section \<open>Properties\<close>

text \<open>
  The comparator indexing is right for every comparison: its array is a permutation of the
  enumerators, the position of an enumerator is where the array holds it, a number that is no
  enumerator has none, and when the comparison is that of a key the array is sorted by the key.
\<close>

theorem indexing_exact:
  fixes key :: "int \<Rightarrow> 'k :: linorder"
  assumes "enum_ok e S"
  shows "mset (sorted_values cmp e S) = mset (values_v e S) \<and>
    (\<forall>v i. sorted_at cmp e S v = Some i \<longleftrightarrow> i < length (sorted_values cmp e S) \<and> sorted_values cmp e S ! i = v) \<and>
    ((\<forall>a b. cmp a b \<longleftrightarrow> key a < key b) \<longrightarrow> sorted_wrt (\<lambda>a b. key a \<le> key b) (sorted_values cmp e S))"
proof (intro conjI impI allI)
  let ?vs = "values_v e S"
  show "mset (sorted_values cmp e S) = mset ?vs" by (rule sorted_values_perm)
  show "sorted_wrt (\<lambda>a b. key a \<le> key b) (sorted_values cmp e S)" if "\<forall>a b. cmp a b \<longleftrightarrow> key a < key b"
    using sort_indices_sorted [of cmp key ?vs] that by (simp add: sorted_values_map sorted_wrt_map)
  show "sorted_at cmp e S v = Some i \<longleftrightarrow> i < length (sorted_values cmp e S) \<and> sorted_values cmp e S ! i = v" for v i
    by (rule sorted_at_Some [OF assms])
qed

theorem indexing_exact_witness:
  "sorted_wrt (\<lambda>a b. - a \<le> - b) (sorted_values (\<lambda>a b. - a < - b) lamp common_enum)"
  using indexing_exact [OF lamp_ok, of "\<lambda>a b. - a < - b" uminus] by simp

text \<open>
  An array indexed by enumerators is a map from them: after an assignment the enumerator has the
  new value and every other the old one, for the default and for a comparator indexing; a number
  that is no enumerator is out of range, and swapping exchanges the contents.
\<close>

theorem array_store_load:
  assumes ok: "enum_ok e S" and ix: "ix = enum_index e S \<or> ix = sorted_at cmp e S"
    and len: "length a = count_v e S" "length b = count_v e S"
  shows "(if v \<in> set (values_v e S)
      then \<exists>a'. array_at_assign ix a v x = Inr a' \<and> length a' = count_v e S \<and>
        (\<forall>w. array_at ix a' w = (if w = v then Inr x else array_at ix a w))
      else array_at_assign ix a v x = Inl OutOfRange \<and> array_at ix a v = Inl OutOfRange) \<and>
    array_swap a b = (b, a)"
proof -
  have same: "set (sorted_values cmp e S) = set (values_v e S)" "length (sorted_values cmp e S) = count_v e S"
    using mset_eq_setD [OF sorted_values_perm] mset_eq_length [OF sorted_values_perm] by (simp_all add: count_v_def)
  have none: "ix v = None \<longleftrightarrow> v \<notin> set (values_v e S)"
    using ix default_index.position_None [OF ok, of v] sorted_index.position_None [OF ok, of cmp v] same(1) by auto
  note d = default_index.store_load [OF ok, of a v x] and s = sorted_index.store_load [OF ok, of a cmp v x]
  from ix have "if v \<in> set (values_v e S)
      then \<exists>a'. array_at_assign ix a v x = Inr a' \<and> length a' = count_v e S \<and>
        (\<forall>w. array_at ix a' w = (if w = v then Inr x else array_at ix a w))
      else array_at_assign ix a v x = Inl OutOfRange"
  proof
    assume "ix = enum_index e S"
    then show ?thesis using d len same by (auto simp: count_v_def)
  next
    assume "ix = sorted_at cmp e S"
    then show ?thesis using s len same by (auto simp: count_v_def)
  qed
  moreover have "v \<notin> set (values_v e S) \<Longrightarrow> array_at ix a v = Inl OutOfRange"
    using none by (simp add: array_at_def)
  moreover have "array_swap a b = (b, a)" by (rule array_swap_eq) (simp add: len)
  ultimately show ?thesis by presburger
qed

theorem array_store_load_witness:
  "\<exists>a'. array_at_assign (enum_index lamp common_enum) [10, 20 :: int] 3 7 = Inr a' \<and>
    array_at (enum_index lamp common_enum) a' 3 = Inr 7"
  using array_store_load [OF lamp_ok disjI1 [OF refl], of "[10, 20 :: int]" "[1, 2]" 3 7]
  by (auto simp: lamp_values count_v_def)

text \<open>
  The binary search of the containers never passes an element that is not smaller than the key,
  but it goes on from the position of the last probe instead of the first one of the rest: in
  \<open>1, 2, 3, 4\<close> it returns the first position for the key \<open>2\<close>, where the element is smaller.
\<close>

theorem lower_bound_partial:
  assumes "sorted_wrt (\<lambda>a b. cmp b x \<longrightarrow> cmp a x) xs"
  shows "(\<exists>r. lower_bound_of cmp xs x = Inr r \<and> r \<le> length xs \<and> (\<forall>j<r. cmp (xs ! j) x)) \<and>
    lower_bound_of (<) [1, 2, 3, 4 :: int] (2 :: int) = Inr 0"
proof
  show "\<exists>r. lower_bound_of cmp xs x = Inr r \<and> r \<le> length xs \<and> (\<forall>j<r. cmp (xs ! j) x)"
    using lower_bound_loop_sound [where cmp = cmp and x = x and it = 0 and cnt = "length xs" and first = 0, OF assms] by (auto simp: lower_bound_of_def)
  show "lower_bound_of (<) [1, 2, 3, 4 :: int] (2 :: int) = Inr 0"
    by (simp add: lower_bound_of_def lower_bound_loop.simps Let_def)
qed

theorem lower_bound_partial_witness:
  "\<exists>r. lower_bound_of (<) [1, 3 :: int] 2 = Inr r \<and> r \<le> 2"
  using lower_bound_partial [of "(<)" "2 :: int" "[1, 3]"] by auto

end
