(* ===== verification/EnumBitset.thy ===== *)
theory EnumBitset
  imports EnumIndexing MagicFlags
begin

text \<open>
  \<open>lib/magic_enum/magic_enum_containers.hpp\<close>, second part: bitsets with one bit for each
  enumerator, packed into unsigned words whose width depends on the number of enumerators. A word
  is a number below the power of its width; \<open>n\<close> is the number of enumerators, \<open>ix\<close> the position
  of each and \<open>vals\<close> all of them.
\<close>

section \<open>Layout\<close>

definition bits_per_base :: "nat \<Rightarrow> nat" where
  "bits_per_base n = (if n \<le> 8 then 8 else if n \<le> 16 then 16 else if n \<le> 32 then 32 else 64)"

definition base_type_count :: "nat \<Rightarrow> nat" where
  "base_type_count n = (if n > 0 then (n - 1) div bits_per_base n + 1 else 0)"

definition not_interested :: "nat \<Rightarrow> nat" where
  "not_interested n = base_type_count n * bits_per_base n - n"

definition last_value_max :: "nat \<Rightarrow> int" where
  "last_value_max n = push_bit (bits_per_base n - not_interested n) 1 - 1"

definition to_base :: "nat \<Rightarrow> int \<Rightarrow> int" where
  "to_base n x = take_bit (bits_per_base n) x"

text \<open>A reference to a bit: the word and the mask, conversion to \<open>bool\<close> and assignment.\<close>

definition get_bit :: "nat \<Rightarrow> int list \<Rightarrow> nat \<Rightarrow> bool" where
  "get_bit n a ix \<longleftrightarrow> (a ! (ix div bits_per_base n) AND push_bit (ix mod bits_per_base n) 1) > 0"

definition assign_bit :: "nat \<Rightarrow> int list \<Rightarrow> nat \<Rightarrow> bool \<Rightarrow> int list" where
  "assign_bit n a ix v =
     (let num_index = ix div bits_per_base n; bit_index = push_bit (ix mod bits_per_base n) 1
      in a[num_index := (if v then a ! num_index OR bit_index else a ! num_index AND to_base n (NOT bit_index))])"

definition flip_bit :: "nat \<Rightarrow> int list \<Rightarrow> nat \<Rightarrow> int list" where
  "flip_bit n a ix = assign_bit n a ix (\<not> get_bit n a ix)"

section \<open>Operations\<close>

definition bitset_new :: "nat \<Rightarrow> int list" where
  "bitset_new n = replicate (base_type_count n) 0"

definition bitset_raw_number :: "nat \<Rightarrow> 64 word \<Rightarrow> int list res" where
  "bitset_raw_number n v = foldE (\<lambda>i a.
     if v AND push_bit i 1 > 0 then if i \<ge> n then Inl OutOfRange else Inr (assign_bit n a i True) else Inr a)
     [0..<64] (bitset_new n)"

fun raw_text_loop :: "nat \<Rightarrow> char \<Rightarrow> char \<Rightarrow> string \<Rightarrow> nat \<Rightarrow> int list \<Rightarrow> int list res" where
  "raw_text_loop n zero one [] i a = Inr a"
| "raw_text_loop n zero one (c # cs) i a =
     (if c = one
      then if i \<ge> n then Inl OutOfRange else raw_text_loop n zero one cs (i + 1) (assign_bit n a i True)
      else if c \<noteq> zero
      then Inl (InvalidArgument ''magic_enum::containers::bitset::constructor: Unrecognized character in raw string'')
      else raw_text_loop n zero one cs (i + 1) a)"

definition bitset_raw_text :: "nat \<Rightarrow> string \<Rightarrow> nat \<Rightarrow> nat \<Rightarrow> char \<Rightarrow> char \<Rightarrow> int list res" where
  "bitset_raw_text n sv pos len zero one =
     (if pos > length sv then Inl OutOfRange else raw_text_loop n zero one (take len (drop pos sv)) 0 (bitset_new n))"

definition bitset_index :: "nat \<Rightarrow> (int \<Rightarrow> nat option) \<Rightarrow> int list \<Rightarrow> int \<Rightarrow> bool res" where
  "bitset_index n ix a pos = (case ix pos of Some i \<Rightarrow> Inr (get_bit n a i) | None \<Rightarrow> Inl AssertionFailed)"

definition bitset_index_assign :: "nat \<Rightarrow> (int \<Rightarrow> nat option) \<Rightarrow> int list \<Rightarrow> int \<Rightarrow> bool \<Rightarrow> int list res" where
  "bitset_index_assign n ix a pos v = (case ix pos of Some i \<Rightarrow> Inr (assign_bit n a i v) | None \<Rightarrow> Inl AssertionFailed)"

definition bitset_test :: "nat \<Rightarrow> (int \<Rightarrow> nat option) \<Rightarrow> int list \<Rightarrow> int \<Rightarrow> bool res" where
  "bitset_test n ix a pos = (case ix pos of Some i \<Rightarrow> Inr (get_bit n a i) | None \<Rightarrow> Inl OutOfRange)"

definition bitset_set :: "nat \<Rightarrow> (int \<Rightarrow> nat option) \<Rightarrow> int list \<Rightarrow> int \<Rightarrow> bool \<Rightarrow> int list res" where
  "bitset_set n ix a pos v = (case ix pos of Some i \<Rightarrow> Inr (assign_bit n a i v) | None \<Rightarrow> Inl OutOfRange)"

definition bitset_reset :: "nat \<Rightarrow> (int \<Rightarrow> nat option) \<Rightarrow> int list \<Rightarrow> int \<Rightarrow> int list res" where
  "bitset_reset n ix a pos = (case ix pos of Some i \<Rightarrow> Inr (assign_bit n a i False) | None \<Rightarrow> Inl OutOfRange)"

definition bitset_reset_all :: "nat \<Rightarrow> int list" where
  "bitset_reset_all n = bitset_new n"

text \<open>
  \<open>~\<close> on a word: a type narrower than \<open>int\<close> is promoted first, and the result is only cut to the
  width of the word when it is assigned to one.
\<close>

definition complement :: "nat \<Rightarrow> int \<Rightarrow> int" where
  "complement n x = (if bits_per_base n < 32 then NOT x else to_base n (NOT x))"

definition whole_words :: "nat \<Rightarrow> nat" where
  "whole_words n = base_type_count n - (if not_interested n > 0 then 1 else 0)"

text \<open>\<open>all()\<close> runs off its end where every bit of the last word is used; \<open>None\<close> goes on.\<close>

definition bitset_all :: "nat \<Rightarrow> int list \<Rightarrow> bool res" where
  "bitset_all n a =
     (if base_type_count n = 0 then Inr True
      else case List.find (\<lambda>i. complement n (a ! i) \<noteq> 0) [0..<whole_words n] of
             Some i \<Rightarrow> Inr False
           | None \<Rightarrow> if not_interested n > 0 then Inr (a ! (base_type_count n - 1) = last_value_max n)
                     else Inl UndefinedBehaviour)"

definition bitset_any :: "int list \<Rightarrow> bool" where
  "bitset_any a \<longleftrightarrow> list_ex (\<lambda>v. v > 0) a"

definition bitset_none :: "int list \<Rightarrow> bool" where
  "bitset_none a \<longleftrightarrow> \<not> bitset_any a"

definition bitset_count :: "int list \<Rightarrow> nat" where
  "bitset_count a = fold (\<lambda>v c. c + popcount v) a 0"

definition bitset_and :: "nat \<Rightarrow> int list \<Rightarrow> int list \<Rightarrow> int list" where
  "bitset_and n a other = fold (\<lambda>i a. a[i := a ! i AND other ! i]) [0..<base_type_count n] a"

definition bitset_or :: "nat \<Rightarrow> int list \<Rightarrow> int list \<Rightarrow> int list" where
  "bitset_or n a other = fold (\<lambda>i a. a[i := a ! i OR other ! i]) [0..<base_type_count n] a"

definition bitset_xor :: "nat \<Rightarrow> int list \<Rightarrow> int list \<Rightarrow> int list" where
  "bitset_xor n a other = fold (\<lambda>i a. a[i := a ! i XOR other ! i]) [0..<base_type_count n] a"

definition bitset_not :: "nat \<Rightarrow> int list \<Rightarrow> int list" where
  "bitset_not n a =
     (let res = fold (\<lambda>i res. res[i := to_base n (NOT (a ! i))]) [0..<whole_words n] (bitset_new n);
          k = base_type_count n - 1
      in if not_interested n > 0 then res[k := to_base n (NOT (a ! k) AND last_value_max n)] else res)"

definition bitset_set_all :: "nat \<Rightarrow> int list \<Rightarrow> int list" where
  "bitset_set_all n a =
     (let res = fold (\<lambda>i res. res[i := to_base n (NOT 0)]) [0..<whole_words n] a
      in if not_interested n > 0 then res[base_type_count n - 1 := last_value_max n] else res)"

definition bitset_flip :: "nat \<Rightarrow> int list \<Rightarrow> int list" where
  "bitset_flip n a = bitset_not n a"

definition bitset_eq :: "int list \<Rightarrow> int list \<Rightarrow> bool" where
  "bitset_eq lhs rhs = ranges_equal (=) lhs rhs"

text \<open>Construction from flags and from a list of enumerators, and conversion back to flags.\<close>

definition bitset_of_flags :: "nat \<Rightarrow> (int \<Rightarrow> nat option) \<Rightarrow> int list \<Rightarrow> int \<Rightarrow> int list res" where
  "bitset_of_flags n ix vals starter =
     bindE (foldE (\<lambda>v (u, a). if v AND u \<noteq> 0
         then bindE (bitset_index_assign n ix a v True) (\<lambda>a. Inr (u AND NOT v, a)) else Inr (u, a)) vals (starter, bitset_new n))
       (\<lambda>(u, a). if u \<noteq> 0
         then Inl (InvalidArgument ''magic_enum::containers::bitset::constructor: Unrecognized enum value in flag'') else Inr a)"

definition bitset_starters :: "nat \<Rightarrow> (int \<Rightarrow> nat option) \<Rightarrow> int list \<Rightarrow> enum_subtype \<Rightarrow> int list \<Rightarrow> int list res" where
  "bitset_starters n ix vals S starters =
     (if S = flags_enum
      then foldE (\<lambda>f a. bindE (bitset_of_flags n ix vals f) (\<lambda>b. Inr (bitset_or n a b))) starters (bitset_new n)
      else foldE (\<lambda>f a. bitset_set n ix a f True) starters (bitset_new n))"

definition bitset_to_flags :: "nat \<Rightarrow> (int \<Rightarrow> nat option) \<Rightarrow> int list \<Rightarrow> int list \<Rightarrow> int res" where
  "bitset_to_flags n ix vals a =
     foldE (\<lambda>e res. bindE (bitset_test n ix a e) (\<lambda>t. Inr (if t then res OR e else res))) vals 0"

definition bitset_to_string :: "nat \<Rightarrow> (int \<Rightarrow> nat option) \<Rightarrow> int list \<Rightarrow> (int \<Rightarrow> string) \<Rightarrow> int list \<Rightarrow> char \<Rightarrow> string res" where
  "bitset_to_string n ix vals names a sep =
     foldE (\<lambda>e name. bindE (bitset_test n ix a e) (\<lambda>t.
       Inr (if t then (if name \<noteq> [] then name @ [sep] else name) @ names e else name))) vals []"

definition bitset_to_raw_string :: "nat \<Rightarrow> int list \<Rightarrow> char \<Rightarrow> char \<Rightarrow> string" where
  "bitset_to_raw_string n a zero one = fold (\<lambda>i name. name @ [if get_bit n a i then one else zero]) [0..<n] []"

text \<open>\<open>to_\<close> for a type of \<open>w\<close> bits.\<close>

definition bitset_to :: "nat \<Rightarrow> nat \<Rightarrow> int list \<Rightarrow> int res" where
  "bitset_to w n a = foldE (\<lambda>i res. if get_bit n a i
     then if i \<ge> w then Inl OverflowError else Inr (res OR take_bit w (push_bit i 1)) else Inr res) [0..<n] 0"

definition bitset_to_ullong :: "nat \<Rightarrow> int list \<Rightarrow> int res" where
  "bitset_to_ullong n a = bitset_to 64 n a"

section \<open>The set of positions\<close>

text \<open>
  A bitset is well formed when it has the right number of words, all below the power of the width,
  and no bit beyond the last enumerator is set. It stands for the set of the positions whose bit
  is set.
\<close>

definition bitset_ok :: "nat \<Rightarrow> int list \<Rightarrow> bool" where
  "bitset_ok n a \<longleftrightarrow> length a = base_type_count n \<and> (\<forall>x \<in> set a. 0 \<le> x \<and> x < 2 ^ bits_per_base n) \<and>
     (\<forall>i. n \<le> i \<longrightarrow> i < base_type_count n * bits_per_base n \<longrightarrow> \<not> get_bit n a i)"

definition positions :: "nat \<Rightarrow> int list \<Rightarrow> nat set" where
  "positions n a = {i. i < n \<and> get_bit n a i}"

subsection \<open>Words and bits\<close>

lemma bits_pos [simp]: "0 < bits_per_base n"
  by (simp add: bits_per_base_def)

lemma total_bits: "n \<le> base_type_count n * bits_per_base n" "base_type_count n * bits_per_base n < n + bits_per_base n"
proof -
  let ?b = "bits_per_base n"
  have "(n - 1) div ?b * ?b + (n - 1) mod ?b = n - 1" by simp
  moreover have "(n - 1) mod ?b < ?b" by simp
  moreover have "base_type_count n * ?b = (if n > 0 then (n - 1) div ?b * ?b + ?b else 0)"
    by (simp add: base_type_count_def add_mult_distrib)
  ultimately show "n \<le> base_type_count n * ?b" "base_type_count n * ?b < n + ?b"
    by (cases "n > 0"; simp only: if_True if_False; linarith)+
qed

lemma get_bit_iff: "get_bit n a i \<longleftrightarrow> bit (a ! (i div bits_per_base n)) (i mod bits_per_base n)"
proof -
  have "0 \<le> x AND 2 ^ k" for x :: int and k by simp
  then show ?thesis
    using and_power [of "a ! (i div bits_per_base n)" "i mod bits_per_base n"]
    by (auto simp: get_bit_def push_bit_eq_mult order_less_le)
qed

lemma get_bit_at: "k < bits_per_base n \<Longrightarrow> get_bit n a (w * bits_per_base n + k) \<longleftrightarrow> bit (a ! w) k"
  by (simp add: get_bit_iff)

lemma word_bits: "0 \<le> x \<and> x < 2 ^ b \<longleftrightarrow> (\<forall>k. bit (x :: int) k \<longrightarrow> k < b)"
proof
  assume "0 \<le> x \<and> x < 2 ^ b"
  then have "take_bit b x = x" by (simp add: take_bit_int_eq_self)
  then show "\<forall>k. bit x k \<longrightarrow> k < b" by (metis bit_take_bit_iff)
next
  assume "\<forall>k. bit x k \<longrightarrow> k < b"
  then have "take_bit b x = x" by (intro bit_eqI) (auto simp: bit_take_bit_iff)
  then show "0 \<le> x \<and> x < 2 ^ b" by (simp add: take_bit_int_eq_self_iff)
qed

lemma bitset_ok_iff:
  "bitset_ok n a \<longleftrightarrow> length a = base_type_count n \<and> (\<forall>w < base_type_count n. \<forall>k. bit (a ! w) k \<longrightarrow> k < bits_per_base n) \<and>
     (\<forall>i. n \<le> i \<longrightarrow> i < base_type_count n * bits_per_base n \<longrightarrow> \<not> get_bit n a i)"
  unfolding bitset_ok_def word_bits by (auto simp: all_set_conv_all_nth)

lemma positionsD: "i \<in> positions n a \<Longrightarrow> i < n"
  by (simp add: positions_def)

lemma positions_finite [simp]: "finite (positions n a)"
  by (simp add: positions_def)

lemma word_index: "i < base_type_count n * bits_per_base n \<Longrightarrow> i div bits_per_base n < base_type_count n"
  by (simp add: less_mult_imp_div_less)

lemma word_index_less: "i < n \<Longrightarrow> i div bits_per_base n < base_type_count n"
  using word_index total_bits(1) order_less_le_trans by blast

text \<open>The last word: its bits in use are the low ones.\<close>

lemma last_word:
  assumes "i < base_type_count n * bits_per_base n"
  shows "i div bits_per_base n < base_type_count n - 1 \<Longrightarrow> i < n"
    "i div bits_per_base n = base_type_count n - 1 \<Longrightarrow> i < n \<longleftrightarrow> i mod bits_per_base n < bits_per_base n - not_interested n"
    "not_interested n < bits_per_base n"
proof -
  let ?b = "bits_per_base n" and ?c = "base_type_count n"
  have c: "0 < ?c" using assms by (cases ?c) auto
  have i: "i = i div ?b * ?b + i mod ?b" by simp
  have m: "i mod ?b < ?b" by simp
  obtain c' where c': "?c = Suc c'" using c by (cases ?c) auto
  note t = total_bits [of n, unfolded c']
  show "not_interested n < ?b" using t by (simp add: not_interested_def c')
  show "i < n" if "i div ?b < ?c - 1"
  proof -
    have "Suc (i div ?b) * ?b \<le> c' * ?b" using that c' by (intro mult_le_mono1) simp
    then have "?b + i div ?b * ?b \<le> c' * ?b" by simp
    moreover have "Suc c' * ?b = ?b + c' * ?b" by simp
    ultimately show ?thesis using i m t by linarith
  qed
  show "i < n \<longleftrightarrow> i mod ?b < ?b - not_interested n" if "i div ?b = ?c - 1"
  proof -
    have "i = c' * ?b + i mod ?b" using that c' i by simp
    then show ?thesis using t by (simp add: not_interested_def c') linarith
  qed
qed

text \<open>Two well-formed bitsets with the same positions are equal.\<close>

lemma positions_inject:
  assumes a: "bitset_ok n a" and b: "bitset_ok n b" and eq: "positions n a = positions n b"
  shows "a = b"
proof (rule nth_equalityI)
  show "length a = length b" using a b by (simp add: bitset_ok_iff)
  fix w
  assume w: "w < length a"
  show "a ! w = b ! w"
  proof (rule bit_eqI)
    fix k
    show "bit (a ! w) k = bit (b ! w) k"
    proof (cases "k < bits_per_base n")
      case True
      let ?i = "w * bits_per_base n + k"
      have "Suc w * bits_per_base n \<le> base_type_count n * bits_per_base n"
        using w a by (intro mult_le_mono1) (simp add: bitset_ok_iff)
      then have i: "?i < base_type_count n * bits_per_base n" using True by simp
      have "get_bit n a ?i \<longleftrightarrow> get_bit n b ?i"
      proof (cases "?i < n")
        case True
        then show ?thesis using eq by (auto simp: positions_def set_eq_iff)
      next
        case False
        then show ?thesis using a b i by (simp add: bitset_ok_iff)
      qed
      with True show ?thesis by (simp add: get_bit_at)
    next
      case False
      then show ?thesis using a b w by (auto simp: bitset_ok_iff)
    qed
  qed
qed

lemma new_ok: "bitset_ok n (bitset_new n)" "positions n (bitset_new n) = {}"
proof -
  have "\<not> get_bit n (bitset_new n) i" if "i < base_type_count n * bits_per_base n" for i
    using word_index [OF that] by (simp add: get_bit_iff bitset_new_def)
  then show "bitset_ok n (bitset_new n)" "positions n (bitset_new n) = {}"
    using total_bits(1) [of n] by (auto simp: bitset_ok_def bitset_new_def positions_def dest: order_less_le_trans)
qed

subsection \<open>Changing one bit\<close>

lemma get_assign:
  assumes "i < n" and len: "length a = base_type_count n"
  shows "get_bit n (assign_bit n a i v) j \<longleftrightarrow> (if j = i then v else get_bit n a j)"
proof -
  let ?b = "bits_per_base n"
  have w: "i div ?b < length a" using word_index_less [OF assms(1)] len by simp
  have m: "j mod ?b < ?b" by simp
  show ?thesis
  proof (cases "j div ?b = i div ?b")
    case True
    have eq: "j = i \<longleftrightarrow> j mod ?b = i mod ?b" using True by (metis div_mult_mod_eq)
    show ?thesis
      using True w m unfolding eq
      by (auto simp: get_bit_iff assign_bit_def Let_def to_base_def bit_or_iff bit_and_iff bit_take_bit_iff bit_not_iff
          push_bit_eq_mult bit_power)
  next
    case False
    then show ?thesis by (auto simp: get_bit_iff assign_bit_def Let_def)
  qed
qed

lemma assign_ok:
  assumes "i < n" and a: "bitset_ok n a"
  shows "bitset_ok n (assign_bit n a i v)"
    "positions n (assign_bit n a i v) = (if v then insert i (positions n a) else positions n a - {i})"
proof -
  let ?b = "bits_per_base n"
  have len: "length a = base_type_count n" using a by (simp add: bitset_ok_iff)
  note get = get_assign [OF assms(1) len]
  have "bit (assign_bit n a i v ! w) k \<longrightarrow> k < ?b" if w: "w < base_type_count n" for w k
  proof (cases "w = i div ?b")
    case True
    have "i mod ?b < ?b" by simp
    moreover have "bit (a ! w) k \<longrightarrow> k < ?b" using a w by (simp add: bitset_ok_iff)
    ultimately show ?thesis using True w len
      by (auto simp: assign_bit_def Let_def to_base_def bit_or_iff bit_and_iff push_bit_eq_mult bit_power)
  next
    case False
    then show ?thesis using a w by (simp add: assign_bit_def Let_def bitset_ok_iff)
  qed
  moreover have "length (assign_bit n a i v) = base_type_count n" using len by (simp add: assign_bit_def Let_def)
  moreover have "\<not> get_bit n (assign_bit n a i v) j" if "n \<le> j" "j < base_type_count n * ?b" for j
    using a that get assms(1) unfolding bitset_ok_iff by auto
  ultimately show "bitset_ok n (assign_bit n a i v)" unfolding bitset_ok_iff by blast
  show "positions n (assign_bit n a i v) = (if v then insert i (positions n a) else positions n a - {i})"
    using get assms(1) by (auto simp: positions_def)
qed

subsection \<open>Changing all bits\<close>

lemma fold_update:
  "m \<le> length a \<Longrightarrow> length (fold (\<lambda>i a. a[i := f i (a ! i)]) [0..<m] a) = length a \<and>
   (\<forall>k < length a. fold (\<lambda>i a. a[i := f i (a ! i)]) [0..<m] a ! k = (if k < m then f k (a ! k) else a ! k))"
proof (induction m)
  case (Suc m)
  define q where "q = fold (\<lambda>i a. a[i := f i (a ! i)]) [0..<m] a"
  have IH: "length q = length a" "\<And>k. k < length a \<Longrightarrow> q ! k = (if k < m then f k (a ! k) else a ! k)"
    using Suc unfolding q_def by auto
  have up: "fold (\<lambda>i a. a[i := f i (a ! i)]) [0..<Suc m] a = q[m := f m (q ! m)]" by (simp add: q_def)
  have "q[m := f m (q ! m)] ! k = (if k < Suc m then f k (a ! k) else a ! k)" if "k < length a" for k
    using IH that by (cases "k = m") auto
  then show ?case unfolding up using IH(1) by simp
qed simp

text \<open>A bitset whose words are given by the bits in use.\<close>

lemma bitset_from_bits:
  assumes len: "length r = base_type_count n"
    and bits: "\<And>w k. w < base_type_count n \<Longrightarrow> bit (r ! w) k \<longleftrightarrow> k < bits_per_base n \<and> w * bits_per_base n + k < n \<and> P (w * bits_per_base n + k)"
  shows "bitset_ok n r" "positions n r = {i. i < n \<and> P i}"
proof -
  have "get_bit n r i \<longleftrightarrow> i < n \<and> P i" if "i < base_type_count n * bits_per_base n" for i
    using bits [OF word_index [OF that], of "i mod bits_per_base n"] by (simp add: get_bit_iff)
  then show "bitset_ok n r" "positions n r = {i. i < n \<and> P i}"
    using len bits total_bits(1) [of n] by (auto simp: bitset_ok_iff positions_def)
qed

lemma ok_bits:
  assumes "bitset_ok n a" and w: "w < base_type_count n"
  shows "bit (a ! w) k \<longleftrightarrow> k < bits_per_base n \<and> w * bits_per_base n + k < n \<and> w * bits_per_base n + k \<in> positions n a"
proof (cases "k < bits_per_base n")
  case True
  have "Suc w * bits_per_base n \<le> base_type_count n * bits_per_base n" using w by (intro mult_le_mono1) simp
  then have i: "w * bits_per_base n + k < base_type_count n * bits_per_base n" using True by simp
  have "w * bits_per_base n + k < n" if "get_bit n a (w * bits_per_base n + k)"
    using that i assms(1) unfolding bitset_ok_iff by (meson not_le)
  then show ?thesis using True by (auto simp: positions_def get_bit_at)
next
  case False
  then show ?thesis using assms by (auto simp: bitset_ok_iff)
qed

lemma bitset_bitwise:
  assumes a: "bitset_ok n a" and b: "bitset_ok n b" and len: "length r = base_type_count n"
    and w: "\<And>w. w < base_type_count n \<Longrightarrow> r ! w = f (a ! w) (b ! w)"
    and f: "\<And>x y k. bit (f x y) k \<longleftrightarrow> g (bit x k) (bit y k)" and g: "\<not> g False False"
  shows "bitset_ok n r" "positions n r = {i. i < n \<and> g (i \<in> positions n a) (i \<in> positions n b)}"
proof -
  have bits: "bit (r ! w) k \<longleftrightarrow> k < bits_per_base n \<and> w * bits_per_base n + k < n \<and>
      g (w * bits_per_base n + k \<in> positions n a) (w * bits_per_base n + k \<in> positions n b)" if "w < base_type_count n" for w k
  proof -
    have eq: "bit (r ! w) k \<longleftrightarrow> g (bit (a ! w) k) (bit (b ! w) k)" by (simp only: w [OF that] f)
    show ?thesis
    proof (cases "k < bits_per_base n \<and> w * bits_per_base n + k < n")
      case True
      then show ?thesis unfolding eq ok_bits [OF a that] ok_bits [OF b that] by simp
    next
      case False
      then have "\<not> bit (a ! w) k" "\<not> bit (b ! w) k" using ok_bits [OF a that] ok_bits [OF b that] by blast+
      with False g show ?thesis unfolding eq by (simp only: simp_thms) blast
    qed
  qed
  show "bitset_ok n r" "positions n r = {i. i < n \<and> g (i \<in> positions n a) (i \<in> positions n b)}"
    by (rule bitset_from_bits [OF len bits]; assumption)+
qed

lemma bitset_combine:
  assumes a: "bitset_ok n a" and b: "bitset_ok n b"
  shows "bitset_ok n (bitset_and n a b)" "positions n (bitset_and n a b) = positions n a \<inter> positions n b"
    "bitset_ok n (bitset_or n a b)" "positions n (bitset_or n a b) = positions n a \<union> positions n b"
    "bitset_ok n (bitset_xor n a b)" "positions n (bitset_xor n a b) = (positions n a - positions n b) \<union> (positions n b - positions n a)"
proof -
  have len: "length a = base_type_count n" using a by (simp add: bitset_ok_iff)
  note f = fold_update [of "base_type_count n" a, unfolded len, OF order_refl]
  note and' = bitset_bitwise [OF a b, of "bitset_and n a b" "\<lambda>x y. x AND y" "\<lambda>x y. x \<and> y"]
  note or' = bitset_bitwise [OF a b, of "bitset_or n a b" "\<lambda>x y. x OR y" "\<lambda>x y. x \<or> y"]
  note xor' = bitset_bitwise [OF a b, of "bitset_xor n a b" "\<lambda>x y. x XOR y" "\<lambda>x y. x \<noteq> y"]
  show "bitset_ok n (bitset_and n a b)" "positions n (bitset_and n a b) = positions n a \<inter> positions n b"
    using and' f [of "\<lambda>i x. x AND b ! i"] by (auto simp: bitset_and_def bit_and_iff dest: positionsD)
  show "bitset_ok n (bitset_or n a b)" "positions n (bitset_or n a b) = positions n a \<union> positions n b"
    using or' f [of "\<lambda>i x. x OR b ! i"] by (auto simp: bitset_or_def bit_or_iff dest: positionsD)
  show "bitset_ok n (bitset_xor n a b)" "positions n (bitset_xor n a b) = (positions n a - positions n b) \<union> (positions n b - positions n a)"
    using xor' f [of "\<lambda>i x. x XOR b ! i"] by (auto simp: bitset_xor_def bit_xor_iff dest: positionsD)
qed

lemma position_bound: "w < base_type_count n \<Longrightarrow> k < bits_per_base n \<Longrightarrow> w * bits_per_base n + k < base_type_count n * bits_per_base n"
proof -
  assume w: "w < base_type_count n" and k: "k < bits_per_base n"
  have "Suc w * bits_per_base n \<le> base_type_count n * bits_per_base n" using w by (intro mult_le_mono1) simp
  then show ?thesis using k by simp
qed

lemma whole_word:
  assumes "w < whole_words n" "k < bits_per_base n"
  shows "w * bits_per_base n + k < n" "w < base_type_count n"
proof -
  show w: "w < base_type_count n" using assms(1) by (simp add: whole_words_def split: if_splits)
  note i = position_bound [OF w assms(2)]
  show "w * bits_per_base n + k < n"
  proof (cases "not_interested n > 0")
    case True
    then show ?thesis using last_word(1) [OF i] assms by (simp add: whole_words_def)
  next
    case False
    then show ?thesis using i by (simp add: not_interested_def)
  qed
qed

lemma partial_word:
  assumes "not_interested n > 0" "k < bits_per_base n" "0 < n"
  shows "(base_type_count n - 1) * bits_per_base n + k < n \<longleftrightarrow> k < bits_per_base n - not_interested n"
proof -
  have c: "base_type_count n - 1 < base_type_count n" using assms(3) by (simp add: base_type_count_def)
  show ?thesis using last_word(2) [OF position_bound [OF c assms(2)]] assms(2) by simp
qed

lemma word_cases:
  assumes "w < base_type_count n"
  shows "w < whole_words n \<or> not_interested n > 0 \<and> w = base_type_count n - 1 \<and> 0 < n"
  using assms by (auto simp: whole_words_def base_type_count_def split: if_splits)

lemma last_value_max_bits: "bit (last_value_max n) k \<longleftrightarrow> k < bits_per_base n - not_interested n"
  by (simp add: last_value_max_def push_bit_eq_mult bit_mask_iff flip: mask_eq_exp_minus_1)

lemma bitset_not_eq:
  assumes a: "bitset_ok n a"
  shows "bitset_ok n (bitset_not n a)" "positions n (bitset_not n a) = {..<n} - positions n a"
proof -
  let ?r = "fold (\<lambda>i res. res[i := to_base n (NOT (a ! i))]) [0..<whole_words n] (bitset_new n)"
  have whole: "whole_words n \<le> length (bitset_new n)" by (simp add: whole_words_def bitset_new_def)
  note f = fold_update [OF whole, of "\<lambda>i x. to_base n (NOT (a ! i))"]
  have len: "length (bitset_not n a) = base_type_count n" using f by (simp add: bitset_not_def Let_def bitset_new_def)
  have bits: "bit (bitset_not n a ! w) k \<longleftrightarrow> k < bits_per_base n \<and> w * bits_per_base n + k < n \<and>
      \<not> w * bits_per_base n + k \<in> positions n a" if w: "w < base_type_count n" for w k
  proof (cases "w < whole_words n")
    case True
    then have "w \<noteq> base_type_count n - 1 \<or> \<not> not_interested n > 0" by (auto simp: whole_words_def split: if_splits)
    then have "bitset_not n a ! w = ?r ! w" by (auto simp: bitset_not_def Let_def)
    also have "\<dots> = to_base n (NOT (a ! w))" using f True w by (simp add: bitset_new_def)
    finally show ?thesis
      using ok_bits [OF a w, of k] whole_word(1) [OF True, of k]
      by (auto simp: to_base_def bit_take_bit_iff bit_not_iff)
  next
    case False
    then have last: "not_interested n > 0" "w = base_type_count n - 1" "0 < n" using word_cases [OF w] by auto
    then have "bitset_not n a ! w = to_base n (NOT (a ! w) AND last_value_max n)"
      using f w by (simp add: bitset_not_def Let_def bitset_new_def)
    then show ?thesis
      using ok_bits [OF a w, of k] partial_word [OF last(1) _ last(3), of k] last(2)
      by (auto simp: to_base_def bit_take_bit_iff bit_and_iff bit_not_iff last_value_max_bits)
  qed
  show "bitset_ok n (bitset_not n a)" by (rule bitset_from_bits [OF len bits])
  show "positions n (bitset_not n a) = {..<n} - positions n a"
    using bitset_from_bits(2) [OF len bits] by auto
qed

lemma bitset_set_all_eq:
  assumes a: "bitset_ok n a"
  shows "bitset_ok n (bitset_set_all n a)" "positions n (bitset_set_all n a) = {..<n}"
proof -
  let ?r = "fold (\<lambda>i res. res[i := to_base n (NOT 0)]) [0..<whole_words n] a"
  have la: "length a = base_type_count n" using a by (simp add: bitset_ok_iff)
  have whole: "whole_words n \<le> length a" by (simp add: whole_words_def la)
  note f = fold_update [OF whole, of "\<lambda>i x. to_base n (NOT 0)"]
  have len: "length (bitset_set_all n a) = base_type_count n" using f by (simp add: bitset_set_all_def Let_def la)
  have bits: "bit (bitset_set_all n a ! w) k \<longleftrightarrow> k < bits_per_base n \<and> w * bits_per_base n + k < n \<and> True"
    if w: "w < base_type_count n" for w k
  proof (cases "w < whole_words n")
    case True
    then have "w \<noteq> base_type_count n - 1 \<or> \<not> not_interested n > 0" by (auto simp: whole_words_def split: if_splits)
    then have "bitset_set_all n a ! w = ?r ! w" by (auto simp: bitset_set_all_def Let_def)
    also have "\<dots> = to_base n (NOT 0)" using f True w la by simp
    finally show ?thesis
      using whole_word(1) [OF True, of k] by (auto simp: to_base_def bit_take_bit_iff bit_not_iff bit_mask_iff)
  next
    case False
    then have last: "not_interested n > 0" "w = base_type_count n - 1" "0 < n" using word_cases [OF w] by auto
    then have "bitset_set_all n a ! w = last_value_max n"
      using f w by (simp add: bitset_set_all_def Let_def la)
    then show ?thesis
      using partial_word [OF last(1) _ last(3), of k] last(2) by (auto simp: last_value_max_bits)
  qed
  show "bitset_ok n (bitset_set_all n a)" by (rule bitset_from_bits [OF len bits])
  show "positions n (bitset_set_all n a) = {..<n}" using bitset_from_bits(2) [OF len bits] by auto
qed

subsection \<open>Questions\<close>

lemma bitset_any_eq:
  assumes a: "bitset_ok n a"
  shows "bitset_any a \<longleftrightarrow> positions n a \<noteq> {}"
proof -
  have len: "length a = base_type_count n" and nonneg: "\<And>w. w < length a \<Longrightarrow> 0 \<le> a ! w"
    using a by (auto simp: bitset_ok_def)
  have zero: "a ! w = 0 \<longleftrightarrow> (\<forall>k. \<not> bit (a ! w) k)" for w by (auto simp: bit_eq_iff)
  have "bitset_any a \<longleftrightarrow> (\<exists>w < base_type_count n. \<exists>k. bit (a ! w) k)"
    using nonneg len zero by (auto simp: bitset_any_def list_ex_length order_less_le)
  also have "\<dots> \<longleftrightarrow> positions n a \<noteq> {}"
  proof
    assume "\<exists>w < base_type_count n. \<exists>k. bit (a ! w) k"
    then show "positions n a \<noteq> {}" using ok_bits [OF a] by blast
  next
    assume "positions n a \<noteq> {}"
    then obtain i where "i < n" "get_bit n a i" by (auto simp: positions_def)
    then show "\<exists>w < base_type_count n. \<exists>k. bit (a ! w) k" using word_index_less by (auto simp: get_bit_iff)
  qed
  finally show ?thesis .
qed

lemma fold_popcount: "fold (\<lambda>v c. c + popcount v) a c = c + sum_list (map popcount a)"
  by (induction a arbitrary: c) auto

lemma bitset_count_eq:
  assumes a: "bitset_ok n a"
  shows "bitset_count a = card (positions n a)"
proof -
  let ?b = "bits_per_base n" and ?c = "base_type_count n"
  have len: "length a = ?c" and nonneg: "\<And>w. w < ?c \<Longrightarrow> 0 \<le> a ! w" using a by (auto simp: bitset_ok_def)
  define part where "part = (\<lambda>w. (\<lambda>k. w * ?b + k) ` {k. bit (a ! w) k})"
  have fin: "finite {k. bit (a ! w) k}" if "w < ?c" for w
  proof (rule finite_subset)
    show "{k. bit (a ! w) k} \<subseteq> {..<?b}" using ok_bits [OF a that] by blast
  qed simp
  have "positions n a = (\<Union>w \<in> {..<?c}. part w)"
  proof (rule set_eqI)
    fix i
    have split: "i = i div ?b * ?b + i mod ?b" by simp
    show "i \<in> positions n a \<longleftrightarrow> i \<in> (\<Union>w \<in> {..<?c}. part w)"
    proof
      assume i: "i \<in> positions n a"
      then have "i div ?b < ?c" "bit (a ! (i div ?b)) (i mod ?b)"
        by (auto simp: positions_def word_index_less get_bit_iff)
      then show "i \<in> (\<Union>w \<in> {..<?c}. part w)" using split unfolding part_def by blast
    next
      assume "i \<in> (\<Union>w \<in> {..<?c}. part w)"
      then show "i \<in> positions n a" using ok_bits [OF a] unfolding part_def by blast
    qed
  qed
  moreover have "card (\<Union>w \<in> {..<?c}. part w) = (\<Sum>w<?c. card (part w))"
  proof (rule card_UN_disjoint)
    have "w = w'" if i: "i \<in> part w" "i \<in> part w'" and w: "w < ?c" "w' < ?c" for w w' i
    proof -
      have "i div ?b = w''" if u: "i \<in> part w''" "w'' < ?c" for w''
      proof -
        obtain k where "i = w'' * ?b + k" "k < ?b" using ok_bits [OF a u(2)] u(1) by (auto simp: part_def)
        then show ?thesis by simp
      qed
      then show ?thesis using i w by blast
    qed
    then show "\<forall>w\<in>{..<?c}. \<forall>w'\<in>{..<?c}. w \<noteq> w' \<longrightarrow> part w \<inter> part w' = {}" by blast
  qed (use fin in \<open>auto simp: part_def\<close>)
  moreover have "card (part w) = popcount (a ! w)" if "w < ?c" for w
    using nonneg [OF that] by (simp add: part_def card_image popcount_eq)
  moreover have "sum_list (map popcount a) = (\<Sum>w<?c. popcount (a ! w))"
    by (simp add: sum_list_sum_nth len atLeast0LessThan)
  ultimately show ?thesis by (simp add: bitset_count_def fold_popcount)
qed

text \<open>\<open>all()\<close>: right with a partial last word; otherwise wrong or off the end.\<close>

lemma not_interested_zero: "not_interested n = 0 \<Longrightarrow> whole_words n = base_type_count n"
  by (simp add: whole_words_def)

lemma not_interested_narrow: "not_interested n > 0 \<Longrightarrow> bits_per_base n < 32 \<Longrightarrow> whole_words n = 0"
  by (auto simp: not_interested_def whole_words_def base_type_count_def bits_per_base_def split: if_splits)

lemma complement_zero:
  assumes a: "bitset_ok n a" and w: "w < whole_words n" and wide: "32 \<le> bits_per_base n"
  shows "complement n (a ! w) = 0 \<longleftrightarrow> (\<forall>k < bits_per_base n. w * bits_per_base n + k \<in> positions n a)"
proof -
  have "complement n (a ! w) = 0 \<longleftrightarrow> (\<forall>k. \<not> bit (complement n (a ! w)) k)" by (auto simp: bit_eq_iff)
  also have "\<dots> \<longleftrightarrow> (\<forall>k < bits_per_base n. bit (a ! w) k)"
    using wide by (auto simp: complement_def to_base_def bit_take_bit_iff bit_not_iff)
  finally show ?thesis
    using ok_bits [OF a whole_word(2) [OF w]] whole_word(1) [OF w] by auto
qed

lemma full_iff:
  assumes a: "bitset_ok n a" and n: "0 < n"
  shows "positions n a = {..<n} \<longleftrightarrow>
    (\<forall>w < whole_words n. \<forall>k < bits_per_base n. w * bits_per_base n + k \<in> positions n a) \<and>
    (not_interested n > 0 \<longrightarrow> a ! (base_type_count n - 1) = last_value_max n)"
proof -
  let ?b = "bits_per_base n" and ?l = "base_type_count n - 1"
  have l: "?l < base_type_count n" using n by (simp add: base_type_count_def)
  have last: "a ! ?l = last_value_max n \<longleftrightarrow> (\<forall>k < ?b. ?l * ?b + k < n \<longrightarrow> ?l * ?b + k \<in> positions n a)"
    if ni: "not_interested n > 0"
  proof
    assume eq: "a ! ?l = last_value_max n"
    show "\<forall>k < ?b. ?l * ?b + k < n \<longrightarrow> ?l * ?b + k \<in> positions n a"
    proof (intro allI impI)
      fix k assume k: "k < ?b" "?l * ?b + k < n"
      then have "bit (a ! ?l) k" using partial_word [OF ni k(1) n] unfolding eq last_value_max_bits by blast
      then show "?l * ?b + k \<in> positions n a" using ok_bits [OF a l] by blast
    qed
  next
    assume all: "\<forall>k < ?b. ?l * ?b + k < n \<longrightarrow> ?l * ?b + k \<in> positions n a"
    show "a ! ?l = last_value_max n"
    proof (rule bit_eqI)
      fix k
      show "bit (a ! ?l) k \<longleftrightarrow> bit (last_value_max n) k"
      proof (cases "k < ?b")
        case True
        then show ?thesis using all ok_bits [OF a l, of k] partial_word [OF ni True n] unfolding last_value_max_bits by blast
      next
        case False
        then show ?thesis using ok_bits [OF a l, of k] by (simp add: last_value_max_bits)
      qed
    qed
  qed
  show ?thesis
  proof
    assume full: "positions n a = {..<n}"
    show "(\<forall>w < whole_words n. \<forall>k < ?b. w * ?b + k \<in> positions n a) \<and> (not_interested n > 0 \<longrightarrow> a ! ?l = last_value_max n)"
      using last whole_word(1) unfolding full by simp
  next
    assume H: "(\<forall>w < whole_words n. \<forall>k < ?b. w * ?b + k \<in> positions n a) \<and> (not_interested n > 0 \<longrightarrow> a ! ?l = last_value_max n)"
    have "i \<in> positions n a" if i: "i < n" for i
    proof -
      have split: "i = i div ?b * ?b + i mod ?b" "i mod ?b < ?b" by simp_all
      show ?thesis
        using word_cases [OF word_index_less [OF i]]
      proof
        assume "i div ?b < whole_words n"
        with H split show ?thesis by metis
      next
        assume w: "not_interested n > 0 \<and> i div ?b = ?l \<and> 0 < n"
        then have "a ! ?l = last_value_max n" using H by blast
        then have "\<And>k. k < ?b \<Longrightarrow> ?l * ?b + k < n \<Longrightarrow> ?l * ?b + k \<in> positions n a"
          using w by (subst (asm) last) auto
        from this [OF split(2)] show ?thesis using w split(1) i by metis
      qed
    qed
    then show "positions n a = {..<n}" by (auto dest: positionsD)
  qed
qed

lemma find_none_iff: "List.find P [0..<m] = None \<longleftrightarrow> (\<forall>i<m. \<not> P i)"
  by (auto simp: find_None_iff)

lemma bitset_all_eq:
  assumes a: "bitset_ok n a" and n: "0 < n"
  shows "bitset_all n a =
    (if not_interested n > 0 then Inr (positions n a = {..<n})
     else if bits_per_base n < 32 \<or> positions n a \<noteq> {..<n} then Inr False else Inl UndefinedBehaviour)"
proof -
  let ?P = "\<lambda>i. complement n (a ! i) \<noteq> 0"
  have c: "base_type_count n \<noteq> 0" using n by (simp add: base_type_count_def)
  have nonneg: "complement n (a ! w) \<noteq> 0" if "bits_per_base n < 32" "w < base_type_count n" for w
  proof -
    have "0 \<le> a ! w" using a that(2) by (auto simp: bitset_ok_def)
    then have "NOT (a ! w) \<noteq> 0" using not_int_def [of "a ! w"] by linarith
    then show ?thesis using that(1) by (simp only: complement_def if_True not_False_eq_True)
  qed
  show ?thesis
  proof (cases "bits_per_base n < 32")
    case True
    show ?thesis
    proof (cases "not_interested n > 0")
      case ni: True
      have "whole_words n = 0" by (rule not_interested_narrow [OF ni True])
      then show ?thesis using ni full_iff [OF a n] c by (simp add: bitset_all_def)
    next
      case False
      then have "whole_words n = base_type_count n" by (simp add: not_interested_zero)
      then have "List.find ?P [0..<whole_words n] \<noteq> None"
        using nonneg [OF True, of 0] c by (auto simp: find_none_iff)
      then show ?thesis using True False c by (auto simp: bitset_all_def)
    qed
  next
    case False
    then have none: "List.find ?P [0..<whole_words n] = None \<longleftrightarrow>
        (\<forall>w < whole_words n. \<forall>k < bits_per_base n. w * bits_per_base n + k \<in> positions n a)"
      using complement_zero [OF a] by (auto simp: find_none_iff)
    show ?thesis
    proof (cases "List.find ?P [0..<whole_words n]")
      case None
      with none False c full_iff [OF a n] show ?thesis by (simp add: bitset_all_def)
    next
      case (Some i)
      with none have "positions n a \<noteq> {..<n}" using full_iff [OF a n] by auto
      with Some False c show ?thesis by (simp add: bitset_all_def)
    qed
  qed
qed

subsection \<open>Raw numbers and texts\<close>

lemma bits_loop:
  "(if \<exists>i<m. P i \<and> n \<le> i
    then foldE (\<lambda>i a. if P i then if i \<ge> n then Inl e else Inr (assign_bit n a i True) else Inr a) [0..<m] (bitset_new n) = Inl e
    else \<exists>a. foldE (\<lambda>i a. if P i then if i \<ge> n then Inl e else Inr (assign_bit n a i True) else Inr a) [0..<m] (bitset_new n) = Inr a \<and>
      bitset_ok n a \<and> positions n a = {i. i < m \<and> P i})"
proof (induction m)
  case 0
  then show ?case using new_ok [of n] by simp
next
  case (Suc m)
  let ?f = "\<lambda>i a. if P i then if i \<ge> n then Inl e else Inr (assign_bit n a i True) else Inr a"
  have step: "foldE ?f [0..<Suc m] (bitset_new n) = bindE (foldE ?f [0..<m] (bitset_new n)) (?f m)"
    by (cases "foldE ?f [0..<m] (bitset_new n)") (simp_all add: foldE_append)
  show ?case
  proof (cases "\<exists>i<m. P i \<and> n \<le> i")
    case True
    with Suc have "foldE ?f [0..<m] (bitset_new n) = Inl e" by simp
    moreover have "\<exists>i<Suc m. P i \<and> n \<le> i" using True less_SucI by blast
    ultimately show ?thesis unfolding step by simp
  next
    case False
    with Suc obtain a where a: "foldE ?f [0..<m] (bitset_new n) = Inr a" "bitset_ok n a" "positions n a = {i. i < m \<and> P i}"
      by auto
    have ex: "(\<exists>i<Suc m. P i \<and> n \<le> i) \<longleftrightarrow> P m \<and> n \<le> m" using False by (auto simp: less_Suc_eq)
    show ?thesis
    proof (cases "P m")
      case True
      then show ?thesis
        unfolding step ex a(1) using a(2,3) assign_ok [of m n a True] by (auto simp: less_Suc_eq)
    next
      case False
      then show ?thesis unfolding step ex a(1) using a(2,3) by (auto simp: less_Suc_eq)
    qed
  qed
qed

lemma bitset_to_eq:
  assumes "n \<le> w"
  shows "\<exists>r. bitset_to w n a = Inr r \<and> (\<forall>k. bit r k \<longleftrightarrow> k \<in> positions n a)"
proof -
  let ?f = "\<lambda>i res. if get_bit n a i then if i \<ge> w then Inl OverflowError else Inr (res OR take_bit w (push_bit i 1)) else Inr res"
  have "\<exists>r. foldE ?f [0..<m] (0 :: int) = Inr r \<and> (\<forall>k. bit r k \<longleftrightarrow> k < m \<and> get_bit n a k)" if "m \<le> n" for m
    using that
  proof (induction m)
    case (Suc m)
    then obtain r where r: "foldE ?f [0..<m] (0 :: int) = Inr r" "\<And>k. bit r k \<longleftrightarrow> k < m \<and> get_bit n a k" by auto
    have "foldE ?f [0..<Suc m] (0 :: int) = ?f m r" using r(1) by (simp add: foldE_append)
    moreover have "m < w" using Suc.prems assms by simp
    ultimately show ?case using r(2)
      by (auto simp: bit_or_iff bit_take_bit_iff push_bit_eq_mult bit_power less_Suc_eq)
  qed simp
  from this [of n] show ?thesis by (simp add: bitset_to_def positions_def)
qed

lemma word_and_bit: "i < 64 \<Longrightarrow> (v :: 64 word) AND 2 ^ i > 0 \<longleftrightarrow> bit v i"
proof -
  assume i: "i < 64"
  have "v AND 2 ^ i = (if bit v i then 2 ^ i else 0)"
    by (rule bit_word_eqI) (auto simp: bit_and_iff bit_exp_iff)
  moreover have "(2 :: 64 word) ^ i \<noteq> 0" using i by (auto simp: bit_eq_iff bit_exp_iff)
  ultimately show ?thesis unfolding word_neq_0_conv [symmetric] by simp
qed

lemma bitset_raw_number_eq:
  "if drop_bit n v = 0 then \<exists>a. bitset_raw_number n v = Inr a \<and> bitset_ok n a \<and> positions n a = {i. bit v i}
   else bitset_raw_number n v = Inl OutOfRange"
proof -
  have loop: "bitset_raw_number n v =
      foldE (\<lambda>i a. if bit v i then if i \<ge> n then Inl OutOfRange else Inr (assign_bit n a i True) else Inr a) [0..<64] (bitset_new n)"
    unfolding bitset_raw_number_def by (rule foldE_cong) (simp_all add: word_and_bit)
  have small: "bit v i \<Longrightarrow> i < 64" for i by (rule bit_imp_le_length [where 'a = 64, simplified])
  have "drop_bit n v = 0 \<longleftrightarrow> (\<forall>k. \<not> bit (drop_bit n v) k)"
    by (metis bit_0_eq bit_eqI bot_apply bot_bool_def)
  also have "\<dots> \<longleftrightarrow> \<not> (\<exists>i<64. bit v i \<and> n \<le> i)"
    unfolding bit_drop_bit_eq comp_apply using small le_Suc_ex le_add1 by metis
  finally have "drop_bit n v = 0 \<longleftrightarrow> \<not> (\<exists>i<64. bit v i \<and> n \<le> i)" .
  moreover have "{i. i < 64 \<and> bit v i} = {i. bit v i}" using small by auto
  moreover note bits_loop [of 64 "bit v" n OutOfRange]
  ultimately show ?thesis unfolding loop by (cases "\<exists>i<64. bit v i \<and> n \<le> i") (simp_all only: if_True if_False simp_thms)
qed

lemma raw_text_loop_eq:
  assumes "zero \<noteq> one" and a: "bitset_ok n a"
  shows "i \<le> n \<Longrightarrow> bitset_ok n b \<Longrightarrow> positions n b = {j \<in> positions n a. j < i} \<Longrightarrow>
    raw_text_loop n zero one (map (\<lambda>j. if get_bit n a j then one else zero) [i..<n]) i b = Inr a"
proof (induction "n - i" arbitrary: i b)
  case 0
  then have "positions n b = positions n a" by (auto dest: positionsD)
  then have "b = a" using positions_inject [OF 0(3) a] by simp
  with 0 show ?case by simp
next
  case (Suc m)
  then have i: "i < n" by simp
  then have up: "[i..<n] = i # [Suc i..<n]" by (simp add: upt_rec)
  let ?b = "if get_bit n a i then assign_bit n b i True else b"
  have "raw_text_loop n zero one (map (\<lambda>j. if get_bit n a j then one else zero) [Suc i..<n]) (Suc i) ?b = Inr a"
  proof (rule Suc.hyps(1))
    show "m = n - Suc i" "Suc i \<le> n" using Suc.hyps(2) by simp_all
    show "bitset_ok n ?b" using Suc.prems assign_ok(1) [OF i] by simp
    show "positions n ?b = {j \<in> positions n a. j < Suc i}"
      using Suc.prems assign_ok(2) [OF i Suc.prems(2), of True] i by (auto simp: positions_def less_Suc_eq)
  qed
  then show ?case using assms(1) i unfolding up by (simp split: if_splits)
qed

lemma to_raw_string_map: "bitset_to_raw_string n a zero one = map (\<lambda>i. if get_bit n a i then one else zero) [0..<n]"
proof -
  have "fold (\<lambda>i name. name @ [f i]) xs acc = acc @ map f xs" for f :: "nat \<Rightarrow> char" and xs acc
    by (induction xs arbitrary: acc) auto
  then show ?thesis by (simp add: bitset_to_raw_string_def)
qed

section \<open>The set of enumerators\<close>

definition elems :: "nat \<Rightarrow> (int \<Rightarrow> nat option) \<Rightarrow> int list \<Rightarrow> int set" where
  "elems n ix a = {v. \<exists>i. ix v = Some i \<and> i \<in> positions n a}"

context indexing
begin

lemma elems_nth: "legal \<Longrightarrow> n = length vals \<Longrightarrow> i < n \<Longrightarrow> vals ! i \<in> elems n position a \<longleftrightarrow> i \<in> positions n a"
  using position_nth by (auto simp: elems_def)

lemma elems_vals: "legal \<Longrightarrow> elems n position a \<subseteq> set vals"
  using position_iff by (fastforce simp: elems_def in_set_conv_nth)

lemma elems_image: "legal \<Longrightarrow> n = length vals \<Longrightarrow> elems n position a = (!) vals ` positions n a"
  using position_iff position_nth by (fastforce simp: elems_def dest: positionsD)

lemma elems_card:
  assumes legal "n = length vals"
  shows "card (elems n position a) = card (positions n a)"
proof -
  have "inj_on ((!) vals) (positions n a)"
    using vals_distinct [OF assms(1)] assms(2) by (auto intro!: inj_onI dest!: positionsD simp: nth_eq_iff_index_eq)
  then show ?thesis by (simp add: elems_image [OF assms] card_image)
qed

lemma elems_eq:
  assumes legal "n = length vals"
  shows "elems n position a = elems n position b \<longleftrightarrow> positions n a = positions n b"
proof
  assume eq: "elems n position a = elems n position b"
  show "positions n a = positions n b"
  proof (rule set_eqI)
    show "i \<in> positions n a \<longleftrightarrow> i \<in> positions n b" for i
      using elems_nth [OF assms, of i a] elems_nth [OF assms, of i b] eq by (cases "i < n") (auto dest: positionsD)
  qed
qed (simp add: elems_def)

lemma element_ops:
  assumes legal and n: "n = length vals" and a: "bitset_ok n a"
  shows "bitset_test n position a v = (if v \<in> set vals then Inr (v \<in> elems n position a) else Inl OutOfRange)"
    "if v \<in> set vals
     then \<exists>a'. bitset_set n position a v x = Inr a' \<and> bitset_ok n a' \<and>
       elems n position a' = (if x then insert v (elems n position a) else elems n position a - {v})
     else bitset_set n position a v x = Inl OutOfRange"
    "bitset_reset n position a v = bitset_set n position a v False"
    "v \<in> set vals \<Longrightarrow> bitset_index n position a v = Inr (v \<in> elems n position a)"
    "v \<in> set vals \<Longrightarrow> bitset_index_assign n position a v x = bitset_set n position a v x"
proof -
  have none: "position v = None \<longleftrightarrow> v \<notin> set vals" by (rule position_None [OF assms(1)])
  have bound: "i < n \<and> vals ! i = w" if "position w = Some i" for w i
    using that position_iff [OF assms(1)] n by simp
  have test: "get_bit n a i \<longleftrightarrow> v \<in> elems n position a" if "position v = Some i" for i
    using that bound [OF that] by (auto simp: elems_def positions_def)
  show "bitset_test n position a v = (if v \<in> set vals then Inr (v \<in> elems n position a) else Inl OutOfRange)"
    using none test by (auto simp: bitset_test_def split: option.splits)
  show "v \<in> set vals \<Longrightarrow> bitset_index n position a v = Inr (v \<in> elems n position a)"
    using none test by (auto simp: bitset_index_def split: option.splits)
  show "bitset_reset n position a v = bitset_set n position a v False"
    by (simp add: bitset_reset_def bitset_set_def)
  show "v \<in> set vals \<Longrightarrow> bitset_index_assign n position a v x = bitset_set n position a v x"
    using none by (auto simp: bitset_index_assign_def bitset_set_def split: option.splits)
  show "if v \<in> set vals
     then \<exists>a'. bitset_set n position a v x = Inr a' \<and> bitset_ok n a' \<and>
       elems n position a' = (if x then insert v (elems n position a) else elems n position a - {v})
     else bitset_set n position a v x = Inl OutOfRange"
  proof (cases "position v")
    case (Some i)
    then have i: "i < n" "vals ! i = v" using bound by auto
    have only: "position w = Some i \<longleftrightarrow> w = v" for w using bound [of w i] Some i(2) by auto
    have here: "position v = Some j \<longleftrightarrow> j = i" for j using Some by auto
    have "elems n position (assign_bit n a i x) = (if x then insert v (elems n position a) else elems n position a - {v})"
      using only here unfolding elems_def assign_ok(2) [OF i(1) a] by (auto split: if_splits)
    moreover have "v \<in> set vals" using none Some by auto
    ultimately show ?thesis using assign_ok(1) [OF i(1) a] Some by (simp add: bitset_set_def)
  qed (use none in \<open>simp add: bitset_set_def\<close>)
qed

lemma whole_ops:
  assumes legal and n: "n = length vals" and a: "bitset_ok n a" and b: "bitset_ok n b"
  shows "elems n position (bitset_and n a b) = elems n position a \<inter> elems n position b"
    "elems n position (bitset_or n a b) = elems n position a \<union> elems n position b"
    "elems n position (bitset_xor n a b) = (elems n position a - elems n position b) \<union> (elems n position b - elems n position a)"
    "elems n position (bitset_not n a) = set vals - elems n position a"
    "elems n position (bitset_set_all n a) = set vals"
    "elems n position (bitset_reset_all n) = {}"
    "bitset_any a \<longleftrightarrow> elems n position a \<noteq> {}"
    "bitset_count a = card (elems n position a)"
    "bitset_eq a b \<longleftrightarrow> elems n position a = elems n position b"
proof -
  have all: "v \<in> set vals \<longleftrightarrow> (\<exists>i. position v = Some i \<and> i < n)" for v
    using position_iff [OF assms(1)] n by (auto simp: in_set_conv_nth)
  show "elems n position (bitset_and n a b) = elems n position a \<inter> elems n position b"
    "elems n position (bitset_or n a b) = elems n position a \<union> elems n position b"
    "elems n position (bitset_xor n a b) = (elems n position a - elems n position b) \<union> (elems n position b - elems n position a)"
    by (auto simp: elems_def bitset_combine [OF a b])
  show "elems n position (bitset_not n a) = set vals - elems n position a"
    "elems n position (bitset_set_all n a) = set vals"
    by (auto simp: elems_def all bitset_not_eq [OF a] bitset_set_all_eq [OF a])
  show "elems n position (bitset_reset_all n) = {}" by (simp add: elems_def bitset_reset_all_def new_ok)
  show "bitset_any a \<longleftrightarrow> elems n position a \<noteq> {}"
    using bitset_any_eq [OF a] elems_image [OF assms(1) n] by simp
  show "bitset_count a = card (elems n position a)"
    using bitset_count_eq [OF a] elems_card [OF assms(1) n] by simp
  show "bitset_eq a b \<longleftrightarrow> elems n position a = elems n position b"
    using positions_inject [OF a b] elems_eq [OF assms(1) n, of a b] by (auto simp: bitset_eq_def)
qed

end

section \<open>Properties\<close>

lemma sorted_same: "set (sorted_values cmp e S) = set (values_v e S)" "length (sorted_values cmp e S) = count_v e S"
  using mset_eq_setD [OF sorted_values_perm] mset_eq_length [OF sorted_values_perm] by (simp_all add: count_v_def)

text \<open>
  C37. A bitset is a set of enumerators, for any number of them and either indexing: testing, setting
  and resetting one are membership, insertion and removal, and out of range for a number that is no
  enumerator; the operators are intersection, union, symmetric difference and complement, with no
  stray bits beyond the last enumerator, so that equality of the words is equality of the sets and
  the count of the bits the number of elements.
\<close>

theorem bitset_refines_set:
  assumes ok: "enum_ok e S" and ix: "ix = enum_index e S \<or> ix = sorted_at cmp e S" and n: "n = count_v e S"
    and a: "bitset_ok n a" and b: "bitset_ok n b"
  shows "bitset_test n ix a v = (if v \<in> set (values_v e S) then Inr (v \<in> elems n ix a) else Inl OutOfRange) \<and>
    (if v \<in> set (values_v e S)
     then \<exists>a'. bitset_set n ix a v x = Inr a' \<and> bitset_ok n a' \<and> elems n ix a' = (if x then insert v (elems n ix a) else elems n ix a - {v})
     else bitset_set n ix a v x = Inl OutOfRange) \<and>
    bitset_reset n ix a v = bitset_set n ix a v False \<and>
    bitset_ok n (bitset_and n a b) \<and> elems n ix (bitset_and n a b) = elems n ix a \<inter> elems n ix b \<and>
    bitset_ok n (bitset_or n a b) \<and> elems n ix (bitset_or n a b) = elems n ix a \<union> elems n ix b \<and>
    bitset_ok n (bitset_xor n a b) \<and> elems n ix (bitset_xor n a b) = (elems n ix a - elems n ix b) \<union> (elems n ix b - elems n ix a) \<and>
    bitset_ok n (bitset_not n a) \<and> elems n ix (bitset_not n a) = set (values_v e S) - elems n ix a \<and>
    bitset_ok n (bitset_set_all n a) \<and> elems n ix (bitset_set_all n a) = set (values_v e S) \<and>
    bitset_any a = (elems n ix a \<noteq> {}) \<and> bitset_count a = card (elems n ix a) \<and>
    bitset_eq a b = (elems n ix a = elems n ix b)"
proof -
  have nd: "n = length (values_v e S)" and ns: "n = length (sorted_values cmp e S)"
    using n by (simp_all add: sorted_same count_v_def)
  note kept = bitset_combine [OF a b] bitset_not_eq [OF a] bitset_set_all_eq [OF a]
  note d = default_index.element_ops(1-3) [OF ok nd a] default_index.whole_ops [OF ok nd a b]
  note s = sorted_index.element_ops(1-3) [OF ok ns a] sorted_index.whole_ops [OF ok ns a b]
  from ix show ?thesis
  proof
    assume default: "ix = enum_index e S"
    show ?thesis unfolding default by (intro conjI; rule kept d)
  next
    assume sorted: "ix = sorted_at cmp e S"
    show ?thesis unfolding sorted by (intro conjI; rule kept s [unfolded sorted_same])
  qed
qed

theorem bitset_refines_set_witness:
  "\<exists>a'. bitset_set 2 (enum_index lamp common_enum) (bitset_new 2) 3 True = Inr a' \<and>
    elems 2 (enum_index lamp common_enum) a' = insert 3 (elems 2 (enum_index lamp common_enum) (bitset_new 2))"
  using bitset_refines_set [OF lamp_ok disjI1 [OF refl], where n = 2 and v = 3 and x = True, OF _ new_ok(1) new_ok(1)]
  by (auto simp: lamp_values count_v_def)

text \<open>
  The raw forms are lossless: a bitset of at most 64 enumerators written as a number, and any
  bitset written as text, is read back as the same bitset, and a number is read and written back as
  itself unless it has a bit beyond the last enumerator, which is out of range.
\<close>

theorem bitset_raw_roundtrip:
  assumes a: "bitset_ok n a" and n: "n \<le> 64" and zero: "zero \<noteq> one"
  shows "bindE (bitset_to_ullong n a) (\<lambda>r. bitset_raw_number n (word_of_int r)) = Inr a \<and>
    bindE (bitset_raw_number n v) (bitset_to_ullong n) = (if drop_bit n v = 0 then Inr (uint v) else Inl OutOfRange) \<and>
    bitset_raw_text n (bitset_to_raw_string n a zero one) 0 n zero one = Inr a"
proof (intro conjI)
  obtain r where r: "bitset_to_ullong n a = Inr r" "\<And>k. bit r k \<longleftrightarrow> k \<in> positions n a"
    using bitset_to_eq [OF n] by (auto simp: bitset_to_ullong_def)
  have bits: "bit (word_of_int r :: 64 word) k \<longleftrightarrow> k \<in> positions n a" for k
    using r(2) [of k] n by (auto simp: bit_word_of_int_iff dest: positionsD)
  have "drop_bit n (word_of_int r :: 64 word) = 0"
    by (rule bit_word_eqI) (auto simp: bit_drop_bit_eq bits dest: positionsD)
  then obtain a' where a': "bitset_raw_number n (word_of_int r) = Inr a'" "bitset_ok n a'" "positions n a' = {i. bit (word_of_int r :: 64 word) i}"
    using bitset_raw_number_eq [of n "word_of_int r"] by auto
  then have "a' = a" using positions_inject [OF a'(2) a] bits by simp
  with a'(1) r(1) show "bindE (bitset_to_ullong n a) (\<lambda>r. bitset_raw_number n (word_of_int r)) = Inr a" by simp
  show "bindE (bitset_raw_number n v) (bitset_to_ullong n) = (if drop_bit n v = 0 then Inr (uint v) else Inl OutOfRange)"
  proof (cases "drop_bit n v = 0")
    case True
    then obtain b where b: "bitset_raw_number n v = Inr b" "positions n b = {i. bit v i}"
      using bitset_raw_number_eq [of n v] by auto
    obtain q where q: "bitset_to_ullong n b = Inr q" "\<And>k. bit q k \<longleftrightarrow> bit v k"
      using bitset_to_eq [OF n, of b] b(2) by (auto simp: bitset_to_ullong_def)
    have "q = uint v" by (rule bit_eqI) (auto simp: q(2) bit_uint_iff dest: bit_imp_le_length)
    with b(1) q(1) True show ?thesis by simp
  next
    case False
    then show ?thesis using bitset_raw_number_eq [of n v] by simp
  qed
  have "raw_text_loop n zero one (map (\<lambda>j. if get_bit n a j then one else zero) [0..<n]) 0 (bitset_new n) = Inr a"
    by (rule raw_text_loop_eq [OF zero a]) (auto simp: new_ok)
  then show "bitset_raw_text n (bitset_to_raw_string n a zero one) 0 n zero one = Inr a"
    by (simp add: bitset_raw_text_def to_raw_string_map)
qed

theorem bitset_raw_roundtrip_witness:
  "bindE (bitset_raw_number 5 21) (bitset_to_ullong 5) = Inr 21 \<and>
   bindE (bitset_raw_number 5 32) (bitset_to_ullong 5) = Inl OutOfRange"
  using bitset_raw_roundtrip [OF new_ok(1), of 5 "CHR ''0''" "CHR ''1''" 21]
    bitset_raw_roundtrip [OF new_ok(1), of 5 "CHR ''0''" "CHR ''1''" 32] by (simp add: drop_bit_eq_div)

text \<open>
  C38. \<open>all()\<close> is right exactly when the last word has unused bits. With 8 or 16 enumerators it is
  false for every bitset, the full one too, because the complement of a word narrower than \<open>int\<close> is
  never zero; otherwise, as with 32 or 64, it is false for a bitset that is not full and leaves the
  function without a result for a full one.
\<close>

theorem bitset_all_exact:
  assumes "bitset_ok n a" and "0 < n"
  shows "bitset_all n a =
    (if n \<noteq> base_type_count n * bits_per_base n then Inr (positions n a = {..<n})
     else if n = 8 \<or> n = 16 \<or> positions n a \<noteq> {..<n} then Inr False else Inl UndefinedBehaviour)"
proof -
  have "not_interested n > 0 \<longleftrightarrow> n \<noteq> base_type_count n * bits_per_base n"
    using total_bits(1) [of n] by (auto simp: not_interested_def)
  moreover have "n = base_type_count n * bits_per_base n \<Longrightarrow> bits_per_base n < 32 \<longleftrightarrow> n = 8 \<or> n = 16"
    using assms(2) by (auto simp: bits_per_base_def base_type_count_def split: if_splits)
  ultimately show ?thesis using bitset_all_eq [OF assms] by auto
qed

theorem bitset_all_exact_witness:
  "bitset_all 8 (bitset_set_all 8 (bitset_new 8)) = Inr False \<and> bitset_all 32 (bitset_set_all 32 (bitset_new 32)) = Inl UndefinedBehaviour \<and>
   bitset_all 5 (bitset_set_all 5 (bitset_new 5)) = Inr True"
  using bitset_all_exact [OF bitset_set_all_eq(1) [OF new_ok(1)], of 8] bitset_all_exact [OF bitset_set_all_eq(1) [OF new_ok(1)], of 32]
    bitset_all_exact [OF bitset_set_all_eq(1) [OF new_ok(1)], of 5]
  by (simp add: bits_per_base_def base_type_count_def bitset_set_all_eq(2) [OF new_ok(1)])

subsection \<open>Bitsets of flags\<close>

lemma power_and: "(2 :: int) ^ k AND u \<noteq> 0 \<longleftrightarrow> bit u k"
  using and_power [of u k] by (simp add: and.commute)

lemma of_flags_loop:
  assumes ok: "enum_ok e flags_enum" and n: "n = length (values_v e flags_enum)"
  shows "distinct ws \<Longrightarrow> set ws \<subseteq> set (values_v e flags_enum) \<Longrightarrow> bitset_ok n a \<Longrightarrow>
    \<exists>u' a'. foldE (\<lambda>v (u, a). if v AND u \<noteq> 0
        then bindE (bitset_index_assign n (enum_index e flags_enum) a v True) (\<lambda>a. Inr (u AND NOT v, a)) else Inr (u, a)) ws (u, a) =
      Inr (u', a') \<and> (\<forall>k. bit u' k \<longleftrightarrow> bit u k \<and> 2 ^ k \<notin> set ws) \<and> bitset_ok n a' \<and>
      elems n (enum_index e flags_enum) a' = elems n (enum_index e flags_enum) a \<union> {v \<in> set ws. u AND v \<noteq> 0}"
proof (induction ws arbitrary: u a)
  case (Cons v ws)
  let ?ix = "enum_index e flags_enum"
  have v: "v \<in> set (values_v e flags_enum)" using Cons.prems by simp
  then obtain j where j: "v = 2 ^ j" by (auto simp: flags_values [OF ok])
  have others: "\<exists>i. w = 2 ^ i \<and> i \<noteq> j" if "w \<in> set ws" for w
  proof -
    have "w \<in> set (values_v e flags_enum)" "w \<noteq> v" using that Cons.prems by auto
    then show ?thesis using j by (auto simp: flags_values [OF ok])
  qed
  show ?case
  proof (cases "bit u j")
    case True
    obtain a1 where a1: "bitset_index_assign n ?ix a v True = Inr a1" "bitset_ok n a1" "elems n ?ix a1 = insert v (elems n ?ix a)"
      using default_index.element_ops(2) [OF ok n Cons.prems(3), of v True] default_index.element_ops(5) [OF ok n Cons.prems(3) v, of True] v
      by auto
    obtain u' a' where r: "foldE (\<lambda>v (u, a). if v AND u \<noteq> 0
        then bindE (bitset_index_assign n ?ix a v True) (\<lambda>a. Inr (u AND NOT v, a)) else Inr (u, a)) ws (u AND NOT v, a1) = Inr (u', a')"
      "\<And>k. bit u' k \<longleftrightarrow> bit (u AND NOT v) k \<and> 2 ^ k \<notin> set ws" "bitset_ok n a'"
      "elems n ?ix a' = elems n ?ix a1 \<union> {w \<in> set ws. (u AND NOT v) AND w \<noteq> 0}"
      using Cons.IH [OF _ _ a1(2), of "u AND NOT v"] Cons.prems by auto
    have same: "(u AND NOT v) AND w \<noteq> 0 \<longleftrightarrow> u AND w \<noteq> 0" if w: "w \<in> set ws" for w
    proof -
      obtain i where "w = 2 ^ i" "i \<noteq> j" using others [OF w] by blast
      then show ?thesis unfolding \<open>w = 2 ^ i\<close> and_power by (simp add: j bit_and_iff bit_not_iff bit_power)
    qed
    have "bit u' k \<longleftrightarrow> bit u k \<and> 2 ^ k \<notin> set (v # ws)" for k
      using r(2) by (auto simp: j bit_and_iff bit_not_iff bit_power)
    moreover have "elems n ?ix a' = elems n ?ix a \<union> {w \<in> set (v # ws). u AND w \<noteq> 0}"
    proof -
      have "u AND v \<noteq> 0" using True by (simp only: j and_power)
      then show ?thesis unfolding r(4) a1(3) using same by auto
    qed
    ultimately show ?thesis using r(1,3) a1(1) True by (simp add: j power_and)
  next
    case False
    obtain u' a' where r: "foldE (\<lambda>v (u, a). if v AND u \<noteq> 0
        then bindE (bitset_index_assign n ?ix a v True) (\<lambda>a. Inr (u AND NOT v, a)) else Inr (u, a)) ws (u, a) = Inr (u', a')"
      "\<And>k. bit u' k \<longleftrightarrow> bit u k \<and> 2 ^ k \<notin> set ws" "bitset_ok n a'"
      "elems n ?ix a' = elems n ?ix a \<union> {w \<in> set ws. u AND w \<noteq> 0}"
      using Cons.IH [OF _ _ Cons.prems(3), of u] Cons.prems by auto
    have "bit u' k \<longleftrightarrow> bit u k \<and> 2 ^ k \<notin> set (v # ws)" for k
      using r(2) False by (auto simp: j)
    moreover have "elems n ?ix a' = elems n ?ix a \<union> {w \<in> set (v # ws). u AND w \<noteq> 0}"
    proof -
      have "\<not> u AND v \<noteq> 0" using False by (simp only: j and_power simp_thms)
      then show ?thesis unfolding r(4) by auto
    qed
    ultimately show ?thesis using r(1,3) False by (simp add: j power_and)
  qed
qed simp

lemma to_flags_fold:
  assumes ok: "enum_ok e S" and n: "n = length (values_v e S)" and a: "bitset_ok n a"
  shows "set ws \<subseteq> set (values_v e S) \<Longrightarrow>
    foldE (\<lambda>e' res. bindE (bitset_test n (enum_index e S) a e') (\<lambda>t. Inr (if t then res OR e' else res))) ws acc =
      Inr (acc OR ors_of (filter (\<lambda>v. v \<in> elems n (enum_index e S) a) ws))"
proof (induction ws arbitrary: acc)
  case (Cons w ws)
  have "ors_of (w # vs) = w OR ors_of vs" for vs using fold_ors_acc [of vs w] by (simp add: ors_of_def)
  with Cons default_index.element_ops(1) [OF ok n a, of w] show ?case by (simp add: or.assoc)
qed (simp add: ors_of_def)

lemma to_string_fold:
  assumes ok: "enum_ok e S" and n: "n = length (values_v e S)" and a: "bitset_ok n a"
    and named: "\<And>v. v \<in> set (values_v e S) \<Longrightarrow> names v \<noteq> []"
  shows "set ws \<subseteq> set (values_v e S) \<Longrightarrow> set us \<subseteq> set (values_v e S) \<Longrightarrow>
    foldE (\<lambda>e' name. bindE (bitset_test n (enum_index e S) a e') (\<lambda>t.
       Inr (if t then (if name \<noteq> [] then name @ [sep] else name) @ names e' else name))) ws (join_names sep (map names us)) =
      Inr (join_names sep (map names (us @ filter (\<lambda>v. v \<in> elems n (enum_index e S) a) ws)))"
proof (induction ws arbitrary: us)
  case (Cons w ws)
  have w: "w \<in> set (values_v e S)" using Cons.prems by simp
  show ?case
  proof (cases "w \<in> elems n (enum_index e S) a")
    case True
    have "(if join_names sep (map names us) \<noteq> [] then join_names sep (map names us) @ [sep] else join_names sep (map names us)) @ names w =
        join_names sep (map names (us @ [w]))"
    proof (cases "us = []")
      case False
      have "join_names sep (map names us) = [] \<longleftrightarrow> map names us = []"
        by (rule join_not_Nil) (use named Cons.prems(2) in auto)
      then show ?thesis using False join_append [of "map names us" sep "names w"] by simp
    qed simp
    then show ?thesis
      using Cons.IH [of "us @ [w]"] Cons.prems True default_index.element_ops(1) [OF ok n a, of w] by simp
  next
    case False
    then show ?thesis
      using Cons.IH [of us] Cons.prems default_index.element_ops(1) [OF ok n a, of w] by simp
  qed
qed simp

text \<open>
  A bitset made from a value of an enumeration of flags holds its flags: it is written back as the
  same value, its text is what \<open>enum_flags_name\<close> gives for the value, and a value with a bit that is
  no flag is refused.
\<close>

theorem bitset_flags_roundtrip:
  assumes ok: "enum_ok e flags_enum" and ids: "reflects e ids" and n: "n = count_v e flags_enum"
  shows "if covered e x
    then \<exists>a. bitset_of_flags n (enum_index e flags_enum) (values_v e flags_enum) x = Inr a \<and> bitset_ok n a \<and>
      bitset_to_flags n (enum_index e flags_enum) (values_v e flags_enum) a = Inr x \<and>
      bitset_to_string n (enum_index e flags_enum) (values_v e flags_enum) (enum_name e flags_enum) a sep = enum_flags_name e x sep
    else bitset_of_flags n (enum_index e flags_enum) (values_v e flags_enum) x =
      Inl (InvalidArgument ''magic_enum::containers::bitset::constructor: Unrecognized enum value in flag'')"
proof -
  let ?ix = "enum_index e flags_enum" and ?vs = "values_v e flags_enum"
  have len: "n = length ?vs" by (simp add: n count_v_def)
  obtain u a where r: "foldE (\<lambda>v (u, a). if v AND u \<noteq> 0
        then bindE (bitset_index_assign n ?ix a v True) (\<lambda>a. Inr (u AND NOT v, a)) else Inr (u, a)) ?vs (x, bitset_new n) = Inr (u, a)"
    "\<And>k. bit u k \<longleftrightarrow> bit x k \<and> 2 ^ k \<notin> set ?vs" and a: "bitset_ok n a" "elems n ?ix a = {v \<in> set ?vs. x AND v \<noteq> 0}"
    using of_flags_loop [OF ok len values_sorted(2) [OF ok] order_refl new_ok(1), of x] by (auto simp: elems_def new_ok)
  have "(2 :: int) ^ k \<in> set ?vs \<longleftrightarrow> k \<in> flag_bits e" for k
    by (auto simp: flags_values [OF ok] flag_bits_def)
  then have "u = 0 \<longleftrightarrow> covered e x" using r(2) by (auto simp: bit_eq_iff covered_def)
  moreover have filt: "filter (\<lambda>v. v \<in> elems n ?ix a) ?vs = flags_in e x"
    unfolding flags_in_def a(2) by (rule filter_cong) auto
  moreover have "bitset_to_flags n ?ix ?vs a = Inr (ors_of (flags_in e x))"
    using to_flags_fold [OF ok len a(1) order_refl, of 0] filt by (simp add: bitset_to_flags_def)
  moreover have "bitset_to_string n ?ix ?vs (enum_name e flags_enum) a sep = enum_flags_name e x sep" if cov: "covered e x"
  proof -
    have "bitset_to_string n ?ix ?vs (enum_name e flags_enum) a sep = Inr (join_names sep (map (enum_name e flags_enum) (flags_in e x)))"
      using to_string_fold [OF ok len a(1), where names = "enum_name e flags_enum" and us = "[]" and ws = ?vs and sep = sep]
        values_have_names [OF ok ids] filt by (fastforce simp: bitset_to_string_def enum_name_eq [OF ok])
    also have "map (enum_name e flags_enum) (flags_in e x) = map (enum_name_v e) (flags_in e x)"
      by (auto simp: flags_in_def enum_name_eq [OF ok])
    finally show ?thesis
      using enum_flags_name_eq [OF ok reflects_all_named [OF ok ids], of x sep] cov ors_covered [OF ok, of x]
      by (auto simp: flags_in_def)
  qed
  ultimately show ?thesis using r(1) a(1) ors_covered [OF ok, of x] by (auto simp: bitset_of_flags_def)
qed

theorem bitset_flags_roundtrip_witness:
  "\<exists>a. bitset_of_flags 3 (enum_index (colour_flags 0) flags_enum) [1, 2, 4] 5 = Inr a \<and>
    bitset_to_flags 3 (enum_index (colour_flags 0) flags_enum) [1, 2, 4] a = Inr 5"
proof -
  have "ors_of [1, 4] = (5 :: int)" by (simp add: ors_of_def)
  then have "covered (colour_flags 0) 5" using ors_covered [OF colour_ok, of 0 5] by (simp add: flags_in_def colour_values)
  then show ?thesis
    using bitset_flags_roundtrip [OF colour_ok colour_reflects refl, of 0 5] by (auto simp: colour_values colour_dense)
qed

end
