(* ===== verification/EnumSet.thy ===== *)
theory EnumSet
  imports EnumBitset
begin

text \<open>
  \<open>lib/magic_enum/magic_enum_containers.hpp\<close>, third part: sets of enumerators, a bitset with the
  number of its elements, and the filtering iterator that walks over them. An iterator is a position
  in the array of all enumerators; its end is the length of the array. The overloads for keys of
  other types are not modelled.
\<close>

section \<open>Iterators\<close>

definition iter_pred :: "nat \<Rightarrow> (int \<Rightarrow> nat option) \<Rightarrow> int list \<Rightarrow> int list \<Rightarrow> nat \<Rightarrow> bool res" where
  "iter_pred n ix vals a i = (if i < length vals then bitset_index n ix a (vals ! i) else Inl UndefinedBehaviour)"

definition iter_deref :: "int list \<Rightarrow> nat \<Rightarrow> int res" where
  "iter_deref vals i = (if i < length vals then Inr (vals ! i) else Inl UndefinedBehaviour)"

function iter_next :: "nat \<Rightarrow> (int \<Rightarrow> nat option) \<Rightarrow> int list \<Rightarrow> int list \<Rightarrow> nat \<Rightarrow> nat res" where
  "iter_next n ix vals a i =
     (let i = i + 1
      in if i \<noteq> length vals
         then bindE (iter_pred n ix vals a i) (\<lambda>p. if \<not> p then iter_next n ix vals a i else Inr i)
         else Inr i)"
  by auto
termination
  by (relation "measure (\<lambda>(n, ix, vals, a, i). length vals - i)") (auto simp: iter_pred_def split: if_splits)

declare iter_next.simps [simp del]

fun iter_prev :: "nat \<Rightarrow> (int \<Rightarrow> nat option) \<Rightarrow> int list \<Rightarrow> int list \<Rightarrow> nat \<Rightarrow> nat res" where
  "iter_prev n ix vals a 0 = Inl UndefinedBehaviour"
| "iter_prev n ix vals a (Suc i) =
     (if i \<noteq> 0 then bindE (iter_pred n ix vals a i) (\<lambda>p. if \<not> p then iter_prev n ix vals a i else Inr i) else Inr i)"

text \<open>The constructor moves on from the first position when it is not in the set.\<close>

definition iter_new :: "nat \<Rightarrow> (int \<Rightarrow> nat option) \<Rightarrow> int list \<Rightarrow> int list \<Rightarrow> nat \<Rightarrow> nat res" where
  "iter_new n ix vals a pos =
     (if pos = 0
      then bindE (iter_pred n ix vals a pos) (\<lambda>p. if \<not> p then iter_next n ix vals a pos else Inr pos)
      else Inr pos)"

section \<open>Sets\<close>

record EnumSet =
  es_bits :: "int list"
  es_size :: nat

definition set_new :: "nat \<Rightarrow> EnumSet" where
  "set_new n = \<lparr>es_bits = bitset_new n, es_size = 0\<rparr>"

definition set_begin :: "nat \<Rightarrow> (int \<Rightarrow> nat option) \<Rightarrow> int list \<Rightarrow> EnumSet \<Rightarrow> nat res" where
  "set_begin n ix vals h = iter_new n ix vals (es_bits h) 0"

definition set_end :: "nat \<Rightarrow> (int \<Rightarrow> nat option) \<Rightarrow> int list \<Rightarrow> EnumSet \<Rightarrow> nat res" where
  "set_end n ix vals h = iter_new n ix vals (es_bits h) (length vals)"

definition set_empty :: "EnumSet \<Rightarrow> bool" where
  "set_empty h \<longleftrightarrow> es_size h = 0"

definition set_clear :: "nat \<Rightarrow> EnumSet \<Rightarrow> EnumSet" where
  "set_clear n h = h\<lparr>es_bits := bitset_reset_all n, es_size := 0\<rparr>"

definition set_insert :: "nat \<Rightarrow> (int \<Rightarrow> nat option) \<Rightarrow> int list \<Rightarrow> EnumSet \<Rightarrow> int \<Rightarrow> (EnumSet \<times> nat \<times> bool) res" where
  "set_insert n ix vals h v = (case ix v of
     Some i \<Rightarrow> bindE (bitset_index n ix (es_bits h) v) (\<lambda>ref.
       let r = \<not> ref in
       bindE (if r
              then bindE (bitset_index_assign n ix (es_bits h) v True) (\<lambda>a. Inr (h\<lparr>es_bits := a, es_size := es_size h + 1\<rparr>))
              else Inr h) (\<lambda>h.
         bindE (iter_new n ix vals (es_bits h) i) (\<lambda>it. Inr (h, it, r))))
   | None \<Rightarrow> bindE (set_end n ix vals h) (\<lambda>it. Inr (h, it, False)))"

text \<open>Construction from a range, insertion of one and assignment of a list, which returns nothing.\<close>

definition set_insert_range :: "nat \<Rightarrow> (int \<Rightarrow> nat option) \<Rightarrow> int list \<Rightarrow> int list \<Rightarrow> EnumSet \<Rightarrow> EnumSet res" where
  "set_insert_range n ix vals vs h = foldE (\<lambda>v h. bindE (set_insert n ix vals h v) (\<lambda>r. Inr (fst r))) vs h"

definition set_of_range :: "nat \<Rightarrow> (int \<Rightarrow> nat option) \<Rightarrow> int list \<Rightarrow> int list \<Rightarrow> EnumSet res" where
  "set_of_range n ix vals vs = set_insert_range n ix vals vs (set_new n)"

definition set_assign_list :: "nat \<Rightarrow> (int \<Rightarrow> nat option) \<Rightarrow> int list \<Rightarrow> int list \<Rightarrow> EnumSet \<Rightarrow> EnumSet res" where
  "set_assign_list n ix vals vs h = bindE (set_insert_range n ix vals vs h) (\<lambda>h. Inl UndefinedBehaviour)"

definition set_of_flags :: "nat \<Rightarrow> (int \<Rightarrow> nat option) \<Rightarrow> int list \<Rightarrow> int list \<Rightarrow> int \<Rightarrow> EnumSet res" where
  "set_of_flags n ix vals all starter =
     foldE (\<lambda>v h. if v AND starter \<noteq> 0 then bindE (set_insert n ix vals h v) (\<lambda>r. Inr (fst r)) else Inr h) all (set_new n)"

definition set_erase :: "nat \<Rightarrow> (int \<Rightarrow> nat option) \<Rightarrow> EnumSet \<Rightarrow> int \<Rightarrow> (EnumSet \<times> nat) res" where
  "set_erase n ix h key =
     bindE (bitset_index n ix (es_bits h) key) (\<lambda>r.
       let h = (if r then h\<lparr>es_size := es_size h - 1\<rparr> else h) in
       bindE (bitset_index_assign n ix (es_bits h) key False) (\<lambda>a. Inr (h\<lparr>es_bits := a\<rparr>, of_bool r)))"

text \<open>\<open>erase(*pos++)\<close>: the iterator moves on before the element goes.\<close>

definition set_erase_at :: "nat \<Rightarrow> (int \<Rightarrow> nat option) \<Rightarrow> int list \<Rightarrow> EnumSet \<Rightarrow> nat \<Rightarrow> (EnumSet \<times> nat) res" where
  "set_erase_at n ix vals h pos =
     bindE (iter_next n ix vals (es_bits h) pos) (\<lambda>pos'.
       bindE (iter_deref vals pos) (\<lambda>v.
         bindE (set_erase n ix h v) (\<lambda>r. Inr (fst r, pos'))))"

definition set_count :: "nat \<Rightarrow> (int \<Rightarrow> nat option) \<Rightarrow> EnumSet \<Rightarrow> int \<Rightarrow> nat res" where
  "set_count n ix h key = (case ix key of
     None \<Rightarrow> Inr 0 | Some i \<Rightarrow> bindE (bitset_index n ix (es_bits h) key) (\<lambda>b. Inr (of_bool b)))"

definition set_contains :: "nat \<Rightarrow> (int \<Rightarrow> nat option) \<Rightarrow> EnumSet \<Rightarrow> int \<Rightarrow> bool res" where
  "set_contains n ix h key = bindE (set_count n ix h key) (\<lambda>c. Inr (c \<noteq> 0))"

definition set_find :: "nat \<Rightarrow> (int \<Rightarrow> nat option) \<Rightarrow> int list \<Rightarrow> EnumSet \<Rightarrow> int \<Rightarrow> nat res" where
  "set_find n ix vals h key = (case ix key of
     Some i \<Rightarrow> bindE (bitset_test n ix (es_bits h) key) (\<lambda>t.
       if t then iter_new n ix vals (es_bits h) i else set_end n ix vals h)
   | None \<Rightarrow> set_end n ix vals h)"

definition set_lower_bound :: "nat \<Rightarrow> (int \<Rightarrow> nat option) \<Rightarrow> int list \<Rightarrow> EnumSet \<Rightarrow> int \<Rightarrow> nat res" where
  "set_lower_bound n ix vals h key = (case ix key of
     Some i \<Rightarrow> bindE (iter_new n ix vals (es_bits h) i) (\<lambda>it.
       bindE (bitset_test n ix (es_bits h) key) (\<lambda>t. if t then Inr it else iter_next n ix vals (es_bits h) it))
   | None \<Rightarrow> set_end n ix vals h)"

definition set_upper_bound :: "nat \<Rightarrow> (int \<Rightarrow> nat option) \<Rightarrow> int list \<Rightarrow> EnumSet \<Rightarrow> int \<Rightarrow> nat res" where
  "set_upper_bound n ix vals h key = (case ix key of
     Some i \<Rightarrow> bindE (iter_new n ix vals (es_bits h) i) (iter_next n ix vals (es_bits h))
   | None \<Rightarrow> set_end n ix vals h)"

definition set_equal_range :: "nat \<Rightarrow> (int \<Rightarrow> nat option) \<Rightarrow> int list \<Rightarrow> EnumSet \<Rightarrow> int \<Rightarrow> (nat \<times> nat) res" where
  "set_equal_range n ix vals h key =
     bindE (set_lower_bound n ix vals h key) (\<lambda>l. bindE (set_upper_bound n ix vals h key) (\<lambda>u. Inr (l, u)))"

definition set_eq :: "EnumSet \<Rightarrow> EnumSet \<Rightarrow> bool" where
  "set_eq lhs rhs = bitset_eq (es_bits lhs) (es_bits rhs)"

fun set_less_loop :: "nat \<Rightarrow> (int \<Rightarrow> nat option) \<Rightarrow> EnumSet \<Rightarrow> EnumSet \<Rightarrow> int list \<Rightarrow> bool res" where
  "set_less_loop n ix lhs rhs [] = Inr False"
| "set_less_loop n ix lhs rhs (v # vs) =
     bindE (set_contains n ix rhs v) (\<lambda>c. bindE (set_contains n ix lhs v) (\<lambda>d.
       if c \<noteq> d then Inr c else set_less_loop n ix lhs rhs vs))"

definition set_less :: "nat \<Rightarrow> (int \<Rightarrow> nat option) \<Rightarrow> int list \<Rightarrow> EnumSet \<Rightarrow> EnumSet \<Rightarrow> bool res" where
  "set_less n ix vals lhs rhs =
     (if es_size lhs < es_size rhs then Inr True
      else if es_size rhs < es_size lhs then Inr False
      else set_less_loop n ix lhs rhs vals)"

definition set_swap :: "EnumSet \<Rightarrow> EnumSet \<Rightarrow> EnumSet \<times> EnumSet" where
  "set_swap this other = (let cp = this; this = other; other = cp in (this, other))"

lemma iter_next_less: "iter_next n ix vals a i = Inr j \<Longrightarrow> i < j"
proof (induction n ix vals a i rule: iter_next.induct)
  case (1 n ix vals a i)
  then show ?case
    by (subst (asm) (2) iter_next.simps) (fastforce simp: Let_def bindE_eq_Inr split: if_splits)
qed

text \<open>
  \<open>erase(first, last)\<close> and \<open>erase_if\<close>. Both loops move forward over the array; every pass of the
  first one erases before it compares.
\<close>

function set_erase_between :: "nat \<Rightarrow> (int \<Rightarrow> nat option) \<Rightarrow> int list \<Rightarrow> EnumSet \<Rightarrow> nat \<Rightarrow> nat \<Rightarrow> (EnumSet \<times> nat) res" where
  "set_erase_between n ix vals h first stop =
     bindE (set_erase_at n ix vals h first) (\<lambda>(h, first').
       if first' \<noteq> stop then set_erase_between n ix vals h first' stop else Inr (h, first'))"
  by auto
termination
  by (relation "measure (\<lambda>(n, ix, vals, h, first, stop). length vals - first)")
    (auto simp: set_erase_at_def iter_deref_def bindE_eq_Inr dest!: iter_next_less split: if_splits)

declare set_erase_between.simps [simp del]

function set_erase_if_loop :: "nat \<Rightarrow> (int \<Rightarrow> nat option) \<Rightarrow> int list \<Rightarrow> (int \<Rightarrow> bool) \<Rightarrow> EnumSet \<Rightarrow> nat \<Rightarrow> EnumSet res" where
  "set_erase_if_loop n ix vals pred h i =
     (if i \<noteq> length vals
      then bindE (iter_deref vals i) (\<lambda>v.
        if pred v
        then bindE (set_erase_at n ix vals h i) (\<lambda>(h, i'). set_erase_if_loop n ix vals pred h i')
        else bindE (iter_next n ix vals (es_bits h) i) (\<lambda>i'. set_erase_if_loop n ix vals pred h i'))
      else Inr h)"
  by auto
termination
  by (relation "measure (\<lambda>(n, ix, vals, pred, h, i). length vals - i)")
    (auto simp: set_erase_at_def iter_deref_def bindE_eq_Inr dest!: iter_next_less split: if_splits)

declare set_erase_if_loop.simps [simp del]

definition set_erase_if :: "nat \<Rightarrow> (int \<Rightarrow> nat option) \<Rightarrow> int list \<Rightarrow> (int \<Rightarrow> bool) \<Rightarrow> EnumSet \<Rightarrow> (EnumSet \<times> nat) res" where
  "set_erase_if n ix vals pred h =
     (let old_size = es_size h in
      bindE (set_begin n ix vals h) (\<lambda>i. bindE (set_end n ix vals h) (\<lambda>last'.
        bindE (set_erase_if_loop n ix vals pred h i) (\<lambda>h'. Inr (h', old_size - es_size h')))))"

section \<open>Sets as sets\<close>

definition es_elems :: "nat \<Rightarrow> (int \<Rightarrow> nat option) \<Rightarrow> EnumSet \<Rightarrow> int set" where
  "es_elems n ix h = elems n ix (es_bits h)"

text \<open>The invariant: the size is the number of elements.\<close>

definition es_ok :: "nat \<Rightarrow> (int \<Rightarrow> nat option) \<Rightarrow> EnumSet \<Rightarrow> bool" where
  "es_ok n ix h \<longleftrightarrow> bitset_ok n (es_bits h) \<and> es_size h = card (es_elems n ix h)"

text \<open>The first element from a position on.\<close>

definition first_from :: "nat \<Rightarrow> int list \<Rightarrow> nat \<Rightarrow> nat" where
  "first_from n a k = (case List.find (\<lambda>j. j \<in> positions n a) [k..<n] of Some j \<Rightarrow> j | None \<Rightarrow> n)"

lemma first_from_step: "k < n \<Longrightarrow> first_from n a k = (if k \<in> positions n a then k else first_from n a (Suc k))"
  by (simp add: first_from_def upt_rec)

lemma first_from_end [simp]: "n \<le> k \<Longrightarrow> first_from n a k = n"
  by (simp add: first_from_def)

lemma first_from_spec:
  "k \<le> n \<Longrightarrow> k \<le> first_from n a k \<and> first_from n a k \<le> n \<and> (first_from n a k < n \<longrightarrow> first_from n a k \<in> positions n a) \<and>
   (\<forall>j. k \<le> j \<longrightarrow> j < first_from n a k \<longrightarrow> j \<notin> positions n a)"
proof (induction "n - k" arbitrary: k)
  case (Suc m)
  then have k: "k < n" by simp
  have IH: "Suc k \<le> first_from n a (Suc k) \<and> first_from n a (Suc k) \<le> n \<and> (first_from n a (Suc k) < n \<longrightarrow> first_from n a (Suc k) \<in> positions n a) \<and>
      (\<forall>j. Suc k \<le> j \<longrightarrow> j < first_from n a (Suc k) \<longrightarrow> j \<notin> positions n a)"
    by (rule Suc.hyps(1)) (use Suc.hyps(2) in simp_all)
  show ?case
  proof (cases "k \<in> positions n a")
    case False
    have "j \<notin> positions n a" if "k \<le> j" "j < first_from n a (Suc k)" for j
      using that IH False by (cases "j = k") auto
    then show ?thesis using IH False by (simp add: first_from_step [OF k])
  qed (use k in \<open>simp add: first_from_step\<close>)
qed simp

context indexing
begin

lemma iter_pred_eq:
  assumes legal and n: "n = length vals" and a: "bitset_ok n a" and "i < n"
  shows "iter_pred n position vals a i = Inr (i \<in> positions n a)"
  using element_ops(4) [OF assms(1) n a, of "vals ! i"] elems_nth [OF assms(1) n assms(4)] assms(4) n
  by (simp add: iter_pred_def)

lemma iter_next_eq:
  assumes legal and n: "n = length vals" and a: "bitset_ok n a" and "i < n"
  shows "iter_next n position vals a i = Inr (first_from n a (Suc i))"
  using assms(4)
proof (induction "n - i" arbitrary: i)
  case (Suc m)
  show ?case
  proof (cases "Suc i < n")
    case True
    then have "iter_next n position vals a (Suc i) = Inr (first_from n a (Suc (Suc i)))"
      using Suc.hyps by simp
    then show ?thesis
      using True n iter_pred_eq [OF assms(1) n a True]
      by (subst iter_next.simps) (simp add: Let_def first_from_step)
  next
    case False
    then show ?thesis using Suc.prems n by (subst iter_next.simps) (simp add: Let_def)
  qed
qed simp

lemma iter_next_past: "legal \<Longrightarrow> n = length vals \<Longrightarrow> iter_next n position vals a n = Inl UndefinedBehaviour"
  by (subst iter_next.simps) (simp add: Let_def iter_pred_def)

lemma iter_new_eq:
  assumes legal and n: "n = length vals" and a: "bitset_ok n a" and "0 < n"
  shows "iter_new n position vals a i = Inr (if i = 0 then first_from n a 0 else i)"
  using iter_pred_eq [OF assms] iter_next_eq [OF assms] by (simp add: iter_new_def first_from_step [OF assms(4)])

lemma end_eq: "legal \<Longrightarrow> n = length vals \<Longrightarrow> bitset_ok n (es_bits h) \<Longrightarrow> 0 < n \<Longrightarrow> set_end n position vals h = Inr n"
  using iter_new_eq [of n "es_bits h" n] by (simp add: set_end_def)

lemma es_okD: "es_ok n position h \<Longrightarrow> bitset_ok n (es_bits h)" "es_ok n position h \<Longrightarrow> es_size h = card (es_elems n position h)"
  by (simp_all add: es_ok_def)

lemma es_finite: "legal \<Longrightarrow> finite (es_elems n position h)"
  unfolding es_elems_def by (rule finite_subset [OF elems_vals]) simp_all

lemma position_of:
  assumes legal and "v \<in> set vals"
  obtains i where "position v = Some i" "i < length vals" "vals ! i = v"
  using assms position_iff by (metis in_set_conv_nth)

lemma insert_eq:
  assumes legal and n: "n = length vals" and h: "es_ok n position h" and v: "v \<in> set vals"
  shows "\<exists>h'. set_insert n position vals h v = Inr (h', the (position v), v \<notin> es_elems n position h) \<and> es_ok n position h' \<and>
    es_elems n position h' = insert v (es_elems n position h)"
proof -
  note ok = es_okD(1) [OF h]
  obtain i where i: "position v = Some i" "i < length vals" "vals ! i = v" by (rule position_of [OF assms(1) v])
  have n0: "0 < n" using i(2) n by linarith
  note idx = element_ops(4) [OF assms(1) n ok v]
  obtain a where a: "bitset_index_assign n position (es_bits h) v True = Inr a" "bitset_ok n a"
    "elems n position a = insert v (elems n position (es_bits h))"
    using element_ops(2,5) [OF assms(1) n ok, of v True] v by auto
  have start: "iter_new n position vals b i = Inr i" if "bitset_ok n b" "v \<in> elems n position b" for b
  proof -
    have "i \<in> positions n b" using that(2) elems_nth [OF assms(1) n, of i b] i n by simp
    then show ?thesis using iter_new_eq [OF assms(1) n that(1) n0, of i] first_from_step [OF n0, of b] by auto
  qed
  show ?thesis
  proof (cases "v \<in> es_elems n position h")
    case True
    then show ?thesis
      using idx start [OF ok] i(1) h by (auto simp: set_insert_def es_elems_def insert_absorb)
  next
    case False
    then have "es_ok n position (h\<lparr>es_bits := a, es_size := es_size h + 1\<rparr>)"
      using a h es_finite [OF assms(1), of n h] by (simp add: es_ok_def es_elems_def)
    then show ?thesis
      using idx start [OF a(2)] i(1) a False by (auto simp: set_insert_def es_elems_def)
  qed
qed

lemma erase_eq:
  assumes legal and n: "n = length vals" and h: "es_ok n position h" and v: "v \<in> set vals"
  shows "\<exists>h'. set_erase n position h v = Inr (h', of_bool (v \<in> es_elems n position h)) \<and> es_ok n position h' \<and>
    es_elems n position h' = es_elems n position h - {v}"
proof -
  note ok = es_okD(1) [OF h]
  obtain a where a: "bitset_index_assign n position (es_bits h) v False = Inr a" "bitset_ok n a"
    "elems n position a = elems n position (es_bits h) - {v}"
    using element_ops(2,5) [OF assms(1) n ok, of v False] v by auto
  then show ?thesis
    using element_ops(4) [OF assms(1) n ok v] h es_finite [OF assms(1), of n h]
    by (auto simp: set_erase_def es_ok_def es_elems_def Let_def)
qed

lemma contains_eq:
  assumes legal and n: "n = length vals" and h: "bitset_ok n (es_bits h)"
  shows "set_contains n position h v = Inr (v \<in> es_elems n position h)"
proof (cases "v \<in> set vals")
  case True
  then obtain i where "position v = Some i" by (rule position_of [OF assms(1)])
  with True element_ops(4) [OF assms(1) n h] show ?thesis
    by (simp add: set_contains_def set_count_def es_elems_def)
next
  case False
  then have "position v = None" using position_None [OF assms(1)] by blast
  then show ?thesis by (simp add: set_contains_def set_count_def es_elems_def elems_def)
qed

lemma find_eq':
  assumes legal and n: "n = length vals" and h: "bitset_ok n (es_bits h)" and "0 < n"
  shows "set_find n position vals h v = Inr (if v \<in> es_elems n position h then the (position v) else n)"
proof (cases "v \<in> set vals")
  case True
  then obtain i where i: "position v = Some i" "i < length vals" "vals ! i = v" by (rule position_of [OF assms(1)])
  have "v \<in> es_elems n position h \<longleftrightarrow> i \<in> positions n (es_bits h)"
    using elems_nth [OF assms(1) n, of i "es_bits h"] i n by (simp add: es_elems_def)
  with True i show ?thesis
    using element_ops(1) [OF assms(1) n h, of v] iter_new_eq [OF assms(1) n h assms(4), of i] end_eq [OF assms(1) n h assms(4)]
    by (auto simp: set_find_def es_elems_def first_from_step [OF assms(4)])
next
  case False
  then have "position v = None" using position_None [OF assms(1)] by blast
  then show ?thesis using end_eq [OF assms(1) n h assms(4)] by (simp add: set_find_def es_elems_def elems_def)
qed

text \<open>The bounds: right except for an absent first enumerator.\<close>

lemma bounds_eq:
  assumes legal and n: "n = length vals" and h: "bitset_ok n (es_bits h)" and i: "i < n"
  defines "p \<equiv> (if i = 0 then first_from n (es_bits h) 0 else i)"
  shows "set_lower_bound n position vals h (vals ! i) =
      (if i \<in> positions n (es_bits h) then Inr i else iter_next n position vals (es_bits h) p)"
    "set_upper_bound n position vals h (vals ! i) = iter_next n position vals (es_bits h) p"
proof -
  have pos: "position (vals ! i) = Some i" using position_nth [OF assms(1)] i n by simp
  have new: "iter_new n position vals (es_bits h) i = Inr p"
    using iter_new_eq [OF assms(1) n h] i by (simp add: p_def)
  have test: "bitset_test n position (es_bits h) (vals ! i) = Inr (i \<in> positions n (es_bits h))"
    using element_ops(1) [OF assms(1) n h, of "vals ! i"] elems_nth [OF assms(1) n i] i n by simp
  have "i \<in> positions n (es_bits h) \<Longrightarrow> p = i" using i by (auto simp: p_def first_from_step)
  then show "set_lower_bound n position vals h (vals ! i) =
      (if i \<in> positions n (es_bits h) then Inr i else iter_next n position vals (es_bits h) p)"
    using pos new test by (simp add: set_lower_bound_def)
  show "set_upper_bound n position vals h (vals ! i) = iter_next n position vals (es_bits h) p"
    using pos new by (simp add: set_upper_bound_def)
qed

end

section \<open>Loops over a set\<close>

lemma positions_later:
  "positions n a \<inter> {k..} = positions n b \<inter> {k..} \<Longrightarrow> first_from n a k = first_from n b k"
proof -
  assume eq: "positions n a \<inter> {k..} = positions n b \<inter> {k..}"
  then have "List.find (\<lambda>j. j \<in> positions n a) [k..<n] = List.find (\<lambda>j. j \<in> positions n b) [k..<n]"
    by (intro find_cong) (auto simp: set_eq_iff)
  then show ?thesis by (simp add: first_from_def)
qed

context indexing
begin

lemma erase_at_eq:
  assumes legal and n: "n = length vals" and h: "es_ok n position h" and i: "i < n"
  shows "\<exists>h'. set_erase_at n position vals h i = Inr (h', first_from n (es_bits h) (Suc i)) \<and> es_ok n position h' \<and>
    es_elems n position h' = es_elems n position h - {vals ! i} \<and>
    positions n (es_bits h') = positions n (es_bits h) - {i}"
proof -
  note ok = es_okD(1) [OF h]
  have v: "vals ! i \<in> set vals" using i n by simp
  obtain h' where h': "set_erase n position h (vals ! i) = Inr (h', of_bool (vals ! i \<in> es_elems n position h))" "es_ok n position h'"
    "es_elems n position h' = es_elems n position h - {vals ! i}"
    using erase_eq [OF assms(1) n h v] by blast
  have "j \<in> positions n (es_bits h') \<longleftrightarrow> j \<in> positions n (es_bits h) - {i}" for j
  proof (cases "j < n")
    case True
    have "vals ! j = vals ! i \<longleftrightarrow> j = i"
      using vals_distinct [OF assms(1)] True i n by (simp add: nth_eq_iff_index_eq)
    then show ?thesis
      using h'(3) elems_nth [OF assms(1) n True, of "es_bits h'"] elems_nth [OF assms(1) n True, of "es_bits h"]
      by (auto simp: es_elems_def)
  qed (auto dest: positionsD)
  with h' i n iter_next_eq [OF assms(1) n ok i] show ?thesis
    by (auto simp: set_erase_at_def iter_deref_def)
qed

text \<open>An empty range is not empty for \<open>erase(first, last)\<close>: the loop runs over the end.\<close>

lemma erase_between_runaway:
  assumes legal and n: "n = length vals"
  shows "es_ok n position h \<Longrightarrow> stop < i \<Longrightarrow> i \<le> n \<Longrightarrow> set_erase_between n position vals h i stop = Inl UndefinedBehaviour"
proof (induction "n - i" arbitrary: i h rule: less_induct)
  case less
  show ?case
  proof (cases "i < n")
    case True
    obtain h' where h': "set_erase_at n position vals h i = Inr (h', first_from n (es_bits h) (Suc i))" "es_ok n position h'"
      using erase_at_eq [OF assms less.prems(1) True] by blast
    have f: "Suc i \<le> first_from n (es_bits h) (Suc i)" "first_from n (es_bits h) (Suc i) \<le> n"
      using first_from_spec [of "Suc i" n "es_bits h"] True by simp_all
    then have "set_erase_between n position vals h' (first_from n (es_bits h) (Suc i)) stop = Inl UndefinedBehaviour"
      using less.prems(2) True by (intro less.hyps [OF _ h'(2)]) simp_all
    then show ?thesis
      using h'(1) f less.prems(2) by (subst set_erase_between.simps) simp
  next
    case False
    then have "i = n" using less.prems by simp
    then show ?thesis using iter_next_past [OF assms] by (subst set_erase_between.simps) (simp add: set_erase_at_def)
  qed
qed

lemma erase_between_same:
  assumes legal and n: "n = length vals" and h: "es_ok n position h" and i: "i \<le> n"
  shows "set_erase_between n position vals h i i = Inl UndefinedBehaviour"
proof (cases "i < n")
  case True
  obtain h' where h': "set_erase_at n position vals h i = Inr (h', first_from n (es_bits h) (Suc i))" "es_ok n position h'"
    using erase_at_eq [OF assms(1-3) True] by blast
  have "Suc i \<le> first_from n (es_bits h) (Suc i)" "first_from n (es_bits h) (Suc i) \<le> n"
    using first_from_spec [of "Suc i" n "es_bits h"] True by simp_all
  with h' erase_between_runaway [OF assms(1) n h'(2), of i "first_from n (es_bits h) (Suc i)"] show ?thesis
    by (subst set_erase_between.simps) simp
next
  case False
  then have "i = n" using i by simp
  then show ?thesis using iter_next_past [OF assms(1) n] by (subst set_erase_between.simps) (simp add: set_erase_at_def)
qed

text \<open>A range that is not empty loses its elements.\<close>

lemma erase_between_eq:
  assumes legal and n: "n = length vals"
  shows "es_ok n position h \<Longrightarrow> i < stop \<Longrightarrow> stop = n \<or> stop \<in> positions n (es_bits h) \<Longrightarrow> i \<in> positions n (es_bits h) \<Longrightarrow>
    \<exists>h'. set_erase_between n position vals h i stop = Inr (h', stop) \<and> es_ok n position h' \<and>
      positions n (es_bits h') = positions n (es_bits h) - {i..<stop}"
proof (induction "n - i" arbitrary: i h rule: less_induct)
  case less
  have i: "i < n" using less.prems(4) by (rule positionsD)
  let ?f = "first_from n (es_bits h) (Suc i)"
  obtain h1 where h1: "set_erase_at n position vals h i = Inr (h1, ?f)" "es_ok n position h1"
    "positions n (es_bits h1) = positions n (es_bits h) - {i}"
    using erase_at_eq [OF assms less.prems(1) i] by blast
  note f = first_from_spec [of "Suc i" n "es_bits h"]
  have f: "Suc i \<le> ?f" "?f \<le> n" "?f < n \<Longrightarrow> ?f \<in> positions n (es_bits h)" "\<And>j. Suc i \<le> j \<Longrightarrow> j < ?f \<Longrightarrow> j \<notin> positions n (es_bits h)"
    using f i by auto
  have le: "?f \<le> stop"
  proof (rule ccontr)
    assume "\<not> ?f \<le> stop"
    then have "stop \<notin> positions n (es_bits h)" "stop < n" using f less.prems(2) by auto
    with less.prems(3) show False by simp
  qed
  show ?case
  proof (cases "?f = stop")
    case True
    have "positions n (es_bits h1) = positions n (es_bits h) - {i..<stop}"
    proof -
      have "j = i" if "j \<in> positions n (es_bits h)" "i \<le> j" "j < stop" for j
        using f(4) [of j] that True by (metis le_antisym not_less_eq_eq)
      then show ?thesis unfolding h1(3) using less.prems(2) by auto
    qed
    then show ?thesis using h1 True by (subst set_erase_between.simps) simp
  next
    case False
    have "stop \<le> n" using less.prems(3) by (auto dest: positionsD)
    then have fp: "?f \<in> positions n (es_bits h)" "?f < stop" using f(3) le False by auto
    have "stop = n \<or> stop \<in> positions n (es_bits h1)" "?f \<in> positions n (es_bits h1)"
      using less.prems(2,3) fp(1) f(1) unfolding h1(3) by auto
    then obtain h' where h': "set_erase_between n position vals h1 ?f stop = Inr (h', stop)" "es_ok n position h'"
      "positions n (es_bits h') = positions n (es_bits h1) - {?f..<stop}"
      using less.hyps [OF _ h1(2) fp(2)] f(1) i by fastforce
    have "positions n (es_bits h') = positions n (es_bits h) - {i..<stop}"
    proof -
      have "j = i \<or> ?f \<le> j" if "j \<in> positions n (es_bits h)" "i \<le> j" for j
        using f(4) [of j] that by (metis not_less not_less_eq_eq le_antisym)
      then show ?thesis unfolding h'(3) h1(3) using f(1) fp(2) less.prems(2) by fastforce
    qed
    then show ?thesis using h1(1) h'(1,2) False by (subst set_erase_between.simps) simp
  qed
qed

lemma erase_if_loop_eq:
  assumes legal and n: "n = length vals"
  shows "es_ok n position h \<Longrightarrow> i \<le> n \<Longrightarrow> i = n \<or> i \<in> positions n (es_bits h) \<Longrightarrow>
    \<exists>h'. set_erase_if_loop n position vals pred h i = Inr h' \<and> es_ok n position h' \<and>
      positions n (es_bits h') = positions n (es_bits h) - {j. i \<le> j \<and> j < n \<and> pred (vals ! j)}"
proof (induction "n - i" arbitrary: i h rule: less_induct)
  case less
  show ?case
  proof (cases "i < n")
    case True
    then have ip: "i \<in> positions n (es_bits h)" using less.prems(3) by simp
    let ?f = "first_from n (es_bits h) (Suc i)"
    have f: "Suc i \<le> ?f" "?f \<le> n" "?f < n \<Longrightarrow> ?f \<in> positions n (es_bits h)" "\<And>j. Suc i \<le> j \<Longrightarrow> j < ?f \<Longrightarrow> j \<notin> positions n (es_bits h)"
      using first_from_spec [of "Suc i" n "es_bits h"] True by auto
    have later: "j = i \<or> ?f \<le> j" if "j \<in> positions n (es_bits h)" "i \<le> j" for j
      using f(4) [of j] that by (metis not_less not_less_eq_eq le_antisym)
    obtain h1 where h1: "(if pred (vals ! i) then set_erase_at n position vals h i = Inr (h1, ?f) else h1 = h)" "es_ok n position h1"
      "positions n (es_bits h1) = positions n (es_bits h) - {j. j = i \<and> pred (vals ! i)}"
      using erase_at_eq [OF assms less.prems(1) True] less.prems(1) by (cases "pred (vals ! i)") auto
    have "?f = n \<or> ?f \<in> positions n (es_bits h1)" using f h1(3) by auto
    then obtain h' where h': "set_erase_if_loop n position vals pred h1 ?f = Inr h'" "es_ok n position h'"
      "positions n (es_bits h') = positions n (es_bits h1) - {j. ?f \<le> j \<and> j < n \<and> pred (vals ! j)}"
      using less.hyps [OF _ h1(2) f(2)] f(1) True by fastforce
    have "positions n (es_bits h') = positions n (es_bits h) - {j. i \<le> j \<and> j < n \<and> pred (vals ! j)}"
      unfolding h'(3) h1(3) using later f(1) True by fastforce
    moreover have "set_erase_if_loop n position vals pred h i = Inr h'"
      using h1(1) h'(1) True n iter_next_eq [OF assms es_okD(1) [OF less.prems(1)] True]
      by (subst set_erase_if_loop.simps) (simp add: iter_deref_def split: if_splits)
    ultimately show ?thesis using h'(2) by blast
  next
    case False
    then have "i = n" using less.prems by simp
    then show ?thesis using less.prems(1) n by (subst set_erase_if_loop.simps) (auto dest: positionsD)
  qed
qed

lemma erase_if_eq:
  assumes legal and n: "n = length vals" and h: "es_ok n position h" and n0: "0 < n"
  shows "\<exists>h'. set_erase_if n position vals pred h = Inr (h', card {v \<in> es_elems n position h. pred v}) \<and> es_ok n position h' \<and>
    es_elems n position h' = {v \<in> es_elems n position h. \<not> pred v}"
proof -
  note ok = es_okD(1) [OF h]
  let ?f = "first_from n (es_bits h) 0"
  have f: "?f \<le> n" "?f = n \<or> ?f \<in> positions n (es_bits h)" "\<And>j. j < ?f \<Longrightarrow> j \<notin> positions n (es_bits h)"
    using first_from_spec [of 0 n "es_bits h"] by auto
  have start: "set_begin n position vals h = Inr ?f" "set_end n position vals h = Inr n"
    using iter_new_eq [OF assms(1) n ok n0] end_eq [OF assms(1) n ok n0] by (simp_all add: set_begin_def)
  obtain h' where h': "set_erase_if_loop n position vals pred h ?f = Inr h'" "es_ok n position h'"
    "positions n (es_bits h') = positions n (es_bits h) - {j. ?f \<le> j \<and> j < n \<and> pred (vals ! j)}"
    using erase_if_loop_eq [OF assms(1) n h f(1,2)] by blast
  have "positions n (es_bits h') = {j \<in> positions n (es_bits h). \<not> pred (vals ! j)}"
    unfolding h'(3) using f(3) by (auto simp: not_less dest: positionsD)
  then have el: "es_elems n position h' = {v \<in> es_elems n position h. \<not> pred v}"
    unfolding es_elems_def elems_image [OF assms(1) n] by auto
  have "es_size h - es_size h' = card {v \<in> es_elems n position h. pred v}"
  proof -
    have "{v \<in> es_elems n position h. pred v} = es_elems n position h - es_elems n position h'" using el by auto
    then show ?thesis
      using es_okD(2) [OF h] es_okD(2) [OF h'(2)] el es_finite [OF assms(1), of n h']
      by (simp add: card_Diff_subset)
  qed
  then show ?thesis using start h'(1,2) el by (auto simp: set_erase_if_def)
qed

text \<open>Comparison: by size, then by the first enumerator that only one of the sets has.\<close>

lemma less_loop_eq:
  assumes legal and n: "n = length vals" and "bitset_ok n (es_bits a)" "bitset_ok n (es_bits b)"
  shows "set_less_loop n position a b vs =
    Inr (lexicographical_compare (<) (map (\<lambda>v. v \<in> es_elems n position a) vs) (map (\<lambda>v. v \<in> es_elems n position b) vs))"
  by (induction vs) (auto simp: contains_eq [OF assms(1,2,3)] contains_eq [OF assms(1,2,4)])

lemma less_eq':
  assumes legal and n: "n = length vals" and "es_ok n position a" "es_ok n position b"
  shows "set_less n position vals a b = Inr (card (es_elems n position a) < card (es_elems n position b) \<or>
    card (es_elems n position a) = card (es_elems n position b) \<and>
      ord_class.lexordp (map (\<lambda>v. v \<in> es_elems n position a) vals) (map (\<lambda>v. v \<in> es_elems n position b) vals))"
proof -
  have lex: "lexicographical_compare (<) xs ys = ord_class.lexordp xs ys" for xs ys :: "bool list"
    by (induction "(<) :: bool \<Rightarrow> bool \<Rightarrow> bool" xs ys rule: lexicographical_compare.induct) auto
  show ?thesis
    using less_loop_eq [OF assms(1,2) es_okD(1) [OF assms(3)] es_okD(1) [OF assms(4)], of vals]
      es_okD(2) [OF assms(3)] es_okD(2) [OF assms(4)] by (auto simp: set_less_def lex)
qed

end

section \<open>Properties\<close>

text \<open>The indexings a container can have.\<close>

definition container_index :: "EnumDef \<Rightarrow> enum_subtype \<Rightarrow> (int \<Rightarrow> nat option) \<Rightarrow> int list \<Rightarrow> bool" where
  "container_index e S ix vals \<longleftrightarrow> ix = enum_index e S \<and> vals = values_v e S \<or>
     (\<exists>cmp. ix = sorted_at cmp e S \<and> vals = sorted_values cmp e S)"

lemma container_indexing:
  assumes ok: "enum_ok e S" and ix: "container_index e S ix vals"
  shows "indexing True ix vals" "set vals = set (values_v e S)" "length vals = count_v e S"
  using ix index_of_Some [OF ok] sorted_at_Some [OF ok] sorted_same
  by (auto simp: container_index_def indexing_def count_v_def)

lemma fresh_ok:
  "es_ok n ix (set_new n)" "es_elems n ix (set_new n) = {}"
  "es_ok n ix (set_clear n h)" "es_elems n ix (set_clear n h) = {}"
proof -
  show none: "es_elems n ix (set_new n) = {}" "es_elems n ix (set_clear n h) = {}"
    by (simp_all add: es_elems_def elems_def set_new_def set_clear_def bitset_reset_all_def new_ok)
  show "es_ok n ix (set_new n)" "es_ok n ix (set_clear n h)"
    unfolding es_ok_def none by (simp_all add: set_new_def set_clear_def bitset_reset_all_def new_ok)
qed

text \<open>
  C39. For an enumeration with at least one enumerator, a set of enumerators is a set and knows its
  size: the invariant, that the size is the number of
  bits, holds after every insertion and removal. Inserting an enumerator adds it, says whether it was
  new and yields the iterator at it; erasing removes it and counts it; look-up is membership. A number
  that is no enumerator is not inserted and not found, but erasing it fails the assertion.
\<close>

theorem set_refines_set:
  assumes ok: "enum_ok e S" and ix: "container_index e S ix vals" and n: "n = count_v e S" and h: "es_ok n ix h" and n0: "0 < n"
  shows "es_ok n ix (set_new n) \<and> es_elems n ix (set_new n) = {} \<and>
    es_ok n ix (set_clear n h) \<and> es_elems n ix (set_clear n h) = {} \<and>
    (if v \<in> set (values_v e S)
     then (\<exists>h'. set_insert n ix vals h v = Inr (h', the (ix v), v \<notin> es_elems n ix h) \<and> es_ok n ix h' \<and>
         es_elems n ix h' = insert v (es_elems n ix h)) \<and>
       (\<exists>h'. set_erase n ix h v = Inr (h', of_bool (v \<in> es_elems n ix h)) \<and> es_ok n ix h' \<and>
         es_elems n ix h' = es_elems n ix h - {v})
     else set_insert n ix vals h v = Inr (h, n, False) \<and> set_erase n ix h v = Inl AssertionFailed) \<and>
    set_contains n ix h v = Inr (v \<in> es_elems n ix h) \<and>
    set_find n ix vals h v = Inr (if v \<in> es_elems n ix h then the (ix v) else n) \<and>
    (set_empty h \<longleftrightarrow> es_elems n ix h = {})"
proof -
  note I = container_indexing(1) [OF ok ix] and vals = container_indexing(2) [OF ok ix]
  have len: "n = length vals" using container_indexing(3) [OF ok ix] n by simp
  note bits = indexing.es_okD(1) [OF I h]
  have absent: "set_insert n ix vals h v = Inr (h, n, False) \<and> set_erase n ix h v = Inl AssertionFailed" if "v \<notin> set (values_v e S)"
  proof -
    have "ix v = None" using indexing.position_None [OF I TrueI, of v] vals that by simp
    then show ?thesis
      using indexing.end_eq [OF I TrueI len bits n0] by (simp add: set_insert_def set_erase_def bitset_index_def)
  qed
  have "es_size h = 0 \<longleftrightarrow> es_elems n ix h = {}"
    using indexing.es_okD(2) [OF I h] indexing.es_finite [OF I TrueI, of n h] by simp
  then show ?thesis
    using fresh_ok absent indexing.insert_eq [OF I TrueI len h, of v] indexing.erase_eq [OF I TrueI len h, of v]
      indexing.contains_eq [OF I TrueI len bits, of v] indexing.find_eq' [OF I TrueI len bits n0, of v]
    unfolding vals set_empty_def by presburger
qed

text \<open>A set with one element.\<close>

lemma lamp_index: "container_index lamp common_enum (enum_index lamp common_enum) [1, 3]"
  by (simp add: container_index_def lamp_values)

definition lamp_set :: EnumSet where
  "lamp_set = \<lparr>es_bits = [2], es_size = 1\<rparr>"

lemma lamp_set_positions: "positions 2 (es_bits lamp_set) = {1}"
  by (auto simp: positions_def get_bit_def bits_per_base_def lamp_set_def less_Suc_eq numeral_2_eq_2)

lemma lamp_set_elems: "es_elems 2 (enum_index lamp common_enum) lamp_set = {3}"
  using indexing.elems_image [OF container_indexing(1) [OF lamp_ok lamp_index] TrueI, of 2 "es_bits lamp_set"]
  by (simp add: es_elems_def lamp_set_positions)

lemma lamp_set_ok: "es_ok 2 (enum_index lamp common_enum) lamp_set"
proof -
  have "\<not> get_bit 2 [2] i" if "2 \<le> i" "i < 8" for i
  proof -
    have "i mod 8 = i" "i div 8 = 0" using that by simp_all
    moreover have "bit (2 :: int) i \<longleftrightarrow> i = 1" using bit_power [of 1 i] by simp
    ultimately show ?thesis using that by (simp add: get_bit_iff bits_per_base_def)
  qed
  then have "bitset_ok 2 [2]" by (auto simp: bitset_ok_def bits_per_base_def base_type_count_def)
  then show ?thesis unfolding es_ok_def lamp_set_elems by (simp add: lamp_set_def)
qed

theorem set_refines_set_witness:
  "\<exists>h'. set_insert 2 (enum_index lamp common_enum) [1, 3] lamp_set 1 = Inr (h', 0, True) \<and>
    es_elems 2 (enum_index lamp common_enum) h' = {1, 3}"
  using set_refines_set [OF lamp_ok lamp_index _ lamp_set_ok, of 1]
  by (auto simp: count_v_def lamp_values lamp_set_elems enum_index_eq [OF lamp_ok] index_of_def)

text \<open>
  \<open>erase_if\<close> removes exactly the elements that satisfy the predicate and returns their number.
\<close>

theorem set_erase_if_exact:
  assumes ok: "enum_ok e S" and ix: "container_index e S ix vals" and n: "n = count_v e S" and h: "es_ok n ix h" and n0: "0 < n"
  shows "\<exists>h'. set_erase_if n ix vals pred h = Inr (h', card {v \<in> es_elems n ix h. pred v}) \<and> es_ok n ix h' \<and>
    es_elems n ix h' = {v \<in> es_elems n ix h. \<not> pred v}"
  using indexing.erase_if_eq [OF container_indexing(1) [OF ok ix] TrueI _ h n0] container_indexing(3) [OF ok ix] n by simp

theorem set_erase_if_exact_witness:
  "\<exists>h'. set_erase_if 2 (enum_index lamp common_enum) [1, 3] (\<lambda>v. v > 2) lamp_set = Inr (h', 1) \<and>
    es_elems 2 (enum_index lamp common_enum) h' = {}"
proof -
  have "{v \<in> es_elems 2 (enum_index lamp common_enum) lamp_set. v > 2} = {3}" by (auto simp: lamp_set_elems)
  then show ?thesis
    using set_erase_if_exact [OF lamp_ok lamp_index _ lamp_set_ok, of "\<lambda>v. v > 2"] by (auto simp: count_v_def lamp_values lamp_set_elems)
qed

text \<open>
  Erasing a range of iterators removes the elements from the first to the one before the last
  and returns the last, unless the range is empty: then the loop, which erases before it compares,
  runs past the end of the array.
\<close>

theorem set_erase_range_exact:
  assumes ok: "enum_ok e S" and ix: "container_index e S ix vals" and n: "n = count_v e S" and h: "es_ok n ix h"
    and i: "i = n \<or> i \<in> positions n (es_bits h)" and stop: "stop = n \<or> stop \<in> positions n (es_bits h)" "i \<le> stop"
  shows "if i = stop then set_erase_between n ix vals h i stop = Inl UndefinedBehaviour
    else \<exists>h'. set_erase_between n ix vals h i stop = Inr (h', stop) \<and> es_ok n ix h' \<and>
      positions n (es_bits h') = positions n (es_bits h) - {i..<stop}"
proof -
  note I = container_indexing(1) [OF ok ix]
  have len: "n = length vals" using container_indexing(3) [OF ok ix] n by simp
  have bound: "i \<le> n" "stop \<le> n" using i stop(1) by (auto dest: positionsD)
  show ?thesis
  proof (cases "i = stop")
    case True
    then show ?thesis using indexing.erase_between_same [OF I TrueI len h bound(1)] by simp
  next
    case False
    then have "i < stop" "i \<in> positions n (es_bits h)" using i stop(2) bound by auto
    then show ?thesis using indexing.erase_between_eq [OF I TrueI len h _ stop(1)] False by simp
  qed
qed

theorem set_erase_range_exact_witness:
  "set_erase_between 2 (enum_index lamp common_enum) [1, 3] lamp_set 1 1 = Inl UndefinedBehaviour \<and>
   (\<exists>h'. set_erase_between 2 (enum_index lamp common_enum) [1, 3] lamp_set 1 2 = Inr (h', 2))"
  using set_erase_range_exact [OF lamp_ok lamp_index _ lamp_set_ok, of 1 1]
    set_erase_range_exact [OF lamp_ok lamp_index _ lamp_set_ok, of 1 2]
  by (auto simp: count_v_def lamp_values lamp_set_positions)

text \<open>
  C40. \<open>lower_bound\<close> and \<open>upper_bound\<close> of an enumerator yield the first element at or after it and
  the first after it, when the enumerator is in the set or is not the first of all. For the first
  enumerator, when it is not in the set, the iterator has already moved to the first element when
  both move on from it, so both skip that element; in an empty set they move past the end.
\<close>

theorem set_bounds_exact:
  assumes ok: "enum_ok e S" and ix: "container_index e S ix vals" and n: "n = count_v e S" and h: "es_ok n ix h" and i: "i < n"
  shows "if i \<in> positions n (es_bits h) \<or> i \<noteq> 0
    then set_lower_bound n ix vals h (vals ! i) = Inr (first_from n (es_bits h) i) \<and>
      set_upper_bound n ix vals h (vals ! i) = Inr (first_from n (es_bits h) (i + 1))
    else set_lower_bound n ix vals h (vals ! i) = set_upper_bound n ix vals h (vals ! i) \<and>
      set_lower_bound n ix vals h (vals ! i) = (if es_elems n ix h = {} then Inl UndefinedBehaviour
        else Inr (first_from n (es_bits h) (first_from n (es_bits h) 0 + 1)))"
proof -
  note I = container_indexing(1) [OF ok ix]
  have len: "n = length vals" using container_indexing(3) [OF ok ix] n by simp
  note bits = indexing.es_okD(1) [OF I h]
  note bnd = indexing.bounds_eq [OF I TrueI len bits i]
  note nxt = indexing.iter_next_eq [OF I TrueI len bits]
  show ?thesis
  proof (cases "i \<in> positions n (es_bits h) \<or> i \<noteq> 0")
    case True
    then have "(if i = 0 then first_from n (es_bits h) 0 else i) = i" using i by (auto simp: first_from_step)
    then show ?thesis using bnd nxt [OF i] True i by (auto simp: first_from_step)
  next
    case False
    let ?f = "first_from n (es_bits h) 0"
    have f: "?f \<le> n" "?f < n \<Longrightarrow> ?f \<in> positions n (es_bits h)" "\<And>j. j < ?f \<Longrightarrow> j \<notin> positions n (es_bits h)"
      using first_from_spec [of 0 n "es_bits h"] by auto
    have "positions n (es_bits h) = {} \<longleftrightarrow> ?f = n"
    proof
      assume "positions n (es_bits h) = {}"
      then show "?f = n" using f(1,2) by (cases "?f < n") auto
    next
      assume "?f = n"
      then have "j \<notin> positions n (es_bits h)" for j using f(3) [of j] positionsD [of j n "es_bits h"] by auto
      then show "positions n (es_bits h) = {}" by auto
    qed
    then have none: "es_elems n ix h = {} \<longleftrightarrow> ?f = n"
      using indexing.elems_image [OF I TrueI len, of "es_bits h"] by (simp add: es_elems_def)
    then show ?thesis
      using bnd False nxt [of ?f] f(1) indexing.iter_next_past [OF I TrueI len, of "es_bits h"] by (auto simp: order_le_less)
  qed
qed

theorem set_bounds_exact_witness:
  "set_lower_bound 2 (enum_index lamp common_enum) [1, 3] lamp_set 3 = Inr 1 \<and>
   set_lower_bound 2 (enum_index lamp common_enum) [1, 3] lamp_set 1 = Inr 2"
  using set_bounds_exact [OF lamp_ok lamp_index _ lamp_set_ok, of 0] set_bounds_exact [OF lamp_ok lamp_index _ lamp_set_ok, of 1]
  by (auto simp: count_v_def lamp_values lamp_set_positions lamp_set_elems first_from_def upt_rec)

text \<open>
  The comparison of sets is a strict total order: no set is less than itself, of two sets with
  different elements one is less than the other, and the relation is transitive.
\<close>

theorem set_less_order:
  assumes ok: "enum_ok e S" and ix: "container_index e S ix vals" and n: "n = count_v e S"
    and a: "es_ok n ix a" and b: "es_ok n ix b" and c: "es_ok n ix c"
  shows "set_less n ix vals a a = Inr False \<and>
    (es_elems n ix a \<noteq> es_elems n ix b \<longrightarrow> set_less n ix vals a b = Inr True \<or> set_less n ix vals b a = Inr True) \<and>
    (set_less n ix vals a b = Inr True \<longrightarrow> set_less n ix vals b c = Inr True \<longrightarrow> set_less n ix vals a c = Inr True)"
proof -
  note I = container_indexing(1) [OF ok ix]
  have len: "n = length vals" using container_indexing(3) [OF ok ix] n by simp
  note less = indexing.less_eq' [OF I TrueI len]
  let ?m = "\<lambda>x. map (\<lambda>v. v \<in> es_elems n ix x) vals"
  have sub: "es_elems n ix x \<subseteq> set vals" for x using indexing.elems_vals [OF I TrueI] by (simp add: es_elems_def)
  have inj: "es_elems n ix x = es_elems n ix y" if "?m x = ?m y" for x y
    using that sub [of x] sub [of y] by auto
  show ?thesis
    using less [OF a a] less [OF a b] less [OF b a] less [OF b c] less [OF a c] lexordp_linear [of "?m a" "?m b"] inj [of a b]
      lexordp_irreflexive' [of "?m a"] lexordp_trans [of "?m a" "?m b" "?m c"]
    by auto
qed

theorem set_less_order_witness:
  "set_less 2 (enum_index lamp common_enum) [1, 3] (set_new 2) lamp_set = Inr True \<or>
   set_less 2 (enum_index lamp common_enum) [1, 3] lamp_set (set_new 2) = Inr True"
  using set_less_order [OF lamp_ok lamp_index _ fresh_ok(1) lamp_set_ok lamp_set_ok]
  by (simp add: count_v_def lamp_values lamp_set_elems fresh_ok(2))

end
