(* ===== verification/Spec2Isabelle.thy ===== *)
theory Spec2Isabelle
  imports Cluster Liveness Startup Monitor SocketOptions Poller MagicHash EnumSet
begin

text \<open>
  Distributed dispatch of arithmetic tasks.

  The program computes arithmetic expressions over named lists and numbers on a set of worker
  processes. A client (\<open>client/src\<close>) sends an expression in JSON to the manager
  (\<open>manager/src\<close>). The manager reads it into a tree, turns the tree into a graph of tasks in
  which equal subexpressions are one task, and sends every task whose operands are known to the
  broker (\<open>broker/src\<close>) over ZeroMQ. The broker knows how many free cores each worker has; it
  publishes a task for a worker with a free core and queues it otherwise. A worker
  (\<open>worker/src\<close>) takes the tasks published for it, computes each in a thread of its pool from
  operands it reads in the database (\<open>database\<close>), stores the result there and answers. The
  answers travel back over the broker; when the last task of a problem is answered, the manager
  wakes the waiting caller, which reads the result, removes the intermediate results and replies.

  \<^bold>\<open>Theories and sources.\<close>
  \<^item> \<open>Prelude\<close>: the failures of C++ executions (\<open>cpp_error\<close>), results \<open>'a res\<close> with
    \<open>bindE\<close>, \<open>foldE\<close> and \<open>mapE\<close>, \<open>int\<close> arithmetic with overflow as undefined behaviour,
    hash maps as association lists, queues with the interface \<open>fifo\<close>. \<open>Digits\<close>: numbers as text.
  \<^item> \<open>Domain\<close> (\<open>common/domain\<close>): values, operation codes and the operations on lists and scalars.
  \<^item> \<open>Expression\<close> (\<open>manager/src/decomposition/expression.*\<close>, \<open>ast.*\<close>,
    \<open>expression_visitors.*\<close>): the class hierarchy as a datatype whose operand pointers may be
    null, JSON reading, equality, traversal, with the interface \<open>expr_visitor\<close>.
  \<^item> \<open>Dag\<close> (\<open>dag.h\<close>, \<open>dag_visitor.*\<close>) and \<open>Decomposition\<close> (\<open>decomposition.*\<close>): the graph
    of tasks and the queries on it, with the interface \<open>task_source\<close>.
  \<^item> \<open>Calculation\<close> (\<open>CalculateTaskImpl\<close> of \<open>worker/src/worker-impl/thread_pool.cpp\<close>): one
    task, the meaning \<open>eval\<close> of an expression, and typing.
  \<^item> \<open>Messages\<close> (\<open>proto\<close>, \<open>common/communiation/read_message.h\<close>): the messages as records.
  \<^item> \<open>Database\<close> (\<open>database/database-server\<close>, \<open>database/database-client\<close>): the handlers over
    the two tables and the client, with the interface \<open>record_store\<close>.
  \<^item> \<open>Dispatch\<close> (\<open>manager/src/dispatch\<close>): the dispatcher and its connection to the broker.
  \<^item> \<open>Broker\<close> (\<open>broker/src/broker-impl\<close>), \<open>Worker\<close> (\<open>worker/src/worker-impl\<close>): their loops
    and handlers.
  \<^item> \<open>System\<close>: manager, workers and database together, with the broker replaced by what it
    guarantees. \<open>Liveness\<close>: how a problem of that system comes to its end, with the interface
    \<open>convergence\<close> of steps that lower a rank. \<open>Cluster\<close>: all processes and the network between them, with the interface
    \<open>carrier\<close> of the processes in the middle.
  \<^item> \<open>LogFormat\<close> (\<open>common/log_format/log_format.h\<close>), \<open>Client\<close> (\<open>client/src\<close> and the service
    of \<open>manager/src/grpc-server\<close>), \<open>Startup\<close> (the factories, constructors and \<open>RunServer\<close>
    functions of all processes).
  \<^item> \<open>ZmqMessage\<close> (\<open>lib/cppzmq/zmq.hpp\<close>) and \<open>Multipart\<close> (\<open>lib/cppzmq/zmq_addon.hpp\<close>): the
    binding of ZeroMQ through which the processes talk, over the C library, with the interface
    \<open>framing\<close>.
  \<^item> The rest of the binding: \<open>Sockets\<close> (contexts and sockets as owners of what the C library
    opens, with the interface \<open>owner\<close>), \<open>SocketOptions\<close> (the table of options, and setting and
    reading them), \<open>Monitor\<close> (\<open>monitor_t\<close>) and \<open>Poller\<close> (\<open>poller_t\<close> and \<open>active_poller_t\<close>, with
    the interface \<open>registry\<close>).
  \<^item> The reflection library \<open>lib/magic_enum\<close>, by which logs and printer name operations:
    \<open>MagicEnum\<close> (names, the tables of values and the look-ups in them), \<open>MagicHash\<close> (the same
    look-ups through a switch over hashes), \<open>MagicFlags\<close>, \<open>MagicText\<close> (streams, formatting,
    neighbours, switch, fuse, and the names the program uses), \<open>EnumIndexing\<close> (orders of
    enumerators with the interface \<open>indexing\<close>, arrays, searches), \<open>EnumBitset\<close> and \<open>EnumSet\<close> (the
    containers). An enumeration is a value of \<open>EnumDef\<close>; what the library computes while it
    compiles is a function of it.

  \<^bold>\<open>State and steps.\<close> A class is a record, a method a function from the record to its result
  and the new record; an exception, a failed assertion or undefined behaviour is a value of
  \<open>cpp_error\<close>. The endless loops of broker, worker and dispatcher are modelled one turn at a time
  (\<open>Broker_Run_turn\<close>, \<open>Worker_Run_turn\<close>, \<open>RunDispatcher_turn\<close>), and what happens over time is
  an inductive relation: \<open>broker_run\<close>, \<open>worker_run\<close> (the loop and the threads of a pool, which
  interleave at their critical sections, among other clients that change and clear the database at
  any time), \<open>dispatcher_run\<close> (the dispatcher thread and the
  threads of the service, which interleave at the mutex), \<open>system_run\<close>, \<open>own_step\<close> (the steps
  of \<open>system_run\<close> but for new and finished problems) and \<open>cluster_run\<close>. A handler that waits is split at its wait. Sockets are the lists of messages that wait or were sent.

  \<^bold>\<open>What is shown.\<close>
  \<^item> The whole: a woken caller gets the value of its expression, and no record of the database is
    ever wrong, whatever the processes and the network do (\<open>Cluster\<close>, \<open>System\<close>). The broker is
    transparent: the cluster refines the system without it. From every state of a run in which
    no answer for a closed problem is on its way, an open problem that has a value can be brought
    to its end (\<open>Liveness\<close>; the broker can lose tasks and answer twice, so of the cluster this is
    not shown). This rests on the invariants of \<open>Dispatch\<close> (requests are right, sent
    once, after their dependencies; no problem gets stuck), of \<open>Broker\<close> (cores are accounted
    for, answers are passed on in order) and of \<open>Worker\<close> (no task is lost, answers follow
    results), on the laws of the database, and on \<open>task_computes_node\<close>, which relates the
    computation of a task to \<open>eval\<close>.
  \<^item> The decomposition: equal subexpressions become one task, the graph is acyclic and its edges
    are the operands, and the queries on it are exact.
  \<^item> The operations on lists and scalars, with their exact conditions of definedness, and type
    soundness of \<open>CalculateTaskImpl\<close> and of evaluation. \<open>std::reduce\<close> is read as the standard
    has it: \<open>std_reduce\<close> has a value only if no order and bracketing of the elements overflows.
  \<^item> Errors: which requests, answers and messages make a handler throw or end a process, and what
    is never answered (\<open>single_variable_never_woken\<close>).
  \<^item> Bounds: numbers that travel as 32 bits, the announced number of cores, buffers.
  \<^item> Messages: packing and unpacking, sending and receiving of several parts.
  \<^item> Resources: what contexts, sockets and pollers hold is what is open and registered in the C
    library; handlers are called only while they exist; events are reported as they were sent.
  \<^item> Reflection: the names the program relies on are what the library computes from the text of
    the compiler; every look-up is a search in the table; enumerators and non-empty sets of
    flags written to a stream are read back (other numbers are not); the containers are sets, and
    where they are not (\<open>bitset_all_exact\<close>, \<open>set_bounds_exact\<close>).

  \<^bold>\<open>Parameters.\<close> Code outside the repository is an argument of the definitions that use it, and
  what is relied on is a named predicate: the JSON parser; the topological sort
  (\<open>topological_sort_ok\<close>); the order in which a hash map is iterated (\<open>iteration_ok\<close>); the
  protobuf serialisers (\<open>wire_ok\<close>, \<open>field_codec_ok\<close>); the gRPC stubs (\<open>db_served\<close>); the file
  system, the environment and whether an endpoint can be used; the C library of ZeroMQ
  (\<open>messages_ok\<close>, \<open>channel_ok\<close>, \<open>recv_inside\<close>, \<open>contexts_ok\<close>, \<open>sockets_ok\<close>, \<open>option_value\<close>,
  \<open>poller_ok\<close>), the allocation of memory (\<open>alloc_ok\<close>), and the text GCC writes for a function with
  an enumerator as template argument (\<open>reflects\<close>). Each is instantiated concretely where a
  theorem is applied to an example.

  \<^bold>\<open>Bounds and termination.\<close> All functions are total except the loops that read parts from a
  socket and the one that terminates a context, which are partial functions into \<open>option\<close>, shown
  to return when the peer ends its message, and when the call is not interrupted for ever
  (\<open>context_close_result\<close>, which also says when the program aborts instead). The theorems on runs assume
  fewer than \<open>2 ^ 64\<close> problems, those of \<open>System\<close> and \<open>Cluster\<close> at most \<open>2 ^ 32\<close> problems and tasks, beyond which the numbers collide (\<open>request_id_roundtrip\<close>).

  \<^bold>\<open>Not modelled.\<close> gRPC, SQLite, protobuf, spdlog and Boost beyond what is said above; memory and
  the lifetime of objects; the data race on \<open>problem_id_to_sync_data_\<close> in
  \<open>Dispatcher::CalculateProblem\<close> (the wait is modelled as reading the flag in one step);
  that a send on the socket between broker and manager may wait for room (a turn of the broker is
  modelled as of the moment at which its send is done; it sends at most one frame there); that
  other processes use the database between the reads and the write of one computed task, and
  between the read and the clear of a finished problem (each is one step);
  that messages are delivered in order and once, which the network of \<open>Cluster\<close> does not promise
  and nothing shown of it needs. Of the ZeroMQ binding, the enumerations of
  socket types and context options, overloads that only forward their arguments, and the branches
  for old versions of the C library; a handler that waits on the poller that calls it, which would
  overwrite the events being walked (handlers that change the poller or throw are modelled). Of
  \<open>lib/magic_enum\<close>, the branches for other compilers than GCC, traits that only choose types, the overloads for transparent keys, and the constructor of a
  bitset from names, which does not compile. Build files, containers and sample data.
\<close>

end
